(* ===== verification/Velox_Prelude.thy ===== *)
theory Velox_Prelude
  imports Main "HOL-Library.Word"
begin

text \<open>
  Shared vocabulary of the development: the error values that stand for the exceptions and the
  undefined behaviour of the C++ code, the 64-bit integers, and the parts of the C++ standard
  library that the components use (\<open>std::lower_bound\<close>, \<open>std::max\<close>, filtering loops).
\<close>

named_theorems res_simps \<open>evaluation of computations that may fail\<close>

section \<open>Failing computations\<close>

text \<open>
  \<open>Unreachable\<close> is \<open>VELOX_UNREACHABLE()\<close>, \<open>Unsupported\<close> is \<open>VELOX_UNSUPPORTED(..)\<close>,
  \<open>CheckFailed\<close> is a failing \<open>VELOX_CHECK\<close>. The other values stand for behaviour that the C++
  standard leaves undefined: \<open>SignedOverflow\<close> for the overflow of a signed addition or
  subtraction, \<open>OutOfRange\<close> for reading past the end of a vector, \<open>BadCast\<close> for a
  \<open>static_cast\<close> to a class the object is not an instance of, \<open>NullDeref\<close> for reading through a
  null pointer or an empty \<open>std::optional\<close>, \<open>BadShift\<close> for a shift by the width of the shifted
  type or more. \<open>LengthError\<close>, \<open>InvalidArgument\<close>, \<open>OutOfRangeError\<close> and \<open>RuntimeError\<close> are the exceptions
  \<open>std::length_error\<close> (a vector that is resized beyond its maximal size), \<open>std::invalid_argument\<close>,
  \<open>std::out_of_range\<close> and \<open>std::runtime_error\<close>, \<open>ProcessExit\<close> is a call of \<open>exit\<close>, \<open>StackExhausted\<close> is a
  recursion that is deeper than the bound a model gives it, and \<open>Diverges\<close> is a loop that does not end.
\<close>

datatype velox_error =
  Unreachable | Unsupported | CheckFailed | SignedOverflow | OutOfRange | BadCast |
  NullDeref | BadShift | LengthError | InvalidArgument | OutOfRangeError | RuntimeError | ProcessExit |
  StackExhausted | Diverges

type_synonym 'a res = "velox_error + 'a"

fun rbind :: "'a res \<Rightarrow> ('a \<Rightarrow> 'b res) \<Rightarrow> 'b res" where
  "rbind (Inl e) f = Inl e"
| "rbind (Inr a) f = f a"

definition check :: "bool \<Rightarrow> 'a res \<Rightarrow> 'a res" where
  "check b r = (if b then r else Inl CheckFailed)"

text \<open>Reading through an \<open>std::optional\<close>.\<close>

fun deref :: "'a option \<Rightarrow> 'a res" where
  "deref None = Inl NullDeref"
| "deref (Some a) = Inr a"

lemma rbind_eq_Inr [simp]: "rbind m f = Inr b \<longleftrightarrow> (\<exists>a. m = Inr a \<and> f a = Inr b)"
  by (cases m) auto

lemma rbind_assoc: "rbind (rbind m f) g = rbind m (\<lambda>x. rbind (f x) g)"
  by (cases m) auto

lemma rbind_cong [fundef_cong]:
  "m = m' \<Longrightarrow> (\<And>a. m' = Inr a \<Longrightarrow> f a = f' a) \<Longrightarrow> rbind m f = rbind m' f'"
  by (cases m') auto

lemma check_eq_Inr [simp]: "check b r = Inr a \<longleftrightarrow> b \<and> r = Inr a"
  by (simp add: check_def)

lemma check_True [simp]: "check True r = r"
  by (simp add: check_def)

text \<open>A loop that pushes the elements passing a test that may itself fail.\<close>

fun rfilter :: "('a \<Rightarrow> bool res) \<Rightarrow> 'a list \<Rightarrow> 'a list res" where
  "rfilter p [] = Inr []"
| "rfilter p (x # xs) =
     rbind (p x) (\<lambda>b. rbind (rfilter p xs) (\<lambda>ys. Inr (if b then x # ys else ys)))"

lemma rfilter_total:
  "(\<And>x. x \<in> set xs \<Longrightarrow> p x = Inr (q x)) \<Longrightarrow> rfilter p xs = Inr (filter q xs)"
  by (induction xs) auto

text \<open>A loop that transforms every element with a step that may fail.\<close>

fun rmap :: "('a \<Rightarrow> 'b res) \<Rightarrow> 'a list \<Rightarrow> 'b list res" where
  "rmap f [] = Inr []"
| "rmap f (x # xs) = rbind (f x) (\<lambda>y. rbind (rmap f xs) (\<lambda>ys. Inr (y # ys)))"

lemma rmap_total:
  "(\<And>x. x \<in> set xs \<Longrightarrow> f x = Inr (g x)) \<Longrightarrow> rmap f xs = Inr (map g xs)"
  by (induction xs) auto

text \<open>A loop that returns true at the first element passing the test, and false at the end.\<close>

fun rany :: "('a \<Rightarrow> bool res) \<Rightarrow> 'a list \<Rightarrow> bool res" where
  "rany p [] = Inr False"
| "rany p (x # xs) = rbind (p x) (\<lambda>b. if b then Inr True else rany p xs)"

lemma rany_cong [fundef_cong]:
  "xs = ys \<Longrightarrow> (\<And>x. x \<in> set ys \<Longrightarrow> p x = q x) \<Longrightarrow> rany p xs = rany q ys"
  by (induction ys arbitrary: xs) (auto intro: rbind_cong)

lemma rany_total:
  "(\<And>x. x \<in> set xs \<Longrightarrow> p x = Inr (q x)) \<Longrightarrow> rany p xs = Inr (\<exists>x \<in> set xs. q x)"
  by (induction xs) auto

lemma rany_map: "rany p (map f xs) = rany (\<lambda>x. p (f x)) xs"
  by (induction xs) (auto intro: rbind_cong)

lemma rmap_cong [fundef_cong]:
  "xs = ys \<Longrightarrow> (\<And>x. x \<in> set ys \<Longrightarrow> f x = g x) \<Longrightarrow> rmap f xs = rmap g ys"
  by (induction ys arbitrary: xs) (auto intro: rbind_cong)

section \<open>Machine integers\<close>

text \<open>
  An \<open>int64_t\<close> is an \<^typ>\<open>int\<close> between the two limits. Additions and subtractions that could
  leave the range go through \<open>i64_add\<close> and \<open>i64_sub\<close>, whose error branch is signed overflow.
\<close>

abbreviation INT64_MIN :: int where "INT64_MIN \<equiv> - 9223372036854775808"
abbreviation INT64_MAX :: int where "INT64_MAX \<equiv> 9223372036854775807"
abbreviation INT32_MIN :: int where "INT32_MIN \<equiv> - 2147483648"
abbreviation INT32_MAX :: int where "INT32_MAX \<equiv> 2147483647"
abbreviation INT16_MIN :: int where "INT16_MIN \<equiv> - 32768"
abbreviation INT16_MAX :: int where "INT16_MAX \<equiv> 32767"

definition i64 :: "int \<Rightarrow> bool" where
  "i64 x \<longleftrightarrow> INT64_MIN \<le> x \<and> x \<le> INT64_MAX"

definition i64_res :: "int \<Rightarrow> int res" where
  "i64_res x = (if i64 x then Inr x else Inl SignedOverflow)"

definition i64_add :: "int \<Rightarrow> int \<Rightarrow> int res" where
  "i64_add a b = i64_res (a + b)"

definition i64_sub :: "int \<Rightarrow> int \<Rightarrow> int res" where
  "i64_sub a b = i64_res (a - b)"

definition i32 :: "int \<Rightarrow> bool" where
  "i32 x \<longleftrightarrow> INT32_MIN \<le> x \<and> x \<le> INT32_MAX"

definition i32_res :: "int \<Rightarrow> int res" where
  "i32_res x = (if i32 x then Inr x else Inl SignedOverflow)"

text \<open>Conversion of an \<open>int64_t\<close> to a narrower signed type keeps the low bits.\<close>

definition narrow32 :: "int \<Rightarrow> int" where
  "narrow32 x = (x + 2147483648) mod 4294967296 - 2147483648"

definition narrow16 :: "int \<Rightarrow> int" where
  "narrow16 x = (x + 32768) mod 65536 - 32768"

lemma narrow32_id [simp]: "INT32_MIN \<le> x \<Longrightarrow> x \<le> INT32_MAX \<Longrightarrow> narrow32 x = x"
  by (simp add: narrow32_def)

lemma narrow16_id [simp]: "INT16_MIN \<le> x \<Longrightarrow> x \<le> INT16_MAX \<Longrightarrow> narrow16 x = x"
  by (simp add: narrow16_def)

lemma i64_add_in [simp]: "i64 (a + b) \<Longrightarrow> i64_add a b = Inr (a + b)"
  by (simp add: i64_add_def i64_res_def)

lemma i64_sub_in [simp]: "i64 (a - b) \<Longrightarrow> i64_sub a b = Inr (a - b)"
  by (simp add: i64_sub_def i64_res_def)

lemma i64_add_eq_Inr: "i64_add a b = Inr c \<longleftrightarrow> i64 (a + b) \<and> c = a + b"
  by (auto simp: i64_add_def i64_res_def)

lemma i64_sub_eq_Inr: "i64_sub a b = Inr c \<longleftrightarrow> i64 (a - b) \<and> c = a - b"
  by (auto simp: i64_sub_def i64_res_def)

lemmas i64_arith = i64_def i64_add_def i64_sub_def i64_res_def

text \<open>\<open>(uint32_t)std::log2(n)\<close>, the position of the highest set bit.\<close>

fun floor_log2 :: "nat \<Rightarrow> nat" where
  "floor_log2 n = (if n \<le> 1 then 0 else Suc (floor_log2 (n div 2)))"

declare floor_log2.simps [simp del]

lemma floor_log2_upper: "n < 2 ^ Suc (floor_log2 n)"
proof (induction n rule: floor_log2.induct)
  case (1 n)
  then show ?case by (cases "n \<le> 1") (auto simp: floor_log2.simps [of n])
qed

lemma floor_log2_lower: "0 < n \<Longrightarrow> 2 ^ floor_log2 n \<le> n"
proof (induction n rule: floor_log2.induct)
  case (1 n)
  then show ?case by (cases "n \<le> 1") (auto simp: floor_log2.simps [of n])
qed

lemma floor_log2_less: "0 < n \<Longrightarrow> n < 2 ^ k \<Longrightarrow> floor_log2 n < k"
  using floor_log2_lower [of n] by (meson le_less_trans one_less_numeral_iff power_less_imp_less_exp
      semiring_norm(76))

section \<open>Ordered vectors\<close>

text \<open>
  \<open>std::lower_bound(v.begin(), v.end(), x)\<close> as the index it returns, by its contract on a
  vector partitioned with respect to \<open>< x\<close>: the first element that is not less than \<open>x\<close>.
\<close>

definition lower_bound :: "'a::linorder list \<Rightarrow> 'a \<Rightarrow> nat" where
  "lower_bound xs x = length (takeWhile (\<lambda>y. y < x) xs)"

lemma lower_bound_le: "lower_bound xs x \<le> length xs"
  by (simp add: lower_bound_def length_takeWhile_le)

lemma lower_bound_Nil [simp]: "lower_bound [] x = 0"
  by (simp add: lower_bound_def)

lemma lower_bound_Cons [simp]:
  "lower_bound (y # ys) x = (if y < x then Suc (lower_bound ys x) else 0)"
  by (simp add: lower_bound_def)

lemma lower_bound_below: "i < lower_bound xs x \<Longrightarrow> xs ! i < x"
  unfolding lower_bound_def
  by (metis nth_mem set_takeWhileD takeWhile_nth)

lemma lower_bound_above:
  assumes "sorted xs" "lower_bound xs x \<le> i" "i < length xs"
  shows "x \<le> xs ! i"
  using assms
proof (induction xs arbitrary: i)
  case (Cons y ys)
  show ?case
  proof (cases i)
    case (Suc j)
    show ?thesis
    proof (cases "y < x")
      case False
      moreover have "y \<le> ys ! j" using Cons.prems Suc by simp
      ultimately show ?thesis using Suc by simp
    qed (use Cons Suc in auto)
  qed (use Cons in \<open>auto split: if_splits\<close>)
qed simp

lemma lower_bound_ge_iff:
  assumes "sorted xs" "i < length xs"
  shows "x \<le> xs ! i \<longleftrightarrow> lower_bound xs x \<le> i"
  using assms lower_bound_above lower_bound_below by (metis linorder_not_less)

lemma lower_bound_mem:
  assumes "sorted xs"
  shows "x \<in> set xs \<longleftrightarrow> lower_bound xs x < length xs \<and> xs ! lower_bound xs x = x"
  using assms by (induction xs) auto

lemma lower_bound_end: "lower_bound xs x = length xs \<longleftrightarrow> (\<forall>y \<in> set xs. y < x)"
  by (induction xs) auto

lemma lower_bound_take:
  assumes "sorted xs"
  shows "set (drop (lower_bound xs x) xs) = {y \<in> set xs. x \<le> y}"
  using assms by (induction xs) auto

lemma sorted_distinct_less: "sorted (x # xs) \<Longrightarrow> distinct (x # xs) \<Longrightarrow> y \<in> set xs \<Longrightarrow> x < y"
  by (metis distinct.simps(2) order_le_neq_trans sorted_simps(2))

end
