(* ===== verification/Filter_Bigint_Range.thy ===== *)
theory Filter_Bigint_Range
  imports Velox_Prelude
begin

text \<open>
  The range filters for integral columns of \<open>velox/type/Filter.h\<close> and \<open>Filter.cpp\<close>:
  \<open>BigintRange\<close> with its scalar and vectorised tests, \<open>NegatedBigintRange\<close>, \<open>HugeintRange\<close> and
  \<open>BigintMultiRange\<close>, a sequence of disjoint ranges searched by their lower bounds.
\<close>

section \<open>\<open>BigintRange\<close>\<close>

record BigintRange =
  br_lower :: int
  br_upper :: int
  br_nullAllowed :: bool

definition BigintRange_new :: "int \<Rightarrow> int \<Rightarrow> bool \<Rightarrow> BigintRange" where
  "BigintRange_new lower upper nullAllowed =
     \<lparr>br_lower = lower, br_upper = upper, br_nullAllowed = nullAllowed\<rparr>"

text \<open>The members the constructor derives from the bounds, narrowed to their declared types.\<close>

definition br_lower32 :: "BigintRange \<Rightarrow> int" where
  "br_lower32 r = narrow32 (max (br_lower r) INT32_MIN)"

definition br_upper32 :: "BigintRange \<Rightarrow> int" where
  "br_upper32 r = narrow32 (min (br_upper r) INT32_MAX)"

definition br_lower16 :: "BigintRange \<Rightarrow> int" where
  "br_lower16 r = narrow16 (max (br_lower r) INT16_MIN)"

definition br_upper16 :: "BigintRange \<Rightarrow> int" where
  "br_upper16 r = narrow16 (min (br_upper r) INT16_MAX)"

definition br_isSingleValue :: "BigintRange \<Rightarrow> bool" where
  "br_isSingleValue r \<longleftrightarrow> br_upper r = br_lower r"

definition BigintRange_testInt64 :: "BigintRange \<Rightarrow> int \<Rightarrow> bool" where
  "BigintRange_testInt64 r value \<longleftrightarrow> value \<ge> br_lower r \<and> value \<le> br_upper r"

text \<open>\<open>testValues\<close> on a batch: one verdict per lane.\<close>

definition BigintRange_testValues64 :: "BigintRange \<Rightarrow> int list \<Rightarrow> bool list" where
  "BigintRange_testValues64 r values =
     (if br_isSingleValue r then map (\<lambda>v. v = br_lower r) values
      else map (\<lambda>v. br_lower r \<le> v \<and> v \<le> br_upper r) values)"

definition BigintRange_testValues32 :: "BigintRange \<Rightarrow> int list \<Rightarrow> bool list" where
  "BigintRange_testValues32 r values =
     (if br_isSingleValue r then
        if br_lower32 r \<noteq> br_lower r then map (\<lambda>_. False) values
        else map (\<lambda>v. v = narrow32 (br_lower r)) values
      else map (\<lambda>v. br_lower32 r \<le> v \<and> v \<le> br_upper32 r) values)"

definition BigintRange_testValues16 :: "BigintRange \<Rightarrow> int list \<Rightarrow> bool list" where
  "BigintRange_testValues16 r values =
     (if br_isSingleValue r then
        if br_lower16 r \<noteq> br_lower r then map (\<lambda>_. False) values
        else map (\<lambda>v. v = narrow16 (br_lower r)) values
      else map (\<lambda>v. br_lower16 r \<le> v \<and> v \<le> br_upper16 r) values)"

definition BigintRange_testInt64Range :: "BigintRange \<Rightarrow> int \<Rightarrow> int \<Rightarrow> bool \<Rightarrow> bool" where
  "BigintRange_testInt64Range r minv maxv hasNull =
     (if hasNull \<and> br_nullAllowed r then True
      else \<not> (minv > br_upper r \<or> maxv < br_lower r))"

section \<open>\<open>NegatedBigintRange\<close>\<close>

record NegatedBigintRange =
  nbr_nonNegated :: BigintRange
  nbr_nullAllowed :: bool

definition NegatedBigintRange_new :: "int \<Rightarrow> int \<Rightarrow> bool \<Rightarrow> NegatedBigintRange" where
  "NegatedBigintRange_new lower upper nullAllowed =
     \<lparr>nbr_nonNegated = BigintRange_new lower upper (\<not> nullAllowed), nbr_nullAllowed = nullAllowed\<rparr>"

abbreviation nbr_lower :: "NegatedBigintRange \<Rightarrow> int" where
  "nbr_lower r \<equiv> br_lower (nbr_nonNegated r)"

abbreviation nbr_upper :: "NegatedBigintRange \<Rightarrow> int" where
  "nbr_upper r \<equiv> br_upper (nbr_nonNegated r)"

definition NegatedBigintRange_testInt64 :: "NegatedBigintRange \<Rightarrow> int \<Rightarrow> bool" where
  "NegatedBigintRange_testInt64 r value \<longleftrightarrow> \<not> BigintRange_testInt64 (nbr_nonNegated r) value"

definition NegatedBigintRange_testValues64 :: "NegatedBigintRange \<Rightarrow> int list \<Rightarrow> bool list" where
  "NegatedBigintRange_testValues64 r values =
     map Not (BigintRange_testValues64 (nbr_nonNegated r) values)"

definition NegatedBigintRange_testValues32 :: "NegatedBigintRange \<Rightarrow> int list \<Rightarrow> bool list" where
  "NegatedBigintRange_testValues32 r values =
     map Not (BigintRange_testValues32 (nbr_nonNegated r) values)"

definition NegatedBigintRange_testValues16 :: "NegatedBigintRange \<Rightarrow> int list \<Rightarrow> bool list" where
  "NegatedBigintRange_testValues16 r values =
     map Not (BigintRange_testValues16 (nbr_nonNegated r) values)"

definition NegatedBigintRange_testInt64Range ::
    "NegatedBigintRange \<Rightarrow> int \<Rightarrow> int \<Rightarrow> bool \<Rightarrow> bool" where
  "NegatedBigintRange_testInt64Range r minv maxv hasNull =
     (if hasNull \<and> nbr_nullAllowed r then True
      else \<not> (nbr_lower r \<le> minv \<and> maxv \<le> nbr_upper r))"

section \<open>\<open>HugeintRange\<close>\<close>

record HugeintRange =
  hr_lower :: int
  hr_upper :: int
  hr_nullAllowed :: bool

definition HugeintRange_new :: "int \<Rightarrow> int \<Rightarrow> bool \<Rightarrow> HugeintRange" where
  "HugeintRange_new lower upper nullAllowed =
     \<lparr>hr_lower = lower, hr_upper = upper, hr_nullAllowed = nullAllowed\<rparr>"

definition HugeintRange_testInt128 :: "HugeintRange \<Rightarrow> int \<Rightarrow> bool" where
  "HugeintRange_testInt128 r value \<longleftrightarrow> value \<ge> hr_lower r \<and> value \<le> hr_upper r"

definition HugeintRange_testInt128Range :: "HugeintRange \<Rightarrow> int \<Rightarrow> int \<Rightarrow> bool \<Rightarrow> bool" where
  "HugeintRange_testInt128Range r minv maxv hasNull =
     (if hasNull \<and> hr_nullAllowed r then True
      else \<not> (minv > hr_upper r \<or> maxv < hr_lower r))"

text \<open>
  \<open>HugeintValuesUsingHashTable\<close> keeps its values in a \<open>folly::F14FastSet\<close>; only membership in it
  is used.
\<close>

record HugeintValuesUsingHashTable =
  hvh_min :: int
  hvh_max :: int
  hvh_values :: "int set"
  hvh_nullAllowed :: bool

definition HugeintValuesUsingHashTable_new ::
    "int \<Rightarrow> int \<Rightarrow> int list \<Rightarrow> bool \<Rightarrow> HugeintValuesUsingHashTable res" where
  "HugeintValuesUsingHashTable_new minv maxv values nullAllowed =
     check (values \<noteq> []) (check (minv \<le> maxv)
       (Inr \<lparr>hvh_min = minv, hvh_max = maxv, hvh_values = set values,
             hvh_nullAllowed = nullAllowed\<rparr>))"

definition HugeintValuesUsingHashTable_testInt128 :: "HugeintValuesUsingHashTable \<Rightarrow> int \<Rightarrow> bool" where
  "HugeintValuesUsingHashTable_testInt128 f value \<longleftrightarrow> value \<in> hvh_values f"

text \<open>\<open>createHugeintValues\<close> dereferences \<open>std::min_element\<close> of the vector, its end when empty.\<close>

definition createHugeintValues :: "int list \<Rightarrow> bool \<Rightarrow> HugeintValuesUsingHashTable res" where
  "createHugeintValues values nullAllowed =
     (if values = [] then Inl OutOfRange
      else HugeintValuesUsingHashTable_new (fold min values (hd values)) (fold max values (hd values))
             values nullAllowed)"

section \<open>\<open>BigintMultiRange\<close>\<close>

record BigintMultiRange =
  bmr_ranges :: "BigintRange list"
  bmr_lowerBounds :: "int list"
  bmr_nullAllowed :: bool

text \<open>The loop \<open>VELOX_CHECK(lowerBounds_[i] >= ranges_[i - 1]->upper())\<close> of the constructor.\<close>

fun ranges_ordered :: "BigintRange list \<Rightarrow> bool" where
  "ranges_ordered (r # s # rs) \<longleftrightarrow> br_lower s \<ge> br_upper r \<and> ranges_ordered (s # rs)"
| "ranges_ordered _ \<longleftrightarrow> True"

definition BigintMultiRange_new :: "BigintRange list \<Rightarrow> bool \<Rightarrow> BigintMultiRange res" where
  "BigintMultiRange_new ranges nullAllowed =
     check (ranges \<noteq> []) (check (length ranges > 1) (check (ranges_ordered ranges)
       (Inr \<lparr>bmr_ranges = ranges, bmr_lowerBounds = map br_lower ranges,
             bmr_nullAllowed = nullAllowed\<rparr>)))"

definition binarySearch :: "int list \<Rightarrow> int \<Rightarrow> int" where
  "binarySearch values value =
     (let it = lower_bound values value
      in if it = length values \<or> values ! it \<noteq> value then - int it - 1 else int it)"

definition BigintMultiRange_testInt64 :: "BigintMultiRange \<Rightarrow> int \<Rightarrow> bool" where
  "BigintMultiRange_testInt64 f value =
     (let i = binarySearch (bmr_lowerBounds f) value
      in if i \<ge> 0 then True
         else let place = - i - 1
              in if place = 0 then False
                 else BigintRange_testInt64 (bmr_ranges f ! nat (place - 1)) value)"

definition BigintMultiRange_testInt64Range :: "BigintMultiRange \<Rightarrow> int \<Rightarrow> int \<Rightarrow> bool \<Rightarrow> bool" where
  "BigintMultiRange_testInt64Range f minv maxv hasNull =
     (if hasNull \<and> bmr_nullAllowed f then True
      else list_ex (\<lambda>r. BigintRange_testInt64Range r minv maxv hasNull) (bmr_ranges f))"

section \<open>The vectorised test agrees with the scalar one\<close>

definition range_inv :: "BigintRange \<Rightarrow> bool" where
  "range_inv r \<longleftrightarrow> i64 (br_lower r) \<and> i64 (br_upper r) \<and> br_lower r \<le> br_upper r"

text \<open>
  The clamped bounds keep their meaning only when the range reaches into the lanes' type: a lower
  bound above it, or an upper bound below it, is narrowed to an unrelated number.
\<close>

lemma narrow32_bounds: "INT32_MIN \<le> narrow32 x" "narrow32 x \<le> INT32_MAX"
  using pos_mod_bound [of 4294967296 "x + 2147483648"] pos_mod_sign [of 4294967296 "x + 2147483648"]
  by (simp_all add: narrow32_def)

lemma BigintRange_testValues32_beyond:
  assumes "br_lower r < br_upper r" "\<forall>v \<in> set values. INT32_MIN \<le> v \<and> v \<le> INT32_MAX"
  shows "INT32_MAX < br_lower r \<Longrightarrow> BigintRange_testValues32 r values = map (\<lambda>v. narrow32 (br_lower r) \<le> v) values"
    and "br_upper r < INT32_MIN \<Longrightarrow> BigintRange_testValues32 r values = map (\<lambda>v. v \<le> narrow32 (br_upper r)) values"
  using assms
  by (auto simp: BigintRange_testValues32_def br_isSingleValue_def br_lower32_def br_upper32_def max_def min_def)

lemma BigintRange_testValues32_lanes:
  assumes "br_isSingleValue r \<or> (br_lower r \<le> INT32_MAX \<and> INT32_MIN \<le> br_upper r)"
    and "\<forall>v \<in> set values. INT32_MIN \<le> v \<and> v \<le> INT32_MAX"
  shows "BigintRange_testValues32 r values = map (BigintRange_testInt64 r) values"
proof (cases "br_isSingleValue r")
  case True
  have "narrow32 (max (br_lower r) INT32_MIN) = br_lower r \<longleftrightarrow>
      INT32_MIN \<le> br_lower r \<and> br_lower r \<le> INT32_MAX"
  proof
    assume "narrow32 (max (br_lower r) INT32_MIN) = br_lower r"
    then show "INT32_MIN \<le> br_lower r \<and> br_lower r \<le> INT32_MAX" by (metis narrow32_bounds)
  qed simp
  then show ?thesis using True assms(2)
    by (auto simp: BigintRange_testValues32_def br_lower32_def br_isSingleValue_def
      BigintRange_testInt64_def)
next
  case False
  then show ?thesis using assms
    by (auto simp: BigintRange_testValues32_def br_lower32_def br_upper32_def
      BigintRange_testInt64_def max_def min_def)
qed

lemma BigintRange_testValues16_lanes:
  assumes "br_isSingleValue r \<or> (br_lower r \<le> INT16_MAX \<and> INT16_MIN \<le> br_upper r)"
    and "\<forall>v \<in> set values. INT16_MIN \<le> v \<and> v \<le> INT16_MAX"
  shows "BigintRange_testValues16 r values = map (BigintRange_testInt64 r) values"
proof (cases "br_isSingleValue r")
  case True
  have "narrow16 (max (br_lower r) INT16_MIN) = br_lower r \<longleftrightarrow>
      INT16_MIN \<le> br_lower r \<and> br_lower r \<le> INT16_MAX"
  proof
    assume "narrow16 (max (br_lower r) INT16_MIN) = br_lower r"
    moreover have "INT16_MIN \<le> narrow16 x \<and> narrow16 x \<le> INT16_MAX" for x
      using pos_mod_bound [of 65536 "x + 32768"] pos_mod_sign [of 65536 "x + 32768"]
      by (simp add: narrow16_def)
    ultimately show "INT16_MIN \<le> br_lower r \<and> br_lower r \<le> INT16_MAX" by metis
  qed simp
  then show ?thesis using True assms(2)
    by (auto simp: BigintRange_testValues16_def br_lower16_def br_isSingleValue_def
      BigintRange_testInt64_def)
next
  case False
  then show ?thesis using assms
    by (auto simp: BigintRange_testValues16_def br_lower16_def br_upper16_def
      BigintRange_testInt64_def max_def min_def)
qed

lemma NegatedBigintRange_testValues16_lanes:
  assumes "br_isSingleValue (nbr_nonNegated r) \<or> (nbr_lower r \<le> INT16_MAX \<and> INT16_MIN \<le> nbr_upper r)"
    and "\<forall>v \<in> set values. INT16_MIN \<le> v \<and> v \<le> INT16_MAX"
  shows "NegatedBigintRange_testValues16 r values = map (NegatedBigintRange_testInt64 r) values"
  using BigintRange_testValues16_lanes [OF assms]
  by (simp add: NegatedBigintRange_testValues16_def NegatedBigintRange_testInt64_def)

lemma NegatedBigintRange_testValues32_lanes:
  assumes "br_isSingleValue (nbr_nonNegated r) \<or> (nbr_lower r \<le> INT32_MAX \<and> INT32_MIN \<le> nbr_upper r)"
    and "\<forall>v \<in> set values. INT32_MIN \<le> v \<and> v \<le> INT32_MAX"
  shows "NegatedBigintRange_testValues32 r values = map (NegatedBigintRange_testInt64 r) values"
  using BigintRange_testValues32_lanes [OF assms]
  by (simp add: NegatedBigintRange_testValues32_def NegatedBigintRange_testInt64_def)

lemma BigintRange_testValues64_lanes:
  "BigintRange_testValues64 r values = map (BigintRange_testInt64 r) values"
  by (auto simp: BigintRange_testValues64_def br_isSingleValue_def BigintRange_testInt64_def)

lemma NegatedBigintRange_testValues64_lanes:
  "NegatedBigintRange_testValues64 r values = map (NegatedBigintRange_testInt64 r) values"
  by (simp add: NegatedBigintRange_testValues64_def BigintRange_testValues64_lanes
      NegatedBigintRange_testInt64_def)

section \<open>Searching the lower bounds finds the range that covers a value\<close>

definition disjoint_ranges :: "BigintRange list \<Rightarrow> bool" where
  "disjoint_ranges rs \<longleftrightarrow>
     (\<forall>r \<in> set rs. range_inv r) \<and> sorted_wrt (\<lambda>r s. br_upper r < br_lower s) rs"

definition multi_inv :: "BigintMultiRange \<Rightarrow> bool" where
  "multi_inv f \<longleftrightarrow> 1 < length (bmr_ranges f) \<and> disjoint_ranges (bmr_ranges f) \<and>
     bmr_lowerBounds f = map br_lower (bmr_ranges f) \<and>
     (\<forall>r \<in> set (bmr_ranges f). \<not> br_nullAllowed r)"

definition ranges_accept :: "BigintRange list \<Rightarrow> int \<Rightarrow> bool" where
  "ranges_accept rs x \<longleftrightarrow> (\<exists>r \<in> set rs. BigintRange_testInt64 r x)"

lemma ranges_accept_simps [simp]:
  "ranges_accept [] x \<longleftrightarrow> False"
  "ranges_accept (r # rs) x \<longleftrightarrow> BigintRange_testInt64 r x \<or> ranges_accept rs x"
  "ranges_accept (rs @ ss) x \<longleftrightarrow> ranges_accept rs x \<or> ranges_accept ss x"
  by (auto simp: ranges_accept_def)

lemma disjoint_ranges_simps [simp]:
  "disjoint_ranges []"
  "disjoint_ranges (r # rs) \<longleftrightarrow>
     range_inv r \<and> (\<forall>s \<in> set rs. br_upper r < br_lower s) \<and> disjoint_ranges rs"
  by (auto simp: disjoint_ranges_def)

lemma disjoint_ranges_append:
  "disjoint_ranges (rs @ ss) \<longleftrightarrow> disjoint_ranges rs \<and> disjoint_ranges ss \<and>
     (\<forall>r \<in> set rs. \<forall>s \<in> set ss. br_upper r < br_lower s)"
  by (induction rs) auto

lemma disjoint_ranges_ordered: "disjoint_ranges rs \<Longrightarrow> ranges_ordered rs"
  by (induction rs rule: ranges_ordered.induct) auto

lemma disjoint_ranges_lowers: "disjoint_ranges rs \<Longrightarrow> sorted (map br_lower rs)"
  by (induction rs) (fastforce simp: range_inv_def)+

text \<open>The search as a recursion over the ranges.\<close>

lemma ranges_search:
  assumes "disjoint_ranges rs" "k = lower_bound (map br_lower rs) x"
  shows "ranges_accept rs x \<longleftrightarrow>
    (k < length rs \<and> br_lower (rs ! k) = x) \<or> (0 < k \<and> BigintRange_testInt64 (rs ! (k - 1)) x)"
  using assms
proof (induction rs arbitrary: k)
  case (Cons r rs)
  show ?case
  proof (cases "br_lower r < x")
    case False
    have "\<not> BigintRange_testInt64 s x" if "s \<in> set rs" for s
      using that Cons.prems(1) False by (fastforce simp: range_inv_def BigintRange_testInt64_def)
    with False Cons.prems show ?thesis
      by (auto simp: BigintRange_testInt64_def range_inv_def ranges_accept_def)
  next
    case True
    let ?k = "lower_bound (map br_lower rs) x"
    from True Cons.prems have k: "k = Suc ?k" by simp
    have IH: "ranges_accept rs x \<longleftrightarrow>
      (?k < length rs \<and> br_lower (rs ! ?k) = x) \<or> (0 < ?k \<and> BigintRange_testInt64 (rs ! (?k - 1)) x)"
      using Cons by simp
    have "\<not> BigintRange_testInt64 r x" if "0 < ?k"
    proof -
      from that have "map br_lower rs ! 0 < x" by (rule lower_bound_below)
      moreover have "0 < length rs" using that lower_bound_le [of "map br_lower rs" x]
        by (simp only: length_map)
      ultimately have "br_lower (rs ! 0) < x" "rs ! 0 \<in> set rs" by simp_all
      then show ?thesis using Cons.prems(1) by (fastforce simp: BigintRange_testInt64_def)
    qed
    moreover have "\<not> BigintRange_testInt64 r x" if "?k < length rs" "br_lower (rs ! ?k) = x"
    proof -
      have "br_upper r < br_lower (rs ! ?k)"
        using Cons.prems(1) nth_mem [OF that(1)] unfolding disjoint_ranges_simps by blast
      with that(2) show ?thesis by (simp add: BigintRange_testInt64_def)
    qed
    ultimately show ?thesis
      using IH k True by (cases ?k) auto
  qed
qed simp

lemma BigintMultiRange_testInt64_iff:
  assumes "multi_inv f"
  shows "BigintMultiRange_testInt64 f x \<longleftrightarrow> ranges_accept (bmr_ranges f) x"
proof -
  let ?rs = "bmr_ranges f"
  have inv: "disjoint_ranges ?rs" "bmr_lowerBounds f = map br_lower ?rs"
    using assms by (simp_all add: multi_inv_def)
  show ?thesis
    using lower_bound_le [of "map br_lower ?rs" x]
    by (auto simp: ranges_search [OF inv(1) refl] BigintMultiRange_testInt64_def inv(2)
      binarySearch_def Let_def nat_diff_distrib')
qed

lemma BigintMultiRange_new_disjoint:
  assumes "disjoint_ranges rs" "1 < length rs" "\<forall>r \<in> set rs. \<not> br_nullAllowed r"
  shows "\<exists>f. BigintMultiRange_new rs na = Inr f \<and> multi_inv f \<and> bmr_ranges f = rs \<and>
    bmr_nullAllowed f = na"
  using assms disjoint_ranges_ordered [OF assms(1)]
  by (auto simp: BigintMultiRange_new_def multi_inv_def)

end
