(* ===== verification/Filter_Bigint_Values.thy ===== *)
theory Filter_Bigint_Values
  imports Velox_Prelude "HOL-Library.Multiset"
begin

unbundle bit_operations_syntax

text \<open>
  The IN-list filters for integral columns of \<open>velox/type/Filter.h\<close> and \<open>Filter.cpp\<close>:
  \<open>BigintValuesUsingHashTable\<close>, an open-addressing hash table probed linearly, and
  \<open>BigintValuesUsingBitmask\<close>, a bit per value of the range. Both keep the contract of the
  locale \<open>bigint_values\<close>: the filter built from a list of values accepts exactly these values.
\<close>

section \<open>Linear probing\<close>

text \<open>\<open>kEmptyMarker = 0xdeadbeefbadefeedL\<close> as an \<open>int64_t\<close>; \<open>M\<close> is the Murmur multiplier.\<close>

definition kEmptyMarker :: int where
  "kEmptyMarker = - 2401053089476968723"

definition hash_M :: "64 word" where
  "hash_M = 0xc6a4a7935bd1e995"

text \<open>\<open>(value * M) & sizeMask_\<close>: the product is computed modulo \<open>2 ^ 64\<close>.\<close>

definition hash_position :: "int \<Rightarrow> nat \<Rightarrow> nat" where
  "hash_position value sizeMask = unat ((word_of_int value * hash_M) AND word_of_nat sizeMask)"

text \<open>
  The insertion loop of the constructor and the lookup loop of \<open>testInt64\<close>. The first argument
  counts the iterations that remain, \<open>i\<close> is the loop variable, \<open>i & sizeMask_\<close> the slot.
\<close>

fun hash_insert :: "nat \<Rightarrow> nat \<Rightarrow> int \<Rightarrow> nat \<Rightarrow> int list \<Rightarrow> int list" where
  "hash_insert 0 sizeMask value i table = table"
| "hash_insert (Suc n) sizeMask value i table =
     (let index = i AND sizeMask
      in if table ! index = kEmptyMarker then table[index := value]
         else hash_insert n sizeMask value (Suc i) table)"

fun hash_find :: "nat \<Rightarrow> nat \<Rightarrow> int \<Rightarrow> nat \<Rightarrow> int list \<Rightarrow> bool" where
  "hash_find 0 sizeMask value i table = False"
| "hash_find (Suc n) sizeMask value i table =
     (let idx = i AND sizeMask; l = table ! idx
      in if l = kEmptyMarker then False
         else if l = value then True
         else hash_find n sizeMask value (Suc i) table)"

section \<open>\<open>BigintValuesUsingHashTable\<close>\<close>

record BigintValuesUsingHashTable =
  bvh_min :: int
  bvh_max :: int
  bvh_hashTable :: "int list"
  bvh_containsEmptyMarker :: bool
  bvh_values :: "int list"
  bvh_sizeMask :: nat
  bvh_nullAllowed :: bool

definition kPaddingElements :: nat where
  "kPaddingElements = 4"

text \<open>The body of the loop over \<open>values\<close> in the constructor.\<close>

definition hash_add :: "nat \<Rightarrow> int list \<times> bool \<Rightarrow> int \<Rightarrow> int list \<times> bool" where
  "hash_add sizeMask s value =
     (if value = kEmptyMarker then (fst s, True)
      else (hash_insert (Suc sizeMask) sizeMask value (hash_position value sizeMask) (fst s), snd s))"

text \<open>The replication of the last slot into the padding.\<close>

definition hash_pad :: "nat \<Rightarrow> int list \<Rightarrow> int list" where
  "hash_pad sizeMask table =
     foldl (\<lambda>t i. t[sizeMask + 1 + i := t ! sizeMask]) table [0..<kPaddingElements]"

text \<open>
  \<open>1u << (uint32_t)std::log2(values.size() * 5)\<close>: shifting by 32 or more is undefined, so a
  table has at most \<open>2 ^ 31\<close> slots.
\<close>

definition hash_sizeMask :: "nat \<Rightarrow> nat" where
  "hash_sizeMask n = 2 ^ floor_log2 (n * 5) - 1"

definition BigintValuesUsingHashTable_new ::
    "int \<Rightarrow> int \<Rightarrow> int list \<Rightarrow> bool \<Rightarrow> BigintValuesUsingHashTable res" where
  "BigintValuesUsingHashTable_new minv maxv values nullAllowed =
     check (minv < maxv) (check (1 < length values)
       (if 32 \<le> floor_log2 (length values * 5) then Inl BadShift else
        let sizeMask = hash_sizeMask (length values);
            s = foldl (hash_add sizeMask)
                  (replicate (sizeMask + 1 + kPaddingElements) kEmptyMarker, False) values
        in Inr \<lparr>bvh_min = minv, bvh_max = maxv, bvh_hashTable = hash_pad sizeMask (fst s),
                bvh_containsEmptyMarker = snd s, bvh_values = sort values,
                bvh_sizeMask = sizeMask, bvh_nullAllowed = nullAllowed\<rparr>))"

definition BigintValuesUsingHashTable_testInt64 :: "BigintValuesUsingHashTable \<Rightarrow> int \<Rightarrow> bool" where
  "BigintValuesUsingHashTable_testInt64 f value =
     (if bvh_containsEmptyMarker f \<and> value = kEmptyMarker then True
      else if value < bvh_min f \<or> value > bvh_max f then False
      else hash_find (Suc (bvh_sizeMask f)) (bvh_sizeMask f) value
             (hash_position value (bvh_sizeMask f)) (bvh_hashTable f))"

text \<open>
  \<open>std::lower_bound\<close> returns \<open>end()\<close> when every value is below \<open>minv\<close>; the code only asserts that
  it does not, so dereferencing it is an out-of-range read.
\<close>

definition BigintValuesUsingHashTable_testInt64Range ::
    "BigintValuesUsingHashTable \<Rightarrow> int \<Rightarrow> int \<Rightarrow> bool \<Rightarrow> bool res" where
  "BigintValuesUsingHashTable_testInt64Range f minv maxv hasNull =
     (if hasNull \<and> bvh_nullAllowed f then Inr True
      else if minv = maxv then Inr (BigintValuesUsingHashTable_testInt64 f minv)
      else if minv > bvh_max f \<or> maxv < bvh_min f then Inr False
      else let it = lower_bound (bvh_values f) minv
           in if it = length (bvh_values f) then Inl OutOfRange
              else if minv = bvh_values f ! it then Inr True
              else Inr (maxv \<ge> bvh_values f ! it))"

section \<open>\<open>BigintValuesUsingBitmask\<close>\<close>

record BigintValuesUsingBitmask =
  bvb_bitmask :: "bool list"
  bvb_min :: int
  bvb_max :: int
  bvb_nullAllowed :: bool

text \<open>\<open>bitmask_[value - minv] = true\<close> for every value; an index past the end is undefined.\<close>

fun set_bits :: "int \<Rightarrow> int list \<Rightarrow> bool list \<Rightarrow> bool list res" where
  "set_bits minv [] bitmask = Inr bitmask"
| "set_bits minv (value # values) bitmask =
     (if 0 \<le> value - minv \<and> nat (value - minv) < length bitmask
      then set_bits minv values (bitmask[nat (value - minv) := True])
      else Inl OutOfRange)"

definition BigintValuesUsingBitmask_new ::
    "int \<Rightarrow> int \<Rightarrow> int list \<Rightarrow> bool \<Rightarrow> BigintValuesUsingBitmask res" where
  "BigintValuesUsingBitmask_new minv maxv values nullAllowed =
     check (minv < maxv) (check (1 < length values)
       (rbind (i64_sub maxv minv) (\<lambda>range. rbind (i64_add range 1) (\<lambda>size.
          rbind (set_bits minv values (replicate (nat size) False)) (\<lambda>bitmask.
            Inr \<lparr>bvb_bitmask = bitmask, bvb_min = minv, bvb_max = maxv,
                 bvb_nullAllowed = nullAllowed\<rparr>)))))"

definition BigintValuesUsingBitmask_testInt64 :: "BigintValuesUsingBitmask \<Rightarrow> int \<Rightarrow> bool" where
  "BigintValuesUsingBitmask_testInt64 f value =
     (if value < bvb_min f \<or> value > bvb_max f then False
      else bvb_bitmask f ! nat (value - bvb_min f))"

definition BigintValuesUsingBitmask_values :: "BigintValuesUsingBitmask \<Rightarrow> int list" where
  "BigintValuesUsingBitmask_values f =
     [bvb_min f + int i. i \<leftarrow> [0..<length (bvb_bitmask f)], bvb_bitmask f ! i]"

definition BigintValuesUsingBitmask_testInt64Range ::
    "BigintValuesUsingBitmask \<Rightarrow> int \<Rightarrow> int \<Rightarrow> bool \<Rightarrow> bool" where
  "BigintValuesUsingBitmask_testInt64Range f minv maxv hasNull =
     (if hasNull \<and> bvb_nullAllowed f then True
      else if minv = maxv then BigintValuesUsingBitmask_testInt64 f minv
      else \<not> (minv > bvb_max f \<or> maxv < bvb_min f))"

section \<open>The hash table holds exactly the inserted values\<close>

definition pow2mask :: "nat \<Rightarrow> bool" where
  "pow2mask m \<longleftrightarrow> (\<exists>k. Suc m = 2 ^ k)"

lemma and_mask_mod: "pow2mask m \<Longrightarrow> i AND m = i mod Suc m" for i :: nat
proof -
  assume "pow2mask m"
  then obtain k where "Suc m = 2 ^ k" by (auto simp: pow2mask_def)
  then have "m = mask k" by (simp add: mask_eq_exp_minus_1)
  then have "i AND m = take_bit k i" by (simp add: take_bit_eq_mask)
  with \<open>Suc m = 2 ^ k\<close> show ?thesis by (simp add: take_bit_eq_mod)
qed

lemma pow2mask_hash_sizeMask [simp]: "pow2mask (hash_sizeMask n)"
  unfolding pow2mask_def hash_sizeMask_def by (intro exI [of _ "floor_log2 (n * 5)"]) simp

text \<open>
  \<open>probed m p t v\<close>: walking from position \<open>p\<close> over the \<open>m + 1\<close> slots of \<open>t\<close> meets \<open>v\<close> before the
  first empty slot.
\<close>

definition probed :: "nat \<Rightarrow> nat \<Rightarrow> int list \<Rightarrow> int \<Rightarrow> bool" where
  "probed m p t v \<longleftrightarrow>
     (\<exists>d < Suc m. t ! ((p + d) mod Suc m) = v \<and>
        (\<forall>d' < d. t ! ((p + d') mod Suc m) \<noteq> kEmptyMarker))"

lemma hash_find_iff:
  assumes "pow2mask m" "v \<noteq> kEmptyMarker"
  shows "hash_find n m v i t \<longleftrightarrow>
    (\<exists>d < n. t ! ((i + d) mod Suc m) = v \<and> (\<forall>d' < d. t ! ((i + d') mod Suc m) \<noteq> kEmptyMarker))"
proof (induction n arbitrary: i)
  case (Suc n)
  let ?Q = "\<lambda>j d. t ! ((j + d) mod Suc m) = v \<and>
     (\<forall>d' < d. t ! ((j + d') mod Suc m) \<noteq> kEmptyMarker)"
  have step: "(\<exists>d < Suc n. ?Q i d) \<longleftrightarrow>
      ?Q i 0 \<or> (t ! (i mod Suc m) \<noteq> kEmptyMarker \<and> (\<exists>d < n. ?Q (Suc i) d))"
    by (simp only: Ex_less_Suc2 All_less_Suc2) auto
  show ?case
    by (subst step) (use assms in \<open>auto simp: Let_def and_mask_mod Suc.IH\<close>)
qed simp

lemma hash_find_marker: "\<not> hash_find n m kEmptyMarker i t"
  by (induction n arbitrary: i) (auto simp: Let_def)

lemma hash_find_probed:
  "pow2mask m \<Longrightarrow> v \<noteq> kEmptyMarker \<Longrightarrow> hash_find (Suc m) m v p t \<longleftrightarrow> probed m p t v"
  by (simp add: hash_find_iff probed_def del: hash_find.simps)

text \<open>Insertion writes the first empty slot on the walk from the position of the value.\<close>

lemma hash_insert_cases:
  assumes "pow2mask m"
  shows "(hash_insert n m v i t = t \<and> (\<forall>d < n. t ! ((i + d) mod Suc m) \<noteq> kEmptyMarker)) \<or>
   (\<exists>d < n. t ! ((i + d) mod Suc m) = kEmptyMarker \<and>
      (\<forall>d' < d. t ! ((i + d') mod Suc m) \<noteq> kEmptyMarker) \<and>
      hash_insert n m v i t = t[(i + d) mod Suc m := v])"
proof (induction n arbitrary: i)
  case (Suc n)
  show ?case
  proof (cases "t ! (i mod Suc m) = kEmptyMarker")
    case True
    then show ?thesis by (intro disjI2 exI [of _ 0]) (simp add: Let_def and_mask_mod assms)
  next
    case False
    from Suc [of "Suc i"] show ?thesis
    proof
      assume "hash_insert n m v (Suc i) t = t \<and>
        (\<forall>d < n. t ! ((Suc i + d) mod Suc m) \<noteq> kEmptyMarker)"
      with False show ?thesis
        by (intro disjI1) (simp add: Let_def and_mask_mod assms All_less_Suc2)
    next
      assume "\<exists>d < n. t ! ((Suc i + d) mod Suc m) = kEmptyMarker \<and>
        (\<forall>d' < d. t ! ((Suc i + d') mod Suc m) \<noteq> kEmptyMarker) \<and>
        hash_insert n m v (Suc i) t = t[(Suc i + d) mod Suc m := v]"
      then obtain d where "d < n" "t ! ((Suc i + d) mod Suc m) = kEmptyMarker"
        "\<forall>d' < d. t ! ((Suc i + d') mod Suc m) \<noteq> kEmptyMarker"
        "hash_insert n m v (Suc i) t = t[(Suc i + d) mod Suc m := v]"
        by blast
      with False show ?thesis
        by (intro disjI2 exI [of _ "Suc d"]) (simp add: Let_def and_mask_mod assms All_less_Suc2)
    qed
  qed
qed simp

lemma mod_cover: "s < m \<Longrightarrow> \<exists>d < m. (p + d) mod m = s" for p s m :: nat
proof -
  assume s: "s < m"
  let ?d = "s + (m - p mod m)"
  have "(p + ?d) mod m = (p mod m + ?d) mod m" by (simp add: mod_add_left_eq)
  also have "p mod m + ?d = s + m"
    using s mod_less_divisor [of m p] by linarith
  finally have "(p + ?d mod m) mod m = s" using s by (simp add: mod_add_right_eq)
  then show ?thesis using s by (intro exI [of _ "?d mod m"]) auto
qed

abbreviation live :: "int list \<Rightarrow> int list" where
  "live \<equiv> filter (\<lambda>v. v \<noteq> kEmptyMarker)"

lemma mset_live_update:
  assumes "i < length t" "t ! i = kEmptyMarker" "v \<noteq> kEmptyMarker"
  shows "mset (live (t[i := v])) = add_mset v (mset (live t))"
  using assms
proof (induction t arbitrary: i)
  case (Cons x t)
  then show ?case by (cases i) auto
qed simp

text \<open>The state of the table after the values \<open>vs\<close> have been added.\<close>

definition table_inv :: "nat \<Rightarrow> int list \<Rightarrow> int list \<Rightarrow> bool" where
  "table_inv m t vs \<longleftrightarrow>
     length t = Suc m + kPaddingElements \<and>
     mset (live (take (Suc m) t)) = mset (live vs) \<and>
     (\<forall>v \<in> set (live vs). probed m (hash_position v m) t v) \<and>
     drop (Suc m) t = replicate kPaddingElements kEmptyMarker"

lemma empty_slot:
  assumes "mset (live (take (Suc m) t)) = mset (live vs)" "Suc m \<le> length t" "length vs < Suc m"
  shows "\<exists>s < Suc m. t ! s = kEmptyMarker"
proof (rule ccontr)
  assume none: "\<not> ?thesis"
  have "x \<noteq> kEmptyMarker" if "x \<in> set (take (Suc m) t)" for x
  proof -
    from that obtain i where "i < length (take (Suc m) t)" "x = take (Suc m) t ! i"
      unfolding in_set_conv_nth by blast
    then show ?thesis using none by simp
  qed
  then have "live (take (Suc m) t) = take (Suc m) t"
    by (intro filter_True) blast
  moreover have "length (live (take (Suc m) t)) = length (live vs)"
    using assms(1) by (rule mset_eq_length)
  ultimately have "Suc m = length (live vs)" using assms(2) by simp
  with assms(3) length_filter_le [of "\<lambda>v. v \<noteq> kEmptyMarker" vs] show False by linarith
qed

lemma table_inv_empty_slot:
  "table_inv m t vs \<Longrightarrow> length vs < Suc m \<Longrightarrow> \<exists>s < Suc m. t ! s = kEmptyMarker"
  by (rule empty_slot) (simp_all add: table_inv_def)

lemma probed_update:
  assumes "probed m p t w" "t ! s = kEmptyMarker" "w \<noteq> kEmptyMarker" "v \<noteq> kEmptyMarker"
  shows "probed m p (t[s := v]) w"
proof -
  have keep: "t[s := v] ! j \<noteq> kEmptyMarker" if "t ! j \<noteq> kEmptyMarker" for j
    using that assms(2,4) by (cases "j = s"; cases "s < length t") (simp_all add: list_update_beyond)
  have same: "t[s := v] ! j = w" if "t ! j = w" for j
    using that assms(2,3) by (cases "j = s") auto
  show ?thesis using assms(1) keep same unfolding probed_def by blast
qed

lemma table_inv_insert:
  assumes m: "pow2mask m" and inv: "table_inv m t vs" and room: "length vs < Suc m" and v: "v \<noteq> kEmptyMarker"
  shows "table_inv m
    (hash_insert (Suc m) m v (hash_position v m) t) (vs @ [v])"
proof -
  let ?p = "hash_position v m"
  obtain s where s: "s < Suc m" "t ! s = kEmptyMarker"
    using table_inv_empty_slot [OF inv room] by blast
  obtain d0 where "d0 < Suc m" "(?p + d0) mod Suc m = s"
    using mod_cover [OF s(1), of ?p] by blast
  then obtain d where d: "d < Suc m" "t ! ((?p + d) mod Suc m) = kEmptyMarker"
    "\<forall>d' < d. t ! ((?p + d') mod Suc m) \<noteq> kEmptyMarker"
    "hash_insert (Suc m) m v ?p t = t[(?p + d) mod Suc m := v]"
    using hash_insert_cases [OF m, of "Suc m" v ?p t] s(2) by metis
  let ?s = "(?p + d) mod Suc m"
  let ?t = "t[?s := v]"
  have lt: "?s < Suc m" by simp
  have lt2: "?s < length t" using lt inv unfolding table_inv_def by linarith
  have "mset (live (take (Suc m) ?t)) = add_mset v (mset (live (take (Suc m) t)))"
    using mset_live_update [of ?s "take (Suc m) t" v] lt lt2 d(2) v
    by (simp add: take_update_swap)
  moreover have "probed m ?p ?t v"
    unfolding probed_def using d lt2 v
    by (intro exI [of _ d]) (auto simp: nth_list_update)
  moreover have "probed m (hash_position w m) ?t w" if "w \<in> set (live vs)" for w
    using that inv d(2) v by (intro probed_update) (auto simp: table_inv_def)
  moreover have "drop (Suc m) ?t = drop (Suc m) t" using lt by simp
  ultimately show ?thesis
    using inv v d(4) by (auto simp: table_inv_def)
qed

lemma table_inv_marker: "table_inv m t vs \<Longrightarrow> table_inv m t (vs @ [kEmptyMarker])"
  by (simp add: table_inv_def)

lemma table_inv_init: "table_inv m (replicate (m + 1 + kPaddingElements) kEmptyMarker) []"
  by (simp add: table_inv_def)

lemma table_inv_fold:
  assumes m: "pow2mask m" and init: "table_inv m t0 []" and "length vs \<le> Suc m"
  shows "table_inv m (fst (foldl (hash_add m) (t0, False) vs)) vs \<and>
    snd (foldl (hash_add m) (t0, False) vs) = (kEmptyMarker \<in> set vs)"
  using assms(3)
proof (induction vs rule: rev_induct)
  case Nil
  show ?case using init by simp
next
  case (snoc v vs)
  obtain t ce where s: "foldl (hash_add m) (t0, False) vs = (t, ce)"
    by (metis surj_pair)
  have IH: "table_inv m t vs" "ce = (kEmptyMarker \<in> set vs)"
    using snoc s by auto
  have room: "length vs < Suc m" using snoc.prems(1) by simp
  have eq: "foldl (hash_add m) (t0, False) (vs @ [v]) = hash_add m (t, ce) v" using s by simp
  show ?case
  proof (cases "v = kEmptyMarker")
    case True
    then show ?thesis unfolding eq using IH by (simp add: hash_add_def table_inv_marker)
  next
    case False
    then show ?thesis unfolding eq
      using IH table_inv_insert [OF m IH(1) room False]
      by (simp add: hash_add_def del: hash_insert.simps)
  qed
qed

lemma hash_sizeMask_room: "n \<le> hash_sizeMask n"
proof -
  have "n * 5 < 2 ^ Suc (floor_log2 (n * 5))" by (rule floor_log2_upper)
  then show ?thesis by (simp add: hash_sizeMask_def)
qed

text \<open>Padding repeats the last slot and leaves the slots that are probed alone.\<close>

lemma hash_pad_eq:
  assumes "length t = Suc m + kPaddingElements"
  shows "hash_pad m t = take (Suc m) t @ replicate kPaddingElements (t ! m)"
  using assms unfolding hash_pad_def kPaddingElements_def
  by (intro nth_equalityI) (auto simp: upt_rec nth_append nth_list_update)

lemma probed_pad:
  assumes "length t = Suc m + kPaddingElements"
  shows "probed m p (hash_pad m t) v = probed m p t v"
  using assms by (simp add: probed_def hash_pad_eq nth_append)

section \<open>Well-formed hash tables and what they accept\<close>

text \<open>
  The invariant the constructor establishes when it is called as its comment asks: the values are
  unique and \<open>min\<close> and \<open>max\<close> are the least and the greatest of them.
\<close>

definition hash_inv :: "BigintValuesUsingHashTable \<Rightarrow> bool" where
  "hash_inv f \<longleftrightarrow>
     (let vs = bvh_values f; m = bvh_sizeMask f; t = bvh_hashTable f
      in sorted vs \<and> distinct vs \<and> 1 < length vs \<and> (\<forall>v \<in> set vs. i64 v) \<and>
         bvh_min f = hd vs \<and> bvh_max f = last vs \<and>
         bvh_containsEmptyMarker f = (kEmptyMarker \<in> set vs) \<and>
         pow2mask m \<and> length vs \<le> m \<and> length t = Suc m + kPaddingElements \<and>
         mset (live (take (Suc m) t)) = mset (live vs) \<and>
         (\<forall>v \<in> set (live vs). probed m (hash_position v m) t v) \<and>
         drop (Suc m) t = replicate kPaddingElements (t ! m))"

lemma hash_invD:
  assumes "hash_inv f"
  shows hash_inv_sorted: "sorted (bvh_values f)" and hash_inv_distinct: "distinct (bvh_values f)"
    and hash_inv_length: "1 < length (bvh_values f)"
    and hash_inv_i64: "\<And>v. v \<in> set (bvh_values f) \<Longrightarrow> i64 v"
    and hash_inv_min: "bvh_min f = hd (bvh_values f)"
    and hash_inv_max: "bvh_max f = last (bvh_values f)"
    and hash_inv_marker: "bvh_containsEmptyMarker f = (kEmptyMarker \<in> set (bvh_values f))"
    and hash_inv_mask: "pow2mask (bvh_sizeMask f)"
    and hash_inv_room: "length (bvh_values f) \<le> bvh_sizeMask f"
    and hash_inv_padding: "drop (Suc (bvh_sizeMask f)) (bvh_hashTable f) =
      replicate kPaddingElements (bvh_hashTable f ! bvh_sizeMask f)"
    and hash_inv_live: "mset (live (take (Suc (bvh_sizeMask f)) (bvh_hashTable f))) =
      mset (live (bvh_values f))"
    and hash_inv_size: "length (bvh_hashTable f) = Suc (bvh_sizeMask f) + kPaddingElements"
  using assms unfolding hash_inv_def Let_def by blast+

lemma sorted_bounds: "sorted vs \<Longrightarrow> v \<in> set vs \<Longrightarrow> hd vs \<le> v \<and> v \<le> last vs"
  by (induction vs) (auto split: if_splits)

lemma sort_nonempty: "vs \<noteq> [] \<Longrightarrow> sort vs \<noteq> []"
  by (metis set_empty set_sort)

lemma hd_sort_Min: "vs \<noteq> [] \<Longrightarrow> hd (sort vs) = Min (set vs)" for vs :: "int list"
  using sorted_bounds [of "sort vs"] hd_in_set [OF sort_nonempty, of vs]
  by (intro Min_eqI [symmetric]) simp_all

lemma last_sort_Max: "vs \<noteq> [] \<Longrightarrow> last (sort vs) = Max (set vs)" for vs :: "int list"
  using sorted_bounds [of "sort vs"] last_in_set [OF sort_nonempty, of vs]
  by (intro Max_eqI [symmetric]) simp_all

lemma BigintValuesUsingHashTable_new_inv:
  assumes "BigintValuesUsingHashTable_new minv maxv vs nullAllowed = Inr f"
    and "distinct vs" "\<forall>v \<in> set vs. i64 v" "minv = Min (set vs)" "maxv = Max (set vs)"
  shows "hash_inv f" "bvh_values f = sort vs" "bvh_nullAllowed f = nullAllowed"
proof -
  let ?m = "hash_sizeMask (length vs)"
  let ?t0 = "replicate (?m + 1 + kPaddingElements) kEmptyMarker"
  let ?s = "foldl (hash_add ?m) (?t0, False) vs"
  have f: "f = \<lparr>bvh_min = minv, bvh_max = maxv, bvh_hashTable = hash_pad ?m (fst ?s),
      bvh_containsEmptyMarker = snd ?s, bvh_values = sort vs,
      bvh_sizeMask = ?m, bvh_nullAllowed = nullAllowed\<rparr>" and len: "1 < length vs"
    using assms(1) by (auto simp: BigintValuesUsingHashTable_new_def Let_def split: if_splits)
  have "length vs \<le> Suc ?m" using hash_sizeMask_room [of "length vs"] by simp
  from table_inv_fold [OF pow2mask_hash_sizeMask table_inv_init this]
  have t: "table_inv ?m (fst ?s) vs" "snd ?s = (kEmptyMarker \<in> set vs)" by blast+
  have ne: "vs \<noteq> []" using len by auto
  have pad: "length (fst ?s) = Suc ?m + kPaddingElements" using t(1) by (simp add: table_inv_def)
  show "bvh_values f = sort vs" "bvh_nullAllowed f = nullAllowed" using f by simp_all
  show "hash_inv f"
    using t assms(2-) len ne pad hash_sizeMask_room [of "length vs"]
    unfolding hash_inv_def f
    by (simp add: Let_def table_inv_def probed_pad hd_sort_Min last_sort_Max)
      (simp add: hash_pad_eq nth_append)
qed

lemma BigintValuesUsingHashTable_new_total:
  "minv < maxv \<Longrightarrow> 1 < length vs \<Longrightarrow> length vs * 5 < 2 ^ 32 \<Longrightarrow>
   \<exists>f. BigintValuesUsingHashTable_new minv maxv vs nullAllowed = Inr f"
  using floor_log2_less [of "length vs * 5" 32]
  by (cases vs) (auto simp: BigintValuesUsingHashTable_new_def Let_def)

lemma hash_inv_table_elem:
  assumes "hash_inv f" "i \<le> bvh_sizeMask f" "bvh_hashTable f ! i \<noteq> kEmptyMarker"
  shows "bvh_hashTable f ! i \<in> set (bvh_values f)"
proof -
  let ?t = "bvh_hashTable f" and ?m = "bvh_sizeMask f"
  note len = hash_inv_size [OF assms(1)] and ms = hash_inv_live [OF assms(1)]
  have "?t ! i = take (Suc ?m) ?t ! i" "i < length (take (Suc ?m) ?t)"
    using assms(2) len by simp_all
  then have "?t ! i \<in> set (take (Suc ?m) ?t)" by (metis nth_mem)
  then have "?t ! i \<in> set (live (take (Suc ?m) ?t))" using assms(3) by simp
  also have "\<dots> = set (live (bvh_values f))" using ms by (metis set_mset_mset)
  finally show ?thesis by simp
qed

lemma probed_mem:
  assumes "hash_inv f" "v \<noteq> kEmptyMarker"
  shows "probed (bvh_sizeMask f) (hash_position v (bvh_sizeMask f)) (bvh_hashTable f) v
    \<longleftrightarrow> v \<in> set (bvh_values f)"
proof
  assume "probed (bvh_sizeMask f) (hash_position v (bvh_sizeMask f)) (bvh_hashTable f) v"
  then obtain d where
    d: "bvh_hashTable f ! ((hash_position v (bvh_sizeMask f) + d) mod Suc (bvh_sizeMask f)) = v"
    by (auto simp: probed_def)
  have "(hash_position v (bvh_sizeMask f) + d) mod Suc (bvh_sizeMask f) \<le> bvh_sizeMask f"
    by (metis less_Suc_eq_le mod_less_divisor zero_less_Suc)
  from hash_inv_table_elem [OF assms(1) this] show "v \<in> set (bvh_values f)"
    using d assms(2) by simp
next
  assume "v \<in> set (bvh_values f)"
  then show "probed (bvh_sizeMask f) (hash_position v (bvh_sizeMask f)) (bvh_hashTable f) v"
    using assms by (simp add: hash_inv_def Let_def)
qed

lemma hash_test_iff:
  assumes "hash_inv f"
  shows "BigintValuesUsingHashTable_testInt64 f v \<longleftrightarrow> v \<in> set (bvh_values f)"
proof (cases "v = kEmptyMarker")
  case True
  then show ?thesis using hash_find_marker
    by (simp add: BigintValuesUsingHashTable_testInt64_def hash_inv_marker [OF assms]
      del: hash_find.simps)
next
  case False
  from hash_find_probed [OF hash_inv_mask [OF assms] False]
  have "hash_find (Suc (bvh_sizeMask f)) (bvh_sizeMask f) v
      (hash_position v (bvh_sizeMask f)) (bvh_hashTable f) \<longleftrightarrow> v \<in> set (bvh_values f)"
    using probed_mem [OF assms False] by simp
  moreover have "bvh_min f \<le> v \<and> v \<le> bvh_max f" if "v \<in> set (bvh_values f)"
    using that sorted_bounds [OF hash_inv_sorted [OF assms]]
    by (simp add: hash_inv_min [OF assms] hash_inv_max [OF assms])
  ultimately show ?thesis using False
    by (auto simp: BigintValuesUsingHashTable_testInt64_def simp del: hash_find.simps)
qed

text \<open>
  Iterating over \<open>hashTable_\<close> visits the padding too. Only when the last slot is empty does such
  a loop see every value once.
\<close>

definition last_slot_empty :: "BigintValuesUsingHashTable \<Rightarrow> bool" where
  "last_slot_empty f \<longleftrightarrow> bvh_hashTable f ! bvh_sizeMask f = kEmptyMarker"

lemma live_table:
  assumes "hash_inv f" "last_slot_empty f"
  shows "mset (live (bvh_hashTable f)) = mset (live (bvh_values f))"
proof -
  let ?t = "bvh_hashTable f" and ?m = "bvh_sizeMask f"
  have "live ?t = live (take (Suc ?m) ?t @ drop (Suc ?m) ?t)" by simp
  also have "\<dots> = live (take (Suc ?m) ?t)"
    using assms(2) unfolding hash_inv_padding [OF assms(1)] last_slot_empty_def filter_append
    by simp
  finally show ?thesis using hash_inv_live [OF assms(1)] by simp
qed

section \<open>The bitmask holds exactly the inserted values\<close>

text \<open>
  The loop of \<open>values()\<close> counts the slots with an \<open>int\<close>, so a bitmask has at most \<open>INT32_MAX\<close> of
  them.
\<close>

definition bitmask_inv :: "BigintValuesUsingBitmask \<Rightarrow> bool" where
  "bitmask_inv f \<longleftrightarrow> i64 (bvb_min f) \<and> i64 (bvb_max f) \<and> bvb_min f < bvb_max f \<and>
     bvb_max f - bvb_min f < INT32_MAX \<and> length (bvb_bitmask f) = nat (bvb_max f - bvb_min f + 1)"

lemma set_bits_total:
  assumes "\<forall>v \<in> set vs. minv \<le> v \<and> nat (v - minv) < length b"
  shows "\<exists>b'. set_bits minv vs b = Inr b' \<and> length b' = length b \<and>
    (\<forall>i < length b. b' ! i \<longleftrightarrow> b ! i \<or> minv + int i \<in> set vs)"
  using assms
proof (induction vs arbitrary: b)
  case (Cons v vs)
  let ?b = "b[nat (v - minv) := True]"
  from Cons.prems have v: "minv \<le> v" "nat (v - minv) < length b"
    and vs: "\<forall>v \<in> set vs. minv \<le> v \<and> nat (v - minv) < length ?b" by auto
  from Cons.IH [OF vs] obtain b' where b': "set_bits minv vs ?b = Inr b'" "length b' = length b"
    "\<forall>i < length b. b' ! i \<longleftrightarrow> ?b ! i \<or> minv + int i \<in> set vs" by auto
  have "minv + int i = v \<longleftrightarrow> i = nat (v - minv)" for i using v(1) by linarith
  then show ?case using b' v by (auto simp: nth_list_update)
qed simp

lemma BigintValuesUsingBitmask_new_inv:
  assumes "minv < maxv" "1 < length vs" "\<forall>v \<in> set vs. minv \<le> v \<and> v \<le> maxv"
    and "i64 minv" "i64 maxv" "maxv - minv < INT32_MAX"
  shows "\<exists>f. BigintValuesUsingBitmask_new minv maxv vs nullAllowed = Inr f \<and> bitmask_inv f \<and>
    bvb_min f = minv \<and> bvb_max f = maxv \<and> bvb_nullAllowed f = nullAllowed \<and>
    (\<forall>i < length (bvb_bitmask f). bvb_bitmask f ! i \<longleftrightarrow> minv + int i \<in> set vs)"
proof -
  let ?n = "nat (maxv - minv + 1)"
  have "\<forall>v \<in> set vs. minv \<le> v \<and> nat (v - minv) < length (replicate ?n False)"
    using assms(3) by auto
  from set_bits_total [OF this] obtain b' where
    "set_bits minv vs (replicate ?n False) = Inr b'" "length b' = ?n"
    "\<forall>i < ?n. b' ! i \<longleftrightarrow> minv + int i \<in> set vs"
    by auto
  then show ?thesis using assms
    by (simp add: BigintValuesUsingBitmask_new_def bitmask_inv_def i64_def)
qed

lemma bitmask_values_iff:
  assumes "bitmask_inv f"
  shows "x \<in> set (BigintValuesUsingBitmask_values f) \<longleftrightarrow> BigintValuesUsingBitmask_testInt64 f x"
proof
  assume "x \<in> set (BigintValuesUsingBitmask_values f)"
  then obtain i where "i < length (bvb_bitmask f)" "bvb_bitmask f ! i" "x = bvb_min f + int i"
    by (auto simp: BigintValuesUsingBitmask_values_def)
  then show "BigintValuesUsingBitmask_testInt64 f x"
    using assms by (auto simp: BigintValuesUsingBitmask_testInt64_def bitmask_inv_def)
next
  assume "BigintValuesUsingBitmask_testInt64 f x"
  then have x: "bvb_min f \<le> x" "x \<le> bvb_max f" "bvb_bitmask f ! nat (x - bvb_min f)"
    by (auto simp: BigintValuesUsingBitmask_testInt64_def split: if_splits)
  then have "nat (x - bvb_min f) < length (bvb_bitmask f)"
    using assms by (auto simp: bitmask_inv_def)
  with x show "x \<in> set (BigintValuesUsingBitmask_values f)"
    by (auto simp: BigintValuesUsingBitmask_values_def intro!: bexI [of _ "nat (x - bvb_min f)"])
qed

lemma bitmask_values_eq:
  "BigintValuesUsingBitmask_values f =
     map (\<lambda>i. bvb_min f + int i) (filter (\<lambda>i. bvb_bitmask f ! i) [0..<length (bvb_bitmask f)])"
proof -
  have "concat (map (\<lambda>i. if p i then [g i] else []) xs) = map g (filter p xs)"
    for p g and xs :: "nat list"
    by (induction xs) auto
  then show ?thesis unfolding BigintValuesUsingBitmask_values_def .
qed

lemma bitmask_values_sorted: "sorted (BigintValuesUsingBitmask_values f)"
  unfolding bitmask_values_eq by (simp add: sorted_map sorted_wrt_filter)

lemma bitmask_values_distinct: "distinct (BigintValuesUsingBitmask_values f)"
  unfolding bitmask_values_eq by (simp add: distinct_map inj_on_def)

section \<open>The contract of an IN list\<close>

text \<open>
  What the rest of the code relies on: the filter that \<open>build\<close> makes from unique values within
  \<open>int64_t\<close>, with their least and greatest as bounds, keeps \<open>inv\<close>, and a filter that keeps \<open>inv\<close>
  accepts exactly the values that \<open>vals\<close> returns, which are sorted and unique. \<open>fits\<close> says for which
  values the representation exists.
\<close>

locale bigint_values =
  fixes build :: "int \<Rightarrow> int \<Rightarrow> int list \<Rightarrow> bool \<Rightarrow> 'f res"
    and inv :: "'f \<Rightarrow> bool"
    and test :: "'f \<Rightarrow> int \<Rightarrow> bool"
    and vals :: "'f \<Rightarrow> int list"
    and nulls :: "'f \<Rightarrow> bool"
    and fits :: "int list \<Rightarrow> bool"
  assumes build_ok: "distinct vs \<Longrightarrow> 1 < length vs \<Longrightarrow> \<forall>v \<in> set vs. i64 v \<Longrightarrow>
      fits vs \<Longrightarrow>
      \<exists>f. build (Min (set vs)) (Max (set vs)) vs na = Inr f \<and> inv f \<and> nulls f = na \<and>
          set (vals f) = set vs"
    and test_vals: "inv f \<Longrightarrow> test f x \<longleftrightarrow> x \<in> set (vals f)"
    and vals_sorted: "inv f \<Longrightarrow> sorted (vals f)"
    and vals_distinct: "inv f \<Longrightarrow> distinct (vals f)"
begin

lemma built_accepts:
  assumes "distinct vs" "1 < length vs" "\<forall>v \<in> set vs. i64 v" "fits vs"
  shows "\<exists>f. build (Min (set vs)) (Max (set vs)) vs na = Inr f \<and> inv f \<and> nulls f = na \<and>
    (\<forall>x. test f x \<longleftrightarrow> x \<in> set vs)"
  using build_ok [OF assms, of na] by (auto simp: test_vals)

lemma vals_of_built:
  assumes "distinct vs" "1 < length vs" "\<forall>v \<in> set vs. i64 v" "fits vs"
    and "build (Min (set vs)) (Max (set vs)) vs na = Inr f"
  shows "vals f = sort vs"
proof -
  from build_ok [OF assms(1-4), of na] assms(5) have "inv f" "set (vals f) = set vs" by auto
  then show ?thesis
    using vals_sorted vals_distinct assms(1) by (metis sorted_distinct_set_unique distinct_sort
        set_sort sorted_sort)
qed

end

lemma distinct_Min_less_Max:
  fixes vs :: "int list"
  assumes "distinct vs" "1 < length vs"
  shows "Min (set vs) < Max (set vs)"
proof -
  obtain x y zs where vs: "vs = x # y # zs"
    using assms(2) by (cases vs; cases "tl vs") auto
  then have mem: "x \<in> set vs" "y \<in> set vs" by simp_all
  have "Min (set vs) \<le> x" "Min (set vs) \<le> y" "x \<le> Max (set vs)" "y \<le> Max (set vs)"
    using mem by simp_all
  moreover have "x \<noteq> y" using assms(1) vs by simp
  ultimately show ?thesis by linarith
qed

interpretation hash_values: bigint_values
  BigintValuesUsingHashTable_new hash_inv BigintValuesUsingHashTable_testInt64 bvh_values
  bvh_nullAllowed "\<lambda>vs. length vs * 5 < 2 ^ 32"
proof (unfold_locales, goal_cases)
  case (1 vs na)
  obtain f where f: "BigintValuesUsingHashTable_new (Min (set vs)) (Max (set vs)) vs na = Inr f"
    using BigintValuesUsingHashTable_new_total distinct_Min_less_Max 1(1,2,4) by blast
  from BigintValuesUsingHashTable_new_inv [OF f 1(1,3)] f show ?case by simp
qed (simp_all add: hash_test_iff hash_inv_sorted hash_inv_distinct)

interpretation bitmask_values: bigint_values
  BigintValuesUsingBitmask_new bitmask_inv BigintValuesUsingBitmask_testInt64
  BigintValuesUsingBitmask_values bvb_nullAllowed
  "\<lambda>vs. Max (set vs) - Min (set vs) < INT32_MAX"
proof (unfold_locales, goal_cases)
  case (1 vs na)
  have ne: "vs \<noteq> []" using 1(2) by auto
  have mm: "\<forall>v \<in> set vs. Min (set vs) \<le> v \<and> v \<le> Max (set vs)" by simp
  have i: "i64 (Min (set vs))" "i64 (Max (set vs))" using 1(3) ne by simp_all
  from BigintValuesUsingBitmask_new_inv [OF distinct_Min_less_Max [OF 1(1,2)] 1(2) mm i 1(4)]
  obtain f where f: "BigintValuesUsingBitmask_new (Min (set vs)) (Max (set vs)) vs na = Inr f"
    "bitmask_inv f" "bvb_min f = Min (set vs)" "bvb_max f = Max (set vs)" "bvb_nullAllowed f = na"
    "\<forall>i < length (bvb_bitmask f). bvb_bitmask f ! i \<longleftrightarrow> Min (set vs) + int i \<in> set vs"
    by blast
  have "BigintValuesUsingBitmask_testInt64 f x \<longleftrightarrow> x \<in> set vs" for x
    using f(2-4,6) mm [rule_format, of x]
    by (auto simp: BigintValuesUsingBitmask_testInt64_def bitmask_inv_def simp del: Min_le Max_ge)
  then show ?case using f(1,2,5) bitmask_values_iff [OF f(2)] by auto
qed (simp_all add: bitmask_values_iff bitmask_values_sorted bitmask_values_distinct)

end
