(* ===== verification/Filter_Bigint_Negated.thy ===== *)
theory Filter_Bigint_Negated
  imports Filter_Bigint_Values
begin

text \<open>
  The NOT-IN-list filters \<open>NegatedBigintValuesUsingHashTable\<close> and
  \<open>NegatedBigintValuesUsingBitmask\<close> (\<open>velox/type/Filter.h\<close>, \<open>Filter.cpp\<close>), each a wrapper around
  the IN list it negates, and the exactness of their test on ranges.
\<close>

record NegatedBigintValuesUsingHashTable =
  nbh_nonNegated :: BigintValuesUsingHashTable
  nbh_nullAllowed :: bool

definition NegatedBigintValuesUsingHashTable_new ::
    "int \<Rightarrow> int \<Rightarrow> int list \<Rightarrow> bool \<Rightarrow> NegatedBigintValuesUsingHashTable res" where
  "NegatedBigintValuesUsingHashTable_new minv maxv values nullAllowed =
     rbind (BigintValuesUsingHashTable_new minv maxv values (\<not> nullAllowed))
       (\<lambda>f. Inr \<lparr>nbh_nonNegated = f, nbh_nullAllowed = nullAllowed\<rparr>)"

definition NegatedBigintValuesUsingHashTable_testInt64 ::
    "NegatedBigintValuesUsingHashTable \<Rightarrow> int \<Rightarrow> bool" where
  "NegatedBigintValuesUsingHashTable_testInt64 f value \<longleftrightarrow>
     \<not> BigintValuesUsingHashTable_testInt64 (nbh_nonNegated f) value"

abbreviation nbh_values :: "NegatedBigintValuesUsingHashTable \<Rightarrow> int list" where
  "nbh_values f \<equiv> bvh_values (nbh_nonNegated f)"

definition NegatedBigintValuesUsingHashTable_testInt64Range ::
    "NegatedBigintValuesUsingHashTable \<Rightarrow> int \<Rightarrow> int \<Rightarrow> bool \<Rightarrow> bool res" where
  "NegatedBigintValuesUsingHashTable_testInt64Range f minv maxv hasNull =
     (if hasNull \<and> nbh_nullAllowed f then Inr True
      else if minv = maxv then Inr (NegatedBigintValuesUsingHashTable_testInt64 f minv)
      else if maxv > bvh_max (nbh_nonNegated f) \<or> minv < bvh_min (nbh_nonNegated f) then Inr True
      else let lo = lower_bound (nbh_values f) minv; hi = lower_bound (nbh_values f) maxv
           in if lo = length (nbh_values f) \<or> hi = length (nbh_values f) then Inl OutOfRange
              else if minv \<noteq> nbh_values f ! lo \<or> maxv \<noteq> nbh_values f ! hi then Inr True
              else rbind (i64_sub maxv minv) (\<lambda>d. Inr (int hi - int lo \<noteq> d)))"

text \<open>The members \<open>min_\<close> and \<open>max_\<close> of the bitmask version are declared \<open>int\<close> and never read.\<close>

record NegatedBigintValuesUsingBitmask =
  nbb_min :: int
  nbb_max :: int
  nbb_nonNegated :: BigintValuesUsingBitmask
  nbb_nullAllowed :: bool

definition NegatedBigintValuesUsingBitmask_new ::
    "int \<Rightarrow> int \<Rightarrow> int list \<Rightarrow> bool \<Rightarrow> NegatedBigintValuesUsingBitmask res" where
  "NegatedBigintValuesUsingBitmask_new minv maxv values nullAllowed =
     check (minv \<le> maxv)
       (rbind (BigintValuesUsingBitmask_new minv maxv values (\<not> nullAllowed))
         (\<lambda>f. Inr \<lparr>nbb_min = narrow32 minv, nbb_max = narrow32 maxv, nbb_nonNegated = f,
                   nbb_nullAllowed = nullAllowed\<rparr>))"

definition NegatedBigintValuesUsingBitmask_testInt64 ::
    "NegatedBigintValuesUsingBitmask \<Rightarrow> int \<Rightarrow> bool" where
  "NegatedBigintValuesUsingBitmask_testInt64 f value \<longleftrightarrow>
     \<not> BigintValuesUsingBitmask_testInt64 (nbb_nonNegated f) value"

definition NegatedBigintValuesUsingBitmask_values ::
    "NegatedBigintValuesUsingBitmask \<Rightarrow> int list" where
  "NegatedBigintValuesUsingBitmask_values f = BigintValuesUsingBitmask_values (nbb_nonNegated f)"

definition NegatedBigintValuesUsingBitmask_testInt64Range ::
    "NegatedBigintValuesUsingBitmask \<Rightarrow> int \<Rightarrow> int \<Rightarrow> bool \<Rightarrow> bool" where
  "NegatedBigintValuesUsingBitmask_testInt64Range f minv maxv hasNull =
     (if hasNull \<and> nbb_nullAllowed f then True
      else if minv = maxv then NegatedBigintValuesUsingBitmask_testInt64 f minv
      else True)"

section \<open>Counting the rejected values of a range\<close>

text \<open>
  In a sorted vector of unique integers the positions of \<open>a\<close> and \<open>b\<close> differ by at most \<open>b - a\<close>,
  and by exactly that much if and only if every integer between them is in the vector.
\<close>

lemma lower_bound_card:
  assumes "sorted vs" "distinct vs"
  shows "lower_bound vs x = card {v \<in> set vs. v < x}"
proof -
  have "lower_bound vs x = length (filter (\<lambda>v. v < x) vs)"
    using assms(1)
  proof (induction vs)
    case (Cons v vs)
    then show ?case
      by (cases "v < x") (auto simp: filter_empty_conv)
  qed simp
  also have "\<dots> = card (set (filter (\<lambda>v. v < x) vs))"
    using distinct_card [OF distinct_filter [OF assms(2)]] by simp
  finally show ?thesis by simp
qed

lemma positions_count:
  fixes vs :: "int list"
  assumes "sorted vs" "distinct vs" "a \<le> b"
  shows "int (lower_bound vs b) - int (lower_bound vs a) = int (card (set vs \<inter> {a..<b}))"
proof -
  have "{v \<in> set vs. v < b} = {v \<in> set vs. v < a} \<union> (set vs \<inter> {a..<b})"
    using assms(3) by auto
  moreover have "card ({v \<in> set vs. v < a} \<union> (set vs \<inter> {a..<b})) =
      card {v \<in> set vs. v < a} + card (set vs \<inter> {a..<b})"
    by (rule card_Un_disjoint) auto
  ultimately show ?thesis by (simp add: lower_bound_card assms)
qed

lemma interval_count_full:
  fixes a b :: int
  assumes "a \<le> b"
  shows "int (card (S \<inter> {a..<b})) = b - a \<longleftrightarrow> {a..<b} \<subseteq> S"
proof -
  have "card {a..<b} = nat (b - a)" by simp
  moreover have "card (S \<inter> {a..<b}) = card {a..<b} \<longleftrightarrow> S \<inter> {a..<b} = {a..<b}"
    by (metis card_subset_eq finite_atLeastLessThan_int inf_le2)
  ultimately show ?thesis using assms by auto
qed

text \<open>
  On a range with distinct ends the test is exact: it answers whether some value of the range is
  not in the list. The only failure is the overflow of \<open>max - min\<close>.
\<close>

lemma negated_hash_testInt64Range_exact:
  assumes inv: "hash_inv (nbh_nonNegated f)" and "minv \<le> maxv"
    and "minv \<in> set (nbh_values f) \<Longrightarrow> maxv \<in> set (nbh_values f) \<Longrightarrow> i64 (maxv - minv)"
  shows "NegatedBigintValuesUsingHashTable_testInt64Range f minv maxv hasNull =
    Inr ((hasNull \<and> nbh_nullAllowed f) \<or> (\<exists>x \<in> {minv..maxv}. x \<notin> set (nbh_values f)))"
proof -
  let ?vs = "nbh_values f"
  note sd = hash_inv_sorted [OF inv] hash_inv_distinct [OF inv]
  have ne: "?vs \<noteq> []" using hash_inv_length [OF inv] by auto
  have bounds: "x \<in> set ?vs \<Longrightarrow> bvh_min (nbh_nonNegated f) \<le> x \<and> x \<le> bvh_max (nbh_nonNegated f)" for x
    using sorted_bounds [OF sd(1)] by (simp add: hash_inv_min [OF inv] hash_inv_max [OF inv])
  show ?thesis
  proof (cases "(hasNull \<and> nbh_nullAllowed f) \<or> minv = maxv \<or>
      maxv > bvh_max (nbh_nonNegated f) \<or> minv < bvh_min (nbh_nonNegated f)")
    case True
    moreover have "\<exists>x \<in> {minv..maxv}. x \<notin> set ?vs"
      if "maxv > bvh_max (nbh_nonNegated f) \<or> minv < bvh_min (nbh_nonNegated f)"
      using that bounds [of minv] bounds [of maxv] assms(2) by force
    ultimately show ?thesis
      unfolding NegatedBigintValuesUsingHashTable_testInt64Range_def
        NegatedBigintValuesUsingHashTable_testInt64_def hash_test_iff [OF inv] by auto
  next
    case False
    let ?lo = "lower_bound ?vs minv" and ?hi = "lower_bound ?vs maxv"
    have "maxv \<le> last ?vs" using False hash_inv_max [OF inv] by simp
    then have "?hi \<noteq> length ?vs" "?lo \<noteq> length ?vs"
      using last_in_set [OF ne] assms(2) unfolding lower_bound_end by force+
    then have "?hi < length ?vs" "?lo < length ?vs"
      using lower_bound_le [of ?vs] by (metis le_neq_implies_less)+
    moreover have "minv = ?vs ! ?lo \<longleftrightarrow> minv \<in> set ?vs" "maxv = ?vs ! ?hi \<longleftrightarrow> maxv \<in> set ?vs"
      using lower_bound_mem [OF sd(1)] calculation by metis+
    moreover have "int ?hi - int ?lo = maxv - minv \<longleftrightarrow> {minv..<maxv} \<subseteq> set ?vs"
      unfolding positions_count [OF sd assms(2)] by (rule interval_count_full [OF assms(2)])
    moreover have "{minv..maxv} = insert maxv {minv..<maxv}" using assms(2) by auto
    moreover have "minv \<in> {minv..<maxv}" using False assms(2) by auto
    ultimately show ?thesis
      using False assms(3)
      unfolding NegatedBigintValuesUsingHashTable_testInt64Range_def by (auto simp: Let_def)
  qed
qed

text \<open>That overflow: both ends of the range are in the list and too far apart.\<close>

lemma negated_hash_testInt64Range_overflow:
  assumes inv: "hash_inv (nbh_nonNegated f)" and "minv \<le> maxv" "\<not> (hasNull \<and> nbh_nullAllowed f)"
    and mem: "minv \<in> set (nbh_values f)" "maxv \<in> set (nbh_values f)" and "\<not> i64 (maxv - minv)"
  shows "NegatedBigintValuesUsingHashTable_testInt64Range f minv maxv hasNull = Inl SignedOverflow"
proof -
  let ?vs = "nbh_values f"
  have bounds: "bvh_min (nbh_nonNegated f) \<le> minv" "maxv \<le> bvh_max (nbh_nonNegated f)"
    using mem sorted_bounds [OF hash_inv_sorted [OF inv]] by (simp_all add: hash_inv_min [OF inv] hash_inv_max [OF inv])
  have "lower_bound ?vs x \<noteq> length ?vs \<and> x = ?vs ! lower_bound ?vs x" if "x \<in> set ?vs" for x
    using that lower_bound_mem [OF hash_inv_sorted [OF inv], of x] by auto
  moreover have "minv \<noteq> maxv" using assms(6) by (auto simp: i64_def)
  ultimately show ?thesis
    using assms(3,6) bounds mem
    by (simp add: NegatedBigintValuesUsingHashTable_testInt64Range_def Let_def i64_sub_def i64_res_def)
qed

end
