(* ===== verification/Filter_Bigint_Simd.thy ===== *)
theory Filter_Bigint_Simd
  imports Filter_Bigint_Negated
begin

text \<open>
  The vectorised lookup of \<open>BigintValuesUsingHashTable\<close> (\<open>testValues\<close> in
  \<open>velox/type/Filter.cpp\<close>). A batch is the list of its lanes; a bit mask over the lanes is the list
  of its bits. The width of a batch is the length of the list.
\<close>

section \<open>\<open>testValues\<close>\<close>

text \<open>
  The loop \<open>for (;;)\<close> that resolves one lane: it loads a line of as many slots as a batch has lanes.
  A load that ends past the padding is undefined. The first argument bounds the iterations.
\<close>

fun hash_lane_loop :: "nat \<Rightarrow> nat \<Rightarrow> int list \<Rightarrow> nat \<Rightarrow> int \<Rightarrow> nat \<Rightarrow> bool res" where
  "hash_lane_loop 0 lanes table sizeMask value index = Inl StackExhausted"
| "hash_lane_loop (Suc n) lanes table sizeMask value index =
     (if length table < index + lanes then Inl OutOfRange
      else let line = take lanes (drop index table)
           in if value \<in> set line then Inr True
              else if kEmptyMarker \<in> set line then Inr False
              else hash_lane_loop n lanes table sizeMask value
                     (if index + lanes > sizeMask then 0 else index + lanes))"

text \<open>
  Lanes out of range gather the empty marker; the lanes that neither hit nor missed are resolved one
  after the other, from the slot after their position.
\<close>

definition BigintValuesUsingHashTable_testValues64 ::
    "BigintValuesUsingHashTable \<Rightarrow> int list \<Rightarrow> bool list res" where
  "BigintValuesUsingHashTable_testValues64 f x =
     (let outOfRange = map (\<lambda>v. v < bvh_min f \<or> v > bvh_max f) x
      in if list_all (\<lambda>b. b) outOfRange then Inr (map (\<lambda>_. False) x)
         else if bvh_containsEmptyMarker f then
           Inr (map (BigintValuesUsingHashTable_testInt64 f) x)
         else
           let indices = map (\<lambda>v. hash_position v (bvh_sizeMask f)) x;
               data = map2 (\<lambda>out i. if out then kEmptyMarker else bvh_hashTable f ! i)
                        outOfRange indices;
               result = map2 (=) x data;
               missed = map (\<lambda>d. d = kEmptyMarker) data
           in rmap (\<lambda>lane.
                if result ! lane \<or> missed ! lane then Inr (result ! lane)
                else hash_lane_loop (bvh_sizeMask f + 2) (length x) (bvh_hashTable f)
                       (bvh_sizeMask f) (x ! lane) (indices ! lane + 1)) [0..<length x])"

text \<open>Batches of \<open>int32_t\<close> have twice as many lanes and are tested in two halves.\<close>

definition BigintValuesUsingHashTable_testValues32 ::
    "BigintValuesUsingHashTable \<Rightarrow> int list \<Rightarrow> bool list res" where
  "BigintValuesUsingHashTable_testValues32 f x =
     rbind (BigintValuesUsingHashTable_testValues64 f (take (length x div 2) x)) (\<lambda>first.
       rbind (BigintValuesUsingHashTable_testValues64 f (drop (length x div 2) x)) (\<lambda>second.
         Inr (first @ second)))"

definition BigintValuesUsingHashTable_testValues16 ::
    "BigintValuesUsingHashTable \<Rightarrow> int list \<Rightarrow> bool list res" where
  "BigintValuesUsingHashTable_testValues16 f x =
     Inr (map (BigintValuesUsingHashTable_testInt64 f) x)"

definition NegatedBigintValuesUsingHashTable_testValues64 ::
    "NegatedBigintValuesUsingHashTable \<Rightarrow> int list \<Rightarrow> bool list res" where
  "NegatedBigintValuesUsingHashTable_testValues64 f x =
     rbind (BigintValuesUsingHashTable_testValues64 (nbh_nonNegated f) x) (\<lambda>r. Inr (map Not r))"

definition NegatedBigintValuesUsingHashTable_testValues32 ::
    "NegatedBigintValuesUsingHashTable \<Rightarrow> int list \<Rightarrow> bool list res" where
  "NegatedBigintValuesUsingHashTable_testValues32 f x =
     rbind (BigintValuesUsingHashTable_testValues32 (nbh_nonNegated f) x) (\<lambda>r. Inr (map Not r))"

definition NegatedBigintValuesUsingHashTable_testValues16 ::
    "NegatedBigintValuesUsingHashTable \<Rightarrow> int list \<Rightarrow> bool list res" where
  "NegatedBigintValuesUsingHashTable_testValues16 f x =
     rbind (BigintValuesUsingHashTable_testValues16 (nbh_nonNegated f) x) (\<lambda>r. Inr (map Not r))"

section \<open>The loop over lines walks the probe sequence\<close>

text \<open>
  \<open>scanned m p t v i J\<close>: the walk from slot \<open>p\<close> has passed \<open>J\<close> slots, none of them empty or equal to
  \<open>v\<close>, and continues at \<open>i\<close>, where \<open>i = m + 1\<close> is the end of the table.
\<close>

definition scanned :: "nat \<Rightarrow> nat \<Rightarrow> int list \<Rightarrow> int \<Rightarrow> nat \<Rightarrow> nat \<Rightarrow> bool" where
  "scanned m p t v i J \<longleftrightarrow> 0 < J \<and> i \<le> Suc m \<and> i mod Suc m = (p + J) mod Suc m \<and>
     (\<forall>j < J. t ! ((p + j) mod Suc m) \<noteq> v \<and> t ! ((p + j) mod Suc m) \<noteq> kEmptyMarker)"

lemma hash_inv_empty_slot:
  assumes "hash_inv f"
  shows "\<exists>s < Suc (bvh_sizeMask f). bvh_hashTable f ! s = kEmptyMarker"
  using empty_slot [OF hash_inv_live [OF assms]] hash_inv_room [OF assms] hash_inv_size [OF assms]
  by simp

lemma scanned_bound:
  assumes "scanned m p t v i J" "\<exists>s < Suc m. t ! s = kEmptyMarker"
  shows "J \<le> m"
proof (rule ccontr)
  assume "\<not> J \<le> m"
  then have J: "Suc m \<le> J" by simp
  from assms(2) obtain s where s: "s < Suc m" "t ! s = kEmptyMarker" by blast
  from mod_cover [OF s(1), of p] obtain d where "d < Suc m" "(p + d) mod Suc m = s" by blast
  with assms(1) s(2) J show False by (auto simp: scanned_def)
qed

text \<open>The content of a line: the padding adds nothing to the slots of the table.\<close>

lemma hash_line:
  assumes "hash_inv f" "i \<le> bvh_sizeMask f" "lanes \<le> kPaddingElements" "0 < lanes"
  shows "set (take lanes (drop i (bvh_hashTable f))) =
    (!) (bvh_hashTable f) ` {i..<min (i + lanes) (Suc (bvh_sizeMask f))}"
proof -
  let ?t = "bvh_hashTable f" and ?m = "bvh_sizeMask f"
  have len: "length ?t = Suc ?m + kPaddingElements" by (rule hash_inv_size [OF assms(1)])
  have pad: "?t ! k = ?t ! ?m" if "Suc ?m \<le> k" "k < length ?t" for k
  proof -
    have "?t ! k = drop (Suc ?m) ?t ! (k - Suc ?m)" using that by simp
    also have "\<dots> = ?t ! ?m" unfolding hash_inv_padding [OF assms(1)]
      by (rule nth_replicate) (use that len in linarith)
    finally show ?thesis .
  qed
  have "set (take lanes (drop i ?t)) = (!) (drop i ?t) ` {0..<lanes}"
    using assms(2,3) len by (intro nth_image [symmetric]) simp
  also have "\<dots> = (\<lambda>k. ?t ! (i + k)) ` {0..<lanes}"
    using assms(2) len by (intro image_cong) (simp_all add: nth_drop)
  also have "\<dots> = (!) ?t ` {i..<i + lanes}"
    using image_image [of "(!) ?t" "(+) i" "{0..<lanes}"] by (simp add: add.commute)
  also have "\<dots> = (!) ?t ` {i..<min (i + lanes) (Suc ?m)}"
  proof (intro equalityI subsetI)
    fix y assume "y \<in> (!) ?t ` {i..<i + lanes}"
    then obtain k where k: "i \<le> k" "k < i + lanes" "y = ?t ! k" by auto
    show "y \<in> (!) ?t ` {i..<min (i + lanes) (Suc ?m)}"
    proof (cases "k \<le> ?m")
      case False
      then have "y = ?t ! ?m" using pad [of k] k assms(2,3) len by simp
      moreover have "?m \<in> {i..<min (i + lanes) (Suc ?m)}" using False k assms(2) by simp
      ultimately show ?thesis by blast
    qed (use k in auto)
  qed auto
  finally show ?thesis .
qed

lemma hash_line_end:
  assumes "hash_inv f" "lanes \<le> kPaddingElements" "0 < lanes"
  shows "set (take lanes (drop (Suc (bvh_sizeMask f)) (bvh_hashTable f))) =
    {bvh_hashTable f ! bvh_sizeMask f}"
  unfolding hash_inv_padding [OF assms(1)] using assms(2,3) by (auto simp: min_def)

lemma scanned_slot:
  assumes "scanned m p t v i J" "i \<le> k" "k \<le> m"
  shows "(p + (J + (k - i))) mod Suc m = k"
proof -
  have "(p + J) mod Suc m = i" using assms by (simp add: scanned_def)
  then have "(p + J + (k - i)) mod Suc m = (i + (k - i)) mod Suc m" by (metis mod_add_left_eq)
  then show ?thesis using assms(2,3) by (simp add: add.assoc)
qed

lemma scanned_last:
  assumes "scanned m p t v (Suc m) J"
  shows "t ! m \<noteq> v" "t ! m \<noteq> kEmptyMarker" "scanned m p t v 0 J"
proof -
  obtain j where J: "J = Suc j" using assms by (cases J) (simp_all add: scanned_def)
  have "Suc (p + j) mod Suc m = 0" using assms by (simp add: scanned_def J)
  then have "(p + j) mod Suc m = m" by (simp add: mod_Suc split: if_splits)
  moreover have "\<forall>i < J. t ! ((p + i) mod Suc m) \<noteq> v \<and> t ! ((p + i) mod Suc m) \<noteq> kEmptyMarker"
    using assms by (simp add: scanned_def)
  ultimately show "t ! m \<noteq> v" "t ! m \<noteq> kEmptyMarker" unfolding J by (metis lessI)+
  show "scanned m p t v 0 J" using assms by (simp add: scanned_def)
qed

lemma scanned_step:
  assumes "scanned m p t v i J" "i \<le> m" "i < e" "e \<le> Suc m"
    and "\<forall>k \<in> {i..<e}. t ! k \<noteq> v \<and> t ! k \<noteq> kEmptyMarker"
  shows "scanned m p t v (if e = Suc m then 0 else e) (J + (e - i))"
proof -
  have "t ! ((p + j) mod Suc m) \<noteq> v \<and> t ! ((p + j) mod Suc m) \<noteq> kEmptyMarker"
    if "j < J + (e - i)" for j
  proof (cases "j < J")
    case False
    then have "j = J + (i + (j - J) - i)" "i + (j - J) \<in> {i..<e}" using that assms(3) by auto
    with scanned_slot [OF assms(1), of "i + (j - J)"] assms(4,5) show ?thesis
      by (metis atLeastLessThan_iff less_Suc_eq_le less_le_trans)
  qed (use assms(1) in \<open>simp add: scanned_def\<close>)
  moreover have "(p + (J + (e - i))) mod Suc m = e mod Suc m"
  proof -
    have "(p + (J + (e - 1 - i))) mod Suc m = e - 1"
      by (rule scanned_slot [OF assms(1)]) (use assms in simp_all)
    then have "Suc (p + (J + (e - 1 - i))) mod Suc m = Suc (e - 1) mod Suc m"
      by (metis mod_Suc_eq)
    then show ?thesis using assms(3) by (simp add: Suc_diff_Suc)
  qed
  ultimately show ?thesis using assms(1,4) by (auto simp: scanned_def)
qed

lemma scanned_miss:
  assumes "scanned m p t v i J" "i \<le> k" "k \<le> m" "t ! k = kEmptyMarker" "v \<noteq> kEmptyMarker"
    and "\<forall>k' \<in> {i..k}. t ! k' \<noteq> v"
  shows "\<not> probed m p t v"
proof
  assume "probed m p t v"
  then obtain d where d: "t ! ((p + d) mod Suc m) = v"
    "\<forall>d' < d. t ! ((p + d') mod Suc m) \<noteq> kEmptyMarker" by (auto simp: probed_def)
  have "\<not> d < J" using assms(1) d(1) by (auto simp: scanned_def)
  moreover have "\<not> J + (k - i) < d" using scanned_slot [OF assms(1-3)] assms(4) d(2) by auto
  ultimately have "d = J + (i + (d - J) - i)" "i + (d - J) \<in> {i..k}" using assms(2) by auto
  with scanned_slot [OF assms(1), of "i + (d - J)"] d(1) assms(3,6) show False
    by (metis atLeastAtMost_iff order_trans)
qed

lemma hash_lane_loop_correct:
  assumes inv: "hash_inv f" and lanes: "lanes \<le> kPaddingElements" "0 < lanes"
    and "scanned (bvh_sizeMask f) (hash_position v (bvh_sizeMask f)) (bvh_hashTable f) v i J"
    and "Suc (bvh_sizeMask f) - J + (if i = Suc (bvh_sizeMask f) then 1 else 0) < fuel"
  shows "hash_lane_loop fuel lanes (bvh_hashTable f) (bvh_sizeMask f) v i =
    Inr (v = kEmptyMarker \<or> v \<in> set (bvh_values f))"
  using assms(4,5)
proof (induction fuel arbitrary: i J)
  case (Suc fuel)
  let ?t = "bvh_hashTable f" and ?m = "bvh_sizeMask f"
  let ?p = "hash_position v ?m"
  note sc = Suc.prems(1)
  have len: "\<not> length ?t < i + lanes"
    using sc lanes hash_inv_size [OF inv] by (simp add: scanned_def)
  have bound: "J \<le> ?m" by (rule scanned_bound [OF sc hash_inv_empty_slot [OF inv]])
  show ?case
  proof (cases "i = Suc ?m")
    case True
    note last = scanned_last [OF sc [unfolded True]]
    have "hash_lane_loop fuel lanes ?t ?m v 0 = Inr (v = kEmptyMarker \<or> v \<in> set (bvh_values f))"
      using Suc.prems True by (intro Suc.IH [OF last(3)]) simp
    then show ?thesis
      using True len last(1,2) hash_line_end [OF inv lanes] by (auto simp: Let_def)
  next
    case False
    then have i: "i \<le> ?m" using sc by (simp add: scanned_def)
    let ?e = "min (i + lanes) (Suc ?m)"
    let ?line = "set (take lanes (drop i ?t))"
    have line: "?line = (!) ?t ` {i..<?e}" by (rule hash_line [OF inv i lanes])
    have e: "i < ?e" using i lanes by simp
    consider (hit) "v \<in> ?line" | (empty) "v \<notin> ?line" "kEmptyMarker \<in> ?line"
      | (continue) "v \<notin> ?line" "kEmptyMarker \<notin> ?line" by blast
    then show ?thesis
    proof cases
      case hit
      then obtain k where "k < ?e" "v = ?t ! k" using line by auto
      with hash_inv_table_elem [OF inv, of k] have "v = kEmptyMarker \<or> v \<in> set (bvh_values f)" by auto
      then show ?thesis using hit len by simp
    next
      case empty
      then have v: "v \<noteq> kEmptyMarker" by blast
      obtain k where k: "i \<le> k" "k < ?e" "?t ! k = kEmptyMarker" using empty line by auto
      have "\<forall>k' \<in> {i..k}. ?t ! k' \<noteq> v" using empty(1) k(2) unfolding line by auto
      then have "\<not> probed ?m ?p ?t v" using k v by (intro scanned_miss [OF sc]) simp_all
      then show ?thesis using v empty len probed_mem [OF inv v] by (simp add: Let_def)
    next
      case continue
      have "scanned ?m ?p ?t v (if ?e = Suc ?m then 0 else ?e) (J + (?e - i))"
        using continue e unfolding line by (intro scanned_step [OF sc i]) (auto simp: image_iff)
      moreover have "(if ?e = Suc ?m then 0 else ?e) = (if i + lanes > ?m then 0 else i + lanes)"
        by (auto simp: min_def)
      moreover have "Suc ?m - (J + (?e - i)) < fuel" using Suc.prems(2) bound e i by simp
      ultimately have "hash_lane_loop fuel lanes ?t ?m v (if i + lanes > ?m then 0 else i + lanes) =
          Inr (v = kEmptyMarker \<or> v \<in> set (bvh_values f))"
        by (intro Suc.IH) simp_all
      then show ?thesis using continue len by (simp add: Let_def)
    qed
  qed
qed simp

section \<open>Every lane gets the verdict of the scalar test\<close>

text \<open>
  Batches of two or four lanes are within the four slots of padding. A lane that holds the empty marker
  matches an empty slot, or the marker gathered for a lane out of range: it is accepted although the scalar
  test rejects it.
\<close>

lemma hash_position_bound: "hash_position v m \<le> m"
proof -
  have "hash_position v m \<le> unat (word_of_nat m :: 64 word)"
    unfolding hash_position_def by (simp add: word_le_nat_alt [symmetric] word_and_le1)
  also have "\<dots> \<le> m" by (simp add: unat_of_nat)
  finally show ?thesis .
qed

lemma probed_first:
  assumes "p \<le> m" "v \<noteq> kEmptyMarker"
  shows "t ! p = v \<Longrightarrow> probed m p t v" and "t ! p = kEmptyMarker \<Longrightarrow> \<not> probed m p t v"
proof -
  show "probed m p t v" if "t ! p = v"
    unfolding probed_def using that assms(1) by (intro exI [of _ 0]) simp
  show "\<not> probed m p t v" if "t ! p = kEmptyMarker"
  proof
    assume "probed m p t v"
    then obtain d where "t ! ((p + d) mod Suc m) = v"
      "\<forall>d' < d. t ! ((p + d') mod Suc m) \<noteq> kEmptyMarker" by (auto simp: probed_def)
    with that assms show False by (cases d) auto
  qed
qed

lemma hash_lane:
  assumes inv: "hash_inv f" and lanes: "lanes \<le> kPaddingElements" "0 < lanes"
    and d: "d = (if v < bvh_min f \<or> v > bvh_max f then kEmptyMarker
      else bvh_hashTable f ! hash_position v (bvh_sizeMask f))"
  shows "(if v = d \<or> d = kEmptyMarker then Inr (v = d)
      else hash_lane_loop (bvh_sizeMask f + 2) lanes (bvh_hashTable f) (bvh_sizeMask f) v
             (hash_position v (bvh_sizeMask f) + 1)) =
    Inr (v = kEmptyMarker \<or> BigintValuesUsingHashTable_testInt64 f v)"
proof -
  let ?m = "bvh_sizeMask f" and ?t = "bvh_hashTable f"
  let ?p = "hash_position v ?m"
  have probe: "BigintValuesUsingHashTable_testInt64 f v \<longleftrightarrow> probed ?m ?p ?t v" if "v \<noteq> kEmptyMarker"
    by (simp only: hash_test_iff [OF inv] probed_mem [OF inv that])
  show ?thesis
  proof (cases "v < bvh_min f \<or> v > bvh_max f")
    case True
    then have "\<not> BigintValuesUsingHashTable_testInt64 f v" if "v \<noteq> kEmptyMarker"
      using that by (simp only: BigintValuesUsingHashTable_testInt64_def if_True if_False simp_thms)
    then show ?thesis using True d by auto
  next
    case False
    then have d: "d = ?t ! ?p" using d by simp
    consider "v = kEmptyMarker" "d = kEmptyMarker" | "v \<noteq> kEmptyMarker" "d = v \<or> d = kEmptyMarker"
      | "d \<noteq> v" "d \<noteq> kEmptyMarker" by blast
    then show ?thesis
    proof cases
      case 2
      then show ?thesis using d probe probed_first [OF hash_position_bound [of v ?m] 2(1), of ?t] by auto
    next
      case 3
      have "scanned ?m ?p ?t v (?p + 1) 1"
        using 3 d hash_position_bound [of v ?m] by (simp add: scanned_def)
      from hash_lane_loop_correct [OF inv lanes this]
      show ?thesis using 3 by (simp add: hash_test_iff [OF inv] del: hash_lane_loop.simps)
    qed simp
  qed
qed

lemma hash_test_out:
  assumes "hash_inv f" "v < bvh_min f \<or> v > bvh_max f"
  shows "\<not> BigintValuesUsingHashTable_testInt64 f v"
  using assms(2) hash_test_iff [OF assms(1), of v] sorted_bounds [OF hash_inv_sorted [OF assms(1)], of v]
    hash_inv_min [OF assms(1)] hash_inv_max [OF assms(1)] by auto

text \<open>The verdicts on a batch with a lane in the range of the list.\<close>

lemma hash_testValues64_lanes:
  assumes inv: "hash_inv f" and lanes: "length x \<le> kPaddingElements"
    and marker: "\<not> bvh_containsEmptyMarker f" and "\<exists>v \<in> set x. bvh_min f \<le> v \<and> v \<le> bvh_max f"
  shows "BigintValuesUsingHashTable_testValues64 f x =
    Inr (map (\<lambda>v. v = kEmptyMarker \<or> BigintValuesUsingHashTable_testInt64 f v) x)"
proof -
  let ?m = "bvh_sizeMask f" and ?t = "bvh_hashTable f"
  let ?P = "\<lambda>v. v = kEmptyMarker \<or> BigintValuesUsingHashTable_testInt64 f v"
  let ?out = "map (\<lambda>v. v < bvh_min f \<or> v > bvh_max f) x"
  let ?indices = "map (\<lambda>v. hash_position v ?m) x"
  let ?data = "map2 (\<lambda>out i. if out then kEmptyMarker else ?t ! i) ?out ?indices"
  have "rmap (\<lambda>lane.
      if map2 (=) x ?data ! lane \<or> map (\<lambda>d. d = kEmptyMarker) ?data ! lane
      then Inr (map2 (=) x ?data ! lane)
      else hash_lane_loop (?m + 2) (length x) ?t ?m (x ! lane) (?indices ! lane + 1)) [0..<length x] =
    Inr (map (\<lambda>lane. ?P (x ! lane)) [0..<length x])"
  proof (rule rmap_total, goal_cases)
    case (1 i)
    then have i: "i < length x" by simp
    have ne: "0 < length x" using i by linarith
    have lane: "map2 (=) x ?data ! i \<longleftrightarrow> x ! i = ?data ! i"
      "map (\<lambda>d. d = kEmptyMarker) ?data ! i \<longleftrightarrow> ?data ! i = kEmptyMarker"
      "?indices ! i = hash_position (x ! i) ?m" using i by simp_all
    have "?data ! i = (if x ! i < bvh_min f \<or> x ! i > bvh_max f then kEmptyMarker
      else ?t ! hash_position (x ! i) ?m)" using i by simp
    from hash_lane [OF inv lanes ne this] show ?case unfolding lane .
  qed
  also have "map (\<lambda>lane. ?P (x ! lane)) [0..<length x] = map ?P x"
    by (rule nth_equalityI) simp_all
  finally show ?thesis using assms(3,4)
    by (auto simp: BigintValuesUsingHashTable_testValues64_def Let_def list_all_iff
      simp del: hash_lane_loop.simps)
qed

lemma hash_testValues64:
  assumes inv: "hash_inv f" and lanes: "length x \<le> kPaddingElements"
    and marker: "bvh_containsEmptyMarker f \<or> kEmptyMarker \<notin> set x"
  shows "BigintValuesUsingHashTable_testValues64 f x =
    Inr (map (BigintValuesUsingHashTable_testInt64 f) x)"
proof (cases "(\<forall>v \<in> set x. v < bvh_min f \<or> v > bvh_max f) \<or> bvh_containsEmptyMarker f")
  case True
  then show ?thesis using hash_test_out [OF inv]
    by (auto simp: BigintValuesUsingHashTable_testValues64_def Let_def list_all_iff)
next
  case False
  then have "\<exists>v \<in> set x. bvh_min f \<le> v \<and> v \<le> bvh_max f" by force
  from hash_testValues64_lanes [OF inv lanes _ this] show ?thesis using False marker by auto
qed

lemma hash_testValues32:
  assumes "hash_inv f" "length x \<le> 2 * kPaddingElements"
    and "bvh_containsEmptyMarker f \<or> kEmptyMarker \<notin> set x"
  shows "BigintValuesUsingHashTable_testValues32 f x =
    Inr (map (BigintValuesUsingHashTable_testInt64 f) x)"
proof -
  let ?n = "length x div 2"
  have "kEmptyMarker \<notin> set (take ?n x) \<and> kEmptyMarker \<notin> set (drop ?n x)"
    if "kEmptyMarker \<notin> set x"
    using that set_take_subset [of ?n x] set_drop_subset [of ?n x] by blast
  then have "BigintValuesUsingHashTable_testValues64 f y =
      Inr (map (BigintValuesUsingHashTable_testInt64 f) y)" if "y = take ?n x \<or> y = drop ?n x" for y
    using that assms by (intro hash_testValues64) auto
  then show ?thesis
    unfolding BigintValuesUsingHashTable_testValues32_def
    by (simp add: map_append [symmetric] del: map_append)
qed

lemma negated_hash_testValues:
  assumes "hash_inv (nbh_nonNegated f)"
    and "bvh_containsEmptyMarker (nbh_nonNegated f) \<or> kEmptyMarker \<notin> set x"
  shows "length x \<le> kPaddingElements \<Longrightarrow> NegatedBigintValuesUsingHashTable_testValues64 f x =
      Inr (map (NegatedBigintValuesUsingHashTable_testInt64 f) x)"
    and "length x \<le> 2 * kPaddingElements \<Longrightarrow> NegatedBigintValuesUsingHashTable_testValues32 f x =
      Inr (map (NegatedBigintValuesUsingHashTable_testInt64 f) x)"
  using assms
  by (simp_all add: NegatedBigintValuesUsingHashTable_testValues64_def hash_testValues64
      NegatedBigintValuesUsingHashTable_testValues32_def hash_testValues32
      NegatedBigintValuesUsingHashTable_testInt64_def)

end
