(* ===== verification/Floating_Point.thy ===== *)
theory Floating_Point
  imports Velox_Prelude
begin

text \<open>
  The floating-point numbers of C++: a \<open>float\<close> or \<open>double\<close> is its IEEE-754 bit pattern. Comparisons are those of
  the standard, with unordered NaNs and equal zeros; conversions, sums and quotients are rounded to the
  nearest number with ties to even. The NaN that an operation returns is the quiet one with an empty payload.
\<close>

section \<open>IEEE-754 comparisons on bit patterns\<close>

definition fp_magnitude :: "'w::len word \<Rightarrow> nat" where
  "fp_magnitude x = unat x mod 2 ^ (LENGTH('w) - 1)"

definition fp_infinity :: "'w::len itself \<Rightarrow> nat" where
  "fp_infinity _ = (if LENGTH('w) = 32 then 2139095040 else 9218868437227405312)"

definition isnan :: "'w::len word \<Rightarrow> bool" where
  "isnan x \<longleftrightarrow> fp_magnitude x > fp_infinity TYPE('w)"

text \<open>The position of a pattern on the number line; both zeros are at 0.\<close>

definition fp_key :: "'w::len word \<Rightarrow> int" where
  "fp_key x = (if unat x < 2 ^ (LENGTH('w) - 1) then int (fp_magnitude x) else - int (fp_magnitude x))"

definition fp_less :: "'w::len word \<Rightarrow> 'w word \<Rightarrow> bool" where
  "fp_less x y \<longleftrightarrow> \<not> isnan x \<and> \<not> isnan y \<and> fp_key x < fp_key y"

definition fp_less_eq :: "'w::len word \<Rightarrow> 'w word \<Rightarrow> bool" where
  "fp_less_eq x y \<longleftrightarrow> \<not> isnan x \<and> \<not> isnan y \<and> fp_key x \<le> fp_key y"

definition fp_eq :: "'w::len word \<Rightarrow> 'w word \<Rightarrow> bool" where
  "fp_eq x y \<longleftrightarrow> \<not> isnan x \<and> \<not> isnan y \<and> fp_key x = fp_key y"

text \<open>\<open>std::max(a, b)\<close> is \<open>a < b ? b : a\<close> and \<open>std::min(a, b)\<close> is \<open>b < a ? b : a\<close>.\<close>

definition fp_max :: "'w::len word \<Rightarrow> 'w word \<Rightarrow> 'w word" where
  "fp_max a b = (if fp_less a b then b else a)"

definition fp_min :: "'w::len word \<Rightarrow> 'w word \<Rightarrow> 'w word" where
  "fp_min a b = (if fp_less b a then b else a)"

section \<open>Conversions between \<open>float\<close> and \<open>double\<close>\<close>

text \<open>Sign, biased exponent and fraction of the two formats.\<close>

definition float_fields :: "32 word \<Rightarrow> nat \<times> nat \<times> nat" where
  "float_fields x = (unat x div 2 ^ 31, unat x div 2 ^ 23 mod 2 ^ 8, unat x mod 2 ^ 23)"

definition double_fields :: "64 word \<Rightarrow> nat \<times> nat \<times> nat" where
  "double_fields x = (unat x div 2 ^ 63, unat x div 2 ^ 52 mod 2 ^ 11, unat x mod 2 ^ 52)"

text \<open>Every \<open>float\<close> is a \<open>double\<close>; a subnormal one is normalised.\<close>

definition float_to_double :: "32 word \<Rightarrow> 64 word" where
  "float_to_double x =
     (case float_fields x of (s, e, m) \<Rightarrow>
        word_of_nat (s * 2 ^ 63 +
          (if e = 255 then 2047 * 2 ^ 52 + m * 2 ^ 29
           else if 1 \<le> e then (e + 896) * 2 ^ 52 + m * 2 ^ 29
           else if m = 0 then 0
           else let k = floor_log2 m in (k + 874) * 2 ^ 52 + (m - 2 ^ k) * 2 ^ (52 - k))))"

text \<open>Division by a power of two, rounded to the nearest with ties to even.\<close>

definition round_even :: "nat \<Rightarrow> nat \<Rightarrow> nat" where
  "round_even n k =
     (let q = n div 2 ^ k; r = n mod 2 ^ k
      in if 2 ^ k < 2 * r \<or> (2 * r = 2 ^ k \<and> odd q) then q + 1 else q)"

definition double_to_float :: "64 word \<Rightarrow> 32 word" where
  "double_to_float x =
     (case double_fields x of (s, e, m) \<Rightarrow>
        word_of_nat (s * 2 ^ 31 +
          (if e = 2047 then 255 * 2 ^ 23 + (if m = 0 then 0 else 2 ^ 22 + m div 2 ^ 29 mod 2 ^ 22)
           else if 897 \<le> e then min (255 * 2 ^ 23) (round_even ((e - 896) * 2 ^ 52 + m) 29)
           else if e = 0 then round_even m 925
           else round_even (2 ^ 52 + m) (926 - e))))"

section \<open>Rounding\<close>

text \<open>A quotient of numbers that are not negative, rounded to the nearest with ties to even.\<close>

definition round_ratio :: "int \<Rightarrow> int \<Rightarrow> int" where
  "round_ratio n d =
     (let q = n div d; r = n mod d in if d < 2 * r \<or> (2 * r = d \<and> odd q) then q + 1 else q)"

function log2_floor :: "int \<Rightarrow> int" where
  "log2_floor n = (if n < 2 then 0 else log2_floor (n div 2) + 1)"
  by pat_completeness auto
termination by (relation "measure nat") auto

declare log2_floor.simps [simp del]

definition pow2 :: "int \<Rightarrow> int" where
  "pow2 e = 2 ^ nat e"

text \<open>The exponent of the largest power of two that is not above a positive quotient.\<close>

definition ratio_log2 :: "int \<Rightarrow> int \<Rightarrow> int" where
  "ratio_log2 n d =
     (let e = log2_floor n - log2_floor d in if n * pow2 (- e) < d * pow2 e then e - 1 else e)"

text \<open>
  The pattern, without its sign, of a positive quotient in the format with \<open>p\<close> bits of fraction whose least
  positive number is \<open>2\<^sup>m\<close>, and whether the pattern stands for the quotient itself.
\<close>

definition fp_of_ratio :: "int \<Rightarrow> int \<Rightarrow> int \<Rightarrow> int \<Rightarrow> int \<times> bool" where
  "fp_of_ratio p m n d =
     (let k = max (ratio_log2 n d - p) m;
          n' = n * pow2 (- k); d' = d * pow2 k;
          q = round_ratio n' d'
      in ((k - m) * pow2 p + q, q * d' = n'))"

definition double_of_ratio :: "int \<Rightarrow> int \<Rightarrow> int \<times> bool" where
  "double_of_ratio = fp_of_ratio 52 (- 1074)"

definition float_of_ratio :: "int \<Rightarrow> int \<Rightarrow> int" where
  "float_of_ratio n d = min 0x7F800000 (fst (fp_of_ratio 23 (- 149) n d))"

section \<open>Arithmetic on \<open>float\<close>\<close>

text \<open>A sign, which is 0 or 1, and the other bits.\<close>

definition float_parts :: "32 word \<Rightarrow> int \<times> int" where
  "float_parts x = (let u = uint x in (u div 0x80000000, u mod 0x80000000))"

definition float_of_parts :: "int \<Rightarrow> int \<Rightarrow> 32 word" where
  "float_of_parts s magnitude = word_of_int (s * 0x80000000 + magnitude)"

definition float_nan :: "32 word" where
  "float_nan = 0x7FC00000"

text \<open>A finite number, without its sign, in units of the least positive number \<open>2\<^sup>-\<^sup>1\<^sup>4\<^sup>9\<close>.\<close>

definition float_units :: "int \<Rightarrow> int" where
  "float_units magnitude =
     (let e = magnitude div 0x800000; m = magnitude mod 0x800000 in if e = 0 then m else (0x800000 + m) * pow2 (e - 1))"

definition float_add :: "32 word \<Rightarrow> 32 word \<Rightarrow> 32 word" where
  "float_add x y =
     (case (float_parts x, float_parts y) of ((s, a), (t, b)) \<Rightarrow>
        if a > 0x7F800000 \<or> b > 0x7F800000 then float_nan
        else if a = 0x7F800000 then (if b = 0x7F800000 \<and> s \<noteq> t then float_nan else x)
        else if b = 0x7F800000 then y
        else
          let v = (if s = 0 then float_units a else - float_units a) + (if t = 0 then float_units b else - float_units b)
          in if v = 0 then (if s = 1 \<and> t = 1 then float_of_parts 1 0 else float_of_parts 0 0)
             else float_of_parts (if v < 0 then 1 else 0) (float_of_ratio \<bar>v\<bar> (pow2 149)))"

definition float_div :: "32 word \<Rightarrow> 32 word \<Rightarrow> 32 word" where
  "float_div x y =
     (case (float_parts x, float_parts y) of ((s, a), (t, b)) \<Rightarrow>
        let sign = (s + t) mod 2
        in if a > 0x7F800000 \<or> b > 0x7F800000 then float_nan
           else if a = 0x7F800000 then (if b = 0x7F800000 then float_nan else float_of_parts sign 0x7F800000)
           else if b = 0x7F800000 then float_of_parts sign 0
           else if b = 0 then (if a = 0 then float_nan else float_of_parts sign 0x7F800000)
           else if a = 0 then float_of_parts sign 0
           else float_of_parts sign (float_of_ratio (float_units a) (float_units b)))"

definition float_of_int :: "int \<Rightarrow> 32 word" where
  "float_of_int n = (if n = 0 then 0 else float_of_parts (if n < 0 then 1 else 0) (float_of_ratio \<bar>n\<bar> 1))"

end
