(* ===== verification/Filter_Floating.thy ===== *)
theory Filter_Floating
  imports Floating_Point
begin

text \<open>
  \<open>AbstractRange\<close>, the base of the ranges with open, closed and unbounded ends, its instance
  \<open>FloatingPointRange\<close> and the closed \<open>TimestampRange\<close> (\<open>velox/type/Filter.h\<close>).
\<close>

section \<open>\<open>AbstractRange\<close>\<close>

record AbstractRange =
  ar_nullAllowed :: bool
  ar_lowerUnbounded :: bool
  ar_lowerExclusive :: bool
  ar_upperUnbounded :: bool
  ar_upperExclusive :: bool

section \<open>\<open>FloatingPointRange\<close>\<close>

record (overloaded) 'w FloatingPointRange = AbstractRange +
  fpr_lower :: "'w word"
  fpr_upper :: "'w word"

definition FloatingPointRange_new ::
    "'w::len word \<Rightarrow> bool \<Rightarrow> bool \<Rightarrow> 'w word \<Rightarrow> bool \<Rightarrow> bool \<Rightarrow> bool \<Rightarrow> 'w FloatingPointRange res" where
  "FloatingPointRange_new lower lowerUnbounded lowerExclusive upper upperUnbounded upperExclusive
     nullAllowed =
     check (\<not> lowerUnbounded \<or> \<not> upperUnbounded)
       (check (lowerUnbounded \<or> \<not> isnan lower)
         (check (upperUnbounded \<or> \<not> isnan upper)
           (Inr \<lparr>ar_nullAllowed = nullAllowed, ar_lowerUnbounded = lowerUnbounded,
                 ar_lowerExclusive = lowerExclusive, ar_upperUnbounded = upperUnbounded,
                 ar_upperExclusive = upperExclusive, fpr_lower = lower, fpr_upper = upper\<rparr>)))"

definition testFloatingPoint :: "'w::len FloatingPointRange \<Rightarrow> 'w word \<Rightarrow> bool" where
  "testFloatingPoint r value =
     (if isnan value then False
      else if \<not> ar_lowerUnbounded r \<and> fp_less value (fpr_lower r) then False
      else if \<not> ar_lowerUnbounded r \<and> ar_lowerExclusive r \<and> fp_eq (fpr_lower r) value then False
      else if \<not> ar_upperUnbounded r \<and> fp_less (fpr_upper r) value then False
      else if \<not> ar_upperUnbounded r \<and> ar_upperExclusive r \<and> fp_eq value (fpr_upper r) then False
      else True)"

text \<open>The vectorised test: one comparison per bound on every lane.\<close>

definition testFloatingPoints :: "'w::len FloatingPointRange \<Rightarrow> 'w word list \<Rightarrow> bool list" where
  "testFloatingPoints r values =
     (let above = (if ar_lowerExclusive r then map (\<lambda>v. fp_less (fpr_lower r) v) values
                   else map (\<lambda>v. fp_less_eq (fpr_lower r) v) values);
          below = (if ar_upperExclusive r then map (\<lambda>v. fp_less v (fpr_upper r)) values
                   else map (\<lambda>v. fp_less_eq v (fpr_upper r)) values)
      in if \<not> ar_lowerUnbounded r then
           if \<not> ar_upperUnbounded r then map2 (\<and>) above below else above
         else below)"

definition FloatingPointRange_testDoubleRange ::
    "64 FloatingPointRange \<Rightarrow> 64 word \<Rightarrow> 64 word \<Rightarrow> bool \<Rightarrow> bool" where
  "FloatingPointRange_testDoubleRange r minv maxv hasNull =
     (if hasNull \<and> ar_nullAllowed r then True
      else \<not> (fp_less (fpr_upper r) minv \<or> fp_less maxv (fpr_lower r)))"

definition FloatRange_testDoubleRange ::
    "32 FloatingPointRange \<Rightarrow> 64 word \<Rightarrow> 64 word \<Rightarrow> bool \<Rightarrow> bool" where
  "FloatRange_testDoubleRange r minv maxv hasNull =
     (if hasNull \<and> ar_nullAllowed r then True
      else \<not> (fp_less (float_to_double (fpr_upper r)) minv \<or>
              fp_less maxv (float_to_double (fpr_lower r))))"

definition fpr_inv :: "'w::len FloatingPointRange \<Rightarrow> bool" where
  "fpr_inv r \<longleftrightarrow> (\<not> ar_lowerUnbounded r \<or> \<not> ar_upperUnbounded r) \<and>
     (ar_lowerUnbounded r \<or> \<not> isnan (fpr_lower r)) \<and> (ar_upperUnbounded r \<or> \<not> isnan (fpr_upper r))"

lemma FloatingPointRange_new_inv:
  "FloatingPointRange_new l lu le u uu ue na = Inr r \<Longrightarrow> fpr_inv r"
  by (auto simp: FloatingPointRange_new_def fpr_inv_def)

text \<open>What a range means: the position of the value lies between the bounded ends.\<close>

lemma testFloatingPoint_iff:
  assumes "fpr_inv r"
  shows "testFloatingPoint r x \<longleftrightarrow> \<not> isnan x \<and>
    (ar_lowerUnbounded r \<or> fp_key (fpr_lower r) < fp_key x \<or>
      (\<not> ar_lowerExclusive r \<and> fp_key (fpr_lower r) = fp_key x)) \<and>
    (ar_upperUnbounded r \<or> fp_key x < fp_key (fpr_upper r) \<or>
      (\<not> ar_upperExclusive r \<and> fp_key (fpr_upper r) = fp_key x))"
  using assms by (auto simp: testFloatingPoint_def fpr_inv_def fp_less_def fp_eq_def)

lemma testFloatingPoints_lanes:
  fixes r :: "'w::len FloatingPointRange"
  assumes "fpr_inv r"
  shows "testFloatingPoints r values = map (testFloatingPoint r) values"
proof -
  have map2: "map2 (\<and>) (map p xs) (map q xs) = map (\<lambda>v. p v \<and> q v) xs" for p q and xs :: "'w word list"
    by (induction xs) auto
  show ?thesis
    using assms unfolding testFloatingPoints_def Let_def
    by (auto simp: map2 testFloatingPoint_iff fpr_inv_def fp_less_def fp_less_eq_def)
qed

section \<open>\<open>TimestampRange\<close>\<close>

text \<open>\<open>Timestamp\<close> compares seconds first, then nanoseconds (\<open>velox/type/Timestamp.h\<close>).\<close>

datatype Timestamp = Timestamp (ts_seconds: int) (ts_nanos: nat)

definition Timestamp_less :: "Timestamp \<Rightarrow> Timestamp \<Rightarrow> bool" where
  "Timestamp_less a b \<longleftrightarrow>
     ts_seconds a < ts_seconds b \<or> (ts_seconds a = ts_seconds b \<and> ts_nanos a < ts_nanos b)"

definition Timestamp_less_eq :: "Timestamp \<Rightarrow> Timestamp \<Rightarrow> bool" where
  "Timestamp_less_eq a b \<longleftrightarrow>
     ts_seconds a < ts_seconds b \<or> (ts_seconds a = ts_seconds b \<and> ts_nanos a \<le> ts_nanos b)"

instantiation Timestamp :: linorder
begin

definition less_Timestamp :: "Timestamp \<Rightarrow> Timestamp \<Rightarrow> bool" where
  "less_Timestamp = Timestamp_less"

definition less_eq_Timestamp :: "Timestamp \<Rightarrow> Timestamp \<Rightarrow> bool" where
  "less_eq_Timestamp = Timestamp_less_eq"

instance
  by standard (auto simp: less_Timestamp_def less_eq_Timestamp_def Timestamp_less_def Timestamp_less_eq_def
    Timestamp.expand)

end

record TimestampRange =
  tsr_lower :: Timestamp
  tsr_upper :: Timestamp
  tsr_singleValue :: bool
  tsr_nullAllowed :: bool

definition TimestampRange_new :: "Timestamp \<Rightarrow> Timestamp \<Rightarrow> bool \<Rightarrow> TimestampRange" where
  "TimestampRange_new lower upper nullAllowed =
     \<lparr>tsr_lower = lower, tsr_upper = upper, tsr_singleValue = (lower = upper),
      tsr_nullAllowed = nullAllowed\<rparr>"

definition TimestampRange_testTimestamp :: "TimestampRange \<Rightarrow> Timestamp \<Rightarrow> bool" where
  "TimestampRange_testTimestamp r value \<longleftrightarrow> value \<ge> tsr_lower r \<and> value \<le> tsr_upper r"

definition TimestampRange_testTimestampRange ::
    "TimestampRange \<Rightarrow> Timestamp \<Rightarrow> Timestamp \<Rightarrow> bool \<Rightarrow> bool" where
  "TimestampRange_testTimestampRange r minv maxv hasNull =
     (if hasNull \<and> tsr_nullAllowed r then True
      else \<not> (minv > tsr_upper r \<or> maxv < tsr_lower r))"

end
