(* ===== verification/Filter_Bytes.thy ===== *)
theory Filter_Bytes
  imports Filter_Floating "HOL-Library.Char_ord" "HOL-Library.List_Lexorder"
begin

text \<open>
  The string filters of \<open>velox/type/Filter.h\<close> and \<open>Filter.cpp\<close>: \<open>BytesRange\<close>,
  \<open>NegatedBytesRange\<close>, \<open>BytesValues\<close> and \<open>NegatedBytesValues\<close>. A string is the list of its
  bytes, ordered lexicographically on the unsigned bytes; a \<open>folly::F14FastSet\<close> is the set of
  its elements, since only membership and the set of elements are ever used.
\<close>

section \<open>\<open>compareRanges\<close>\<close>

text \<open>
  \<open>compareRanges\<close> keeps the common length and the difference of the two lengths in an \<open>int\<close>. The definition leaves the
  conversions out: they change nothing for strings of at most \<open>INT32_MAX\<close> bytes, which is what the parameter \<open>int32_t
  length\<close> of \<open>testBytes\<close> allows for the value; a bound of a filter of two gigabytes or more is not covered.
\<close>

fun memcmp :: "string \<Rightarrow> string \<Rightarrow> int" where
  "memcmp (a # as) (b # bs) = (if a = b then memcmp as bs else if a < b then - 1 else 1)"
| "memcmp _ _ = 0"

definition compareRanges :: "string \<Rightarrow> string \<Rightarrow> int" where
  "compareRanges lhs rhs =
     (let size = min (length lhs) (length rhs); compare = memcmp (take size lhs) (take size rhs)
      in if compare \<noteq> 0 then compare else int (length lhs) - int (length rhs))"

section \<open>\<open>BytesRange\<close>\<close>

record BytesRange = AbstractRange +
  byr_lower :: string
  byr_upper :: string
  byr_singleValue :: bool

definition BytesRange_new ::
    "string \<Rightarrow> bool \<Rightarrow> bool \<Rightarrow> string \<Rightarrow> bool \<Rightarrow> bool \<Rightarrow> bool \<Rightarrow> BytesRange res" where
  "BytesRange_new lower lowerUnbounded lowerExclusive upper upperUnbounded upperExclusive
     nullAllowed =
     check (\<not> lowerUnbounded \<or> \<not> upperUnbounded)
       (Inr \<lparr>ar_nullAllowed = nullAllowed, ar_lowerUnbounded = lowerUnbounded,
             ar_lowerExclusive = lowerExclusive, ar_upperUnbounded = upperUnbounded,
             ar_upperExclusive = upperExclusive, byr_lower = lower, byr_upper = upper,
             byr_singleValue = (\<not> lowerExclusive \<and> \<not> upperExclusive \<and> \<not> lowerUnbounded \<and>
               \<not> upperUnbounded \<and> lower = upper)\<rparr>)"

definition BytesRange_testBytes :: "BytesRange \<Rightarrow> string \<Rightarrow> bool" where
  "BytesRange_testBytes r value =
     (if length value = 0 then
        if ar_lowerUnbounded r then byr_upper r \<noteq> [] \<or> \<not> ar_upperExclusive r
        else byr_lower r = [] \<and> \<not> ar_lowerExclusive r
      else if byr_singleValue r then
        if length value \<noteq> length (byr_lower r) then False else memcmp value (byr_lower r) = 0
      else
        if \<not> ar_lowerUnbounded r \<and>
           (let compare = compareRanges value (byr_lower r)
            in compare < 0 \<or> (ar_lowerExclusive r \<and> compare = 0)) then False
        else if \<not> ar_upperUnbounded r then
          (let compare = compareRanges value (byr_upper r)
           in compare < 0 \<or> (\<not> ar_upperExclusive r \<and> compare = 0))
        else True)"

definition BytesRange_testBytesRange ::
    "BytesRange \<Rightarrow> string option \<Rightarrow> string option \<Rightarrow> bool \<Rightarrow> bool" where
  "BytesRange_testBytesRange r minv maxv hasNull =
     (if hasNull \<and> ar_nullAllowed r then True
      else (ar_lowerUnbounded r \<or> (case maxv of None \<Rightarrow> True
              | Some m \<Rightarrow> compareRanges m (byr_lower r) \<ge> (if ar_lowerExclusive r then 1 else 0))) \<and>
           (ar_upperUnbounded r \<or> (case minv of None \<Rightarrow> True
              | Some m \<Rightarrow> compareRanges m (byr_upper r) \<le> - (if ar_upperExclusive r then 1 else 0))))"

definition BytesRange_testLength :: "BytesRange \<Rightarrow> int \<Rightarrow> bool" where
  "BytesRange_testLength r len \<longleftrightarrow> \<not> byr_singleValue r \<or> int (length (byr_lower r)) = len"

text \<open>The vectorised test on lengths asserts that the range is a single value.\<close>

definition BytesRange_testLengths :: "BytesRange \<Rightarrow> int list \<Rightarrow> bool list" where
  "BytesRange_testLengths r lengths = map (\<lambda>l. l = int (length (byr_lower r))) lengths"

section \<open>\<open>NegatedBytesRange\<close>\<close>

record NegatedBytesRange =
  nyr_nonNegated :: BytesRange
  nyr_nullAllowed :: bool

definition NegatedBytesRange_new ::
    "string \<Rightarrow> bool \<Rightarrow> bool \<Rightarrow> string \<Rightarrow> bool \<Rightarrow> bool \<Rightarrow> bool \<Rightarrow> NegatedBytesRange res" where
  "NegatedBytesRange_new lower lowerUnbounded lowerExclusive upper upperUnbounded upperExclusive
     nullAllowed =
     rbind (BytesRange_new lower lowerUnbounded lowerExclusive upper upperUnbounded upperExclusive
       nullAllowed) (\<lambda>r. Inr \<lparr>nyr_nonNegated = r, nyr_nullAllowed = nullAllowed\<rparr>)"

definition NegatedBytesRange_testBytes :: "NegatedBytesRange \<Rightarrow> string \<Rightarrow> bool" where
  "NegatedBytesRange_testBytes r value \<longleftrightarrow> \<not> BytesRange_testBytes (nyr_nonNegated r) value"

definition NegatedBytesRange_testBytesRange ::
    "NegatedBytesRange \<Rightarrow> string option \<Rightarrow> string option \<Rightarrow> bool \<Rightarrow> bool res" where
  "NegatedBytesRange_testBytesRange r minv maxv hasNull =
     (if hasNull \<and> nyr_nullAllowed r then Inr True
      else if (minv = None \<and> \<not> ar_lowerUnbounded (nyr_nonNegated r)) \<or>
              (maxv = None \<and> \<not> ar_upperUnbounded (nyr_nonNegated r)) then Inr True
      else if minv \<noteq> None \<and> maxv \<noteq> None \<and> minv = maxv then
        rbind (deref minv) (\<lambda>m. Inr (NegatedBytesRange_testBytes r m))
      else rbind (deref minv) (\<lambda>m.
        if NegatedBytesRange_testBytes r m then Inr True
        else rbind (deref maxv) (\<lambda>m'. Inr (NegatedBytesRange_testBytes r m'))))"

section \<open>\<open>BytesValues\<close> and \<open>NegatedBytesValues\<close>\<close>

record BytesValues =
  byv_lower :: string
  byv_upper :: string
  byv_values :: "string set"
  byv_lengths :: "int set"
  byv_nullAllowed :: bool

text \<open>
  The constructor inserts every element of its vector into the two sets, so the order of the
  vector and its duplicates do not matter and it is given as the set of its elements.
\<close>

definition BytesValues_new :: "string set \<Rightarrow> bool \<Rightarrow> BytesValues res" where
  "BytesValues_new values nullAllowed =
     check (values \<noteq> {})
       (Inr \<lparr>byv_lower = Min values, byv_upper = Max values, byv_values = values,
             byv_lengths = (\<lambda>v. int (length v)) ` values, byv_nullAllowed = nullAllowed\<rparr>)"

definition BytesValues_testLength :: "BytesValues \<Rightarrow> int \<Rightarrow> bool" where
  "BytesValues_testLength f len \<longleftrightarrow> len \<in> byv_lengths f"

definition BytesValues_testBytes :: "BytesValues \<Rightarrow> string \<Rightarrow> bool" where
  "BytesValues_testBytes f value \<longleftrightarrow> int (length value) \<in> byv_lengths f \<and> value \<in> byv_values f"

definition BytesValues_testBytesRange ::
    "BytesValues \<Rightarrow> string option \<Rightarrow> string option \<Rightarrow> bool \<Rightarrow> bool" where
  "BytesValues_testBytesRange f minv maxv hasNull =
     (if hasNull \<and> byv_nullAllowed f then True
      else case (minv, maxv) of
        (Some m, Some m') \<Rightarrow>
          if m = m' then BytesValues_testBytes f m
          else if compareRanges m (byv_upper f) > 0 then False
          else if compareRanges m' (byv_lower f) < 0 then False else True
      | (Some m, None) \<Rightarrow> \<not> compareRanges m (byv_upper f) > 0
      | (None, Some m') \<Rightarrow> \<not> compareRanges m' (byv_lower f) < 0
      | (None, None) \<Rightarrow> True)"

record NegatedBytesValues =
  nyv_nonNegated :: BytesValues
  nyv_nullAllowed :: bool

definition NegatedBytesValues_new :: "string set \<Rightarrow> bool \<Rightarrow> NegatedBytesValues res" where
  "NegatedBytesValues_new values nullAllowed =
     check (values \<noteq> {})
       (rbind (BytesValues_new values (\<not> nullAllowed))
         (\<lambda>f. Inr \<lparr>nyv_nonNegated = f, nyv_nullAllowed = nullAllowed\<rparr>))"

definition NegatedBytesValues_testBytes :: "NegatedBytesValues \<Rightarrow> string \<Rightarrow> bool" where
  "NegatedBytesValues_testBytes f value \<longleftrightarrow> \<not> BytesValues_testBytes (nyv_nonNegated f) value"

definition NegatedBytesValues_testBytesRange ::
    "NegatedBytesValues \<Rightarrow> string option \<Rightarrow> string option \<Rightarrow> bool \<Rightarrow> bool" where
  "NegatedBytesValues_testBytesRange f minv maxv hasNull =
     (if hasNull \<and> nyv_nullAllowed f then True
      else if minv \<noteq> None \<and> maxv \<noteq> None \<and> minv = maxv then
        NegatedBytesValues_testBytes f (the minv)
      else True)"

section \<open>\<open>compareRanges\<close> is the order on strings\<close>

lemma compareRanges_simps [simp]:
  "compareRanges [] [] = 0"
  "compareRanges (a # as) [] = int (length as) + 1"
  "compareRanges [] (b # bs) = - int (length bs) - 1"
  "compareRanges (a # as) (b # bs) =
     (if a = b then compareRanges as bs else if a < b then - 1 else 1)"
  by (simp_all add: compareRanges_def Let_def)

lemma compareRanges_order:
  "(compareRanges s t < 0 \<longleftrightarrow> s < t) \<and> (compareRanges s t = 0 \<longleftrightarrow> s = t)"
proof (induction s arbitrary: t)
  case Nil
  then show ?case by (cases t) auto
next
  case (Cons a s)
  then show ?case by (cases t) (auto simp: Cons_less_Cons)
qed

lemma compareRanges_less [simp]: "compareRanges s t < 0 \<longleftrightarrow> s < t"
  and compareRanges_eq [simp]: "compareRanges s t = 0 \<longleftrightarrow> s = t"
  and compareRanges_greater [simp]: "0 < compareRanges s t \<longleftrightarrow> t < s"
  using compareRanges_order [of s t] by auto

lemma compareRanges_bounds [simp]:
  "0 \<le> compareRanges s t \<longleftrightarrow> t \<le> s" "compareRanges s t \<le> 0 \<longleftrightarrow> s \<le> t"
  "1 \<le> compareRanges s t \<longleftrightarrow> t < s" "compareRanges s t \<le> - 1 \<longleftrightarrow> s < t"
  using compareRanges_less [of s t] compareRanges_greater [of s t]
  by (simp_all only: not_less [symmetric]) linarith+

lemma memcmp_eq_0: "length s = length t \<Longrightarrow> memcmp s t = 0 \<longleftrightarrow> s = t"
  by (induction s t rule: memcmp.induct) auto

section \<open>What the string filters accept\<close>

text \<open>
  The reading of a range by its bounds. The early return for the empty string looks at the lower
  bound only, so the range must not exclude the empty string as its upper bound while it includes
  it as its lower bound; \<open>byr_inv\<close> rules that (empty) range out.
\<close>

definition bytes_between :: "BytesRange \<Rightarrow> string \<Rightarrow> bool" where
  "bytes_between r s \<longleftrightarrow>
     (ar_lowerUnbounded r \<or> byr_lower r < s \<or> (\<not> ar_lowerExclusive r \<and> byr_lower r = s)) \<and>
     (ar_upperUnbounded r \<or> s < byr_upper r \<or> (\<not> ar_upperExclusive r \<and> s = byr_upper r))"

definition byr_inv :: "BytesRange \<Rightarrow> bool" where
  "byr_inv r \<longleftrightarrow> (\<not> ar_lowerUnbounded r \<or> \<not> ar_upperUnbounded r) \<and>
     byr_singleValue r = (\<not> ar_lowerExclusive r \<and> \<not> ar_upperExclusive r \<and> \<not> ar_lowerUnbounded r \<and>
       \<not> ar_upperUnbounded r \<and> byr_lower r = byr_upper r) \<and>
     \<not> (\<not> ar_lowerUnbounded r \<and> byr_lower r = [] \<and> \<not> ar_lowerExclusive r \<and>
        \<not> ar_upperUnbounded r \<and> byr_upper r = [] \<and> ar_upperExclusive r)"

lemma BytesRange_testBytes_iff:
  assumes "byr_inv r"
  shows "BytesRange_testBytes r s \<longleftrightarrow> bytes_between r s"
proof (cases s)
  case Nil
  have "\<not> t < ([] :: string)" "([] :: string) < t \<longleftrightarrow> t \<noteq> []" for t
    by (cases t; simp)+
  with Nil assms show ?thesis
    by (auto simp: BytesRange_testBytes_def bytes_between_def byr_inv_def)
next
  case (Cons a as)
  show ?thesis
  proof (cases "byr_singleValue r")
    case True
    then have b: "\<not> ar_lowerExclusive r" "\<not> ar_upperExclusive r" "\<not> ar_lowerUnbounded r"
      "\<not> ar_upperUnbounded r" "byr_upper r = byr_lower r"
      using assms by (auto simp: byr_inv_def)
    have "bytes_between r s \<longleftrightarrow> byr_lower r = s"
      unfolding bytes_between_def using b by (metis less_asym)
    moreover have "BytesRange_testBytes r s \<longleftrightarrow> byr_lower r = s"
    proof -
      have "length s \<noteq> 0" using Cons by simp
      then show ?thesis
        using True memcmp_eq_0 [of s "byr_lower r"] unfolding BytesRange_testBytes_def
        by (cases "byr_lower r = s") simp_all
    qed
    ultimately show ?thesis by simp
  next
    case False
    have "s < t \<or> (e \<and> s = t) \<longleftrightarrow> \<not> (t < s \<or> (\<not> e \<and> t = s))" for t and e
      by (cases s t rule: linorder_cases) auto
    moreover have "length s \<noteq> 0" using Cons by simp
    ultimately show ?thesis
      using False unfolding BytesRange_testBytes_def bytes_between_def Let_def
      by simp blast
  qed
qed

lemma BytesRange_new_inv:
  "BytesRange_new l lu le u uu ue na = Inr r \<Longrightarrow>
     \<not> (\<not> lu \<and> l = [] \<and> \<not> le \<and> \<not> uu \<and> u = [] \<and> ue) \<Longrightarrow> byr_inv r"
  by (auto simp: BytesRange_new_def byr_inv_def)

text \<open>A range filter that passes the statistics test on a range of strings rejects only ranges it
  has no member in.\<close>

lemma BytesRange_testBytesRange_sound:
  assumes "byr_inv r" "bytes_between r s" "\<And>m. minv = Some m \<Longrightarrow> m \<le> s" "\<And>m. maxv = Some m \<Longrightarrow> s \<le> m"
  shows "BytesRange_testBytesRange r minv maxv hasNull"
proof -
  have "byr_lower r < m \<or> (\<not> ar_lowerExclusive r \<and> byr_lower r = m)"
    if "maxv = Some m" "\<not> ar_lowerUnbounded r" for m
    using assms(2) that(2) order.strict_trans2 [OF _ assms(4) [OF that(1)]]
      order.order_iff_strict [THEN iffD1, OF assms(4) [OF that(1)]] unfolding bytes_between_def by blast
  moreover have "m < byr_upper r \<or> (\<not> ar_upperExclusive r \<and> m = byr_upper r)"
    if "minv = Some m" "\<not> ar_upperUnbounded r" for m
    using assms(2) that(2) order.strict_trans1 [OF assms(3) [OF that(1)]]
      order.order_iff_strict [THEN iffD1, OF assms(3) [OF that(1)]] unfolding bytes_between_def by auto
  ultimately show ?thesis
    by (cases minv; cases maxv) (auto simp: BytesRange_testBytesRange_def le_less [of "t :: string" for t])
qed

definition byv_inv :: "BytesValues \<Rightarrow> bool" where
  "byv_inv f \<longleftrightarrow> finite (byv_values f) \<and> byv_values f \<noteq> {} \<and> byv_lower f = Min (byv_values f) \<and>
     byv_upper f = Max (byv_values f) \<and> byv_lengths f = (\<lambda>v. int (length v)) ` byv_values f"

lemma BytesValues_new_total:
  assumes "finite vs" "vs \<noteq> {}"
  shows "\<exists>f. BytesValues_new vs na = Inr f \<and> byv_inv f \<and> byv_values f = vs \<and> byv_nullAllowed f = na"
  using assms by (auto simp: BytesValues_new_def byv_inv_def)

lemma BytesValues_testBytes_iff: "byv_inv f \<Longrightarrow> BytesValues_testBytes f s \<longleftrightarrow> s \<in> byv_values f"
  by (auto simp: BytesValues_testBytes_def byv_inv_def)

lemma BytesValues_testBytesRange_sound:
  assumes "byv_inv f" "s \<in> byv_values f" "\<And>m. minv = Some m \<Longrightarrow> m \<le> s" "\<And>m. maxv = Some m \<Longrightarrow> s \<le> m"
  shows "BytesValues_testBytesRange f minv maxv hasNull"
proof -
  have "byv_lower f \<le> s" "s \<le> byv_upper f"
    using assms(1,2) by (simp_all add: byv_inv_def)
  moreover have "BytesValues_testBytes f m" if "minv = Some m" "maxv = Some m" for m
    using assms(2) order_antisym [OF assms(3) [OF that(1)] assms(4) [OF that(2)]]
    by (simp add: BytesValues_testBytes_iff [OF assms(1)])
  moreover have "m \<le> byv_upper f" if "minv = Some m" for m
    using assms(3) [OF that] \<open>s \<le> byv_upper f\<close> by (rule order_trans)
  moreover have "byv_lower f \<le> m" if "maxv = Some m" for m
    using \<open>byv_lower f \<le> s\<close> assms(4) [OF that] by (rule order_trans)
  ultimately show ?thesis
    by (cases minv; cases maxv) (auto simp: BytesValues_testBytesRange_def leD)
qed

end
