(* ===== verification/Filter_Dispatch.thy ===== *)
theory Filter_Dispatch
  imports Filter_Bigint_Range Filter_Bigint_Simd Filter_Bytes
begin

text \<open>
  The class \<open>Filter\<close> of \<open>velox/type/Filter.h\<close>: its virtual tests as a table of methods per class,
  the objects as one datatype with a constructor per \<open>FilterKind\<close>, the calls through the table and
  the copies.
\<close>

section \<open>The virtual methods of \<open>Filter\<close>\<close>

text \<open>
  A table of virtual methods. The methods that a class overrides with a vectorised version are
  \<open>Some\<close>; on the others the caller falls back to \<open>genericTestValues\<close>, which calls the scalar method.
  A method that no class overrides is \<open>VELOX_UNSUPPORTED\<close>, an error value here.
\<close>

record vtable =
  vt_testNull :: bool
  vt_testNonNull :: "bool res"
  vt_testBool :: "bool \<Rightarrow> bool res"
  vt_testInt64 :: "int \<Rightarrow> bool res"
  vt_testInt128 :: "int \<Rightarrow> bool res"
  vt_testDouble :: "64 word \<Rightarrow> bool res"
  vt_testFloat :: "32 word \<Rightarrow> bool res"
  vt_testBytes :: "string \<Rightarrow> bool res"
  vt_testTimestamp :: "Timestamp \<Rightarrow> bool res"
  vt_hasTestLength :: bool
  vt_testLength :: "int \<Rightarrow> bool res"
  vt_testInt64Range :: "int \<Rightarrow> int \<Rightarrow> bool \<Rightarrow> bool res"
  vt_testInt128Range :: "int \<Rightarrow> int \<Rightarrow> bool \<Rightarrow> bool res"
  vt_testDoubleRange :: "64 word \<Rightarrow> 64 word \<Rightarrow> bool \<Rightarrow> bool res"
  vt_testBytesRange :: "string option \<Rightarrow> string option \<Rightarrow> bool \<Rightarrow> bool res"
  vt_testTimestampRange :: "Timestamp \<Rightarrow> Timestamp \<Rightarrow> bool \<Rightarrow> bool res"
  vt_testValues64 :: "(int list \<Rightarrow> bool list res) option"
  vt_testValues32 :: "(int list \<Rightarrow> bool list res) option"
  vt_testValues16 :: "(int list \<Rightarrow> bool list res) option"
  vt_testValuesDouble :: "(64 word list \<Rightarrow> bool list res) option"
  vt_testValuesFloat :: "(32 word list \<Rightarrow> bool list res) option"
  vt_testLengths :: "(int list \<Rightarrow> bool list res) option"

text \<open>The methods of the base class.\<close>

definition Filter_methods :: "bool \<Rightarrow> vtable" where
  "Filter_methods nullAllowed =
     \<lparr>vt_testNull = nullAllowed, vt_testNonNull = Inl Unsupported,
      vt_testBool = (\<lambda>_. Inl Unsupported), vt_testInt64 = (\<lambda>_. Inl Unsupported),
      vt_testInt128 = (\<lambda>_. Inl Unsupported), vt_testDouble = (\<lambda>_. Inl Unsupported),
      vt_testFloat = (\<lambda>_. Inl Unsupported), vt_testBytes = (\<lambda>_. Inl Unsupported),
      vt_testTimestamp = (\<lambda>_. Inl Unsupported), vt_hasTestLength = False,
      vt_testLength = (\<lambda>_. Inl Unsupported), vt_testInt64Range = (\<lambda>_ _ _. Inl Unsupported),
      vt_testInt128Range = (\<lambda>_ _ _. Inl Unsupported),
      vt_testDoubleRange = (\<lambda>_ _ _. Inl Unsupported),
      vt_testBytesRange = (\<lambda>_ _ _. Inl Unsupported),
      vt_testTimestampRange = (\<lambda>_ _ _. Inl Unsupported),
      vt_testValues64 = None, vt_testValues32 = None, vt_testValues16 = None,
      vt_testValuesDouble = None, vt_testValuesFloat = None, vt_testLengths = None\<rparr>"

definition genericTestValues :: "('a \<Rightarrow> bool res) \<Rightarrow> 'a list \<Rightarrow> bool list res" where
  "genericTestValues testValue batch = rmap testValue batch"

section \<open>The filters that ignore the value\<close>

definition AlwaysFalse_methods :: vtable where
  "AlwaysFalse_methods = (Filter_methods False)
     \<lparr>vt_testNonNull := Inr False, vt_testInt64 := (\<lambda>_. Inr False),
      vt_testInt64Range := (\<lambda>_ _ _. Inr False), vt_testDouble := (\<lambda>_. Inr False),
      vt_testFloat := (\<lambda>_. Inr False), vt_testBool := (\<lambda>_. Inr False),
      vt_testBytes := (\<lambda>_. Inr False), vt_testBytesRange := (\<lambda>_ _ _. Inr False),
      vt_testTimestampRange := (\<lambda>_ _ _. Inr False), vt_testLength := (\<lambda>_. Inr False)\<rparr>"

definition AlwaysTrue_methods :: vtable where
  "AlwaysTrue_methods = (Filter_methods True)
     \<lparr>vt_testNull := True, vt_testNonNull := Inr True, vt_testInt64 := (\<lambda>_. Inr True),
      vt_testInt128 := (\<lambda>_. Inr True), vt_testInt64Range := (\<lambda>_ _ _. Inr True),
      vt_testDoubleRange := (\<lambda>_ _ _. Inr True), vt_testDouble := (\<lambda>_. Inr True),
      vt_testFloat := (\<lambda>_. Inr True), vt_testBool := (\<lambda>_. Inr True),
      vt_testBytes := (\<lambda>_. Inr True), vt_testBytesRange := (\<lambda>_ _ _. Inr True),
      vt_testTimestampRange := (\<lambda>_ _ _. Inr True), vt_testLength := (\<lambda>_. Inr True)\<rparr>"

definition IsNull_methods :: vtable where
  "IsNull_methods = (Filter_methods True)
     \<lparr>vt_testNonNull := Inr False, vt_testInt64 := (\<lambda>_. Inr False),
      vt_testInt64Range := (\<lambda>_ _ hasNull. Inr hasNull),
      vt_testDoubleRange := (\<lambda>_ _ hasNull. Inr hasNull), vt_testDouble := (\<lambda>_. Inr False),
      vt_testFloat := (\<lambda>_. Inr False), vt_testBool := (\<lambda>_. Inr False),
      vt_testBytes := (\<lambda>_. Inr False), vt_testTimestamp := (\<lambda>_. Inr False),
      vt_testBytesRange := (\<lambda>_ _ hasNull. Inr hasNull),
      vt_testTimestampRange := (\<lambda>_ _ hasNull. Inr hasNull), vt_testLength := (\<lambda>_. Inr False)\<rparr>"

definition IsNotNull_methods :: vtable where
  "IsNotNull_methods = (Filter_methods False)
     \<lparr>vt_testNonNull := Inr True, vt_testInt64 := (\<lambda>_. Inr True),
      vt_testInt64Range := (\<lambda>_ _ _. Inr True), vt_testDoubleRange := (\<lambda>_ _ _. Inr True),
      vt_testDouble := (\<lambda>_. Inr True), vt_testFloat := (\<lambda>_. Inr True),
      vt_testBool := (\<lambda>_. Inr True), vt_testBytes := (\<lambda>_. Inr True),
      vt_testTimestamp := (\<lambda>_. Inr True), vt_testBytesRange := (\<lambda>_ _ _. Inr True),
      vt_testTimestampRange := (\<lambda>_ _ _. Inr True), vt_testLength := (\<lambda>_. Inr True)\<rparr>"

definition BoolValue_testInt64Range :: "bool \<Rightarrow> bool \<Rightarrow> int \<Rightarrow> int \<Rightarrow> bool \<Rightarrow> bool" where
  "BoolValue_testInt64Range value nullAllowed minv maxv hasNull =
     (if hasNull \<and> nullAllowed then True
      else if value then minv \<noteq> 0 \<or> maxv \<noteq> 0
      else minv \<le> 0 \<and> maxv \<ge> 0)"

definition BoolValue_methods :: "bool \<Rightarrow> bool \<Rightarrow> vtable" where
  "BoolValue_methods value nullAllowed = (Filter_methods nullAllowed)
     \<lparr>vt_testBool := (\<lambda>b. Inr (value = b)), vt_testInt64 := (\<lambda>x. Inr (value = (x \<noteq> 0))),
      vt_testInt64Range := (\<lambda>a b n. Inr (BoolValue_testInt64Range value nullAllowed a b n))\<rparr>"

section \<open>The methods of the filters with a payload\<close>

definition BigintRange_methods :: "BigintRange \<Rightarrow> vtable" where
  "BigintRange_methods r = (Filter_methods (br_nullAllowed r))
     \<lparr>vt_testInt64 := (\<lambda>x. Inr (BigintRange_testInt64 r x)),
      vt_testValues64 := Some (\<lambda>xs. Inr (BigintRange_testValues64 r xs)),
      vt_testValues32 := Some (\<lambda>xs. Inr (BigintRange_testValues32 r xs)),
      vt_testValues16 := Some (\<lambda>xs. Inr (BigintRange_testValues16 r xs)),
      vt_testInt64Range := (\<lambda>a b n. Inr (BigintRange_testInt64Range r a b n))\<rparr>"

definition NegatedBigintRange_methods :: "NegatedBigintRange \<Rightarrow> vtable" where
  "NegatedBigintRange_methods r = (Filter_methods (nbr_nullAllowed r))
     \<lparr>vt_testInt64 := (\<lambda>x. Inr (NegatedBigintRange_testInt64 r x)),
      vt_testValues64 := Some (\<lambda>xs. Inr (NegatedBigintRange_testValues64 r xs)),
      vt_testValues32 := Some (\<lambda>xs. Inr (NegatedBigintRange_testValues32 r xs)),
      vt_testValues16 := Some (\<lambda>xs. Inr (NegatedBigintRange_testValues16 r xs)),
      vt_testInt64Range := (\<lambda>a b n. Inr (NegatedBigintRange_testInt64Range r a b n))\<rparr>"

definition HugeintRange_methods :: "HugeintRange \<Rightarrow> vtable" where
  "HugeintRange_methods r = (Filter_methods (hr_nullAllowed r))
     \<lparr>vt_testInt128 := (\<lambda>x. Inr (HugeintRange_testInt128 r x)),
      vt_testInt128Range := (\<lambda>a b n. Inr (HugeintRange_testInt128Range r a b n))\<rparr>"

definition BigintValuesUsingHashTable_methods :: "BigintValuesUsingHashTable \<Rightarrow> vtable" where
  "BigintValuesUsingHashTable_methods f = (Filter_methods (bvh_nullAllowed f))
     \<lparr>vt_testInt64 := (\<lambda>x. Inr (BigintValuesUsingHashTable_testInt64 f x)),
      vt_testValues64 := Some (BigintValuesUsingHashTable_testValues64 f),
      vt_testValues32 := Some (BigintValuesUsingHashTable_testValues32 f),
      vt_testValues16 := Some (BigintValuesUsingHashTable_testValues16 f),
      vt_testInt64Range := BigintValuesUsingHashTable_testInt64Range f\<rparr>"

definition HugeintValuesUsingHashTable_methods :: "HugeintValuesUsingHashTable \<Rightarrow> vtable" where
  "HugeintValuesUsingHashTable_methods f = (Filter_methods (hvh_nullAllowed f))
     \<lparr>vt_testInt128 := (\<lambda>x. Inr (HugeintValuesUsingHashTable_testInt128 f x))\<rparr>"

definition BigintValuesUsingBitmask_methods :: "BigintValuesUsingBitmask \<Rightarrow> vtable" where
  "BigintValuesUsingBitmask_methods f = (Filter_methods (bvb_nullAllowed f))
     \<lparr>vt_testInt64 := (\<lambda>x. Inr (BigintValuesUsingBitmask_testInt64 f x)),
      vt_testInt64Range := (\<lambda>a b n. Inr (BigintValuesUsingBitmask_testInt64Range f a b n))\<rparr>"

definition NegatedBigintValuesUsingHashTable_methods ::
    "NegatedBigintValuesUsingHashTable \<Rightarrow> vtable" where
  "NegatedBigintValuesUsingHashTable_methods f = (Filter_methods (nbh_nullAllowed f))
     \<lparr>vt_testInt64 := (\<lambda>x. Inr (NegatedBigintValuesUsingHashTable_testInt64 f x)),
      vt_testValues64 := Some (NegatedBigintValuesUsingHashTable_testValues64 f),
      vt_testValues32 := Some (NegatedBigintValuesUsingHashTable_testValues32 f),
      vt_testValues16 := Some (NegatedBigintValuesUsingHashTable_testValues16 f),
      vt_testInt64Range := NegatedBigintValuesUsingHashTable_testInt64Range f\<rparr>"

definition NegatedBigintValuesUsingBitmask_methods ::
    "NegatedBigintValuesUsingBitmask \<Rightarrow> vtable" where
  "NegatedBigintValuesUsingBitmask_methods f = (Filter_methods (nbb_nullAllowed f))
     \<lparr>vt_testInt64 := (\<lambda>x. Inr (NegatedBigintValuesUsingBitmask_testInt64 f x)),
      vt_testInt64Range := (\<lambda>a b n. Inr (NegatedBigintValuesUsingBitmask_testInt64Range f a b n))\<rparr>"

text \<open>
  The two instances of \<open>FloatingPointRange\<close>: the scalar test on the other type converts the value, the
  vectorised one is \<open>VELOX_FAIL\<close>.
\<close>

definition DoubleRange_methods :: "64 FloatingPointRange \<Rightarrow> vtable" where
  "DoubleRange_methods r = (Filter_methods (ar_nullAllowed r))
     \<lparr>vt_testDouble := (\<lambda>x. Inr (testFloatingPoint r x)),
      vt_testFloat := (\<lambda>x. Inr (testFloatingPoint r (float_to_double x))),
      vt_testValuesDouble := Some (\<lambda>xs. Inr (testFloatingPoints r xs)),
      vt_testValuesFloat := Some (\<lambda>_. Inl CheckFailed),
      vt_testDoubleRange := (\<lambda>a b n. Inr (FloatingPointRange_testDoubleRange r a b n))\<rparr>"

definition FloatRange_methods :: "32 FloatingPointRange \<Rightarrow> vtable" where
  "FloatRange_methods r = (Filter_methods (ar_nullAllowed r))
     \<lparr>vt_testDouble := (\<lambda>x. Inr (testFloatingPoint r (double_to_float x))),
      vt_testFloat := (\<lambda>x. Inr (testFloatingPoint r x)),
      vt_testValuesDouble := Some (\<lambda>_. Inl CheckFailed),
      vt_testValuesFloat := Some (\<lambda>xs. Inr (testFloatingPoints r xs)),
      vt_testDoubleRange := (\<lambda>a b n. Inr (FloatRange_testDoubleRange r a b n))\<rparr>"

definition BytesRange_methods :: "BytesRange \<Rightarrow> vtable" where
  "BytesRange_methods r = (Filter_methods (ar_nullAllowed r))
     \<lparr>vt_testBytes := (\<lambda>s. Inr (BytesRange_testBytes r s)),
      vt_testBytesRange := (\<lambda>a b n. Inr (BytesRange_testBytesRange r a b n)),
      vt_hasTestLength := byr_singleValue r,
      vt_testLength := (\<lambda>l. Inr (BytesRange_testLength r l)),
      vt_testLengths := Some (\<lambda>ls. Inr (BytesRange_testLengths r ls))\<rparr>"

definition NegatedBytesRange_methods :: "NegatedBytesRange \<Rightarrow> vtable" where
  "NegatedBytesRange_methods r = (Filter_methods (nyr_nullAllowed r))
     \<lparr>vt_testBytes := (\<lambda>s. Inr (NegatedBytesRange_testBytes r s)),
      vt_testBytesRange := NegatedBytesRange_testBytesRange r,
      vt_testLength := (\<lambda>_. Inr True)\<rparr>"

definition TimestampRange_methods :: "TimestampRange \<Rightarrow> vtable" where
  "TimestampRange_methods r = (Filter_methods (tsr_nullAllowed r))
     \<lparr>vt_testTimestamp := (\<lambda>t. Inr (TimestampRange_testTimestamp r t)),
      vt_testTimestampRange := (\<lambda>a b n. Inr (TimestampRange_testTimestampRange r a b n))\<rparr>"

definition BytesValues_methods :: "BytesValues \<Rightarrow> vtable" where
  "BytesValues_methods f = (Filter_methods (byv_nullAllowed f))
     \<lparr>vt_testLength := (\<lambda>l. Inr (BytesValues_testLength f l)),
      vt_testBytes := (\<lambda>s. Inr (BytesValues_testBytes f s)),
      vt_testBytesRange := (\<lambda>a b n. Inr (BytesValues_testBytesRange f a b n))\<rparr>"

definition BigintMultiRange_methods :: "BigintMultiRange \<Rightarrow> vtable" where
  "BigintMultiRange_methods f = (Filter_methods (bmr_nullAllowed f))
     \<lparr>vt_testInt64 := (\<lambda>x. Inr (BigintMultiRange_testInt64 f x)),
      vt_testInt64Range := (\<lambda>a b n. Inr (BigintMultiRange_testInt64Range f a b n))\<rparr>"

definition NegatedBytesValues_methods :: "NegatedBytesValues \<Rightarrow> vtable" where
  "NegatedBytesValues_methods f = (Filter_methods (nyv_nullAllowed f))
     \<lparr>vt_testLength := (\<lambda>_. Inr True),
      vt_testBytes := (\<lambda>s. Inr (NegatedBytesValues_testBytes f s)),
      vt_testBytesRange := (\<lambda>a b n. Inr (NegatedBytesValues_testBytesRange f a b n))\<rparr>"

section \<open>\<open>MultiRange\<close>\<close>

text \<open>The tests of a disjunction call the same test of its filters, given by their tables.\<close>

definition MultiRange_testDouble :: "vtable list \<Rightarrow> bool \<Rightarrow> 64 word \<Rightarrow> bool res" where
  "MultiRange_testDouble filters nanAllowed value =
     (if isnan value then Inr nanAllowed else rany (\<lambda>f. vt_testDouble f value) filters)"

definition MultiRange_testFloat :: "vtable list \<Rightarrow> bool \<Rightarrow> 32 word \<Rightarrow> bool res" where
  "MultiRange_testFloat filters nanAllowed value =
     (if isnan value then Inr nanAllowed else rany (\<lambda>f. vt_testFloat f value) filters)"

definition MultiRange_testBytes :: "vtable list \<Rightarrow> string \<Rightarrow> bool res" where
  "MultiRange_testBytes filters value = rany (\<lambda>f. vt_testBytes f value) filters"

definition MultiRange_testTimestamp :: "vtable list \<Rightarrow> Timestamp \<Rightarrow> bool res" where
  "MultiRange_testTimestamp filters timestamp = rany (\<lambda>f. vt_testTimestamp f timestamp) filters"

definition MultiRange_testLength :: "vtable list \<Rightarrow> int \<Rightarrow> bool res" where
  "MultiRange_testLength filters len = rany (\<lambda>f. vt_testLength f len) filters"

definition MultiRange_testBytesRange ::
    "vtable list \<Rightarrow> bool \<Rightarrow> string option \<Rightarrow> string option \<Rightarrow> bool \<Rightarrow> bool res" where
  "MultiRange_testBytesRange filters nullAllowed minv maxv hasNull =
     (if hasNull \<and> nullAllowed then Inr True
      else rany (\<lambda>f. vt_testBytesRange f minv maxv hasNull) filters)"

definition MultiRange_testDoubleRange ::
    "vtable list \<Rightarrow> bool \<Rightarrow> 64 word \<Rightarrow> 64 word \<Rightarrow> bool \<Rightarrow> bool res" where
  "MultiRange_testDoubleRange filters nullAllowed minv maxv hasNull =
     (if hasNull \<and> nullAllowed then Inr True
      else rany (\<lambda>f. vt_testDoubleRange f minv maxv hasNull) filters)"

definition MultiRange_methods :: "vtable list \<Rightarrow> bool \<Rightarrow> bool \<Rightarrow> vtable" where
  "MultiRange_methods filters nullAllowed nanAllowed = (Filter_methods nullAllowed)
     \<lparr>vt_testDouble := MultiRange_testDouble filters nanAllowed,
      vt_testFloat := MultiRange_testFloat filters nanAllowed,
      vt_testBytes := MultiRange_testBytes filters,
      vt_testTimestamp := MultiRange_testTimestamp filters,
      vt_testLength := MultiRange_testLength filters,
      vt_testBytesRange := MultiRange_testBytesRange filters nullAllowed,
      vt_testDoubleRange := MultiRange_testDoubleRange filters nullAllowed\<rparr>"

section \<open>Objects and virtual calls\<close>

text \<open>An object is tagged with its \<open>FilterKind\<close>.\<close>

datatype Filter =
    kAlwaysFalse
  | kAlwaysTrue
  | kIsNull
  | kIsNotNull
  | kBoolValue bool bool
  | kBigintRange BigintRange
  | kBigintValuesUsingHashTable BigintValuesUsingHashTable
  | kBigintValuesUsingBitmask BigintValuesUsingBitmask
  | kNegatedBigintRange NegatedBigintRange
  | kNegatedBigintValuesUsingHashTable NegatedBigintValuesUsingHashTable
  | kNegatedBigintValuesUsingBitmask NegatedBigintValuesUsingBitmask
  | kDoubleRange "64 FloatingPointRange"
  | kFloatRange "32 FloatingPointRange"
  | kBytesRange BytesRange
  | kNegatedBytesRange NegatedBytesRange
  | kBytesValues BytesValues
  | kNegatedBytesValues NegatedBytesValues
  | kBigintMultiRange BigintMultiRange
  | kMultiRange "Filter list" bool bool
  | kHugeintRange HugeintRange
  | kTimestampRange TimestampRange
  | kHugeintValuesUsingHashTable HugeintValuesUsingHashTable

text \<open>The table of the class of an object.\<close>

fun methods :: "Filter \<Rightarrow> vtable" where
  "methods kAlwaysFalse = AlwaysFalse_methods"
| "methods kAlwaysTrue = AlwaysTrue_methods"
| "methods kIsNull = IsNull_methods"
| "methods kIsNotNull = IsNotNull_methods"
| "methods (kBoolValue value nullAllowed) = BoolValue_methods value nullAllowed"
| "methods (kBigintRange r) = BigintRange_methods r"
| "methods (kBigintValuesUsingHashTable f) = BigintValuesUsingHashTable_methods f"
| "methods (kBigintValuesUsingBitmask f) = BigintValuesUsingBitmask_methods f"
| "methods (kNegatedBigintRange r) = NegatedBigintRange_methods r"
| "methods (kNegatedBigintValuesUsingHashTable f) = NegatedBigintValuesUsingHashTable_methods f"
| "methods (kNegatedBigintValuesUsingBitmask f) = NegatedBigintValuesUsingBitmask_methods f"
| "methods (kDoubleRange r) = DoubleRange_methods r"
| "methods (kFloatRange r) = FloatRange_methods r"
| "methods (kBytesRange r) = BytesRange_methods r"
| "methods (kNegatedBytesRange r) = NegatedBytesRange_methods r"
| "methods (kBytesValues f) = BytesValues_methods f"
| "methods (kNegatedBytesValues f) = NegatedBytesValues_methods f"
| "methods (kBigintMultiRange f) = BigintMultiRange_methods f"
| "methods (kMultiRange filters nullAllowed nanAllowed) =
     MultiRange_methods (map methods filters) nullAllowed nanAllowed"
| "methods (kHugeintRange r) = HugeintRange_methods r"
| "methods (kTimestampRange r) = TimestampRange_methods r"
| "methods (kHugeintValuesUsingHashTable f) = HugeintValuesUsingHashTable_methods f"

lemmas method_tables = Filter_methods_def AlwaysFalse_methods_def AlwaysTrue_methods_def
  IsNull_methods_def IsNotNull_methods_def BoolValue_methods_def BigintRange_methods_def
  NegatedBigintRange_methods_def HugeintRange_methods_def BigintValuesUsingHashTable_methods_def
  HugeintValuesUsingHashTable_methods_def BigintValuesUsingBitmask_methods_def
  NegatedBigintValuesUsingHashTable_methods_def NegatedBigintValuesUsingBitmask_methods_def
  DoubleRange_methods_def FloatRange_methods_def BytesRange_methods_def
  NegatedBytesRange_methods_def TimestampRange_methods_def BytesValues_methods_def
  BigintMultiRange_methods_def NegatedBytesValues_methods_def MultiRange_methods_def

text \<open>The virtual calls \<open>filter->testX(..)\<close>.\<close>

definition testNull :: "Filter \<Rightarrow> bool" where
  "testNull f = vt_testNull (methods f)"

definition testNonNull :: "Filter \<Rightarrow> bool res" where
  "testNonNull f = vt_testNonNull (methods f)"

definition testBool :: "Filter \<Rightarrow> bool \<Rightarrow> bool res" where
  "testBool f = vt_testBool (methods f)"

definition testInt64 :: "Filter \<Rightarrow> int \<Rightarrow> bool res" where
  "testInt64 f = vt_testInt64 (methods f)"

definition testInt128 :: "Filter \<Rightarrow> int \<Rightarrow> bool res" where
  "testInt128 f = vt_testInt128 (methods f)"

definition testDouble :: "Filter \<Rightarrow> 64 word \<Rightarrow> bool res" where
  "testDouble f = vt_testDouble (methods f)"

definition testFloat :: "Filter \<Rightarrow> 32 word \<Rightarrow> bool res" where
  "testFloat f = vt_testFloat (methods f)"

definition testBytes :: "Filter \<Rightarrow> string \<Rightarrow> bool res" where
  "testBytes f = vt_testBytes (methods f)"

definition testTimestamp :: "Filter \<Rightarrow> Timestamp \<Rightarrow> bool res" where
  "testTimestamp f = vt_testTimestamp (methods f)"

definition testLength :: "Filter \<Rightarrow> int \<Rightarrow> bool res" where
  "testLength f = vt_testLength (methods f)"

definition testInt64Range :: "Filter \<Rightarrow> int \<Rightarrow> int \<Rightarrow> bool \<Rightarrow> bool res" where
  "testInt64Range f = vt_testInt64Range (methods f)"

definition testInt128Range :: "Filter \<Rightarrow> int \<Rightarrow> int \<Rightarrow> bool \<Rightarrow> bool res" where
  "testInt128Range f = vt_testInt128Range (methods f)"

definition testDoubleRange :: "Filter \<Rightarrow> 64 word \<Rightarrow> 64 word \<Rightarrow> bool \<Rightarrow> bool res" where
  "testDoubleRange f = vt_testDoubleRange (methods f)"

definition testBytesRange :: "Filter \<Rightarrow> string option \<Rightarrow> string option \<Rightarrow> bool \<Rightarrow> bool res" where
  "testBytesRange f = vt_testBytesRange (methods f)"

definition testTimestampRange :: "Filter \<Rightarrow> Timestamp \<Rightarrow> Timestamp \<Rightarrow> bool \<Rightarrow> bool res" where
  "testTimestampRange f = vt_testTimestampRange (methods f)"

definition hasTestLength :: "Filter \<Rightarrow> bool" where
  "hasTestLength f = vt_hasTestLength (methods f)"

definition testValues64 :: "Filter \<Rightarrow> int list \<Rightarrow> bool list res" where
  "testValues64 f batch =
     (case vt_testValues64 (methods f) of Some test \<Rightarrow> test batch
      | None \<Rightarrow> genericTestValues (testInt64 f) batch)"

definition testValues32 :: "Filter \<Rightarrow> int list \<Rightarrow> bool list res" where
  "testValues32 f batch =
     (case vt_testValues32 (methods f) of Some test \<Rightarrow> test batch
      | None \<Rightarrow> genericTestValues (testInt64 f) batch)"

definition testValues16 :: "Filter \<Rightarrow> int list \<Rightarrow> bool list res" where
  "testValues16 f batch =
     (case vt_testValues16 (methods f) of Some test \<Rightarrow> test batch
      | None \<Rightarrow> genericTestValues (testInt64 f) batch)"

definition testValuesDouble :: "Filter \<Rightarrow> 64 word list \<Rightarrow> bool list res" where
  "testValuesDouble f batch =
     (case vt_testValuesDouble (methods f) of Some test \<Rightarrow> test batch
      | None \<Rightarrow> genericTestValues (testDouble f) batch)"

definition testValuesFloat :: "Filter \<Rightarrow> 32 word list \<Rightarrow> bool list res" where
  "testValuesFloat f batch =
     (case vt_testValuesFloat (methods f) of Some test \<Rightarrow> test batch
      | None \<Rightarrow> genericTestValues (testFloat f) batch)"

definition testLengths :: "Filter \<Rightarrow> int list \<Rightarrow> bool list res" where
  "testLengths f batch =
     (case vt_testLengths (methods f) of Some test \<Rightarrow> test batch
      | None \<Rightarrow> genericTestValues (testLength f) batch)"

text \<open>What the calls do on the objects of each class.\<close>

lemma testNull_simps [simp]:
  "testNull kAlwaysFalse = False"
  "testNull kAlwaysTrue = True"
  "testNull kIsNull = True"
  "testNull kIsNotNull = False"
  "testNull (kBoolValue value nullAllowed) = nullAllowed"
  "testNull (kBigintRange br) = br_nullAllowed br"
  "testNull (kBigintValuesUsingHashTable bh) = bvh_nullAllowed bh"
  "testNull (kBigintValuesUsingBitmask bb) = bvb_nullAllowed bb"
  "testNull (kNegatedBigintRange nr) = nbr_nullAllowed nr"
  "testNull (kNegatedBigintValuesUsingHashTable nh) = nbh_nullAllowed nh"
  "testNull (kNegatedBigintValuesUsingBitmask nb) = nbb_nullAllowed nb"
  "testNull (kDoubleRange dr) = ar_nullAllowed dr"
  "testNull (kFloatRange fr) = ar_nullAllowed fr"
  "testNull (kBytesRange yr) = ar_nullAllowed yr"
  "testNull (kNegatedBytesRange nyr) = nyr_nullAllowed nyr"
  "testNull (kBytesValues yv) = byv_nullAllowed yv"
  "testNull (kNegatedBytesValues nyv) = nyv_nullAllowed nyv"
  "testNull (kBigintMultiRange mr) = bmr_nullAllowed mr"
  "testNull (kMultiRange filters nullAllowed nanAllowed) = nullAllowed"
  "testNull (kHugeintRange hr) = hr_nullAllowed hr"
  "testNull (kTimestampRange tr) = tsr_nullAllowed tr"
  "testNull (kHugeintValuesUsingHashTable hv) = hvh_nullAllowed hv"
  by (simp_all add: testNull_def method_tables)

lemma testNonNull_simps [simp]:
  "testNonNull kAlwaysFalse = Inr False"
  "testNonNull kAlwaysTrue = Inr True"
  "testNonNull kIsNull = Inr False"
  "testNonNull kIsNotNull = Inr True"
  by (simp_all add: testNonNull_def method_tables)

lemma testBool_simps [simp]:
  "testBool kAlwaysFalse b = Inr False"
  "testBool kAlwaysTrue b = Inr True"
  "testBool kIsNull b = Inr False"
  "testBool kIsNotNull b = Inr True"
  "testBool (kBoolValue value nullAllowed) b = Inr (value = b)"
  by (simp_all add: testBool_def method_tables)

lemma testInt64_simps [simp]:
  "testInt64 kAlwaysFalse x = Inr False"
  "testInt64 kAlwaysTrue x = Inr True"
  "testInt64 kIsNull x = Inr False"
  "testInt64 kIsNotNull x = Inr True"
  "testInt64 (kBoolValue value nullAllowed) x = Inr (value = (x \<noteq> 0))"
  "testInt64 (kBigintRange br) x = Inr (BigintRange_testInt64 br x)"
  "testInt64 (kBigintValuesUsingHashTable bh) x = Inr (BigintValuesUsingHashTable_testInt64 bh x)"
  "testInt64 (kBigintValuesUsingBitmask bb) x = Inr (BigintValuesUsingBitmask_testInt64 bb x)"
  "testInt64 (kNegatedBigintRange nr) x = Inr (NegatedBigintRange_testInt64 nr x)"
  "testInt64 (kNegatedBigintValuesUsingHashTable nh) x =
     Inr (NegatedBigintValuesUsingHashTable_testInt64 nh x)"
  "testInt64 (kNegatedBigintValuesUsingBitmask nb) x =
     Inr (NegatedBigintValuesUsingBitmask_testInt64 nb x)"
  "testInt64 (kBigintMultiRange mr) x = Inr (BigintMultiRange_testInt64 mr x)"
  by (simp_all add: testInt64_def method_tables)

lemma testInt128_simps [simp]:
  "testInt128 kAlwaysTrue x = Inr True"
  "testInt128 (kHugeintRange hr) x = Inr (HugeintRange_testInt128 hr x)"
  "testInt128 (kHugeintValuesUsingHashTable hv) x = Inr (HugeintValuesUsingHashTable_testInt128 hv x)"
  by (simp_all add: testInt128_def method_tables)

lemma testDouble_simps [simp]:
  "testDouble kAlwaysFalse x = Inr False"
  "testDouble kAlwaysTrue x = Inr True"
  "testDouble kIsNull x = Inr False"
  "testDouble kIsNotNull x = Inr True"
  "testDouble (kDoubleRange dr) x = Inr (testFloatingPoint dr x)"
  "testDouble (kFloatRange fr) x = Inr (testFloatingPoint fr (double_to_float x))"
  "testDouble (kMultiRange filters nullAllowed nanAllowed) x =
     (if isnan x then Inr nanAllowed else rany (\<lambda>f. testDouble f x) filters)"
  by (simp_all add: testDouble_def method_tables
      MultiRange_testDouble_def rany_map)

lemma testFloat_simps [simp]:
  "testFloat kAlwaysFalse x = Inr False"
  "testFloat kAlwaysTrue x = Inr True"
  "testFloat kIsNull x = Inr False"
  "testFloat kIsNotNull x = Inr True"
  "testFloat (kDoubleRange dr) x = Inr (testFloatingPoint dr (float_to_double x))"
  "testFloat (kFloatRange fr) x = Inr (testFloatingPoint fr x)"
  "testFloat (kMultiRange filters nullAllowed nanAllowed) x =
     (if isnan x then Inr nanAllowed else rany (\<lambda>f. testFloat f x) filters)"
  by (simp_all add: testFloat_def method_tables
      MultiRange_testFloat_def rany_map)

lemma testBytes_simps [simp]:
  "testBytes kAlwaysFalse s = Inr False"
  "testBytes kAlwaysTrue s = Inr True"
  "testBytes kIsNull s = Inr False"
  "testBytes kIsNotNull s = Inr True"
  "testBytes (kBytesRange yr) s = Inr (BytesRange_testBytes yr s)"
  "testBytes (kNegatedBytesRange nyr) s = Inr (NegatedBytesRange_testBytes nyr s)"
  "testBytes (kBytesValues yv) s = Inr (BytesValues_testBytes yv s)"
  "testBytes (kNegatedBytesValues nyv) s = Inr (NegatedBytesValues_testBytes nyv s)"
  "testBytes (kMultiRange filters nullAllowed nanAllowed) s = rany (\<lambda>f. testBytes f s) filters"
  by (simp_all add: testBytes_def method_tables
      MultiRange_testBytes_def rany_map)

lemma testTimestamp_simps [simp]:
  "testTimestamp kIsNull t = Inr False"
  "testTimestamp kIsNotNull t = Inr True"
  "testTimestamp (kTimestampRange tr) t = Inr (TimestampRange_testTimestamp tr t)"
  "testTimestamp (kMultiRange filters nullAllowed nanAllowed) t = rany (\<lambda>f. testTimestamp f t) filters"
  by (simp_all add: testTimestamp_def method_tables
      MultiRange_testTimestamp_def rany_map)

lemma testLength_simps [simp]:
  "testLength kAlwaysFalse l = Inr False"
  "testLength kAlwaysTrue l = Inr True"
  "testLength kIsNull l = Inr False"
  "testLength kIsNotNull l = Inr True"
  "testLength (kBytesRange yr) l = Inr (BytesRange_testLength yr l)"
  "testLength (kNegatedBytesRange nyr) l = Inr True"
  "testLength (kBytesValues yv) l = Inr (BytesValues_testLength yv l)"
  "testLength (kNegatedBytesValues nyv) l = Inr True"
  "testLength (kMultiRange filters nullAllowed nanAllowed) l = rany (\<lambda>f. testLength f l) filters"
  by (simp_all add: testLength_def method_tables
      MultiRange_testLength_def rany_map)

lemma testInt64Range_simps [simp]:
  "testInt64Range kAlwaysFalse a b n = Inr False"
  "testInt64Range kAlwaysTrue a b n = Inr True"
  "testInt64Range kIsNull a b n = Inr n"
  "testInt64Range kIsNotNull a b n = Inr True"
  "testInt64Range (kBoolValue value nullAllowed) a b n =
     Inr (BoolValue_testInt64Range value nullAllowed a b n)"
  "testInt64Range (kBigintRange br) a b n = Inr (BigintRange_testInt64Range br a b n)"
  "testInt64Range (kBigintValuesUsingHashTable bh) a b n =
     BigintValuesUsingHashTable_testInt64Range bh a b n"
  "testInt64Range (kBigintValuesUsingBitmask bb) a b n =
     Inr (BigintValuesUsingBitmask_testInt64Range bb a b n)"
  "testInt64Range (kNegatedBigintRange nr) a b n = Inr (NegatedBigintRange_testInt64Range nr a b n)"
  "testInt64Range (kNegatedBigintValuesUsingHashTable nh) a b n =
     NegatedBigintValuesUsingHashTable_testInt64Range nh a b n"
  "testInt64Range (kNegatedBigintValuesUsingBitmask nb) a b n =
     Inr (NegatedBigintValuesUsingBitmask_testInt64Range nb a b n)"
  "testInt64Range (kBigintMultiRange mr) a b n = Inr (BigintMultiRange_testInt64Range mr a b n)"
  by (simp_all add: testInt64Range_def method_tables)

lemma testInt128Range_simps [simp]:
  "testInt128Range (kHugeintRange hr) a b n = Inr (HugeintRange_testInt128Range hr a b n)"
  by (simp_all add: testInt128Range_def method_tables)

lemma testDoubleRange_simps [simp]:
  "testDoubleRange kAlwaysTrue a b n = Inr True"
  "testDoubleRange kIsNull a b n = Inr n"
  "testDoubleRange kIsNotNull a b n = Inr True"
  "testDoubleRange (kDoubleRange dr) a b n = Inr (FloatingPointRange_testDoubleRange dr a b n)"
  "testDoubleRange (kFloatRange fr) a b n = Inr (FloatRange_testDoubleRange fr a b n)"
  "testDoubleRange (kMultiRange filters nullAllowed nanAllowed) a b n =
     (if n \<and> nullAllowed then Inr True else rany (\<lambda>f. testDoubleRange f a b n) filters)"
  by (simp_all add: testDoubleRange_def method_tables
      MultiRange_testDoubleRange_def rany_map)

lemma testBytesRange_simps [simp]:
  "testBytesRange kAlwaysFalse a b n = Inr False"
  "testBytesRange kAlwaysTrue a b n = Inr True"
  "testBytesRange kIsNull a b n = Inr n"
  "testBytesRange kIsNotNull a b n = Inr True"
  "testBytesRange (kBytesRange yr) a b n = Inr (BytesRange_testBytesRange yr a b n)"
  "testBytesRange (kNegatedBytesRange nyr) a b n = NegatedBytesRange_testBytesRange nyr a b n"
  "testBytesRange (kBytesValues yv) a b n = Inr (BytesValues_testBytesRange yv a b n)"
  "testBytesRange (kNegatedBytesValues nyv) a b n = Inr (NegatedBytesValues_testBytesRange nyv a b n)"
  "testBytesRange (kMultiRange filters nullAllowed nanAllowed) a b n =
     (if n \<and> nullAllowed then Inr True else rany (\<lambda>f. testBytesRange f a b n) filters)"
  by (simp_all add: testBytesRange_def method_tables
      MultiRange_testBytesRange_def rany_map)

lemma testTimestampRange_simps [simp]:
  "testTimestampRange kAlwaysFalse a b n = Inr False"
  "testTimestampRange kAlwaysTrue a b n = Inr True"
  "testTimestampRange kIsNull a b n = Inr n"
  "testTimestampRange kIsNotNull a b n = Inr True"
  "testTimestampRange (kTimestampRange tr) a b n = Inr (TimestampRange_testTimestampRange tr a b n)"
  by (simp_all add: testTimestampRange_def method_tables)

section \<open>Copies\<close>

text \<open>The copy constructors with a new null flag.\<close>

definition FloatingPointRange_copy ::
    "'w::len FloatingPointRange \<Rightarrow> bool \<Rightarrow> 'w FloatingPointRange res" where
  "FloatingPointRange_copy r nullAllowed =
     FloatingPointRange_new (fpr_lower r) (ar_lowerUnbounded r) (ar_lowerExclusive r)
       (fpr_upper r) (ar_upperUnbounded r) (ar_upperExclusive r) nullAllowed"

definition BigintValuesUsingHashTable_copy :: "BigintValuesUsingHashTable \<Rightarrow> bool \<Rightarrow> BigintValuesUsingHashTable" where
  "BigintValuesUsingHashTable_copy other nullAllowed = other\<lparr>bvh_nullAllowed := nullAllowed\<rparr>"

definition HugeintValuesUsingHashTable_copy :: "HugeintValuesUsingHashTable \<Rightarrow> bool \<Rightarrow> HugeintValuesUsingHashTable" where
  "HugeintValuesUsingHashTable_copy other nullAllowed = other\<lparr>hvh_nullAllowed := nullAllowed\<rparr>"

definition BigintValuesUsingBitmask_copy :: "BigintValuesUsingBitmask \<Rightarrow> bool \<Rightarrow> BigintValuesUsingBitmask" where
  "BigintValuesUsingBitmask_copy other nullAllowed = other\<lparr>bvb_nullAllowed := nullAllowed\<rparr>"

definition NegatedBigintValuesUsingHashTable_copy :: "NegatedBigintValuesUsingHashTable \<Rightarrow> bool \<Rightarrow> NegatedBigintValuesUsingHashTable" where
  "NegatedBigintValuesUsingHashTable_copy other nullAllowed = other\<lparr>nbh_nullAllowed := nullAllowed\<rparr>"

definition NegatedBigintValuesUsingBitmask_copy :: "NegatedBigintValuesUsingBitmask \<Rightarrow> bool \<Rightarrow> NegatedBigintValuesUsingBitmask" where
  "NegatedBigintValuesUsingBitmask_copy other nullAllowed = other\<lparr>nbb_nullAllowed := nullAllowed\<rparr>"

definition BytesRange_copy :: "BytesRange \<Rightarrow> bool \<Rightarrow> BytesRange" where
  "BytesRange_copy other nullAllowed = other\<lparr>ar_nullAllowed := nullAllowed\<rparr>"

definition NegatedBytesRange_copy :: "NegatedBytesRange \<Rightarrow> bool \<Rightarrow> NegatedBytesRange" where
  "NegatedBytesRange_copy other nullAllowed = other\<lparr>nyr_nullAllowed := nullAllowed\<rparr>"

definition BytesValues_copy :: "BytesValues \<Rightarrow> bool \<Rightarrow> BytesValues" where
  "BytesValues_copy other nullAllowed = other\<lparr>byv_nullAllowed := nullAllowed\<rparr>"

definition NegatedBytesValues_copy :: "NegatedBytesValues \<Rightarrow> bool \<Rightarrow> NegatedBytesValues" where
  "NegatedBytesValues_copy other nullAllowed = other\<lparr>nyv_nullAllowed := nullAllowed\<rparr>"

text \<open>\<open>std::optional::value_or\<close>.\<close>

definition value_or :: "'a option \<Rightarrow> 'a \<Rightarrow> 'a" where
  "value_or opt d = (case opt of None \<Rightarrow> d | Some a \<Rightarrow> a)"

text \<open>
  The overrides of \<open>clone\<close>: \<open>Some\<close> asks for a copy with that null flag, \<open>None\<close> for a plain copy.
\<close>

definition BoolValue_clone :: "bool \<Rightarrow> bool \<Rightarrow> bool option \<Rightarrow> bool \<times> bool" where
  "BoolValue_clone value n na = (case na of Some b \<Rightarrow> (value, b) | None \<Rightarrow> (value, n))"

definition BigintRange_clone :: "BigintRange \<Rightarrow> bool option \<Rightarrow> BigintRange" where
  "BigintRange_clone r na =
     (case na of Some b \<Rightarrow> BigintRange_new (br_lower r) (br_upper r) b | None \<Rightarrow> r)"

definition NegatedBigintRange_clone :: "NegatedBigintRange \<Rightarrow> bool option \<Rightarrow> NegatedBigintRange" where
  "NegatedBigintRange_clone r na =
     NegatedBigintRange_new (nbr_lower r) (nbr_upper r) (value_or na (nbr_nullAllowed r))"

definition HugeintRange_clone :: "HugeintRange \<Rightarrow> bool option \<Rightarrow> HugeintRange" where
  "HugeintRange_clone r na =
     (case na of Some b \<Rightarrow> HugeintRange_new (hr_lower r) (hr_upper r) b | None \<Rightarrow> r)"

definition TimestampRange_clone :: "TimestampRange \<Rightarrow> bool option \<Rightarrow> TimestampRange" where
  "TimestampRange_clone r na =
     (case na of Some b \<Rightarrow> TimestampRange_new (tsr_lower r) (tsr_upper r) b | None \<Rightarrow> r)"

definition FloatingPointRange_clone ::
    "'w::len FloatingPointRange \<Rightarrow> bool option \<Rightarrow> 'w FloatingPointRange res" where
  "FloatingPointRange_clone r na =
     (case na of Some b \<Rightarrow> FloatingPointRange_copy r b | None \<Rightarrow> Inr r)"

definition BigintValuesUsingHashTable_clone ::
    "BigintValuesUsingHashTable \<Rightarrow> bool option \<Rightarrow> BigintValuesUsingHashTable" where
  "BigintValuesUsingHashTable_clone f na = (case na of Some b \<Rightarrow> BigintValuesUsingHashTable_copy f b | None \<Rightarrow> f)"

definition HugeintValuesUsingHashTable_clone ::
    "HugeintValuesUsingHashTable \<Rightarrow> bool option \<Rightarrow> HugeintValuesUsingHashTable" where
  "HugeintValuesUsingHashTable_clone f na = (case na of Some b \<Rightarrow> HugeintValuesUsingHashTable_copy f b | None \<Rightarrow> f)"

definition BigintValuesUsingBitmask_clone ::
    "BigintValuesUsingBitmask \<Rightarrow> bool option \<Rightarrow> BigintValuesUsingBitmask" where
  "BigintValuesUsingBitmask_clone f na = (case na of Some b \<Rightarrow> BigintValuesUsingBitmask_copy f b | None \<Rightarrow> f)"

definition NegatedBigintValuesUsingHashTable_clone ::
    "NegatedBigintValuesUsingHashTable \<Rightarrow> bool option \<Rightarrow> NegatedBigintValuesUsingHashTable" where
  "NegatedBigintValuesUsingHashTable_clone f na = NegatedBigintValuesUsingHashTable_copy f (value_or na (nbh_nullAllowed f))"

definition NegatedBigintValuesUsingBitmask_clone ::
    "NegatedBigintValuesUsingBitmask \<Rightarrow> bool option \<Rightarrow> NegatedBigintValuesUsingBitmask" where
  "NegatedBigintValuesUsingBitmask_clone f na = NegatedBigintValuesUsingBitmask_copy f (value_or na (nbb_nullAllowed f))"

definition BytesRange_clone ::
    "BytesRange \<Rightarrow> bool option \<Rightarrow> BytesRange" where
  "BytesRange_clone f na = (case na of Some b \<Rightarrow> BytesRange_copy f b | None \<Rightarrow> f)"

definition NegatedBytesRange_clone ::
    "NegatedBytesRange \<Rightarrow> bool option \<Rightarrow> NegatedBytesRange" where
  "NegatedBytesRange_clone f na = NegatedBytesRange_copy f (value_or na (nyr_nullAllowed f))"

definition BytesValues_clone ::
    "BytesValues \<Rightarrow> bool option \<Rightarrow> BytesValues" where
  "BytesValues_clone f na = (case na of Some b \<Rightarrow> BytesValues_copy f b | None \<Rightarrow> f)"

definition NegatedBytesValues_clone ::
    "NegatedBytesValues \<Rightarrow> bool option \<Rightarrow> NegatedBytesValues" where
  "NegatedBytesValues_clone f na = NegatedBytesValues_copy f (value_or na (nyv_nullAllowed f))"

definition BigintMultiRange_clone :: "BigintMultiRange \<Rightarrow> bool option \<Rightarrow> BigintMultiRange res" where
  "BigintMultiRange_clone f na =
     (case na of Some b \<Rightarrow> BigintMultiRange_new (bmr_ranges f) b
      | None \<Rightarrow> BigintMultiRange_new (bmr_ranges f) (bmr_nullAllowed f))"

text \<open>\<open>MultiRange::clone\<close> after its loop has copied the filters.\<close>

definition MultiRange_clone :: "Filter list \<Rightarrow> bool \<Rightarrow> bool \<Rightarrow> bool option \<Rightarrow> Filter" where
  "MultiRange_clone filters n nan na =
     (case na of Some b \<Rightarrow> kMultiRange filters b nan | None \<Rightarrow> kMultiRange filters n nan)"

fun clone :: "Filter \<Rightarrow> bool option \<Rightarrow> Filter res" where
  "clone kAlwaysFalse na = Inr kAlwaysFalse"
| "clone kAlwaysTrue na = Inr kAlwaysTrue"
| "clone kIsNull na = Inr kIsNull"
| "clone kIsNotNull na = Inr kIsNotNull"
| "clone (kBoolValue v n) na = Inr (case BoolValue_clone v n na of (v, n) \<Rightarrow> kBoolValue v n)"
| "clone (kBigintRange r) na = Inr (kBigintRange (BigintRange_clone r na))"
| "clone (kBigintValuesUsingHashTable f) na =
     Inr (kBigintValuesUsingHashTable (BigintValuesUsingHashTable_clone f na))"
| "clone (kBigintValuesUsingBitmask f) na =
     Inr (kBigintValuesUsingBitmask (BigintValuesUsingBitmask_clone f na))"
| "clone (kNegatedBigintRange r) na = Inr (kNegatedBigintRange (NegatedBigintRange_clone r na))"
| "clone (kNegatedBigintValuesUsingHashTable f) na =
     Inr (kNegatedBigintValuesUsingHashTable (NegatedBigintValuesUsingHashTable_clone f na))"
| "clone (kNegatedBigintValuesUsingBitmask f) na =
     Inr (kNegatedBigintValuesUsingBitmask (NegatedBigintValuesUsingBitmask_clone f na))"
| "clone (kDoubleRange r) na = rbind (FloatingPointRange_clone r na) (\<lambda>c. Inr (kDoubleRange c))"
| "clone (kFloatRange r) na = rbind (FloatingPointRange_clone r na) (\<lambda>c. Inr (kFloatRange c))"
| "clone (kBytesRange r) na = Inr (kBytesRange (BytesRange_clone r na))"
| "clone (kNegatedBytesRange r) na = Inr (kNegatedBytesRange (NegatedBytesRange_clone r na))"
| "clone (kBytesValues f) na = Inr (kBytesValues (BytesValues_clone f na))"
| "clone (kNegatedBytesValues f) na = Inr (kNegatedBytesValues (NegatedBytesValues_clone f na))"
| "clone (kBigintMultiRange f) na =
     rbind (BigintMultiRange_clone f na) (\<lambda>c. Inr (kBigintMultiRange c))"
| "clone (kMultiRange filters n nan) na =
     rbind (rmap (\<lambda>f. clone f None) filters) (\<lambda>fs. Inr (MultiRange_clone fs n nan na))"
| "clone (kHugeintRange r) na = Inr (kHugeintRange (HugeintRange_clone r na))"
| "clone (kTimestampRange r) na = Inr (kTimestampRange (TimestampRange_clone r na))"
| "clone (kHugeintValuesUsingHashTable f) na =
     Inr (kHugeintValuesUsingHashTable (HugeintValuesUsingHashTable_clone f na))"

lemmas clone_defs = BoolValue_clone_def BigintRange_clone_def NegatedBigintRange_clone_def
  HugeintRange_clone_def TimestampRange_clone_def FloatingPointRange_clone_def
  BigintMultiRange_clone_def MultiRange_clone_def
  BigintValuesUsingHashTable_clone_def BigintValuesUsingHashTable_copy_def
  HugeintValuesUsingHashTable_clone_def HugeintValuesUsingHashTable_copy_def
  BigintValuesUsingBitmask_clone_def BigintValuesUsingBitmask_copy_def
  NegatedBigintValuesUsingHashTable_clone_def NegatedBigintValuesUsingHashTable_copy_def
  NegatedBigintValuesUsingBitmask_clone_def NegatedBigintValuesUsingBitmask_copy_def
  BytesRange_clone_def BytesRange_copy_def
  NegatedBytesRange_clone_def NegatedBytesRange_copy_def
  BytesValues_clone_def BytesValues_copy_def
  NegatedBytesValues_clone_def NegatedBytesValues_copy_def

end
