(* ===== verification/Filter_Merge.thy ===== *)
theory Filter_Merge
  imports Filter_Dispatch
begin

text \<open>
  \<open>Filter::mergeWith\<close>, the conjunction of two filters (\<open>velox/type/Filter.cpp\<close>): one definition
  per class, in the order of the source. The virtual call \<open>other->mergeWith(this)\<close> is the
  argument \<open>mrg\<close>, so that each definition is the body of one method; \<open>mergeWith\<close> ties the knot
  with a bound on the depth of the dispatch.
\<close>

type_synonym dispatch = "Filter \<Rightarrow> Filter \<Rightarrow> Filter res"

section \<open>Constructing filters from values and ranges\<close>

definition nullOrFalse :: "bool \<Rightarrow> Filter" where
  "nullOrFalse nullAllowed = (if nullAllowed then kIsNull else kAlwaysFalse)"

definition notNullOrTrue :: "bool \<Rightarrow> Filter" where
  "notNullOrTrue nullAllowed = (if nullAllowed then kAlwaysTrue else kIsNotNull)"

text \<open>The loop that finds the least and the greatest value.\<close>

definition min_max_step :: "int \<times> int \<Rightarrow> int \<Rightarrow> int \<times> int" where
  "min_max_step s value =
     (if value > snd s then (fst s, value) else if value < fst s then (value, snd s) else s)"

definition min_max_loop :: "int list \<Rightarrow> int \<times> int" where
  "min_max_loop values = foldl min_max_step (hd values, hd values) (tl values)"

definition createBigintValuesFilter :: "int list \<Rightarrow> bool \<Rightarrow> bool \<Rightarrow> Filter res" where
  "createBigintValuesFilter values nullAllowed negated =
     (let single = (\<lambda>lower upper.
            if negated then Inr (kNegatedBigintRange (NegatedBigintRange_new lower upper nullAllowed))
            else Inr (kBigintRange (BigintRange_new lower upper nullAllowed)));
          bitmask = (\<lambda>minv maxv.
            if negated then rbind (NegatedBigintValuesUsingBitmask_new minv maxv values nullAllowed)
              (\<lambda>f. Inr (kNegatedBigintValuesUsingBitmask f))
            else rbind (BigintValuesUsingBitmask_new minv maxv values nullAllowed)
              (\<lambda>f. Inr (kBigintValuesUsingBitmask f)));
          hashTable = (\<lambda>minv maxv.
            if negated then rbind (NegatedBigintValuesUsingHashTable_new minv maxv values nullAllowed)
              (\<lambda>f. Inr (kNegatedBigintValuesUsingHashTable f))
            else rbind (BigintValuesUsingHashTable_new minv maxv values nullAllowed)
              (\<lambda>f. Inr (kBigintValuesUsingHashTable f)))
      in if values = [] then
           if negated then Inr (notNullOrTrue nullAllowed) else Inr (nullOrFalse nullAllowed)
         else if length values = 1 then single (hd values) (hd values)
         else let minv = fst (min_max_loop values); maxv = snd (min_max_loop values);
                  rg = maxv - minv
              in if i64 rg then
                   if rg + 1 = int (length values) then single minv maxv
                   else if rg < 32 * 64 \<or> rg < int (length values) * 4 * 64 then bitmask minv maxv
                   else hashTable minv maxv
                 else hashTable minv maxv)"

definition createBigintValues :: "int list \<Rightarrow> bool \<Rightarrow> Filter res" where
  "createBigintValues values nullAllowed = createBigintValuesFilter values nullAllowed False"

definition createNegatedBigintValues :: "int list \<Rightarrow> bool \<Rightarrow> Filter res" where
  "createNegatedBigintValues values nullAllowed = createBigintValuesFilter values nullAllowed True"

definition combineBigintRanges :: "BigintRange list \<Rightarrow> bool \<Rightarrow> Filter res" where
  "combineBigintRanges ranges nullAllowed =
     (if ranges = [] then Inr (nullOrFalse nullAllowed)
      else if length ranges = 1 then
        Inr (kBigintRange (BigintRange_new (br_lower (hd ranges)) (br_upper (hd ranges)) nullAllowed))
      else rbind (BigintMultiRange_new ranges nullAllowed) (\<lambda>f. Inr (kBigintMultiRange f)))"

text \<open>
  The loop over the rejected values from \<open>it\<close> on, inside one range: the pieces of the range that
  were pushed and the final value of \<open>start\<close>.
\<close>

fun split_at_rejects ::
    "BigintRange \<Rightarrow> int \<Rightarrow> int list \<Rightarrow> (BigintRange list \<times> int) res" where
  "split_at_rejects rg start [] = Inr ([], start)"
| "split_at_rejects rg start (it # rest) =
     rbind (i64_sub it 1) (\<lambda>end.
       if start \<ge> br_lower rg \<and> end < br_upper rg then
         rbind (i64_add it 1) (\<lambda>start'.
           rbind (split_at_rejects rg start' rest) (\<lambda>(out, last).
             Inr ((if start \<le> end then [BigintRange_new start end False] else []) @ out, last)))
       else Inr ([], start))"

definition rejects_in_range :: "int list \<Rightarrow> BigintRange \<Rightarrow> BigintRange list res" where
  "rejects_in_range rejects rg =
     rbind (split_at_rejects rg (br_lower rg)
             (drop (lower_bound rejects (br_lower rg)) rejects)) (\<lambda>(out, start).
       let end = br_upper rg
       in Inr (out @ (if start \<le> end \<and> start \<ge> br_lower rg \<and> end \<le> br_upper rg
                      then [BigintRange_new start end False] else [])))"

definition combineRangesAndNegatedValues ::
    "BigintRange list \<Rightarrow> int list \<Rightarrow> bool \<Rightarrow> Filter res" where
  "combineRangesAndNegatedValues ranges rejects nullAllowed =
     rbind (rmap (rejects_in_range rejects) ranges) (\<lambda>outRanges.
       combineBigintRanges (concat outRanges) nullAllowed)"

function (sequential) merge_rejected :: "int list \<Rightarrow> int list \<Rightarrow> int list" where
  "merge_rejected (a # as) (b # bs) =
     (let lo = min a b
      in lo # merge_rejected (if lo = a then as else a # as) (if lo = b then bs else b # bs))"
| "merge_rejected [] bs = bs"
| "merge_rejected as [] = as"
  by pat_completeness auto

termination merge_rejected
  by (relation "measure (\<lambda>(as, bs). length as + length bs)") (auto simp: min_def)

definition combineNegatedBigintLists :: "int list \<Rightarrow> int list \<Rightarrow> bool \<Rightarrow> Filter res" where
  "combineNegatedBigintLists first second nullAllowed =
     createNegatedBigintValues (merge_rejected first second) nullAllowed"

definition cut_negated :: "int \<Rightarrow> int \<Rightarrow> BigintRange \<Rightarrow> BigintRange list res" where
  "cut_negated negatedLower negatedUpper r =
     (if negatedUpper < br_lower r \<or> br_upper r < negatedLower then
        Inr [BigintRange_new (br_lower r) (br_upper r) False]
      else
        rbind (if br_lower r < negatedLower then
                 rbind (i64_sub negatedLower 1) (\<lambda>u. Inr [BigintRange_new (br_lower r) u False])
               else Inr []) (\<lambda>left.
        rbind (if negatedUpper < br_upper r then
                 rbind (i64_add negatedUpper 1) (\<lambda>l. Inr [BigintRange_new l (br_upper r) False])
               else Inr []) (\<lambda>right. Inr (left @ right))))"

definition combineNegatedRangeOnIntRanges ::
    "int \<Rightarrow> int \<Rightarrow> BigintRange list \<Rightarrow> bool \<Rightarrow> Filter res" where
  "combineNegatedRangeOnIntRanges negatedLower negatedUpper ranges nullAllowed =
     rbind (rmap (cut_negated negatedLower negatedUpper) ranges) (\<lambda>outRanges.
       combineBigintRanges (concat outRanges) nullAllowed)"

text \<open>The loop with the iterators \<open>back\<close> and \<open>front\<close>: the gaps between neighbouring values.\<close>

fun negated_gaps :: "int list \<Rightarrow> BigintRange list res" where
  "negated_gaps (back # front # rest) =
     rbind (i64_add back 1) (\<lambda>l. rbind (i64_sub front 1) (\<lambda>u.
       rbind (negated_gaps (front # rest)) (\<lambda>out.
         Inr ((if l \<le> u then [BigintRange_new l u False] else []) @ out))))"
| "negated_gaps [back] =
     (if back < INT64_MAX
      then rbind (i64_add back 1) (\<lambda>l. Inr [BigintRange_new l INT64_MAX False])
      else Inr [])"
| "negated_gaps [] = Inl OutOfRange"

definition negatedValuesToRanges :: "int list \<Rightarrow> BigintRange list res" where
  "negatedValuesToRanges values =
     (if values = [] then Inl OutOfRange
      else rbind (if hd values > INT64_MIN
                  then rbind (i64_sub (hd values) 1) (\<lambda>u. Inr [BigintRange_new INT64_MIN u False])
                  else Inr []) (\<lambda>first.
           rbind (negated_gaps values) (\<lambda>rest. Inr (first @ rest))))"

section \<open>Null filters and booleans\<close>

text \<open>Every class passes \<open>true\<close> for \<open>isDeterministic\<close>, so the check of \<open>IsNull\<close> never fails.\<close>

definition IsNull_mergeWith :: "Filter \<Rightarrow> Filter res" where
  "IsNull_mergeWith other = (if testNull other then Inr kIsNull else Inr kAlwaysFalse)"

definition IsNotNull_mergeWith :: "dispatch \<Rightarrow> Filter \<Rightarrow> Filter res" where
  "IsNotNull_mergeWith mrg other =
     (case other of
        kAlwaysTrue \<Rightarrow> Inr kIsNotNull
      | kIsNotNull \<Rightarrow> Inr kIsNotNull
      | kAlwaysFalse \<Rightarrow> Inr kAlwaysFalse
      | kIsNull \<Rightarrow> Inr kAlwaysFalse
      | _ \<Rightarrow> mrg other kIsNotNull)"

definition BoolValue_mergeWith :: "dispatch \<Rightarrow> bool \<Rightarrow> bool \<Rightarrow> Filter \<Rightarrow> Filter res" where
  "BoolValue_mergeWith mrg value nullAllowed other =
     (case other of
        kAlwaysTrue \<Rightarrow> mrg other (kBoolValue value nullAllowed)
      | kAlwaysFalse \<Rightarrow> mrg other (kBoolValue value nullAllowed)
      | kIsNull \<Rightarrow> mrg other (kBoolValue value nullAllowed)
      | kIsNotNull \<Rightarrow> Inr (kBoolValue value False)
      | kBoolValue _ _ \<Rightarrow>
          (let bothNullAllowed = nullAllowed \<and> testNull other
           in rbind (testBool other value) (\<lambda>b.
                Inr (if b then kBoolValue value bothNullAllowed else nullOrFalse bothNullAllowed)))
      | _ \<Rightarrow> Inl Unreachable)"

section \<open>Integer filters\<close>

text \<open>The loop of \<open>BigintRange::mergeWith\<close> over the ranges of a \<open>BigintMultiRange\<close>.\<close>

fun merge_each_range :: "(BigintRange \<Rightarrow> Filter res) \<Rightarrow> BigintRange list \<Rightarrow> BigintRange list res" where
  "merge_each_range mergeRange [] = Inr []"
| "merge_each_range mergeRange (rg # ranges) =
     rbind (mergeRange rg) (\<lambda>merged.
       case merged of
         kBigintRange r \<Rightarrow> rbind (merge_each_range mergeRange ranges) (\<lambda>out. Inr (r # out))
       | _ \<Rightarrow> check (merged = kAlwaysFalse) (merge_each_range mergeRange ranges))"

definition BigintRange_mergeWith :: "dispatch \<Rightarrow> BigintRange \<Rightarrow> Filter \<Rightarrow> Filter res" where
  "BigintRange_mergeWith mrg this other =
     (let bothNullAllowed = br_nullAllowed this \<and> testNull other;
          withRejects = (\<lambda>values.
            rbind (testInt64Range other (br_lower this) (br_upper this) False) (\<lambda>some.
              if \<not> some then Inr (nullOrFalse bothNullAllowed)
              else combineRangesAndNegatedValues
                [BigintRange_new (br_lower this) (br_upper this) False] values bothNullAllowed))
      in case other of
           kAlwaysTrue \<Rightarrow> mrg other (kBigintRange this)
         | kAlwaysFalse \<Rightarrow> mrg other (kBigintRange this)
         | kIsNull \<Rightarrow> mrg other (kBigintRange this)
         | kIsNotNull \<Rightarrow> Inr (kBigintRange (BigintRange_new (br_lower this) (br_upper this) False))
         | kBigintRange otherRange \<Rightarrow>
             (let lower = max (br_lower this) (br_lower otherRange);
                  upper = min (br_upper this) (br_upper otherRange)
              in if lower \<le> upper then Inr (kBigintRange (BigintRange_new lower upper bothNullAllowed))
                 else Inr (nullOrFalse bothNullAllowed))
         | kNegatedBigintRange _ \<Rightarrow> mrg other (kBigintRange this)
         | kBigintValuesUsingBitmask _ \<Rightarrow> mrg other (kBigintRange this)
         | kBigintValuesUsingHashTable _ \<Rightarrow> mrg other (kBigintRange this)
         | kBigintMultiRange otherMultiRange \<Rightarrow>
             rbind (merge_each_range (\<lambda>rg. mrg (kBigintRange this) (kBigintRange rg))
                     (bmr_ranges otherMultiRange)) (\<lambda>newRanges.
               combineBigintRanges newRanges bothNullAllowed)
         | kNegatedBigintValuesUsingBitmask otherNegated \<Rightarrow>
             withRejects (NegatedBigintValuesUsingBitmask_values otherNegated)
         | kNegatedBigintValuesUsingHashTable otherNegated \<Rightarrow>
             withRejects (nbh_values otherNegated)
         | _ \<Rightarrow> Inl Unreachable)"

definition TimestampRange_mergeWith :: "dispatch \<Rightarrow> TimestampRange \<Rightarrow> Filter \<Rightarrow> Filter res" where
  "TimestampRange_mergeWith mrg this other =
     (case other of
        kAlwaysTrue \<Rightarrow> mrg other (kTimestampRange this)
      | kAlwaysFalse \<Rightarrow> mrg other (kTimestampRange this)
      | kIsNull \<Rightarrow> mrg other (kTimestampRange this)
      | kIsNotNull \<Rightarrow> clone (kTimestampRange this) (Some False)
      | kTimestampRange otherRange \<Rightarrow>
          (let bothNullAllowed = tsr_nullAllowed this \<and> testNull other;
               lower = max (tsr_lower this) (tsr_lower otherRange);
               upper = min (tsr_upper this) (tsr_upper otherRange)
           in if lower \<le> upper then Inr (kTimestampRange (TimestampRange_new lower upper bothNullAllowed))
              else Inr (nullOrFalse bothNullAllowed))
      | _ \<Rightarrow> Inl Unreachable)"

text \<open>Two rejected ranges: the gap between them, when there is one, becomes a range of its own.\<close>

definition merge_negated_ranges ::
    "dispatch \<Rightarrow> NegatedBigintRange \<Rightarrow> NegatedBigintRange \<Rightarrow> bool \<Rightarrow> Filter res" where
  "merge_negated_ranges mrg this otherNegatedRange bothNullAllowed =
     (if nbr_lower this > nbr_lower otherNegatedRange then
        mrg (kNegatedBigintRange otherNegatedRange) (kNegatedBigintRange this)
      else rbind (i64_add (nbr_upper this) 1) (\<lambda>next.
        if next < nbr_lower otherNegatedRange then
          let smallLower = nbr_lower this; smallUpper = nbr_upper this;
              bigLower = nbr_lower otherNegatedRange; bigUpper = nbr_upper otherNegatedRange
          in rbind (if smallLower > INT64_MIN then
                      rbind (i64_sub smallLower 1) (\<lambda>u. Inr [BigintRange_new INT64_MIN u False])
                    else Inr []) (\<lambda>r1.
             rbind (if smallUpper < INT64_MAX \<and> bigLower > INT64_MIN then
                      rbind (i64_add smallUpper 1) (\<lambda>l. rbind (i64_sub bigLower 1) (\<lambda>u.
                        Inr [BigintRange_new l u False]))
                    else Inr []) (\<lambda>r2.
             rbind (if bigUpper < INT64_MAX then
                      rbind (i64_add bigUpper 1) (\<lambda>l. Inr [BigintRange_new l INT64_MAX False])
                    else Inr []) (\<lambda>r3.
               combineBigintRanges (r1 @ r2 @ r3) bothNullAllowed)))
        else Inr (kNegatedBigintRange (NegatedBigintRange_new (nbr_lower this)
               (max (nbr_upper this) (nbr_upper otherNegatedRange)) bothNullAllowed))))"

definition NegatedBigintRange_mergeWith :: "dispatch \<Rightarrow> NegatedBigintRange \<Rightarrow> Filter \<Rightarrow> Filter res" where
  "NegatedBigintRange_mergeWith mrg this other =
     (let bothNullAllowed = nbr_nullAllowed this \<and> testNull other;
          withRejects = (\<lambda>rejectedValues.
            if br_isSingleValue (nbr_nonNegated this) then
              rbind (testInt64 other (nbr_lower this)) (\<lambda>passes.
                createNegatedBigintValues
                  (rejectedValues @ (if passes then [nbr_lower this] else [])) bothNullAllowed)
            else rbind (negatedValuesToRanges rejectedValues) (\<lambda>ranges.
                combineNegatedRangeOnIntRanges (nbr_lower this) (nbr_upper this) ranges
                  bothNullAllowed))
      in case other of
           kAlwaysTrue \<Rightarrow> mrg other (kNegatedBigintRange this)
         | kAlwaysFalse \<Rightarrow> mrg other (kNegatedBigintRange this)
         | kIsNull \<Rightarrow> mrg other (kNegatedBigintRange this)
         | kIsNotNull \<Rightarrow> clone (kNegatedBigintRange this) (Some False)
         | kBigintRange otherRange \<Rightarrow>
             combineNegatedRangeOnIntRanges (nbr_lower this) (nbr_upper this)
               [BigintRange_new (br_lower otherRange) (br_upper otherRange) False] bothNullAllowed
         | kNegatedBigintRange otherNegatedRange \<Rightarrow>
             merge_negated_ranges mrg this otherNegatedRange bothNullAllowed
         | kBigintMultiRange otherMultiRanges \<Rightarrow>
             combineNegatedRangeOnIntRanges (nbr_lower this) (nbr_upper this)
               (bmr_ranges otherMultiRanges) bothNullAllowed
         | kBigintValuesUsingHashTable _ \<Rightarrow> mrg other (kNegatedBigintRange this)
         | kBigintValuesUsingBitmask _ \<Rightarrow> mrg other (kNegatedBigintRange this)
         | kNegatedBigintValuesUsingHashTable otherHashTable \<Rightarrow>
             withRejects (nbh_values otherHashTable)
         | kNegatedBigintValuesUsingBitmask otherBitmask \<Rightarrow>
             withRejects (NegatedBigintValuesUsingBitmask_values otherBitmask)
         | _ \<Rightarrow> Inl Unreachable)"

text \<open>Filters on values keep the values of theirs that pass the other filter.\<close>

definition hash_merge_range ::
    "BigintValuesUsingHashTable \<Rightarrow> int \<Rightarrow> int \<Rightarrow> Filter \<Rightarrow> Filter res" where
  "hash_merge_range this minv maxv other =
     (let bothNullAllowed = bvh_nullAllowed this \<and> testNull other
      in if maxv < minv then Inr (nullOrFalse bothNullAllowed)
         else if maxv = minv then
           rbind (if BigintValuesUsingHashTable_testInt64 this minv then testInt64 other minv
                  else Inr False) (\<lambda>both.
             Inr (if both then kBigintRange (BigintRange_new minv minv bothNullAllowed)
                  else nullOrFalse bothNullAllowed))
         else
           rbind (if bvh_containsEmptyMarker this then testInt64 other kEmptyMarker
                  else Inr False) (\<lambda>marker.
           rbind (rfilter (\<lambda>v. if v \<noteq> kEmptyMarker then testInt64 other v else Inr False)
                   (bvh_hashTable this)) (\<lambda>kept.
             createBigintValues ((if marker then [kEmptyMarker] else []) @ kept) bothNullAllowed)))"

definition BigintValuesUsingHashTable_mergeWith ::
    "dispatch \<Rightarrow> BigintValuesUsingHashTable \<Rightarrow> Filter \<Rightarrow> Filter res" where
  "BigintValuesUsingHashTable_mergeWith mrg this other =
     (case other of
        kAlwaysTrue \<Rightarrow> mrg other (kBigintValuesUsingHashTable this)
      | kAlwaysFalse \<Rightarrow> mrg other (kBigintValuesUsingHashTable this)
      | kIsNull \<Rightarrow> mrg other (kBigintValuesUsingHashTable this)
      | kIsNotNull \<Rightarrow> Inr (kBigintValuesUsingHashTable (this\<lparr>bvh_nullAllowed := False\<rparr>))
      | kBigintRange otherRange \<Rightarrow>
          hash_merge_range this (max (bvh_min this) (br_lower otherRange))
            (min (bvh_max this) (br_upper otherRange)) other
      | kBigintValuesUsingHashTable otherValues \<Rightarrow>
          hash_merge_range this (max (bvh_min this) (bvh_min otherValues))
            (min (bvh_max this) (bvh_max otherValues)) other
      | kBigintValuesUsingBitmask _ \<Rightarrow> mrg other (kBigintValuesUsingHashTable this)
      | kBigintMultiRange otherMultiRange \<Rightarrow>
          rbind (if bvh_containsEmptyMarker this then testInt64 other kEmptyMarker
                 else Inr False) (\<lambda>marker.
          let kept = concat (map (\<lambda>rg.
                let minv = max (bvh_min this) (br_lower rg); maxv = min (bvh_max this) (br_upper rg)
                in if minv \<le> maxv then filter (BigintRange_testInt64 rg) (bvh_values this) else [])
                (bmr_ranges otherMultiRange))
          in createBigintValues ((if marker then [kEmptyMarker] else []) @ kept)
               (bvh_nullAllowed this \<and> testNull other))
      | kNegatedBigintRange _ \<Rightarrow> hash_merge_range this (bvh_min this) (bvh_max this) other
      | kNegatedBigintValuesUsingBitmask _ \<Rightarrow> hash_merge_range this (bvh_min this) (bvh_max this) other
      | kNegatedBigintValuesUsingHashTable _ \<Rightarrow> hash_merge_range this (bvh_min this) (bvh_max this) other
      | _ \<Rightarrow> Inl Unreachable)"

text \<open>
  The loop \<open>for (i = min; i <= max; ++i)\<close> over the bits of a bitmask. Its variable is an
  \<open>int64_t\<close>, so it overflows after a last value of \<open>INT64_MAX\<close>.
\<close>

definition bitmask_loop ::
    "BigintValuesUsingBitmask \<Rightarrow> int \<Rightarrow> int \<Rightarrow> (int \<Rightarrow> bool res) \<Rightarrow> int list res" where
  "bitmask_loop this minv maxv test =
     (if minv \<le> maxv \<and> maxv = INT64_MAX then Inl SignedOverflow
      else rfilter (\<lambda>i.
             if nat (i - bvb_min this) < length (bvb_bitmask this) then
               if bvb_bitmask this ! nat (i - bvb_min this) then test i else Inr False
             else Inl OutOfRange) [minv..maxv])"

definition bitmask_merge_range ::
    "BigintValuesUsingBitmask \<Rightarrow> int \<Rightarrow> int \<Rightarrow> Filter \<Rightarrow> Filter res" where
  "bitmask_merge_range this minv maxv other =
     rbind (bitmask_loop this minv maxv (testInt64 other)) (\<lambda>valuesToKeep.
       createBigintValues valuesToKeep (bvb_nullAllowed this \<and> testNull other))"

definition BigintValuesUsingBitmask_mergeWith ::
    "dispatch \<Rightarrow> BigintValuesUsingBitmask \<Rightarrow> Filter \<Rightarrow> Filter res" where
  "BigintValuesUsingBitmask_mergeWith mrg this other =
     (case other of
        kAlwaysTrue \<Rightarrow> mrg other (kBigintValuesUsingBitmask this)
      | kAlwaysFalse \<Rightarrow> mrg other (kBigintValuesUsingBitmask this)
      | kIsNull \<Rightarrow> mrg other (kBigintValuesUsingBitmask this)
      | kIsNotNull \<Rightarrow> Inr (kBigintValuesUsingBitmask (this\<lparr>bvb_nullAllowed := False\<rparr>))
      | kBigintRange otherRange \<Rightarrow>
          bitmask_merge_range this (max (bvb_min this) (br_lower otherRange))
            (min (bvb_max this) (br_upper otherRange)) other
      | kBigintValuesUsingHashTable otherValues \<Rightarrow>
          bitmask_merge_range this (max (bvb_min this) (bvh_min otherValues))
            (min (bvb_max this) (bvh_max otherValues)) other
      | kBigintValuesUsingBitmask otherValues \<Rightarrow>
          bitmask_merge_range this (max (bvb_min this) (bvb_min otherValues))
            (min (bvb_max this) (bvb_max otherValues)) other
      | kBigintMultiRange otherMultiRange \<Rightarrow>
          rbind (rmap (\<lambda>rg. bitmask_loop this (max (bvb_min this) (br_lower rg))
                   (min (bvb_max this) (br_upper rg)) (\<lambda>i. Inr (BigintRange_testInt64 rg i)))
                  (bmr_ranges otherMultiRange)) (\<lambda>kept.
            createBigintValues (concat kept) (bvb_nullAllowed this \<and> testNull other))
      | kNegatedBigintRange _ \<Rightarrow> bitmask_merge_range this (bvb_min this) (bvb_max this) other
      | kNegatedBigintValuesUsingBitmask _ \<Rightarrow>
          bitmask_merge_range this (bvb_min this) (bvb_max this) other
      | kNegatedBigintValuesUsingHashTable _ \<Rightarrow>
          bitmask_merge_range this (bvb_min this) (bvb_max this) other
      | _ \<Rightarrow> Inl Unreachable)"

definition NegatedBigintValuesUsingHashTable_mergeWith ::
    "dispatch \<Rightarrow> NegatedBigintValuesUsingHashTable \<Rightarrow> Filter \<Rightarrow> Filter res" where
  "NegatedBigintValuesUsingHashTable_mergeWith mrg this other =
     (case other of
        kIsNotNull \<Rightarrow> Inr (kNegatedBigintValuesUsingHashTable (this\<lparr>nbh_nullAllowed := False\<rparr>))
      | kNegatedBigintValuesUsingHashTable otherNegated \<Rightarrow>
          combineNegatedBigintLists (nbh_values this) (nbh_values otherNegated)
            (nbh_nullAllowed this \<and> testNull other)
      | kAlwaysTrue \<Rightarrow> mrg other (kNegatedBigintValuesUsingHashTable this)
      | kAlwaysFalse \<Rightarrow> mrg other (kNegatedBigintValuesUsingHashTable this)
      | kIsNull \<Rightarrow> mrg other (kNegatedBigintValuesUsingHashTable this)
      | kBigintValuesUsingHashTable _ \<Rightarrow> mrg other (kNegatedBigintValuesUsingHashTable this)
      | kBigintValuesUsingBitmask _ \<Rightarrow> mrg other (kNegatedBigintValuesUsingHashTable this)
      | kBigintRange _ \<Rightarrow> mrg other (kNegatedBigintValuesUsingHashTable this)
      | kBigintMultiRange _ \<Rightarrow> mrg other (kNegatedBigintValuesUsingHashTable this)
      | kNegatedBigintRange _ \<Rightarrow> mrg other (kNegatedBigintValuesUsingHashTable this)
      | kNegatedBigintValuesUsingBitmask _ \<Rightarrow> mrg other (kNegatedBigintValuesUsingHashTable this)
      | _ \<Rightarrow> Inl Unreachable)"

definition NegatedBigintValuesUsingBitmask_mergeWith ::
    "dispatch \<Rightarrow> NegatedBigintValuesUsingBitmask \<Rightarrow> Filter \<Rightarrow> Filter res" where
  "NegatedBigintValuesUsingBitmask_mergeWith mrg this other =
     (case other of
        kIsNotNull \<Rightarrow> Inr (kNegatedBigintValuesUsingBitmask (this\<lparr>nbb_nullAllowed := False\<rparr>))
      | kNegatedBigintValuesUsingHashTable otherHashTable \<Rightarrow>
          combineNegatedBigintLists (NegatedBigintValuesUsingBitmask_values this)
            (nbh_values otherHashTable) (nbb_nullAllowed this \<and> testNull other)
      | kNegatedBigintValuesUsingBitmask otherBitmask \<Rightarrow>
          combineNegatedBigintLists (NegatedBigintValuesUsingBitmask_values this)
            (NegatedBigintValuesUsingBitmask_values otherBitmask)
            (nbb_nullAllowed this \<and> testNull other)
      | kAlwaysTrue \<Rightarrow> mrg other (kNegatedBigintValuesUsingBitmask this)
      | kAlwaysFalse \<Rightarrow> mrg other (kNegatedBigintValuesUsingBitmask this)
      | kIsNull \<Rightarrow> mrg other (kNegatedBigintValuesUsingBitmask this)
      | kBigintValuesUsingHashTable _ \<Rightarrow> mrg other (kNegatedBigintValuesUsingBitmask this)
      | kBigintValuesUsingBitmask _ \<Rightarrow> mrg other (kNegatedBigintValuesUsingBitmask this)
      | kBigintRange _ \<Rightarrow> mrg other (kNegatedBigintValuesUsingBitmask this)
      | kNegatedBigintRange _ \<Rightarrow> mrg other (kNegatedBigintValuesUsingBitmask this)
      | kBigintMultiRange _ \<Rightarrow> mrg other (kNegatedBigintValuesUsingBitmask this)
      | _ \<Rightarrow> Inl Unreachable)"

text \<open>The loop of \<open>BigintMultiRange::mergeWith\<close> over its own ranges.\<close>

fun merge_own_ranges :: "(BigintRange \<Rightarrow> Filter res) \<Rightarrow> BigintRange list \<Rightarrow> BigintRange list res" where
  "merge_own_ranges mergeRange [] = Inr []"
| "merge_own_ranges mergeRange (rg # ranges) =
     rbind (mergeRange rg) (\<lambda>merged.
       rbind (case merged of
                kBigintRange r \<Rightarrow> Inr [r]
              | kBigintMultiRange m \<Rightarrow> Inr (bmr_ranges m)
              | _ \<Rightarrow> check (merged = kAlwaysFalse) (Inr [])) (\<lambda>new.
       rbind (merge_own_ranges mergeRange ranges) (\<lambda>out. Inr (new @ out))))"

definition BigintMultiRange_mergeWith :: "dispatch \<Rightarrow> BigintMultiRange \<Rightarrow> Filter \<Rightarrow> Filter res" where
  "BigintMultiRange_mergeWith mrg this other =
     (let bothNullAllowed = bmr_nullAllowed this \<and> testNull other
      in case other of
           kAlwaysTrue \<Rightarrow> mrg other (kBigintMultiRange this)
         | kAlwaysFalse \<Rightarrow> mrg other (kBigintMultiRange this)
         | kIsNull \<Rightarrow> mrg other (kBigintMultiRange this)
         | kIsNotNull \<Rightarrow>
             rbind (BigintMultiRange_new (bmr_ranges this) False) (\<lambda>f. Inr (kBigintMultiRange f))
         | kBigintRange _ \<Rightarrow> mrg other (kBigintMultiRange this)
         | kNegatedBigintRange _ \<Rightarrow> mrg other (kBigintMultiRange this)
         | kBigintValuesUsingBitmask _ \<Rightarrow> mrg other (kBigintMultiRange this)
         | kBigintValuesUsingHashTable _ \<Rightarrow> mrg other (kBigintMultiRange this)
         | kBigintMultiRange _ \<Rightarrow>
             rbind (merge_own_ranges (\<lambda>rg. mrg (kBigintRange rg) other) (bmr_ranges this)) (\<lambda>newRanges.
               if newRanges = [] then Inr (nullOrFalse bothNullAllowed)
               else if length newRanges = 1 then
                 Inr (kBigintRange (BigintRange_new (br_lower (hd newRanges))
                   (br_upper (hd newRanges)) bothNullAllowed))
               else rbind (BigintMultiRange_new newRanges bothNullAllowed)
                 (\<lambda>f. Inr (kBigintMultiRange f)))
         | kNegatedBigintValuesUsingHashTable otherNegated \<Rightarrow>
             combineRangesAndNegatedValues (bmr_ranges this) (nbh_values otherNegated) bothNullAllowed
         | kNegatedBigintValuesUsingBitmask otherNegated \<Rightarrow>
             combineRangesAndNegatedValues (bmr_ranges this)
               (NegatedBigintValuesUsingBitmask_values otherNegated) bothNullAllowed
         | _ \<Rightarrow> Inl Unreachable)"

section \<open>Floating-point filters\<close>

text \<open>
  The common part of the two instances of \<open>FloatingPointRange::mergeWith\<close>. The member function
  \<open>testDouble\<close> takes a \<open>double\<close>, so in the \<open>float\<close> instance a bound makes a round trip, \<open>trip\<close>.
\<close>

definition FloatingPointRange_merge ::
    "('w::len FloatingPointRange \<Rightarrow> Filter) \<Rightarrow> ('w word \<Rightarrow> 'w word) \<Rightarrow>
     'w FloatingPointRange \<Rightarrow> 'w FloatingPointRange \<Rightarrow> bool \<Rightarrow> Filter res" where
  "FloatingPointRange_merge mk trip this otherRange bothNullAllowed =
     (let lower = fp_max (fpr_lower this) (fpr_lower otherRange);
          upper = fp_min (fpr_upper this) (fpr_upper otherRange);
          bothLowerUnbounded = (ar_lowerUnbounded this \<and> ar_lowerUnbounded otherRange);
          bothUpperUnbounded = (ar_upperUnbounded this \<and> ar_upperUnbounded otherRange);
          lowerExclusive = (\<not> bothLowerUnbounded \<and>
            (\<not> testFloatingPoint this (trip lower) \<or> \<not> testFloatingPoint otherRange (trip lower)));
          upperExclusive = (\<not> bothUpperUnbounded \<and>
            (\<not> testFloatingPoint this (trip upper) \<or> \<not> testFloatingPoint otherRange (trip upper)))
      in if fp_less upper lower \<or> (fp_eq lower upper \<and> ar_lowerExclusive this) then
           if bothNullAllowed then Inr kIsNull else Inr kAlwaysFalse
         else rbind (FloatingPointRange_new lower bothLowerUnbounded lowerExclusive
                upper bothUpperUnbounded upperExclusive bothNullAllowed) (\<lambda>r. Inr (mk r)))"

definition DoubleRange_mergeWith :: "dispatch \<Rightarrow> 64 FloatingPointRange \<Rightarrow> Filter \<Rightarrow> Filter res" where
  "DoubleRange_mergeWith mrg this other =
     (case other of
        kAlwaysTrue \<Rightarrow> mrg other (kDoubleRange this)
      | kAlwaysFalse \<Rightarrow> mrg other (kDoubleRange this)
      | kIsNull \<Rightarrow> mrg other (kDoubleRange this)
      | kIsNotNull \<Rightarrow> rbind (FloatingPointRange_copy this False) (\<lambda>r. Inr (kDoubleRange r))
      | kDoubleRange otherRange \<Rightarrow>
          FloatingPointRange_merge kDoubleRange (\<lambda>v. v) this otherRange
            (ar_nullAllowed this \<and> testNull other)
      | kFloatRange _ \<Rightarrow> Inl BadCast
      | _ \<Rightarrow> Inl Unreachable)"

definition FloatRange_mergeWith :: "dispatch \<Rightarrow> 32 FloatingPointRange \<Rightarrow> Filter \<Rightarrow> Filter res" where
  "FloatRange_mergeWith mrg this other =
     (case other of
        kAlwaysTrue \<Rightarrow> mrg other (kFloatRange this)
      | kAlwaysFalse \<Rightarrow> mrg other (kFloatRange this)
      | kIsNull \<Rightarrow> mrg other (kFloatRange this)
      | kIsNotNull \<Rightarrow> rbind (FloatingPointRange_copy this False) (\<lambda>r. Inr (kFloatRange r))
      | kFloatRange otherRange \<Rightarrow>
          FloatingPointRange_merge kFloatRange (\<lambda>v. double_to_float (float_to_double v)) this otherRange
            (ar_nullAllowed this \<and> testNull other)
      | kDoubleRange _ \<Rightarrow> Inl BadCast
      | _ \<Rightarrow> Inl Unreachable)"

section \<open>String filters\<close>

definition mergeExclusive :: "int \<Rightarrow> bool \<Rightarrow> bool \<Rightarrow> bool" where
  "mergeExclusive compareResult left right =
     (if compareResult = 0 then left \<or> right else if compareResult < 0 then left else right)"

text \<open>The lower and the upper end of the intersection: unbounded flag, exclusive flag, bound.\<close>

definition merge_lower :: "BytesRange \<Rightarrow> BytesRange \<Rightarrow> bool \<times> bool \<times> string" where
  "merge_lower this otherRange =
     (if ar_lowerUnbounded this then
        (ar_lowerUnbounded otherRange, ar_lowerExclusive otherRange, byr_lower otherRange)
      else if ar_lowerUnbounded otherRange then
        (ar_lowerUnbounded this, ar_lowerExclusive this, byr_lower this)
      else let compare = compareRanges (byr_lower this) (byr_lower otherRange)
           in (False, mergeExclusive (- compare) (ar_lowerExclusive this) (ar_lowerExclusive otherRange),
               if compare < 0 then byr_lower otherRange else byr_lower this))"

definition merge_upper :: "BytesRange \<Rightarrow> BytesRange \<Rightarrow> bool \<times> bool \<times> string" where
  "merge_upper this otherRange =
     (if ar_upperUnbounded this then
        (ar_upperUnbounded otherRange, ar_upperExclusive otherRange, byr_upper otherRange)
      else if ar_upperUnbounded otherRange then
        (ar_upperUnbounded this, ar_upperExclusive this, byr_upper this)
      else let compare = compareRanges (byr_upper this) (byr_upper otherRange)
           in (False, mergeExclusive compare (ar_upperExclusive this) (ar_upperExclusive otherRange),
               if compare < 0 then byr_upper this else byr_upper otherRange))"

definition merge_bytes_ranges :: "BytesRange \<Rightarrow> BytesRange \<Rightarrow> bool \<Rightarrow> Filter res" where
  "merge_bytes_ranges this otherRange bothNullAllowed =
     (case merge_lower this otherRange of (lowerUnbounded, lowerExclusive, lower) \<Rightarrow>
      case merge_upper this otherRange of (upperUnbounded, upperExclusive, upper) \<Rightarrow>
        if \<not> lowerUnbounded \<and> \<not> upperUnbounded \<and>
           (lower > upper \<or> (lower = upper \<and> (lowerExclusive \<or> upperExclusive))) then
          Inr (nullOrFalse bothNullAllowed)
        else rbind (BytesRange_new lower lowerUnbounded lowerExclusive upper upperUnbounded
               upperExclusive bothNullAllowed) (\<lambda>r. Inr (kBytesRange r)))"

definition BytesRange_mergeWith :: "dispatch \<Rightarrow> BytesRange \<Rightarrow> Filter \<Rightarrow> Filter res" where
  "BytesRange_mergeWith mrg this other =
     (case other of
        kAlwaysTrue \<Rightarrow> mrg other (kBytesRange this)
      | kAlwaysFalse \<Rightarrow> mrg other (kBytesRange this)
      | kIsNull \<Rightarrow> mrg other (kBytesRange this)
      | kIsNotNull \<Rightarrow> clone (kBytesRange this) (Some False)
      | kBytesValues _ \<Rightarrow> mrg other (kBytesRange this)
      | kNegatedBytesValues _ \<Rightarrow> mrg other (kBytesRange this)
      | kNegatedBytesRange _ \<Rightarrow> mrg other (kBytesRange this)
      | kMultiRange _ _ _ \<Rightarrow> mrg other (kBytesRange this)
      | kBytesRange otherRange \<Rightarrow>
          merge_bytes_ranges this otherRange (ar_nullAllowed this \<and> testNull other)
      | _ \<Rightarrow> Inl Unreachable)"

definition toMultiRange :: "NegatedBytesRange \<Rightarrow> Filter res" where
  "toMultiRange this =
     (let r = nyr_nonNegated this
      in rbind (if \<not> ar_lowerUnbounded r then
                  rbind (BytesRange_new [] True False (byr_lower r) False
                    (\<not> NegatedBytesRange_testBytes this (byr_lower r)) False) (\<lambda>a. Inr [kBytesRange a])
                else Inr []) (\<lambda>below.
         rbind (if \<not> ar_upperUnbounded r then
                  rbind (BytesRange_new (byr_upper r) False
                    (\<not> NegatedBytesRange_testBytes this (byr_upper r)) [] True False False)
                    (\<lambda>a. Inr [kBytesRange a])
                else Inr []) (\<lambda>above.
         let accepted = below @ above
         in if length accepted = 0 then Inr (nullOrFalse (nyr_nullAllowed this))
            else if length accepted = 1 then clone (accepted ! 0) (Some (nyr_nullAllowed this))
            else Inr (kMultiRange accepted (nyr_nullAllowed this) False))))"

definition NegatedBytesRange_mergeWith :: "dispatch \<Rightarrow> NegatedBytesRange \<Rightarrow> Filter \<Rightarrow> Filter res" where
  "NegatedBytesRange_mergeWith mrg this other =
     (let viaMultiRange = rbind (toMultiRange this) (\<lambda>m. mrg other m)
      in case other of
           kAlwaysTrue \<Rightarrow> mrg other (kNegatedBytesRange this)
         | kAlwaysFalse \<Rightarrow> mrg other (kNegatedBytesRange this)
         | kIsNull \<Rightarrow> mrg other (kNegatedBytesRange this)
         | kIsNotNull \<Rightarrow> clone (kNegatedBytesRange this) (Some False)
         | kBytesValues _ \<Rightarrow> mrg other (kNegatedBytesRange this)
         | kNegatedBytesValues _ \<Rightarrow> viaMultiRange
         | kBytesRange _ \<Rightarrow> viaMultiRange
         | kNegatedBytesRange _ \<Rightarrow> viaMultiRange
         | kMultiRange _ _ _ \<Rightarrow> viaMultiRange
         | _ \<Rightarrow> Inl Unreachable)"

definition bytes_values_filter :: "string set \<Rightarrow> bool \<Rightarrow> Filter res" where
  "bytes_values_filter newValues bothNullAllowed =
     (if newValues = {} then Inr (nullOrFalse bothNullAllowed)
      else rbind (BytesValues_new newValues bothNullAllowed) (\<lambda>f. Inr (kBytesValues f)))"

definition BytesValues_mergeWith :: "dispatch \<Rightarrow> BytesValues \<Rightarrow> Filter \<Rightarrow> Filter res" where
  "BytesValues_mergeWith mrg this other =
     (let bothNullAllowed = byv_nullAllowed this \<and> testNull other
      in case other of
           kAlwaysTrue \<Rightarrow> mrg other (kBytesValues this)
         | kAlwaysFalse \<Rightarrow> mrg other (kBytesValues this)
         | kIsNull \<Rightarrow> mrg other (kBytesValues this)
         | kMultiRange _ _ _ \<Rightarrow> mrg other (kBytesValues this)
         | kIsNotNull \<Rightarrow> clone (kBytesValues this) (Some False)
         | kBytesValues otherBytesValues \<Rightarrow>
             if compareRanges (byv_upper this) (byv_lower otherBytesValues) < 0 \<or>
                compareRanges (byv_upper otherBytesValues) (byv_lower this) < 0 then
               Inr (nullOrFalse bothNullAllowed)
             else let swap = (card (byv_values this) > card (byv_values otherBytesValues));
                      smallerFilter = (if swap then otherBytesValues else this);
                      largerFilter = (if swap then this else otherBytesValues)
                  in bytes_values_filter
                       {value \<in> byv_values smallerFilter. value \<in> byv_values largerFilter} bothNullAllowed
         | kNegatedBytesValues otherNegated \<Rightarrow>
             bytes_values_filter
               {value \<in> byv_values this. NegatedBytesValues_testBytes otherNegated value} bothNullAllowed
         | kBytesRange otherBytesRange \<Rightarrow>
             if \<not> BytesValues_testBytesRange this
                  (if ar_lowerUnbounded otherBytesRange then None else Some (byr_lower otherBytesRange))
                  (if ar_upperUnbounded otherBytesRange then None else Some (byr_upper otherBytesRange))
                  bothNullAllowed then
               Inr (nullOrFalse bothNullAllowed)
             else bytes_values_filter
               {value \<in> byv_values this. BytesRange_testBytes otherBytesRange value} bothNullAllowed
         | kNegatedBytesRange otherBytesRange \<Rightarrow>
             bytes_values_filter
               {value \<in> byv_values this. NegatedBytesRange_testBytes otherBytesRange value} bothNullAllowed
         | _ \<Rightarrow> Inl Unreachable)"

text \<open>The ranges between neighbouring rejected values.\<close>

fun bytes_gaps :: "string list \<Rightarrow> Filter list res" where
  "bytes_gaps (back # front # rest) =
     rbind (BytesRange_new back False True front False True False) (\<lambda>r.
       rbind (bytes_gaps (front # rest)) (\<lambda>out. Inr (kBytesRange r # out)))"
| "bytes_gaps _ = Inr []"

definition split_bytes_range ::
    "string set \<Rightarrow> BytesRange \<Rightarrow> bool \<Rightarrow> Filter res" where
  "split_bytes_range values bytesRangeOther bothNullAllowed =
     (let lower = byr_lower bytesRangeOther; upper = byr_upper bytesRangeOther;
          lowerUnbounded = ar_lowerUnbounded bytesRangeOther;
          upperUnbounded = ar_upperUnbounded bytesRangeOther;
          rejected0 = {value \<in> values. BytesRange_testBytes bytesRangeOther value};
          loExclusive = (\<not> lowerUnbounded \<and>
            (ar_lowerExclusive bytesRangeOther \<or> lower \<in> rejected0));
          rejected1 = (if \<not> lowerUnbounded then rejected0 - {lower} else rejected0);
          hiExclusive = (\<not> upperUnbounded \<and>
            (ar_upperExclusive bytesRangeOther \<or> upper \<in> rejected1));
          rejected2 = (if \<not> upperUnbounded then rejected1 - {upper} else rejected1);
          rejectedValues = sorted_list_of_set rejected2
      in if rejectedValues = [] then
           rbind (BytesRange_new lower lowerUnbounded loExclusive upper upperUnbounded hiExclusive
             bothNullAllowed) (\<lambda>r. Inr (kBytesRange r))
         else
           rbind (BytesRange_new lower lowerUnbounded loExclusive (hd rejectedValues) False True False)
             (\<lambda>first.
           rbind (bytes_gaps rejectedValues) (\<lambda>between.
           rbind (BytesRange_new (last rejectedValues) False True upper upperUnbounded hiExclusive False)
             (\<lambda>final.
             Inr (kMultiRange (kBytesRange first # between @ [kBytesRange final])
               bothNullAllowed False)))))"

definition NegatedBytesValues_mergeWith ::
    "dispatch \<Rightarrow> NegatedBytesValues \<Rightarrow> Filter \<Rightarrow> Filter res" where
  "NegatedBytesValues_mergeWith mrg this other =
     (let bothNullAllowed = nyv_nullAllowed this \<and> testNull other;
          values = byv_values (nyv_nonNegated this)
      in case other of
           kAlwaysTrue \<Rightarrow> mrg other (kNegatedBytesValues this)
         | kAlwaysFalse \<Rightarrow> mrg other (kNegatedBytesValues this)
         | kIsNull \<Rightarrow> mrg other (kNegatedBytesValues this)
         | kBytesValues _ \<Rightarrow> mrg other (kNegatedBytesValues this)
         | kNegatedBytesRange _ \<Rightarrow> mrg other (kNegatedBytesValues this)
         | kMultiRange _ _ _ \<Rightarrow> mrg other (kNegatedBytesValues this)
         | kIsNotNull \<Rightarrow> clone (kNegatedBytesValues this) (Some False)
         | kNegatedBytesValues negatedBytesOther \<Rightarrow>
             (let otherValues = byv_values (nyv_nonNegated negatedBytesOther)
              in if card values < card otherValues then mrg other (kNegatedBytesValues this)
                 else rbind (NegatedBytesValues_new
                        (values \<union> {value \<in> otherValues. NegatedBytesValues_testBytes this value})
                        bothNullAllowed) (\<lambda>f. Inr (kNegatedBytesValues f)))
         | kBytesRange bytesRangeOther \<Rightarrow> split_bytes_range values bytesRangeOther bothNullAllowed
         | _ \<Rightarrow> Inl Unreachable)"

text \<open>The double loop of \<open>MultiRange::mergeWith\<close>, with the values and the filters gathered so far.\<close>

fun merge_pairs ::
    "dispatch \<Rightarrow> (Filter \<times> Filter) list \<Rightarrow> string set \<times> Filter list \<Rightarrow> (string set \<times> Filter list) res" where
  "merge_pairs mrg [] acc = Inr acc"
| "merge_pairs mrg ((flt, filterOther) # rest) (byteValues, merged) =
     rbind (mrg flt filterOther) (\<lambda>innerMerged.
       case innerMerged of
         kAlwaysFalse \<Rightarrow> merge_pairs mrg rest (byteValues, merged)
       | kIsNull \<Rightarrow> merge_pairs mrg rest (byteValues, merged)
       | kBytesValues mergedBytesValues \<Rightarrow>
           merge_pairs mrg rest (byteValues \<union> byv_values mergedBytesValues, merged)
       | kMultiRange innerFilters _ _ \<Rightarrow>
           rbind (rmap (\<lambda>f. clone f None) innerFilters) (\<lambda>clones.
             merge_pairs mrg rest (byteValues, merged @ clones))
       | _ \<Rightarrow> merge_pairs mrg rest (byteValues, merged @ [innerMerged]))"

definition MultiRange_mergeWith ::
    "dispatch \<Rightarrow> Filter list \<Rightarrow> bool \<Rightarrow> bool \<Rightarrow> Filter \<Rightarrow> Filter res" where
  "MultiRange_mergeWith mrg filters nullAllowed nanAllowed other =
     (let this = kMultiRange filters nullAllowed nanAllowed;
          bothNullAllowed = nullAllowed \<and> testNull other;
          withFilters = (\<lambda>otherFilters bothNanAllowed.
            rbind (merge_pairs mrg (List.product filters otherFilters) ({}, [])) (\<lambda>(byteValues, merged0).
            rbind (if byteValues \<noteq> {} then
                     rbind (BytesValues_new byteValues bothNullAllowed)
                       (\<lambda>f. Inr (merged0 @ [kBytesValues f]))
                   else Inr merged0) (\<lambda>merged.
              if merged = [] then Inr (nullOrFalse bothNullAllowed)
              else if length merged = 1 then clone (hd merged) (Some bothNullAllowed)
              else Inr (kMultiRange merged bothNullAllowed bothNanAllowed))))
      in case other of
           kAlwaysTrue \<Rightarrow> mrg other this
         | kAlwaysFalse \<Rightarrow> mrg other this
         | kIsNull \<Rightarrow> mrg other this
         | kNegatedBytesRange _ \<Rightarrow> mrg other this
         | kIsNotNull \<Rightarrow> clone this (Some False)
         | kBytesValues _ \<Rightarrow> withFilters [other] nanAllowed
         | kNegatedBytesValues _ \<Rightarrow> withFilters [other] nanAllowed
         | kBytesRange _ \<Rightarrow> withFilters [other] nanAllowed
         | kMultiRange otherFilters _ otherNanAllowed \<Rightarrow>
             withFilters otherFilters (nanAllowed \<and> otherNanAllowed)
         | _ \<Rightarrow> Inl Unreachable)"

section \<open>The dynamic dispatch\<close>

text \<open>
  The first argument bounds the depth of the calls. The classes that do not override
  \<open>mergeWith\<close> inherit \<open>VELOX_UNSUPPORTED\<close>.
\<close>

fun mergeWith :: "nat \<Rightarrow> dispatch" where
  "mergeWith 0 this other = Inl StackExhausted"
| "mergeWith (Suc n) this other =
     (case this of
        kAlwaysFalse \<Rightarrow> Inr kAlwaysFalse
      | kAlwaysTrue \<Rightarrow> clone other None
      | kIsNull \<Rightarrow> IsNull_mergeWith other
      | kIsNotNull \<Rightarrow> IsNotNull_mergeWith (mergeWith n) other
      | kBoolValue v na \<Rightarrow> BoolValue_mergeWith (mergeWith n) v na other
      | kBigintRange r \<Rightarrow> BigintRange_mergeWith (mergeWith n) r other
      | kBigintValuesUsingHashTable f \<Rightarrow> BigintValuesUsingHashTable_mergeWith (mergeWith n) f other
      | kBigintValuesUsingBitmask f \<Rightarrow> BigintValuesUsingBitmask_mergeWith (mergeWith n) f other
      | kNegatedBigintRange r \<Rightarrow> NegatedBigintRange_mergeWith (mergeWith n) r other
      | kNegatedBigintValuesUsingHashTable f \<Rightarrow>
          NegatedBigintValuesUsingHashTable_mergeWith (mergeWith n) f other
      | kNegatedBigintValuesUsingBitmask f \<Rightarrow>
          NegatedBigintValuesUsingBitmask_mergeWith (mergeWith n) f other
      | kDoubleRange r \<Rightarrow> DoubleRange_mergeWith (mergeWith n) r other
      | kFloatRange r \<Rightarrow> FloatRange_mergeWith (mergeWith n) r other
      | kBytesRange r \<Rightarrow> BytesRange_mergeWith (mergeWith n) r other
      | kNegatedBytesRange r \<Rightarrow> NegatedBytesRange_mergeWith (mergeWith n) r other
      | kBytesValues f \<Rightarrow> BytesValues_mergeWith (mergeWith n) f other
      | kNegatedBytesValues f \<Rightarrow> NegatedBytesValues_mergeWith (mergeWith n) f other
      | kBigintMultiRange f \<Rightarrow> BigintMultiRange_mergeWith (mergeWith n) f other
      | kMultiRange fs na nan \<Rightarrow> MultiRange_mergeWith (mergeWith n) fs na nan other
      | kTimestampRange r \<Rightarrow> TimestampRange_mergeWith (mergeWith n) r other
      | kHugeintRange _ \<Rightarrow> Inl Unsupported
      | kHugeintValuesUsingHashTable _ \<Rightarrow> Inl Unsupported)"

end
