(* ===== verification/Filter_Merge_Bigint.thy ===== *)
theory Filter_Merge_Bigint
  imports Filter_Merge
begin

text \<open>
  Correctness of \<open>mergeWith\<close> on the integer filters: the merged filter accepts exactly the
  values that both filters accept, for every pair of integer filters.
\<close>

section \<open>What an integer filter means\<close>

definition accepts64 :: "Filter \<Rightarrow> int \<Rightarrow> bool" where
  "accepts64 f x \<longleftrightarrow> testInt64 f x = Inr True"

fun bigint_wf :: "Filter \<Rightarrow> bool" where
  "bigint_wf kAlwaysFalse \<longleftrightarrow> True"
| "bigint_wf kAlwaysTrue \<longleftrightarrow> True"
| "bigint_wf kIsNull \<longleftrightarrow> True"
| "bigint_wf kIsNotNull \<longleftrightarrow> True"
| "bigint_wf (kBigintRange r) \<longleftrightarrow> range_inv r"
| "bigint_wf (kBigintValuesUsingHashTable f) \<longleftrightarrow> hash_inv f"
| "bigint_wf (kBigintValuesUsingBitmask f) \<longleftrightarrow> bitmask_inv f"
| "bigint_wf (kNegatedBigintRange r) \<longleftrightarrow> range_inv (nbr_nonNegated r)"
| "bigint_wf (kNegatedBigintValuesUsingHashTable f) \<longleftrightarrow> hash_inv (nbh_nonNegated f)"
| "bigint_wf (kNegatedBigintValuesUsingBitmask f) \<longleftrightarrow>
     bitmask_inv (nbb_nonNegated f) \<and> NegatedBigintValuesUsingBitmask_values f \<noteq> []"
| "bigint_wf (kBigintMultiRange f) \<longleftrightarrow> multi_inv f"
| "bigint_wf _ \<longleftrightarrow> False"

text \<open>
  The inputs on which the code neither overflows nor counts a value twice. An IN list in a hash table has no value
  in its last slot (which the padding repeats), not the empty marker (which some loops push twice) and less than
  \<open>2 ^ 20\<close> values. A bitmask and a rejected range end below \<open>INT64_MAX\<close>. The values of a NOT IN list are less than \<open>2 ^ 20\<close>
  in number and none of them is \<open>INT64_MIN\<close> or \<open>INT64_MAX\<close>; in a hash table they lie at most \<open>INT64_MAX\<close> apart.
\<close>

definition small_vector :: "'a list \<Rightarrow> bool" where
  "small_vector vs \<longleftrightarrow> length vs < 2 ^ 20"

definition inner_values :: "int list \<Rightarrow> bool" where
  "inner_values vs \<longleftrightarrow> small_vector vs \<and> (\<forall>v \<in> set vs. INT64_MIN < v \<and> v < INT64_MAX)"

fun bigint_safe :: "Filter \<Rightarrow> bool" where
  "bigint_safe (kBigintValuesUsingHashTable f) \<longleftrightarrow>
     last_slot_empty f \<and> small_vector (bvh_values f) \<and> \<not> bvh_containsEmptyMarker f"
| "bigint_safe (kBigintValuesUsingBitmask f) \<longleftrightarrow> bvb_max f < INT64_MAX"
| "bigint_safe (kNegatedBigintRange r) \<longleftrightarrow> nbr_upper r < INT64_MAX"
| "bigint_safe (kNegatedBigintValuesUsingHashTable f) \<longleftrightarrow>
     inner_values (nbh_values f) \<and> i64 (last (nbh_values f) - hd (nbh_values f))"
| "bigint_safe (kNegatedBigintValuesUsingBitmask f) \<longleftrightarrow>
     inner_values (NegatedBigintValuesUsingBitmask_values f)"
| "bigint_safe _ \<longleftrightarrow> True"

text \<open>The filter \<open>h\<close> stands for a set of values and a verdict on nulls.\<close>

definition denotes :: "Filter res \<Rightarrow> bool \<Rightarrow> (int \<Rightarrow> bool) \<Rightarrow> bool" where
  "denotes r na P \<longleftrightarrow>
     (\<exists>h. r = Inr h \<and> bigint_wf h \<and> testNull h = na \<and> (\<forall>x. i64 x \<longrightarrow> testInt64 h x = Inr (P x)))"

lemma denotesI [intro?]:
  "bigint_wf h \<Longrightarrow> testNull h = na \<Longrightarrow> (\<And>x. i64 x \<Longrightarrow> testInt64 h x = Inr (P x)) \<Longrightarrow>
     denotes (Inr h) na P"
  by (auto simp: denotes_def)

lemma denotes_cong:
  "denotes r na P \<Longrightarrow> na = na' \<Longrightarrow> (\<And>x. i64 x \<Longrightarrow> P x = P' x) \<Longrightarrow> denotes r na' P'"
  by (auto simp: denotes_def)

lemma accepts64_simps [simp]:
  "accepts64 kAlwaysFalse x \<longleftrightarrow> False" "accepts64 kAlwaysTrue x \<longleftrightarrow> True"
  "accepts64 kIsNull x \<longleftrightarrow> False" "accepts64 kIsNotNull x \<longleftrightarrow> True"
  "accepts64 (kBigintRange r) x \<longleftrightarrow> BigintRange_testInt64 r x"
  "accepts64 (kNegatedBigintRange nr) x \<longleftrightarrow> \<not> BigintRange_testInt64 (nbr_nonNegated nr) x"
  by (simp_all add: accepts64_def NegatedBigintRange_testInt64_def)

lemma accepts64_values:
  "hash_inv f \<Longrightarrow> accepts64 (kBigintValuesUsingHashTable f) x \<longleftrightarrow> x \<in> set (bvh_values f)"
  "bitmask_inv b \<Longrightarrow> accepts64 (kBigintValuesUsingBitmask b) x \<longleftrightarrow>
     x \<in> set (BigintValuesUsingBitmask_values b)"
  "hash_inv (nbh_nonNegated nf) \<Longrightarrow>
     accepts64 (kNegatedBigintValuesUsingHashTable nf) x \<longleftrightarrow> x \<notin> set (nbh_values nf)"
  "bitmask_inv (nbb_nonNegated nb) \<Longrightarrow> accepts64 (kNegatedBigintValuesUsingBitmask nb) x \<longleftrightarrow>
     x \<notin> set (NegatedBigintValuesUsingBitmask_values nb)"
  "multi_inv m \<Longrightarrow> accepts64 (kBigintMultiRange m) x \<longleftrightarrow> ranges_accept (bmr_ranges m) x"
  by (simp_all add: accepts64_def hash_test_iff bitmask_values_iff BigintMultiRange_testInt64_iff
      NegatedBigintValuesUsingHashTable_testInt64_def
      NegatedBigintValuesUsingBitmask_testInt64_def NegatedBigintValuesUsingBitmask_values_def)

lemma bigint_wf_testInt64: "bigint_wf f \<Longrightarrow> testInt64 f x = Inr (accepts64 f x)"
  by (cases f) (auto simp: accepts64_def)

section \<open>Filters built from values\<close>

lemma min_max_loop_eq:
  assumes "values \<noteq> []"
  shows "min_max_loop values = (Min (set values), Max (set values))"
proof -
  have "foldl min_max_step (a, b) vs = (fold min vs a, fold max vs b)" if "a \<le> b" for a b vs
    using that
  proof (induction vs arbitrary: a b)
    case (Cons v vs)
    have "min_max_step (a, b) v = (min v a, max v b)" "min v a \<le> max v b"
      using Cons.prems by (auto simp: min_max_step_def)
    then show ?case using Cons.IH by simp
  qed simp
  moreover obtain a as where "values = a # as" using assms by (cases "values") simp_all
  moreover have "Min (set (a # as)) = fold min as a" "Max (set (a # as)) = fold max as a"
    by (rule Min.set_eq_fold Max.set_eq_fold)+
  ultimately show ?thesis by (simp add: min_max_loop_def)
qed

lemma denotes_single:
  "i64 a \<Longrightarrow> i64 b \<Longrightarrow> a \<le> b \<Longrightarrow>
     denotes (Inr (kBigintRange (BigintRange_new a b na))) na (\<lambda>x. a \<le> x \<and> x \<le> b)"
  by (auto intro!: denotesI simp: range_inv_def BigintRange_new_def BigintRange_testInt64_def)

lemma denotes_negated_single:
  "i64 a \<Longrightarrow> i64 b \<Longrightarrow> a \<le> b \<Longrightarrow>
     denotes (Inr (kNegatedBigintRange (NegatedBigintRange_new a b na))) na (\<lambda>x. \<not> (a \<le> x \<and> x \<le> b))"
  by (auto intro!: denotesI simp: range_inv_def BigintRange_new_def NegatedBigintRange_new_def
      NegatedBigintRange_testInt64_def BigintRange_testInt64_def)

lemma denotes_nullOrFalse: "denotes (Inr (nullOrFalse na)) na (\<lambda>_. False)"
  by (auto intro!: denotesI simp: nullOrFalse_def)

lemma denotes_notNullOrTrue: "denotes (Inr (notNullOrTrue na)) na (\<lambda>_. True)"
  by (auto intro!: denotesI simp: notNullOrTrue_def)

text \<open>Unique integers whose range is as long as their list fill the range.\<close>

lemma contiguous_block:
  fixes vs :: "int list"
  assumes "distinct vs" "vs \<noteq> []" "Max (set vs) - Min (set vs) + 1 = int (length vs)"
  shows "x \<in> set vs \<longleftrightarrow> Min (set vs) \<le> x \<and> x \<le> Max (set vs)"
proof -
  have "set vs \<subseteq> {Min (set vs)..Max (set vs)}" by auto
  moreover have "card {Min (set vs)..Max (set vs)} = card (set vs)"
    using assms by (simp add: distinct_card)
  ultimately have "set vs = {Min (set vs)..Max (set vs)}"
    by (intro card_subset_eq) simp_all
  then show ?thesis using atLeastAtMost_iff [of x "Min (set vs)" "Max (set vs)"] by argo
qed

lemma createBigintValues_denotes:
  assumes "distinct vs" "\<forall>v \<in> set vs. i64 v"
    and "length vs \<le> 2 ^ 22 \<or> (vs \<noteq> [] \<longrightarrow> Max (set vs) - Min (set vs) < INT32_MAX)"
  shows "denotes (createBigintValues vs na) na (\<lambda>x. x \<in> set vs)"
    and "denotes (createNegatedBigintValues vs na) na (\<lambda>x. x \<notin> set vs)"
proof -
  let ?lo = "Min (set vs)" and ?hi = "Max (set vs)"
  consider "vs = []" | v where "vs = [v]" | "1 < length vs"
    by (cases vs; cases "tl vs") auto
  then have "denotes (createBigintValues vs na) na (\<lambda>x. x \<in> set vs) \<and>
    denotes (createNegatedBigintValues vs na) na (\<lambda>x. x \<notin> set vs)"
  proof cases
    case 1
    then show ?thesis
      using denotes_nullOrFalse denotes_notNullOrTrue
      by (simp add: createBigintValues_def createNegatedBigintValues_def createBigintValuesFilter_def)
  next
    case (2 v)
    then have "i64 v" using assms(2) by simp
    from denotes_single [OF this this order_refl, of na]
      denotes_negated_single [OF this this order_refl, of na]
    show ?thesis using 2
      by (auto simp: createBigintValues_def createNegatedBigintValues_def
        createBigintValuesFilter_def elim!: denotes_cong)
  next
    case 3
    then have ne: "vs \<noteq> []" by auto
    have lohi: "i64 ?lo" "i64 ?hi" "?lo < ?hi"
      using assms(2) ne distinct_Min_less_Max [OF assms(1) 3] by simp_all
    let ?dense = "?hi - ?lo < 32 * 64 \<or> ?hi - ?lo < int (length vs) * 4 * 64"
    have sparse: "\<not> ?dense" if "\<not> i64 (?hi - ?lo)"
      using that assms(3) ne lohi by (auto simp: i64_def)
    have small: "length vs * 5 < 2 ^ 32" if "\<not> ?dense"
      using assms(3) ne that by auto
    have fits: "?hi - ?lo < INT32_MAX" if ?dense
      using assms(3) ne that by auto
    note bm = bitmask_values.built_accepts [OF assms(1) 3 assms(2) fits]
    note ht = hash_values.built_accepts [OF assms(1) 3 assms(2) small]
    have bmv: "BigintValuesUsingBitmask_values f \<noteq> []"
      if "bitmask_inv f" "\<forall>x. BigintValuesUsingBitmask_testInt64 f x \<longleftrightarrow> x \<in> set vs" for f
      using bitmask_values_iff [OF that(1)] that(2) ne by fastforce
    have "denotes (createBigintValues vs na) na (\<lambda>x. x \<in> set vs)"
    proof (cases "i64 (?hi - ?lo) \<and> ?hi - ?lo + 1 = int (length vs)")
      case True
      then have eq: "createBigintValues vs na = Inr (kBigintRange (BigintRange_new ?lo ?hi na))"
        using 3 ne unfolding createBigintValues_def createBigintValuesFilter_def
        by (simp add: min_max_loop_eq Let_def)
      have block: "x \<in> set vs \<longleftrightarrow> ?lo \<le> x \<and> x \<le> ?hi" for x
        by (rule contiguous_block [OF assms(1) ne]) (use True in simp)
      show ?thesis
        unfolding eq block by (rule denotes_single [OF lohi(1,2) less_imp_le [OF lohi(3)]])
    next
      case False
      have "denotes (rbind (BigintValuesUsingHashTable_new ?lo ?hi vs na)
          (\<lambda>f. Inr (kBigintValuesUsingHashTable f))) na (\<lambda>x. x \<in> set vs)"
        if "\<not> ?dense"
        using ht [OF that, of na] unfolding denotes_def by fastforce
      moreover have "denotes (rbind (BigintValuesUsingBitmask_new ?lo ?hi vs na)
          (\<lambda>f. Inr (kBigintValuesUsingBitmask f))) na (\<lambda>x. x \<in> set vs)"
        if ?dense
        using bm [OF that, of na] unfolding denotes_def by fastforce
      ultimately show ?thesis
        using False 3 ne sparse unfolding createBigintValues_def createBigintValuesFilter_def
        by (simp add: min_max_loop_eq Let_def)
    qed
    moreover have "denotes (createNegatedBigintValues vs na) na (\<lambda>x. x \<notin> set vs)"
    proof (cases "i64 (?hi - ?lo) \<and> ?hi - ?lo + 1 = int (length vs)")
      case True
      then have eq: "createNegatedBigintValues vs na = Inr (kNegatedBigintRange (NegatedBigintRange_new ?lo ?hi na))"
        using 3 ne unfolding createNegatedBigintValues_def createBigintValuesFilter_def
        by (simp add: min_max_loop_eq Let_def)
      have block: "x \<in> set vs \<longleftrightarrow> ?lo \<le> x \<and> x \<le> ?hi" for x
        by (rule contiguous_block [OF assms(1) ne]) (use True in simp)
      show ?thesis
        unfolding eq block by (rule denotes_negated_single [OF lohi(1,2) less_imp_le [OF lohi(3)]])
    next
      case False
      have "denotes (rbind (NegatedBigintValuesUsingHashTable_new ?lo ?hi vs na)
          (\<lambda>f. Inr (kNegatedBigintValuesUsingHashTable f))) na (\<lambda>x. x \<notin> set vs)"
        if "\<not> ?dense"
        using ht [OF that, of "\<not> na"] unfolding denotes_def
        by (fastforce simp: NegatedBigintValuesUsingHashTable_new_def
          NegatedBigintValuesUsingHashTable_testInt64_def)
      moreover have "denotes (rbind (NegatedBigintValuesUsingBitmask_new ?lo ?hi vs na)
          (\<lambda>f. Inr (kNegatedBigintValuesUsingBitmask f))) na (\<lambda>x. x \<notin> set vs)"
        if ?dense
        using bm [OF that, of "\<not> na"] bmv lohi(3) unfolding denotes_def
        by (fastforce simp: NegatedBigintValuesUsingBitmask_new_def
          NegatedBigintValuesUsingBitmask_testInt64_def NegatedBigintValuesUsingBitmask_values_def)
      ultimately show ?thesis
        using False 3 ne sparse unfolding createNegatedBigintValues_def createBigintValuesFilter_def
        by (simp add: min_max_loop_eq Let_def)
    qed
    ultimately show ?thesis ..
  qed
  then show "denotes (createBigintValues vs na) na (\<lambda>x. x \<in> set vs)"
    "denotes (createNegatedBigintValues vs na) na (\<lambda>x. x \<notin> set vs)" by simp_all
qed

section \<open>Filters built from ranges\<close>

definition plain_ranges :: "BigintRange list \<Rightarrow> bool" where
  "plain_ranges rs \<longleftrightarrow> disjoint_ranges rs \<and> (\<forall>r \<in> set rs. \<not> br_nullAllowed r)"

lemma combineBigintRanges_denotes:
  assumes "plain_ranges rs"
  shows "denotes (combineBigintRanges rs na) na (ranges_accept rs)"
proof -
  consider "rs = []" | r where "rs = [r]" | "1 < length rs"
    by (cases rs; cases "tl rs") auto
  then show ?thesis
  proof cases
    case 1
    then show ?thesis using denotes_nullOrFalse by (simp add: combineBigintRanges_def denotes_def)
  next
    case (2 r)
    then have "range_inv r" using assms by (simp add: plain_ranges_def)
    with 2 show ?thesis
      by (auto intro!: denotesI simp: combineBigintRanges_def range_inv_def BigintRange_new_def
        BigintRange_testInt64_def)
  next
    case 3
    have "rs \<noteq> []" "length rs \<noteq> 1" using 3 by auto
    with BigintMultiRange_new_disjoint [of rs na] 3 assms show ?thesis
      by (auto simp: combineBigintRanges_def denotes_def plain_ranges_def
        BigintMultiRange_testInt64_iff)
  qed
qed

lemma plain_ranges_simps [simp]:
  "plain_ranges []"
  "plain_ranges (r # rs) \<longleftrightarrow> range_inv r \<and> \<not> br_nullAllowed r \<and>
     (\<forall>s \<in> set rs. br_upper r < br_lower s) \<and> plain_ranges rs"
  "plain_ranges (rs @ ss) \<longleftrightarrow> plain_ranges rs \<and> plain_ranges ss \<and>
     (\<forall>r \<in> set rs. \<forall>s \<in> set ss. br_upper r < br_lower s)"
  by (auto simp: plain_ranges_def disjoint_ranges_append)

text \<open>Cutting every range of a disjoint sequence into pieces keeps the sequence disjoint.\<close>

definition cuts :: "BigintRange \<Rightarrow> (int \<Rightarrow> bool) \<Rightarrow> BigintRange list res \<Rightarrow> bool" where
  "cuts r Q res \<longleftrightarrow> (\<exists>out. res = Inr out \<and> plain_ranges out \<and>
     (\<forall>p \<in> set out. br_lower r \<le> br_lower p \<and> br_upper p \<le> br_upper r) \<and>
     (\<forall>x. ranges_accept out x \<longleftrightarrow> BigintRange_testInt64 r x \<and> Q x))"

lemma cuts_concat:
  assumes "disjoint_ranges rs" "\<forall>r \<in> set rs. cuts r Q (f r)"
  shows "\<exists>outs. rmap f rs = Inr outs \<and> plain_ranges (concat outs) \<and>
    (\<forall>p \<in> set (concat outs). \<exists>r \<in> set rs. br_lower r \<le> br_lower p) \<and>
    (\<forall>x. ranges_accept (concat outs) x \<longleftrightarrow> ranges_accept rs x \<and> Q x)"
  using assms
proof (induction rs)
  case (Cons r rs)
  then obtain out outs where out: "f r = Inr out" "plain_ranges out"
    "\<forall>p \<in> set out. br_lower r \<le> br_lower p \<and> br_upper p \<le> br_upper r"
    "\<forall>x. ranges_accept out x \<longleftrightarrow> BigintRange_testInt64 r x \<and> Q x"
    and outs: "rmap f rs = Inr outs" "plain_ranges (concat outs)"
    "\<forall>p \<in> set (concat outs). \<exists>r \<in> set rs. br_lower r \<le> br_lower p"
    "\<forall>x. ranges_accept (concat outs) x \<longleftrightarrow> ranges_accept rs x \<and> Q x"
    unfolding cuts_def by auto
  have "br_upper p < br_lower q" if "p \<in> set out" "q \<in> set (concat outs)" for p q
  proof -
    from outs(3) that(2) obtain s where s: "s \<in> set rs" "br_lower s \<le> br_lower q" by blast
    have "br_upper r < br_lower s" using Cons.prems(1) s(1) by simp
    with s(2) out(3) that(1) show ?thesis by fastforce
  qed
  with out outs show ?case
    by (intro exI [of _ "out # outs"]) (auto 4 3)
qed simp

lemma combine_cuts_denotes:
  assumes "disjoint_ranges rs" "\<forall>r \<in> set rs. cuts r Q (f r)"
  shows "denotes (rbind (rmap f rs) (\<lambda>outs. combineBigintRanges (concat outs) na)) na
    (\<lambda>x. ranges_accept rs x \<and> Q x)"
proof -
  from cuts_concat [OF assms] obtain outs where "rmap f rs = Inr outs" "plain_ranges (concat outs)"
    "\<forall>x. ranges_accept (concat outs) x \<longleftrightarrow> ranges_accept rs x \<and> Q x" by blast
  with combineBigintRanges_denotes [of "concat outs" na] show ?thesis by (simp add: denotes_def)
qed

section \<open>Ranges and rejected values\<close>

lemma br_new_simps [simp]:
  "br_lower (BigintRange_new a b n) = a" "br_upper (BigintRange_new a b n) = b"
  "br_nullAllowed (BigintRange_new a b n) = n"
  "BigintRange_testInt64 (BigintRange_new a b n) x \<longleftrightarrow> a \<le> x \<and> x \<le> b"
  "range_inv (BigintRange_new a b n) \<longleftrightarrow> i64 a \<and> i64 b \<and> a \<le> b"
  by (auto simp: BigintRange_new_def BigintRange_testInt64_def range_inv_def)

lemma split_at_rejects_pieces:
  assumes "sorted rs" "distinct rs" "\<forall>v \<in> set rs. start \<le> v \<and> INT64_MIN < v \<and> v < INT64_MAX"
    and "i64 start" "br_lower rg \<le> start" "i64 (br_upper rg)"
  shows "\<exists>out last. split_at_rejects rg start rs = Inr (out, last) \<and> br_lower rg \<le> last \<and>
    plain_ranges (out @ (if last \<le> br_upper rg then [BigintRange_new last (br_upper rg) False] else [])) \<and>
    (\<forall>p \<in> set (out @ (if last \<le> br_upper rg then [BigintRange_new last (br_upper rg) False] else [])).
       start \<le> br_lower p \<and> br_upper p \<le> br_upper rg) \<and>
    (\<forall>x. ranges_accept (out @ (if last \<le> br_upper rg then [BigintRange_new last (br_upper rg) False] else [])) x
       \<longleftrightarrow> start \<le> x \<and> x \<le> br_upper rg \<and> x \<notin> set rs)"
  using assms
proof (induction rs arbitrary: start)
  case Nil
  then show ?case by auto
next
  case (Cons it rest)
  have it: "start \<le> it" "i64 (it - 1)" "i64 (it + 1)" using Cons.prems by (auto simp: i64_def)
  show ?case
  proof (cases "it - 1 < br_upper rg")
    case False
    then have "x \<notin> set (it # rest)" if "x \<le> br_upper rg" for x
      using Cons.prems(1) that by fastforce
    with False it Cons.prems show ?thesis by auto
  next
    case True
    have pre: "\<forall>v \<in> set rest. it + 1 \<le> v \<and> INT64_MIN < v \<and> v < INT64_MAX"
    proof
      fix v assume v: "v \<in> set rest"
      then have "it \<noteq> v" "it \<le> v" using Cons.prems(1,2) by auto
      with v Cons.prems(3) show "it + 1 \<le> v \<and> INT64_MIN < v \<and> v < INT64_MAX" by simp
    qed
    let ?fin = "\<lambda>last. if last \<le> br_upper rg then [BigintRange_new last (br_upper rg) False] else []"
    from Cons.IH [of "it + 1"] Cons.prems pre it obtain out last where
      IH: "split_at_rejects rg (it + 1) rest = Inr (out, last)" "br_lower rg \<le> last"
      "plain_ranges (out @ ?fin last)"
      "\<forall>p \<in> set (out @ ?fin last). it + 1 \<le> br_lower p \<and> br_upper p \<le> br_upper rg"
      "\<forall>x. ranges_accept (out @ ?fin last) x \<longleftrightarrow> it + 1 \<le> x \<and> x \<le> br_upper rg \<and> x \<notin> set rest"
      by auto
    let ?piece = "if start \<le> it - 1 then [BigintRange_new start (it - 1) False] else []"
    have split: "split_at_rejects rg start (it # rest) = Inr (?piece @ out, last)"
      using IH(1) it True Cons.prems(5) by simp
    have acc: "ranges_accept (?piece @ out @ ?fin last) x \<longleftrightarrow>
        start \<le> x \<and> x \<le> br_upper rg \<and> x \<notin> set (it # rest)" for x
    proof -
      have "ranges_accept ?piece x \<longleftrightarrow> start \<le> x \<and> x < it" by auto
      moreover have "x \<notin> set rest" if "x \<le> it" using pre that by force
      ultimately show ?thesis
        unfolding ranges_accept_simps(3) [of ?piece] IH(5) [rule_format] using it True by auto
    qed
    have "br_upper r < br_lower s" if "r \<in> set ?piece" "s \<in> set (out @ ?fin last)" for r s
    proof -
      have "br_upper r = it - 1" using that(1) by (simp split: if_splits)
      with bspec [OF IH(4) that(2)] show ?thesis by simp
    qed
    then have plain: "plain_ranges (?piece @ out @ ?fin last)"
      unfolding plain_ranges_simps(3) [of ?piece] using IH(3) it Cons.prems(4) by simp
    have bnd: "\<forall>p \<in> set (?piece @ out @ ?fin last). start \<le> br_lower p \<and> br_upper p \<le> br_upper rg"
      unfolding set_append [of ?piece] using IH(4) it(1) True by fastforce
    show ?thesis
      by (intro exI [of _ "?piece @ out"] exI [of _ last] conjI allI split IH(2))
        (use plain bnd acc in \<open>simp_all only: append_assoc\<close>)
  qed
qed

lemma rejects_in_range_cuts:
  assumes "sorted rejects" "distinct rejects" "inner_values rejects" "range_inv rg"
  shows "cuts rg (\<lambda>x. x \<notin> set rejects) (rejects_in_range rejects rg)"
proof -
  let ?from = "drop (lower_bound rejects (br_lower rg)) rejects"
  have set: "set ?from = {v \<in> set rejects. br_lower rg \<le> v}" by (rule lower_bound_take [OF assms(1)])
  have "\<forall>v \<in> set ?from. br_lower rg \<le> v \<and> INT64_MIN < v \<and> v < INT64_MAX"
    using assms(3) by (simp add: set inner_values_def)
  from split_at_rejects_pieces [OF _ _ this, of rg] assms obtain out last where
    split: "split_at_rejects rg (br_lower rg) ?from = Inr (out, last)" "br_lower rg \<le> last"
    and *: "plain_ranges (out @ (if last \<le> br_upper rg then [BigintRange_new last (br_upper rg) False] else []))"
    "\<forall>p \<in> set (out @ (if last \<le> br_upper rg then [BigintRange_new last (br_upper rg) False] else [])).
       br_lower rg \<le> br_lower p \<and> br_upper p \<le> br_upper rg"
    "\<forall>x. ranges_accept (out @ (if last \<le> br_upper rg then [BigintRange_new last (br_upper rg) False] else [])) x
       \<longleftrightarrow> br_lower rg \<le> x \<and> x \<le> br_upper rg \<and> x \<notin> set ?from"
    by (auto simp: range_inv_def sorted_wrt_drop distinct_drop)
  have "rejects_in_range rejects rg =
      Inr (out @ (if last \<le> br_upper rg then [BigintRange_new last (br_upper rg) False] else []))"
    using split by (simp add: rejects_in_range_def)
  moreover have "BigintRange_testInt64 rg x \<and> x \<notin> set rejects \<longleftrightarrow>
      br_lower rg \<le> x \<and> x \<le> br_upper rg \<and> x \<notin> set ?from" for x
    unfolding set by (auto simp: BigintRange_testInt64_def)
  ultimately show ?thesis unfolding cuts_def using * by metis
qed

lemma combineRangesAndNegatedValues_denotes:
  assumes "sorted rejects" "distinct rejects" "inner_values rejects" "disjoint_ranges rs"
  shows "denotes (combineRangesAndNegatedValues rs rejects na) na
    (\<lambda>x. ranges_accept rs x \<and> x \<notin> set rejects)"
  unfolding combineRangesAndNegatedValues_def
  using assms by (intro combine_cuts_denotes ballI rejects_in_range_cuts) (auto simp: disjoint_ranges_def)

section \<open>Ranges and a rejected range\<close>

lemma cut_negated_cuts:
  assumes "i64 nl" "i64 nu" "nl \<le> nu" "range_inv r"
  shows "cuts r (\<lambda>x. \<not> (nl \<le> x \<and> x \<le> nu)) (cut_negated nl nu r)"
proof -
  have b: "i64 (br_lower r)" "i64 (br_upper r)" "br_lower r \<le> br_upper r"
    using assms(4) by (simp_all add: range_inv_def)
  have l: "i64_sub nl 1 = Inr (nl - 1)" "i64 (nl - 1)" if "br_lower r < nl"
    using that b assms(1) by (simp_all add: i64_def)
  have u: "i64_add nu 1 = Inr (nu + 1)" "i64 (nu + 1)" if "nu < br_upper r"
    using that b assms(2) by (simp_all add: i64_def)
  show ?thesis
  proof (cases "nu < br_lower r \<or> br_upper r < nl")
    case True
    then show ?thesis using b by (auto simp: cuts_def cut_negated_def BigintRange_testInt64_def)
  next
    case False
    let ?left = "if br_lower r < nl then [BigintRange_new (br_lower r) (nl - 1) False] else []"
    let ?right = "if nu < br_upper r then [BigintRange_new (nu + 1) (br_upper r) False] else []"
    have "cut_negated nl nu r = Inr (?left @ ?right)"
      using False l u by (simp add: cut_negated_def)
    moreover have "plain_ranges (?left @ ?right)" using b l u assms(3) by simp
    moreover have "\<forall>p \<in> set (?left @ ?right). br_lower r \<le> br_lower p \<and> br_upper p \<le> br_upper r"
      using False by auto
    moreover have "ranges_accept (?left @ ?right) x \<longleftrightarrow>
        BigintRange_testInt64 r x \<and> \<not> (nl \<le> x \<and> x \<le> nu)" for x
      using False by (auto simp: BigintRange_testInt64_def)
    ultimately show ?thesis unfolding cuts_def by blast
  qed
qed

lemma combineNegatedRangeOnIntRanges_denotes:
  assumes "i64 nl" "i64 nu" "nl \<le> nu" "disjoint_ranges rs"
  shows "denotes (combineNegatedRangeOnIntRanges nl nu rs na) na
    (\<lambda>x. ranges_accept rs x \<and> \<not> (nl \<le> x \<and> x \<le> nu))"
  unfolding combineNegatedRangeOnIntRanges_def
  using assms by (intro combine_cuts_denotes ballI cut_negated_cuts) (auto simp: disjoint_ranges_def)

section \<open>The complement of a list of values\<close>

lemma negated_gaps_ranges:
  assumes "sorted vs" "distinct vs" "vs \<noteq> []" "\<forall>v \<in> set vs. i64 v"
  shows "\<exists>rs. negated_gaps vs = Inr rs \<and> plain_ranges rs \<and> (\<forall>r \<in> set rs. hd vs < br_lower r) \<and>
    (\<forall>x. ranges_accept rs x \<longleftrightarrow> hd vs < x \<and> x \<le> INT64_MAX \<and> x \<notin> set vs)"
  using assms
proof (induction vs rule: negated_gaps.induct)
  case (1 b f rest)
  have bf: "b < f" "i64 b" "i64 f" "\<forall>v \<in> set rest. f < v"
    using 1(2-) by (auto simp: order_less_le)
  then have i: "i64 (b + 1)" "i64 (f - 1)" by (auto simp: i64_def)
  from 1(1) [of "b + 1" "f - 1"] i 1(2-) obtain rs where
    rs: "negated_gaps (f # rest) = Inr rs" "plain_ranges rs" "\<forall>r \<in> set rs. f < br_lower r"
    "\<forall>x. ranges_accept rs x \<longleftrightarrow> f < x \<and> x \<le> INT64_MAX \<and> x \<notin> set (f # rest)"
    by auto
  let ?gap = "if b + 1 \<le> f - 1 then [BigintRange_new (b + 1) (f - 1) False] else []"
  have "negated_gaps (b # f # rest) = Inr (?gap @ rs)" using rs(1) i by simp
  moreover have "plain_ranges (?gap @ rs)"
    unfolding plain_ranges_simps(3) using rs(2,3) i by auto
  moreover have "\<forall>r \<in> set (?gap @ rs). b < br_lower r" using rs(3) bf(1) by auto
  moreover have "ranges_accept (?gap @ rs) x \<longleftrightarrow>
      b < x \<and> x \<le> INT64_MAX \<and> x \<notin> set (b # f # rest)" for x
  proof -
    have "ranges_accept ?gap x \<longleftrightarrow> b < x \<and> x < f" by auto
    moreover have "x \<notin> set rest" if "x < f" using bf(4) that by fastforce
    moreover have "f \<le> INT64_MAX" using bf(3) by (simp add: i64_def)
    ultimately show ?thesis
      unfolding ranges_accept_simps(3) rs(4) [rule_format] using bf(1) by auto
  qed
  ultimately show ?case unfolding list.sel by blast
next
  case (2 b)
  then show ?case by (auto simp: i64_def)
qed simp

lemma negatedValuesToRanges_ranges:
  assumes "sorted vs" "distinct vs" "vs \<noteq> []" "\<forall>v \<in> set vs. i64 v"
  shows "\<exists>rs. negatedValuesToRanges vs = Inr rs \<and> plain_ranges rs \<and>
    (\<forall>x. ranges_accept rs x \<longleftrightarrow> i64 x \<and> x \<notin> set vs)"
proof -
  from negated_gaps_ranges [OF assms] obtain rs where rs: "negated_gaps vs = Inr rs"
    "plain_ranges rs" "\<forall>r \<in> set rs. hd vs < br_lower r"
    "\<forall>x. ranges_accept rs x \<longleftrightarrow> hd vs < x \<and> x \<le> INT64_MAX \<and> x \<notin> set vs" by blast
  have hd: "hd vs \<in> set vs" "i64 (hd vs)" "\<forall>v \<in> set vs. hd vs \<le> v"
    using assms sorted_bounds [OF assms(1)] by auto
  let ?first = "if hd vs > INT64_MIN then [BigintRange_new INT64_MIN (hd vs - 1) False] else []"
  have i: "i64 (hd vs - 1)" if "hd vs > INT64_MIN" using that hd(2) by (auto simp: i64_def)
  have "negatedValuesToRanges vs = Inr (?first @ rs)"
    using assms(3) rs(1) i by (simp add: negatedValuesToRanges_def)
  moreover have "plain_ranges (?first @ rs)"
    unfolding plain_ranges_simps(3) using rs(2,3) i by (auto simp: i64_def)
  moreover have "ranges_accept (?first @ rs) x \<longleftrightarrow> i64 x \<and> x \<notin> set vs" for x
  proof -
    have "ranges_accept ?first x \<longleftrightarrow> INT64_MIN \<le> x \<and> x < hd vs" by auto
    moreover have "x \<notin> set vs" if "x < hd vs" using hd(3) that by fastforce
    ultimately show ?thesis
      unfolding ranges_accept_simps(3) rs(4) [rule_format] using hd(1,2) by (auto simp: i64_def)
  qed
  ultimately show ?thesis by blast
qed

section \<open>The union of two lists of rejected values\<close>

lemma merge_rejected_set: "set (merge_rejected as bs) = set as \<union> set bs"
  by (induction as bs rule: merge_rejected.induct) (auto simp: Let_def min_def split: if_splits)

lemma merge_rejected_sorted:
  "sorted as \<Longrightarrow> sorted bs \<Longrightarrow> distinct as \<Longrightarrow> distinct bs \<Longrightarrow>
     sorted (merge_rejected as bs) \<and> distinct (merge_rejected as bs)"
proof (induction as bs rule: merge_rejected.induct)
  case (1 a as b bs)
  have "\<forall>x \<in> set as. a < x" "\<forall>x \<in> set bs. b < x" using 1(2-) by (auto simp: order_less_le)
  then show ?case using 1
    by (cases a b rule: linorder_cases) (fastforce simp: merge_rejected_set min_def)+
qed simp_all

lemma merge_rejected_length: "length (merge_rejected as bs) \<le> length as + length bs"
  by (induction as bs rule: merge_rejected.induct) (auto simp: Let_def min_def)

section \<open>The merges of each class\<close>

abbreviation merges :: "Filter \<Rightarrow> Filter \<Rightarrow> Filter res \<Rightarrow> bool" where
  "merges f g r \<equiv> denotes r (testNull f \<and> testNull g) (\<lambda>x. accepts64 f x \<and> accepts64 g x)"

lemma merges_sym: "merges g f r \<Longrightarrow> merges f g r"
  by (erule denotes_cong) auto

lemma clone_denotes:
  assumes "bigint_wf f"
  shows "denotes (clone f None) (testNull f) (accepts64 f)"
proof (cases f)
  case (kBigintMultiRange m)
  then have m: "multi_inv m" using assms by simp
  then have "ranges_ordered (bmr_ranges m)" "1 < length (bmr_ranges m)" "bmr_ranges m \<noteq> []"
    by (auto simp: multi_inv_def disjoint_ranges_ordered)
  then have "clone f None = Inr f"
    using m by (simp add: kBigintMultiRange BigintMultiRange_new_def clone_defs value_or_def multi_inv_def)
  then show ?thesis using assms bigint_wf_testInt64 by (simp add: denotes_def)
qed (use assms bigint_wf_testInt64 [OF assms] in
  \<open>auto simp: denotes_def clone_defs value_or_def NegatedBigintRange_new_def NegatedBigintRange_testInt64_def
     range_inv_def BigintRange_testInt64_def\<close>)

text \<open>The cases that every class hands to \<open>AlwaysTrue\<close>, \<open>AlwaysFalse\<close> and \<open>IsNull\<close>.\<close>

lemma trivial_merges:
  assumes "bigint_wf f"
  shows "merges kAlwaysTrue f (mergeWith (Suc n) kAlwaysTrue f)"
    and "merges kAlwaysFalse f (mergeWith (Suc n) kAlwaysFalse f)"
    and "merges kIsNull f (mergeWith (Suc n) kIsNull f)"
  using clone_denotes [OF assms] by (auto simp: denotes_def IsNull_mergeWith_def)

lemma range_range_merges:
  assumes "range_inv r" "range_inv s"
  shows "merges (kBigintRange r) (kBigintRange s) (BigintRange_mergeWith mrg r (kBigintRange s))"
proof (cases "max (br_lower r) (br_lower s) \<le> min (br_upper r) (br_upper s)")
  case True
  then show ?thesis using assms
    by (auto simp: BigintRange_mergeWith_def denotes_def BigintRange_testInt64_def range_inv_def
      BigintRange_new_def max_def min_def)
next
  case False
  then have "\<not> (BigintRange_testInt64 r x \<and> BigintRange_testInt64 s x)" for x
    by (auto simp: BigintRange_testInt64_def)
  then show ?thesis using False
    by (auto simp: BigintRange_mergeWith_def nullOrFalse_def denotes_def)
qed

text \<open>The two kinds of NOT lists are treated alike by the other classes.\<close>

fun rejected_values :: "Filter \<Rightarrow> int list option" where
  "rejected_values (kNegatedBigintValuesUsingHashTable f) = Some (nbh_values f)"
| "rejected_values (kNegatedBigintValuesUsingBitmask f) =
     Some (NegatedBigintValuesUsingBitmask_values f)"
| "rejected_values _ = None"

lemma rejected_values_cases:
  assumes "rejected_values g = Some vs"
  obtains (hash) f where "g = kNegatedBigintValuesUsingHashTable f" "vs = nbh_values f"
    | (bitmask) f where "g = kNegatedBigintValuesUsingBitmask f"
        "vs = NegatedBigintValuesUsingBitmask_values f"
  using assms by (cases g) auto

lemma rejected_values_facts:
  assumes "rejected_values g = Some vs" "bigint_wf g" "bigint_safe g"
  shows "sorted vs" "distinct vs" "inner_values vs" "vs \<noteq> []" "accepts64 g x \<longleftrightarrow> x \<notin> set vs"
  using assms
  by (cases rule: rejected_values_cases [OF assms(1)],
    auto simp: hash_inv_sorted hash_inv_distinct accepts64_values bitmask_values_sorted
      bitmask_values_distinct NegatedBigintValuesUsingBitmask_values_def dest: hash_inv_length)+

lemma rejected_range_test:
  assumes "rejected_values g = Some vs" "bigint_wf g" "bigint_safe g" "a \<le> b"
  shows "\<exists>t. testInt64Range g a b False = Inr t \<and> (t \<or> {a..b} \<subseteq> set vs)"
  using assms(1)
proof (cases rule: rejected_values_cases)
  case (hash f)
  have inv: "hash_inv (nbh_nonNegated f)" using assms(2) hash(1) by simp
  have "i64 (b - a)" if "a \<in> set vs" "b \<in> set vs"
    using sorted_bounds [OF hash_inv_sorted [OF inv], of a]
      sorted_bounds [OF hash_inv_sorted [OF inv], of b] that assms(3,4) hash by (simp add: i64_def)
  then show ?thesis
    using negated_hash_testInt64Range_exact [OF inv assms(4), of False] hash by auto
next
  case (bitmask f)
  then show ?thesis
    using accepts64_values(4) [of f a] assms(2)
    by (auto simp: NegatedBigintValuesUsingBitmask_testInt64Range_def accepts64_def)
qed

lemma range_rejected_merges:
  assumes "range_inv r" "rejected_values g = Some vs" "bigint_wf g" "bigint_safe g"
  shows "merges (kBigintRange r) g (BigintRange_mergeWith mrg r g)"
proof -
  let ?na = "br_nullAllowed r \<and> testNull g"
  let ?r = "BigintRange_new (br_lower r) (br_upper r) False"
  note vs = rejected_values_facts [OF assms(2-4)]
  have r: "br_lower r \<le> br_upper r" "disjoint_ranges [?r]" using assms(1) by (auto simp: range_inv_def)
  from rejected_range_test [OF assms(2-4) r(1)] obtain t where
    t: "testInt64Range g (br_lower r) (br_upper r) False = Inr t" "t \<or> {br_lower r..br_upper r} \<subseteq> set vs"
    by blast
  have "BigintRange_mergeWith mrg r g = (if t then combineRangesAndNegatedValues [?r] vs ?na
      else Inr (nullOrFalse ?na))"
    using assms(2) t(1)
    by (cases rule: rejected_values_cases [OF assms(2)]) (auto simp: BigintRange_mergeWith_def Let_def)
  then show ?thesis
    using combineRangesAndNegatedValues_denotes [OF vs(1-3) r(2), of ?na] t(2)
      denotes_nullOrFalse [of ?na]
    by (auto simp: vs(5) BigintRange_testInt64_def elim!: denotes_cong)
qed

lemma range_invD:
  assumes "range_inv r"
  shows "i64 (br_lower r)" "i64 (br_upper r)" "br_lower r \<le> br_upper r"
  using assms by (simp_all add: range_inv_def)

lemma negated_range_range_merges:
  assumes "range_inv (nbr_nonNegated r)" "range_inv s"
  shows "merges (kNegatedBigintRange r) (kBigintRange s)
    (NegatedBigintRange_mergeWith mrg r (kBigintRange s))"
proof -
  have "disjoint_ranges [BigintRange_new (br_lower s) (br_upper s) False]"
    using assms(2) by (simp add: range_inv_def)
  from combineNegatedRangeOnIntRanges_denotes [OF range_invD [OF assms(1)] this,
      of "nbr_nullAllowed r \<and> br_nullAllowed s"] show ?thesis
    by (auto simp: NegatedBigintRange_mergeWith_def BigintRange_testInt64_def Let_def
      elim!: denotes_cong)
qed

lemma negated_range_multi_merges:
  assumes "range_inv (nbr_nonNegated r)" "multi_inv m"
  shows "merges (kNegatedBigintRange r) (kBigintMultiRange m)
    (NegatedBigintRange_mergeWith mrg r (kBigintMultiRange m))"
proof -
  have "disjoint_ranges (bmr_ranges m)" using assms(2) by (simp add: multi_inv_def)
  from combineNegatedRangeOnIntRanges_denotes [OF range_invD [OF assms(1)] this,
      of "nbr_nullAllowed r \<and> bmr_nullAllowed m"] show ?thesis
    by (auto simp: NegatedBigintRange_mergeWith_def BigintRange_testInt64_def Let_def
      accepts64_values(5) [OF assms(2)] elim!: denotes_cong)
qed

lemma negated_range_rejected_merges:
  assumes "range_inv (nbr_nonNegated r)" "rejected_values g = Some vs" "bigint_wf g" "bigint_safe g"
  shows "merges (kNegatedBigintRange r) g (NegatedBigintRange_mergeWith mrg r g)"
proof -
  let ?na = "nbr_nullAllowed r \<and> testNull g" and ?l = "nbr_lower r"
  note vs = rejected_values_facts [OF assms(2-4)]
  have i64: "\<forall>v \<in> set vs. i64 v" using vs(3) by (auto simp: inner_values_def i64_def)
  show ?thesis
  proof (cases "br_isSingleValue (nbr_nonNegated r)")
    case True
    let ?vs = "vs @ (if ?l \<notin> set vs then [?l] else [])"
    have eq: "NegatedBigintRange_mergeWith mrg r g = createNegatedBigintValues ?vs ?na"
      using True bigint_wf_testInt64 [OF assms(3)] vs(5)
      by (cases rule: rejected_values_cases [OF assms(2)])
        (auto simp: NegatedBigintRange_mergeWith_def Let_def)
    have "length ?vs \<le> 2 ^ 22" using vs(3) by (simp add: inner_values_def small_vector_def)
    moreover have "distinct ?vs" using vs(2) by simp
    moreover have "\<forall>v \<in> set ?vs. i64 v" using i64 range_invD(1) [OF assms(1)] by auto
    ultimately have "denotes (createNegatedBigintValues ?vs ?na) ?na (\<lambda>x. x \<notin> set ?vs)"
      by (intro createBigintValues_denotes(2)) simp_all
    then show ?thesis unfolding eq
      by (rule denotes_cong) (use True in \<open>auto simp: vs(5) BigintRange_testInt64_def br_isSingleValue_def\<close>)
  next
    case False
    from negatedValuesToRanges_ranges [OF vs(1,2,4) i64] obtain rs where
      rs: "negatedValuesToRanges vs = Inr rs" "plain_ranges rs"
      "\<forall>x. ranges_accept rs x \<longleftrightarrow> i64 x \<and> x \<notin> set vs" by blast
    have eq: "NegatedBigintRange_mergeWith mrg r g =
        combineNegatedRangeOnIntRanges (nbr_lower r) (nbr_upper r) rs ?na"
      using False rs(1)
      by (cases rule: rejected_values_cases [OF assms(2)])
        (auto simp: NegatedBigintRange_mergeWith_def Let_def)
    have "disjoint_ranges rs" using rs(2) by (simp add: plain_ranges_def)
    from combineNegatedRangeOnIntRanges_denotes [OF range_invD [OF assms(1)] this, of ?na] rs(3)
    show ?thesis
      unfolding eq by (auto simp: BigintRange_testInt64_def vs(5) elim!: denotes_cong)
  qed
qed

lemma negated_ranges_merges:
  assumes "range_inv (nbr_nonNegated r)" "range_inv (nbr_nonNegated s)" "nbr_upper r < INT64_MAX"
    and "nbr_lower r \<le> nbr_lower s"
  shows "merges (kNegatedBigintRange r) (kNegatedBigintRange s)
    (NegatedBigintRange_mergeWith mrg r (kNegatedBigintRange s))"
proof -
  let ?na = "nbr_nullAllowed r \<and> nbr_nullAllowed s"
  note r = range_invD [OF assms(1)] and s = range_invD [OF assms(2)]
  have nxt: "i64 (nbr_upper r + 1)" using r assms(3) by (simp add: i64_def)
  show ?thesis
  proof (cases "nbr_upper r + 1 < nbr_lower s")
    case True
    let ?r1 = "if nbr_lower r > INT64_MIN then [BigintRange_new INT64_MIN (nbr_lower r - 1) False] else []"
    let ?r2 = "[BigintRange_new (nbr_upper r + 1) (nbr_lower s - 1) False]"
    let ?r3 = "if nbr_upper s < INT64_MAX then [BigintRange_new (nbr_upper s + 1) INT64_MAX False] else []"
    have i: "nbr_lower r > INT64_MIN \<Longrightarrow> i64 (nbr_lower r - 1)" "i64 (nbr_lower s - 1)"
      "nbr_upper s < INT64_MAX \<Longrightarrow> i64 (nbr_upper s + 1)" "nbr_lower s > INT64_MIN"
      using r s True by (auto simp: i64_def)
    have eq: "NegatedBigintRange_mergeWith mrg r (kNegatedBigintRange s) =
        combineBigintRanges (?r1 @ ?r2 @ ?r3) ?na"
      using assms(3,4) nxt True i
      by (simp add: NegatedBigintRange_mergeWith_def merge_negated_ranges_def Let_def)
    have "plain_ranges (?r1 @ ?r2 @ ?r3)"
      using r s i nxt True by (auto simp: i64_def)
    from combineBigintRanges_denotes [OF this, of ?na] show ?thesis
      unfolding eq
      by (rule denotes_cong) (use r s True in \<open>auto simp: BigintRange_testInt64_def i64_def\<close>)
  next
    case False
    have eq: "NegatedBigintRange_mergeWith mrg r (kNegatedBigintRange s) =
        Inr (kNegatedBigintRange (NegatedBigintRange_new (nbr_lower r)
          (max (nbr_upper r) (nbr_upper s)) ?na))"
      using assms(4) nxt False
      by (simp add: NegatedBigintRange_mergeWith_def merge_negated_ranges_def Let_def)
    have "denotes (Inr (kNegatedBigintRange (NegatedBigintRange_new (nbr_lower r)
        (max (nbr_upper r) (nbr_upper s)) ?na))) ?na
        (\<lambda>x. \<not> (nbr_lower r \<le> x \<and> x \<le> max (nbr_upper r) (nbr_upper s)))"
      using r s by (intro denotes_negated_single) (auto simp: max_def)
    then show ?thesis unfolding eq
      by (rule denotes_cong) (use assms(4) s(3) False in \<open>auto simp: BigintRange_testInt64_def\<close>)
  qed
qed

section \<open>Merges that filter a list of values\<close>

lemma hash_kept_values:
  assumes "hash_inv f" "bigint_safe (kBigintValuesUsingHashTable f)" "bigint_wf g"
  shows "\<exists>kept. rfilter (\<lambda>v. if v \<noteq> kEmptyMarker then testInt64 g v else Inr False) (bvh_hashTable f) = Inr kept \<and>
    distinct kept \<and> set kept = {x \<in> set (bvh_values f). accepts64 g x} \<and> length kept \<le> 2 ^ 22"
proof -
  let ?vs = "bvh_values f" and ?kept = "filter (accepts64 g) (live (bvh_hashTable f))"
  have ms: "mset (live (bvh_hashTable f)) = mset (live ?vs)"
    using live_table assms(1,2) by simp
  have "kEmptyMarker \<notin> set ?vs" using assms(1,2) by (simp add: hash_inv_marker)
  then have live: "live ?vs = ?vs" by (metis (mono_tags, lifting) filter_True)
  have "distinct (live (bvh_hashTable f))"
    using mset_eq_imp_distinct_iff [OF ms] hash_inv_distinct [OF assms(1)] live by simp
  then have d: "distinct ?kept" by (rule distinct_filter)
  have set: "set ?kept = {x \<in> set ?vs. accepts64 g x}"
    using mset_eq_setD [OF ms] live by auto
  have "length ?kept \<le> length ?vs"
    using size_filter_mset_lesseq [of "accepts64 g" "mset ?vs"] ms live
    by (metis mset_filter size_mset)
  then have len: "length ?kept \<le> 2 ^ 22" using assms(2) by (simp add: small_vector_def)
  have "rfilter (\<lambda>v. if v \<noteq> kEmptyMarker then testInt64 g v else Inr False) (bvh_hashTable f) =
      Inr (filter (\<lambda>v. v \<noteq> kEmptyMarker \<and> accepts64 g v) (bvh_hashTable f))"
    by (rule rfilter_total) (simp add: bigint_wf_testInt64 [OF assms(3)])
  also have "\<dots> = Inr ?kept" by (simp add: conj_commute)
  finally show ?thesis using d set len by blast
qed

lemma hash_merge_range_denotes:
  assumes "hash_inv f" "bigint_safe (kBigintValuesUsingHashTable f)" "bigint_wf g"
    and "\<And>x. x \<in> set (bvh_values f) \<Longrightarrow> accepts64 g x \<Longrightarrow> minv \<le> x \<and> x \<le> maxv"
  shows "merges (kBigintValuesUsingHashTable f) g (hash_merge_range f minv maxv g)"
proof -
  let ?na = "bvh_nullAllowed f \<and> testNull g"
  note acc = accepts64_values(1) [OF assms(1)]
  consider "maxv < minv" | "maxv = minv" | "minv < maxv" by linarith
  then show ?thesis
  proof cases
    case 1
    with assms(4) denotes_nullOrFalse [of ?na] show ?thesis
      by (force simp: hash_merge_range_def acc elim!: denotes_cong)
  next
    case 2
    let ?both = "minv \<in> set (bvh_values f) \<and> accepts64 g minv"
    have eq: "hash_merge_range f minv maxv g =
        Inr (if ?both then kBigintRange (BigintRange_new minv minv ?na) else nullOrFalse ?na)"
      using 2 by (simp add: hash_merge_range_def hash_test_iff [OF assms(1)]
        bigint_wf_testInt64 [OF assms(3)])
    have only: "x \<in> set (bvh_values f) \<and> accepts64 g x \<longleftrightarrow> x = minv \<and> ?both" for x
      using assms(4) [of x] 2 by auto
    have "denotes (hash_merge_range f minv maxv g) ?na (\<lambda>x. x = minv \<and> ?both)"
    proof (cases ?both)
      case True
      then have "i64 minv" using hash_inv_i64 [OF assms(1)] by blast
      from denotes_single [OF this this order_refl, of ?na] True show ?thesis
        unfolding eq by (auto elim!: denotes_cong)
    next
      case False
      then show ?thesis using denotes_nullOrFalse [of ?na] unfolding eq by auto
    qed
    then show ?thesis
      by (rule denotes_cong) (simp_all only: testNull_simps acc, metis only)
  next
    case 3
    from hash_kept_values [OF assms(1-3)] obtain kept where
      kept: "rfilter (\<lambda>v. if v \<noteq> kEmptyMarker then testInt64 g v else Inr False) (bvh_hashTable f) = Inr kept"
      "distinct kept" "set kept = {x \<in> set (bvh_values f). accepts64 g x}" "length kept \<le> 2 ^ 22" by blast
    have eq: "hash_merge_range f minv maxv g = createBigintValues kept ?na"
      using 3 assms(2) kept(1) by (simp add: hash_merge_range_def)
    have "\<forall>v \<in> set kept. i64 v" using kept(3) hash_inv_i64 [OF assms(1)] by auto
    from createBigintValues_denotes(1) [OF kept(2) this, of ?na] kept(4) show ?thesis
      unfolding eq by (simp add: kept(3) acc)
  qed
qed

lemma bitmask_loop_total:
  assumes "bitmask_inv f" "bvb_max f < INT64_MAX" "bvb_min f \<le> minv" "maxv \<le> bvb_max f"
    and "\<And>x. test x = Inr (P x)"
  shows "\<exists>kept. bitmask_loop f minv maxv test = Inr kept \<and> distinct kept \<and>
    set kept = {x \<in> set (BigintValuesUsingBitmask_values f). minv \<le> x \<and> x \<le> maxv \<and> P x}"
proof -
  let ?kept = "filter (\<lambda>i. bvb_bitmask f ! nat (i - bvb_min f) \<and> P i) [minv..maxv]"
  have len: "length (bvb_bitmask f) = nat (bvb_max f - bvb_min f + 1)"
    using assms(1) by (simp add: bitmask_inv_def)
  have "bitmask_loop f minv maxv test = Inr ?kept"
    unfolding bitmask_loop_def using assms(2-5) len by (auto intro!: rfilter_total)
  moreover have "set ?kept =
      {x \<in> set (BigintValuesUsingBitmask_values f). minv \<le> x \<and> x \<le> maxv \<and> P x}"
    using assms(3,4) by (auto simp: bitmask_values_iff [OF assms(1)] BigintValuesUsingBitmask_testInt64_def)
  ultimately show ?thesis using distinct_filter [OF distinct_upto] by blast
qed

lemma bitmask_values_bounds:
  assumes "bitmask_inv f" "x \<in> set (BigintValuesUsingBitmask_values f)"
  shows "bvb_min f \<le> x" "x \<le> bvb_max f"
  using assms by (auto simp: bitmask_values_iff BigintValuesUsingBitmask_testInt64_def split: if_splits)

lemma bitmask_kept_denotes:
  assumes "bitmask_inv f" "distinct kept" "set kept \<subseteq> set (BigintValuesUsingBitmask_values f)"
  shows "denotes (createBigintValues kept na) na (\<lambda>x. x \<in> set kept)"
proof -
  have b: "bvb_min f \<le> x \<and> x \<le> bvb_max f" if "x \<in> set kept" for x
    using bitmask_values_bounds [OF assms(1)] assms(3) that by auto
  have lim: "i64 (bvb_min f)" "i64 (bvb_max f)" "bvb_max f - bvb_min f < INT32_MAX"
    using assms(1) by (auto simp: bitmask_inv_def)
  have "Max (set kept) - Min (set kept) < INT32_MAX" if "kept \<noteq> []"
  proof -
    have "Max (set kept) \<in> set kept" "Min (set kept) \<in> set kept" using that by simp_all
    from this [THEN b] lim(3) show ?thesis by linarith
  qed
  moreover have "\<forall>v \<in> set kept. i64 v" using b lim by (fastforce simp: i64_def)
  ultimately show ?thesis using createBigintValues_denotes(1) assms(2) by blast
qed

lemma bitmask_merge_range_denotes:
  assumes "bitmask_inv f" "bvb_max f < INT64_MAX" "bigint_wf g"
    and "bvb_min f \<le> minv" "maxv \<le> bvb_max f"
    and "\<And>x. x \<in> set (BigintValuesUsingBitmask_values f) \<Longrightarrow> accepts64 g x \<Longrightarrow> minv \<le> x \<and> x \<le> maxv"
  shows "merges (kBigintValuesUsingBitmask f) g (bitmask_merge_range f minv maxv g)"
proof -
  from bitmask_loop_total [OF assms(1,2,4,5), of "testInt64 g" "accepts64 g"]
    bigint_wf_testInt64 [OF assms(3)] obtain kept where
    kept: "bitmask_loop f minv maxv (testInt64 g) = Inr kept" "distinct kept"
    "set kept = {x \<in> set (BigintValuesUsingBitmask_values f). minv \<le> x \<and> x \<le> maxv \<and> accepts64 g x}"
    by blast
  from bitmask_kept_denotes [OF assms(1) kept(2), of "bvb_nullAllowed f \<and> testNull g"] kept(3)
  have "denotes (createBigintValues kept (bvb_nullAllowed f \<and> testNull g))
      (bvb_nullAllowed f \<and> testNull g) (\<lambda>x. x \<in> set kept)" by auto
  then show ?thesis
    unfolding bitmask_merge_range_def kept(1) rbind.simps testNull_simps
    by (rule denotes_cong) (use assms(6) in \<open>auto simp: kept(3) accepts64_values(2) [OF assms(1)]\<close>)
qed

lemma hash_inv_bounds:
  assumes "hash_inv h" "x \<in> set (bvh_values h)"
  shows "bvh_min h \<le> x" "x \<le> bvh_max h"
  using sorted_bounds [OF hash_inv_sorted [OF assms(1)] assms(2)]
  by (simp_all add: hash_inv_min [OF assms(1)] hash_inv_max [OF assms(1)])

lemma hash_merges:
  assumes "hash_inv f" "bigint_safe (kBigintValuesUsingHashTable f)" "bigint_wf g"
    and "(\<exists>r. g = kBigintRange r) \<or> (\<exists>h. g = kBigintValuesUsingHashTable h) \<or>
      (\<exists>r. g = kNegatedBigintRange r) \<or> rejected_values g \<noteq> None"
  shows "merges (kBigintValuesUsingHashTable f) g (BigintValuesUsingHashTable_mergeWith mrg f g)"
proof -
  note * = hash_merge_range_denotes [OF assms(1-3)] and b = hash_inv_bounds [OF assms(1)]
  consider (range) r where "g = kBigintRange r" | (hash) h where "g = kBigintValuesUsingHashTable h"
    | (negated) "BigintValuesUsingHashTable_mergeWith mrg f g =
        hash_merge_range f (bvh_min f) (bvh_max f) g"
    using assms(4) by (cases g) (auto simp: BigintValuesUsingHashTable_mergeWith_def)
  then show ?thesis
  proof cases
    case (range r)
    have eq: "BigintValuesUsingHashTable_mergeWith mrg f g =
        hash_merge_range f (max (bvh_min f) (br_lower r)) (min (bvh_max f) (br_upper r)) g"
      by (simp add: range BigintValuesUsingHashTable_mergeWith_def)
    show ?thesis unfolding eq
      by (rule *) (simp add: b range BigintRange_testInt64_def)
  next
    case (hash h)
    have inv: "hash_inv h" using assms(3) hash by simp
    have eq: "BigintValuesUsingHashTable_mergeWith mrg f g =
        hash_merge_range f (max (bvh_min f) (bvh_min h)) (min (bvh_max f) (bvh_max h)) g"
      by (simp add: hash BigintValuesUsingHashTable_mergeWith_def)
    show ?thesis unfolding eq
      by (rule *) (simp add: b hash_inv_bounds [OF inv] hash accepts64_values(1) [OF inv])
  next
    case negated
    show ?thesis unfolding negated by (rule *) (simp add: b)
  qed
qed

lemma bitmask_merges:
  assumes "bitmask_inv f" "bvb_max f < INT64_MAX" "bigint_wf g"
    and "(\<exists>r. g = kBigintRange r) \<or> (\<exists>h. g = kBigintValuesUsingHashTable h) \<or>
      (\<exists>b. g = kBigintValuesUsingBitmask b) \<or> (\<exists>r. g = kNegatedBigintRange r) \<or> rejected_values g \<noteq> None"
  shows "merges (kBigintValuesUsingBitmask f) g (BigintValuesUsingBitmask_mergeWith mrg f g)"
proof -
  note * = bitmask_merge_range_denotes [OF assms(1-3)] and b = bitmask_values_bounds [OF assms(1)]
  have "\<exists>lo hi. BigintValuesUsingBitmask_mergeWith mrg f g =
      bitmask_merge_range f (max (bvb_min f) lo) (min (bvb_max f) hi) g \<and>
    (\<forall>x. accepts64 g x \<longrightarrow> bvb_min f \<le> x \<longrightarrow> x \<le> bvb_max f \<longrightarrow> lo \<le> x \<and> x \<le> hi)"
  proof -
    consider (range) r where "g = kBigintRange r" | (hash) h where "g = kBigintValuesUsingHashTable h"
      | (bitmask) h where "g = kBigintValuesUsingBitmask h"
      | (negated) "BigintValuesUsingBitmask_mergeWith mrg f g =
          bitmask_merge_range f (max (bvb_min f) (bvb_min f)) (min (bvb_max f) (bvb_max f)) g"
      using assms(4) by (cases g) (auto simp: BigintValuesUsingBitmask_mergeWith_def)
    then show ?thesis
    proof cases
      case (range r)
      show ?thesis
        by (intro exI [of _ "br_lower r"] exI [of _ "br_upper r"])
          (simp add: range BigintValuesUsingBitmask_mergeWith_def BigintRange_testInt64_def)
    next
      case (hash h)
      then have inv: "hash_inv h" using assms(3) by simp
      show ?thesis
        by (intro exI [of _ "bvh_min h"] exI [of _ "bvh_max h"])
          (simp add: hash BigintValuesUsingBitmask_mergeWith_def hash_inv_bounds [OF inv]
            accepts64_values(1) [OF inv])
    next
      case (bitmask h)
      then have inv: "bitmask_inv h" using assms(3) by simp
      show ?thesis
        by (intro exI [of _ "bvb_min h"] exI [of _ "bvb_max h"])
          (simp add: bitmask BigintValuesUsingBitmask_mergeWith_def bitmask_values_bounds [OF inv]
            accepts64_values(2) [OF inv])
    next
      case negated
      then show ?thesis by (intro exI [of _ "bvb_min f"] exI [of _ "bvb_max f"]) simp
    qed
  qed
  then obtain lo hi where eq: "BigintValuesUsingBitmask_mergeWith mrg f g =
      bitmask_merge_range f (max (bvb_min f) lo) (min (bvb_max f) hi) g"
    and lohi: "\<forall>x. accepts64 g x \<longrightarrow> bvb_min f \<le> x \<longrightarrow> x \<le> bvb_max f \<longrightarrow> lo \<le> x \<and> x \<le> hi" by blast
  show ?thesis unfolding eq by (rule *) (use b lohi in simp_all)
qed

text \<open>Disjoint ranges pick disjoint parts of a list of values.\<close>

lemma distinct_concat_ranges:
  assumes "disjoint_ranges rs" "\<And>r. r \<in> set rs \<Longrightarrow> distinct (k r)"
    and "\<And>r x. r \<in> set rs \<Longrightarrow> x \<in> set (k r) \<Longrightarrow> BigintRange_testInt64 r x"
  shows "distinct (concat (map k rs))"
  using assms
proof (induction rs)
  case (Cons r rs)
  have "x \<notin> set (concat (map k rs))" if "x \<in> set (k r)" for x
  proof
    assume "x \<in> set (concat (map k rs))"
    then obtain s where s: "s \<in> set rs" "x \<in> set (k s)" by auto
    have "br_upper r < br_lower s" using Cons.prems(1) s(1) by simp
    moreover have "x \<le> br_upper r" "br_lower s \<le> x"
      using Cons.prems(3) [of r x] Cons.prems(3) [of s x] that s
      by (simp_all add: BigintRange_testInt64_def)
    ultimately show False by simp
  qed
  with Cons show ?case by (auto simp del: set_concat)
qed simp

lemma hash_multi_merges:
  assumes "hash_inv f" "bigint_safe (kBigintValuesUsingHashTable f)" "multi_inv m"
  shows "merges (kBigintValuesUsingHashTable f) (kBigintMultiRange m)
    (BigintValuesUsingHashTable_mergeWith mrg f (kBigintMultiRange m))"
proof -
  let ?na = "bvh_nullAllowed f \<and> bmr_nullAllowed m" and ?vs = "bvh_values f"
  define k where "k = (\<lambda>rg. if max (bvh_min f) (br_lower rg) \<le> min (bvh_max f) (br_upper rg)
    then filter (BigintRange_testInt64 rg) ?vs else [])"
  let ?kept = "concat (map k (bmr_ranges m))"
  have eq: "BigintValuesUsingHashTable_mergeWith mrg f (kBigintMultiRange m) =
      createBigintValues ?kept ?na"
    using assms(2) by (simp add: BigintValuesUsingHashTable_mergeWith_def k_def Let_def)
  have b: "bvh_min f \<le> x \<and> x \<le> bvh_max f" if "x \<in> set ?vs" for x
    using sorted_bounds [OF hash_inv_sorted [OF assms(1)] that]
    by (simp add: hash_inv_min [OF assms(1)] hash_inv_max [OF assms(1)])
  have k: "set (k r) = {x \<in> set ?vs. BigintRange_testInt64 r x}" for r
    using b by (fastforce simp: k_def BigintRange_testInt64_def)
  have d: "distinct ?kept"
    using assms(3) hash_inv_distinct [OF assms(1)] k
    by (intro distinct_concat_ranges) (auto simp: multi_inv_def k_def)
  have set: "set ?kept = {x \<in> set ?vs. ranges_accept (bmr_ranges m) x}"
    by (auto simp: k ranges_accept_def)
  have "length ?kept \<le> length ?vs"
    using distinct_card [OF d] distinct_card [OF hash_inv_distinct [OF assms(1)]] set
      card_mono [of "set ?vs" "set ?kept"] by auto
  then have "length ?kept \<le> 2 ^ 22" using assms(2) by (simp add: small_vector_def)
  moreover have "\<forall>v \<in> set ?kept. i64 v" using set hash_inv_i64 [OF assms(1)] by auto
  ultimately have "denotes (createBigintValues ?kept ?na) ?na (\<lambda>x. x \<in> set ?kept)"
    using createBigintValues_denotes(1) d by blast
  then show ?thesis
    unfolding eq testNull_simps
    by (rule denotes_cong) (simp_all only: set accepts64_values(1) [OF assms(1)]
      accepts64_values(5) [OF assms(3)] mem_Collect_eq)
qed

lemma bitmask_multi_merges:
  assumes "bitmask_inv f" "bvb_max f < INT64_MAX" "multi_inv m"
  shows "merges (kBigintValuesUsingBitmask f) (kBigintMultiRange m)
    (BigintValuesUsingBitmask_mergeWith mrg f (kBigintMultiRange m))"
proof -
  let ?na = "bvb_nullAllowed f \<and> bmr_nullAllowed m" and ?vs = "BigintValuesUsingBitmask_values f"
  let ?loop = "\<lambda>rg. bitmask_loop f (max (bvb_min f) (br_lower rg)) (min (bvb_max f) (br_upper rg))
    (\<lambda>i. Inr (BigintRange_testInt64 rg i))"
  have "\<forall>rg. \<exists>kept. ?loop rg = Inr kept \<and> distinct kept \<and>
      set kept = {x \<in> set ?vs. BigintRange_testInt64 rg x}"
  proof
    fix rg
    show "\<exists>kept. ?loop rg = Inr kept \<and> distinct kept \<and>
        set kept = {x \<in> set ?vs. BigintRange_testInt64 rg x}"
    proof -
      have "{x \<in> set ?vs. max (bvb_min f) (br_lower rg) \<le> x \<and> x \<le> min (bvb_max f) (br_upper rg) \<and>
          BigintRange_testInt64 rg x} = {x \<in> set ?vs. BigintRange_testInt64 rg x}"
        using bitmask_values_bounds [OF assms(1)] by (auto simp: BigintRange_testInt64_def)
      with bitmask_loop_total [OF assms(1,2) max.cobounded1 min.cobounded1 refl]
      show ?thesis by metis
    qed
  qed
  then obtain k where k: "\<And>rg. ?loop rg = Inr (k rg)" "\<And>rg. distinct (k rg)"
    "\<And>rg. set (k rg) = {x \<in> set ?vs. BigintRange_testInt64 rg x}" by metis
  let ?kept = "concat (map k (bmr_ranges m))"
  have "rmap ?loop (bmr_ranges m) = Inr (map k (bmr_ranges m))" by (rule rmap_total) (rule k(1))
  then have eq: "BigintValuesUsingBitmask_mergeWith mrg f (kBigintMultiRange m) =
      createBigintValues ?kept ?na"
    by (simp add: BigintValuesUsingBitmask_mergeWith_def)
  have d: "distinct ?kept"
    using assms(3) k by (intro distinct_concat_ranges) (auto simp: multi_inv_def)
  have set: "set ?kept = {x \<in> set ?vs. ranges_accept (bmr_ranges m) x}"
    by (auto simp: k ranges_accept_def)
  then have "set ?kept \<subseteq> set ?vs" by auto
  from bitmask_kept_denotes [OF assms(1) d this, of ?na] show ?thesis
    unfolding eq testNull_simps
    by (rule denotes_cong) (simp_all only: set accepts64_values(2) [OF assms(1)]
      accepts64_values(5) [OF assms(3)] mem_Collect_eq)
qed

section \<open>Merges of two lists of rejected values\<close>

lemma combineNegatedBigintLists_denotes:
  assumes "rejected_values f = Some as" "bigint_wf f" "bigint_safe f"
    and "rejected_values g = Some bs" "bigint_wf g" "bigint_safe g"
  shows "denotes (combineNegatedBigintLists as bs na) na (\<lambda>x. accepts64 f x \<and> accepts64 g x)"
proof -
  note a = rejected_values_facts [OF assms(1-3)] and b = rejected_values_facts [OF assms(4-6)]
  let ?vs = "merge_rejected as bs"
  have "distinct ?vs" using merge_rejected_sorted a(1,2) b(1,2) by blast
  moreover have "\<forall>v \<in> set ?vs. i64 v"
    using a(3) b(3) by (auto simp: merge_rejected_set inner_values_def i64_def)
  moreover have "length ?vs \<le> 2 ^ 22"
    using merge_rejected_length [of as bs] a(3) b(3) by (simp add: inner_values_def small_vector_def)
  ultimately have "denotes (createNegatedBigintValues ?vs na) na (\<lambda>x. x \<notin> set ?vs)"
    using createBigintValues_denotes(2) by blast
  then show ?thesis
    unfolding combineNegatedBigintLists_def
    by (rule denotes_cong) (simp_all add: merge_rejected_set a(5) b(5))
qed

section \<open>Merges with sequences of ranges\<close>

lemma multi_rejected_merges:
  assumes "multi_inv m" "rejected_values g = Some vs" "bigint_wf g" "bigint_safe g"
  shows "merges (kBigintMultiRange m) g (BigintMultiRange_mergeWith mrg m g)"
proof -
  note vs = rejected_values_facts [OF assms(2-4)]
  have eq: "BigintMultiRange_mergeWith mrg m g =
      combineRangesAndNegatedValues (bmr_ranges m) vs (bmr_nullAllowed m \<and> testNull g)"
    by (cases rule: rejected_values_cases [OF assms(2)])
      (simp_all add: BigintMultiRange_mergeWith_def)
  have "disjoint_ranges (bmr_ranges m)" using assms(1) by (simp add: multi_inv_def)
  from combineRangesAndNegatedValues_denotes [OF vs(1-3) this] show ?thesis
    unfolding eq by (simp add: accepts64_values(5) [OF assms(1)] vs(5))
qed

text \<open>The part of a range inside another one, as a list with at most one range.\<close>

definition intersect_range :: "BigintRange \<Rightarrow> BigintRange \<Rightarrow> BigintRange list" where
  "intersect_range r s =
     (let lower = max (br_lower r) (br_lower s); upper = min (br_upper r) (br_upper s)
      in if lower \<le> upper then [BigintRange_new lower upper False] else [])"

lemma intersect_range_cuts:
  assumes "range_inv r" "range_inv s"
  shows "cuts s (BigintRange_testInt64 r) (Inr (intersect_range r s))"
  using range_invD [OF assms(1)] range_invD [OF assms(2)]
  by (auto simp: cuts_def intersect_range_def Let_def BigintRange_testInt64_def max_def min_def)

lemma merge_each_range_intersects:
  assumes "\<forall>s \<in> set rs. \<not> br_nullAllowed s"
  shows "merge_each_range (\<lambda>s. mergeWith (Suc n) (kBigintRange r) (kBigintRange s)) rs =
    Inr (concat (map (intersect_range r) rs))"
  using assms
  by (induction rs) (auto simp: BigintRange_mergeWith_def intersect_range_def nullOrFalse_def Let_def)

lemma intersect_ranges_facts:
  assumes "range_inv r" "disjoint_ranges rs"
  shows "plain_ranges (concat (map (intersect_range r) rs))"
    and "ranges_accept (concat (map (intersect_range r) rs)) x \<longleftrightarrow>
      ranges_accept rs x \<and> BigintRange_testInt64 r x"
proof -
  have "rmap (\<lambda>s. Inr (intersect_range r s)) rs = Inr (map (intersect_range r) rs)"
    by (rule rmap_total) simp
  with cuts_concat [OF assms(2), of "BigintRange_testInt64 r" "\<lambda>s. Inr (intersect_range r s)"]
    intersect_range_cuts [OF assms(1)] assms(2)
  show "plain_ranges (concat (map (intersect_range r) rs))"
    "ranges_accept (concat (map (intersect_range r) rs)) x \<longleftrightarrow>
      ranges_accept rs x \<and> BigintRange_testInt64 r x"
    by (auto simp: disjoint_ranges_def)
qed

lemma range_multi_eq:
  assumes "multi_inv m"
  shows "BigintRange_mergeWith (mergeWith (Suc n)) r (kBigintMultiRange m) =
    combineBigintRanges (concat (map (intersect_range r) (bmr_ranges m)))
      (br_nullAllowed r \<and> bmr_nullAllowed m)"
  using assms
  by (simp add: BigintRange_mergeWith_def merge_each_range_intersects multi_inv_def
    del: mergeWith.simps)

lemma range_multi_merges:
  assumes "range_inv r" "multi_inv m"
  shows "merges (kBigintRange r) (kBigintMultiRange m)
    (BigintRange_mergeWith (mergeWith (Suc n)) r (kBigintMultiRange m))"
proof -
  have d: "disjoint_ranges (bmr_ranges m)" using assms(2) by (simp add: multi_inv_def)
  note facts = intersect_ranges_facts [OF assms(1) d]
  from combineBigintRanges_denotes [OF facts(1)] show ?thesis
    unfolding range_multi_eq [OF assms(2)] testNull_simps
    by (rule denotes_cong) (auto simp only: facts(2) accepts64_values(5) [OF assms(2)] accepts64_simps)
qed

lemma combined_ranges_read_back:
  assumes "plain_ranges ns"
  shows "\<exists>merged. combineBigintRanges ns False = Inr merged \<and>
    (case merged of kBigintRange r \<Rightarrow> Inr [r] | kBigintMultiRange m \<Rightarrow> Inr (bmr_ranges m)
     | _ \<Rightarrow> check (merged = kAlwaysFalse) (Inr [])) = Inr ns"
proof -
  consider "ns = []" | r where "ns = [r]" | "1 < length ns"
    by (cases ns; cases "tl ns") auto
  then show ?thesis
  proof cases
    case (2 r)
    then show ?thesis using assms by (simp add: combineBigintRanges_def BigintRange_new_def)
  next
    case 3
    with BigintMultiRange_new_disjoint [of ns False] assms obtain f where
      "BigintMultiRange_new ns False = Inr f" "bmr_ranges f = ns" by (auto simp: plain_ranges_def)
    moreover have "ns \<noteq> []" "length ns \<noteq> 1" using 3 by auto
    ultimately show ?thesis by (simp add: combineBigintRanges_def)
  qed (simp add: combineBigintRanges_def nullOrFalse_def)
qed

lemma multi_multi_merges:
  assumes "multi_inv m" "multi_inv m'"
  shows "merges (kBigintMultiRange m) (kBigintMultiRange m')
    (BigintMultiRange_mergeWith (mergeWith (Suc (Suc n))) m (kBigintMultiRange m'))"
proof -
  let ?na = "bmr_nullAllowed m \<and> bmr_nullAllowed m'"
  let ?ns = "\<lambda>r. concat (map (intersect_range r) (bmr_ranges m'))"
  have d: "disjoint_ranges (bmr_ranges m)" "disjoint_ranges (bmr_ranges m')"
    using assms by (simp_all add: multi_inv_def)
  have own: "\<forall>r \<in> set (bmr_ranges m). range_inv r \<and> \<not> br_nullAllowed r"
    using assms(1) by (auto simp: multi_inv_def disjoint_ranges_def)
  have merged: "merge_own_ranges (\<lambda>r. mergeWith (Suc (Suc n)) (kBigintRange r) (kBigintMultiRange m')) rs =
      Inr (concat (map ?ns rs))" if "\<forall>r \<in> set rs. range_inv r \<and> \<not> br_nullAllowed r" for rs
    using that
  proof (induction rs)
    case (Cons r rs)
    then have r: "range_inv r" "\<not> br_nullAllowed r" by simp_all
    from combined_ranges_read_back [OF intersect_ranges_facts(1) [OF r(1) d(2)]] obtain h where
      "combineBigintRanges (?ns r) False = Inr h"
      "(case h of kBigintRange r \<Rightarrow> Inr [r] | kBigintMultiRange m \<Rightarrow> Inr (bmr_ranges m)
        | _ \<Rightarrow> check (h = kAlwaysFalse) (Inr [])) = Inr (?ns r)" by blast
    moreover have "mergeWith (Suc (Suc n)) (kBigintRange r) (kBigintMultiRange m') =
        combineBigintRanges (?ns r) False"
      using range_multi_eq [OF assms(2), of n r] r(2) by simp
    ultimately show ?case using Cons by (simp del: mergeWith.simps)
  qed simp
  have "cuts r (ranges_accept (bmr_ranges m')) (Inr (?ns r))" if "r \<in> set (bmr_ranges m)" for r
    using own that intersect_ranges_facts [OF _ d(2), of r]
    by (auto simp: cuts_def intersect_range_def Let_def split: if_splits)
  with cuts_concat [OF d(1), of "ranges_accept (bmr_ranges m')" "\<lambda>r. Inr (?ns r)"]
    rmap_total [of "bmr_ranges m" "\<lambda>r. Inr (?ns r)" ?ns]
  have facts: "plain_ranges (concat (map ?ns (bmr_ranges m)))"
    "\<And>x. ranges_accept (concat (map ?ns (bmr_ranges m))) x \<longleftrightarrow>
      ranges_accept (bmr_ranges m) x \<and> ranges_accept (bmr_ranges m') x"
    by auto
  have eq: "BigintMultiRange_mergeWith (mergeWith (Suc (Suc n))) m (kBigintMultiRange m') =
      combineBigintRanges (concat (map ?ns (bmr_ranges m))) ?na"
    by (simp only: BigintMultiRange_mergeWith_def Let_def Filter.case merged [OF own] rbind.simps
      combineBigintRanges_def testNull_simps)
  from combineBigintRanges_denotes [OF facts(1), of ?na] show ?thesis
    unfolding eq testNull_simps
    by (rule denotes_cong) (simp_all only: facts(2) accepts64_values(5) [OF assms(1)]
      accepts64_values(5) [OF assms(2)])
qed

section \<open>Every pair of integer filters\<close>

text \<open>The flag for nulls plays no part in the tests on values.\<close>

lemma null_flag_update [simp]:
  "hash_inv (f\<lparr>bvh_nullAllowed := b\<rparr>) = hash_inv f"
  "BigintValuesUsingHashTable_testInt64 (f\<lparr>bvh_nullAllowed := b\<rparr>) x =
     BigintValuesUsingHashTable_testInt64 f x"
  "bitmask_inv (g\<lparr>bvb_nullAllowed := b\<rparr>) = bitmask_inv g"
  "BigintValuesUsingBitmask_testInt64 (g\<lparr>bvb_nullAllowed := b\<rparr>) x =
     BigintValuesUsingBitmask_testInt64 g x"
  "NegatedBigintValuesUsingHashTable_testInt64 (h\<lparr>nbh_nullAllowed := b\<rparr>) x =
     NegatedBigintValuesUsingHashTable_testInt64 h x"
  "NegatedBigintValuesUsingBitmask_testInt64 (k\<lparr>nbb_nullAllowed := b\<rparr>) x =
     NegatedBigintValuesUsingBitmask_testInt64 k x"
  "NegatedBigintValuesUsingBitmask_values (k\<lparr>nbb_nullAllowed := b\<rparr>) =
     NegatedBigintValuesUsingBitmask_values k"
  by (simp_all add: hash_inv_def BigintValuesUsingHashTable_testInt64_def bitmask_inv_def
    BigintValuesUsingBitmask_testInt64_def NegatedBigintValuesUsingHashTable_testInt64_def
    NegatedBigintValuesUsingBitmask_testInt64_def NegatedBigintValuesUsingBitmask_values_def)

lemma is_not_null_merges:
  assumes "bigint_wf f" "f \<notin> {kAlwaysTrue, kAlwaysFalse, kIsNull, kIsNotNull}"
  shows "merges f kIsNotNull (mergeWith (Suc n) f kIsNotNull)"
proof (cases f)
  case (kBigintMultiRange m)
  then have m: "multi_inv m" using assms(1) by simp
  then obtain h where "BigintMultiRange_new (bmr_ranges m) False = Inr h" "multi_inv h"
    "bmr_ranges h = bmr_ranges m" "\<not> bmr_nullAllowed h"
    using BigintMultiRange_new_disjoint [of "bmr_ranges m" False] by (auto simp: multi_inv_def)
  with m show ?thesis
    by (simp add: kBigintMultiRange BigintMultiRange_mergeWith_def denotes_def
      BigintMultiRange_testInt64_iff accepts64_values(5))
qed (use assms bigint_wf_testInt64 [OF assms(1)] in
  \<open>auto simp: denotes_def accepts64_def BigintRange_mergeWith_def NegatedBigintRange_mergeWith_def
     BigintValuesUsingHashTable_mergeWith_def BigintValuesUsingBitmask_mergeWith_def
     NegatedBigintValuesUsingHashTable_mergeWith_def NegatedBigintValuesUsingBitmask_mergeWith_def
     Let_def clone_defs value_or_def NegatedBigintRange_new_def NegatedBigintRange_testInt64_def
     range_inv_def BigintRange_testInt64_def\<close>)

text \<open>The pairs for which the method is \<open>return other->mergeWith(this)\<close>.\<close>

definition forwards :: "Filter \<Rightarrow> Filter \<Rightarrow> bool" where
  "forwards f g \<longleftrightarrow>
     (let trivial = (g = kAlwaysTrue \<or> g = kAlwaysFalse \<or> g = kIsNull)
      in case f of
           kIsNotNull \<Rightarrow> \<not> trivial \<and> g \<noteq> kIsNotNull
         | kBigintRange _ \<Rightarrow> trivial \<or> (case g of kNegatedBigintRange _ \<Rightarrow> True
             | kBigintValuesUsingBitmask _ \<Rightarrow> True | kBigintValuesUsingHashTable _ \<Rightarrow> True | _ \<Rightarrow> False)
         | kNegatedBigintRange r \<Rightarrow> trivial \<or> (case g of kBigintValuesUsingBitmask _ \<Rightarrow> True
             | kBigintValuesUsingHashTable _ \<Rightarrow> True
             | kNegatedBigintRange s \<Rightarrow> nbr_lower r > nbr_lower s | _ \<Rightarrow> False)
         | kBigintValuesUsingHashTable _ \<Rightarrow> trivial \<or> (case g of kBigintValuesUsingBitmask _ \<Rightarrow> True
             | _ \<Rightarrow> False)
         | kBigintValuesUsingBitmask _ \<Rightarrow> trivial
         | kNegatedBigintValuesUsingHashTable _ \<Rightarrow> trivial \<or> (case g of
               kBigintValuesUsingHashTable _ \<Rightarrow> True | kBigintValuesUsingBitmask _ \<Rightarrow> True
             | kBigintRange _ \<Rightarrow> True | kBigintMultiRange _ \<Rightarrow> True | kNegatedBigintRange _ \<Rightarrow> True
             | kNegatedBigintValuesUsingBitmask _ \<Rightarrow> True | _ \<Rightarrow> False)
         | kNegatedBigintValuesUsingBitmask _ \<Rightarrow> trivial \<or> (case g of
               kBigintValuesUsingHashTable _ \<Rightarrow> True | kBigintValuesUsingBitmask _ \<Rightarrow> True
             | kBigintRange _ \<Rightarrow> True | kBigintMultiRange _ \<Rightarrow> True | kNegatedBigintRange _ \<Rightarrow> True
             | _ \<Rightarrow> False)
         | kBigintMultiRange _ \<Rightarrow> trivial \<or> (case g of
               kBigintRange _ \<Rightarrow> True | kNegatedBigintRange _ \<Rightarrow> True
             | kBigintValuesUsingBitmask _ \<Rightarrow> True | kBigintValuesUsingHashTable _ \<Rightarrow> True | _ \<Rightarrow> False)
         | _ \<Rightarrow> False)"

lemma mergeWith_forwards:
  assumes "forwards f g" "bigint_wf f" "bigint_wf g"
  shows "mergeWith (Suc n) f g = mergeWith n g f"
proof (cases f)
  case kIsNotNull
  with assms show ?thesis by (cases g) (simp_all add: forwards_def IsNotNull_mergeWith_def)
next
  case (kBigintRange r)
  with assms show ?thesis by (cases g) (simp_all add: forwards_def BigintRange_mergeWith_def)
next
  case (kNegatedBigintRange r)
  with assms show ?thesis by (cases g) (simp_all add: forwards_def NegatedBigintRange_mergeWith_def merge_negated_ranges_def)
next
  case (kBigintValuesUsingHashTable h)
  with assms show ?thesis by (cases g) (simp_all add: forwards_def BigintValuesUsingHashTable_mergeWith_def)
next
  case (kBigintValuesUsingBitmask b)
  with assms show ?thesis by (cases g) (simp_all add: forwards_def BigintValuesUsingBitmask_mergeWith_def)
next
  case (kNegatedBigintValuesUsingHashTable h)
  with assms show ?thesis by (cases g) (simp_all add: forwards_def NegatedBigintValuesUsingHashTable_mergeWith_def)
next
  case (kNegatedBigintValuesUsingBitmask b)
  with assms show ?thesis by (cases g) (simp_all add: forwards_def NegatedBigintValuesUsingBitmask_mergeWith_def)
next
  case (kBigintMultiRange m)
  with assms show ?thesis by (cases g) (simp_all add: forwards_def BigintMultiRange_mergeWith_def)
qed (use assms in \<open>simp_all add: forwards_def\<close>)

lemma forwards_once:
  assumes "forwards f g" "bigint_wf f" "bigint_wf g"
  shows "\<not> forwards g f"
proof (cases g)
  case kIsNotNull
  with assms show ?thesis by (cases f) (simp_all add: forwards_def)
next
  case (kBigintRange r)
  with assms show ?thesis by (cases f) (simp_all add: forwards_def)
next
  case (kNegatedBigintRange r)
  with assms show ?thesis by (cases f) (simp_all add: forwards_def)
next
  case (kBigintValuesUsingHashTable h)
  with assms show ?thesis by (cases f) (simp_all add: forwards_def)
next
  case (kBigintValuesUsingBitmask b)
  with assms show ?thesis by (cases f) (simp_all add: forwards_def)
next
  case (kNegatedBigintValuesUsingHashTable h)
  with assms show ?thesis by (cases f) (simp_all add: forwards_def)
next
  case (kNegatedBigintValuesUsingBitmask b)
  with assms show ?thesis by (cases f) (simp_all add: forwards_def)
next
  case (kBigintMultiRange m)
  with assms show ?thesis by (cases f) (simp_all add: forwards_def)
qed (use assms in \<open>simp_all add: forwards_def\<close>)

lemma mergeWith_class:
  "mergeWith (Suc n) (kBigintRange r) g = BigintRange_mergeWith (mergeWith n) r g"
  "mergeWith (Suc n) (kNegatedBigintRange nr) g = NegatedBigintRange_mergeWith (mergeWith n) nr g"
  "mergeWith (Suc n) (kBigintValuesUsingHashTable h) g =
     BigintValuesUsingHashTable_mergeWith (mergeWith n) h g"
  "mergeWith (Suc n) (kBigintValuesUsingBitmask b) g =
     BigintValuesUsingBitmask_mergeWith (mergeWith n) b g"
  "mergeWith (Suc n) (kNegatedBigintValuesUsingHashTable nh) g =
     NegatedBigintValuesUsingHashTable_mergeWith (mergeWith n) nh g"
  "mergeWith (Suc n) (kNegatedBigintValuesUsingBitmask nb) g =
     NegatedBigintValuesUsingBitmask_mergeWith (mergeWith n) nb g"
  "mergeWith (Suc n) (kBigintMultiRange m) g = BigintMultiRange_mergeWith (mergeWith n) m g"
  by simp_all

lemma direct_merges:
  assumes wf: "bigint_wf f" "bigint_wf g" and safe: "bigint_safe f" "bigint_safe g"
    and "\<not> forwards f g"
  shows "merges f g (mergeWith (Suc (Suc (Suc n))) f g)"
proof (cases "g = kIsNotNull \<or> f \<in> {kAlwaysTrue, kAlwaysFalse, kIsNull, kIsNotNull}")
  case True
  consider "f = kAlwaysTrue" | "f = kAlwaysFalse" | "f = kIsNull"
    | "f = kIsNotNull" "g \<in> {kAlwaysTrue, kAlwaysFalse, kIsNull, kIsNotNull}"
    | "g = kIsNotNull" "f \<notin> {kAlwaysTrue, kAlwaysFalse, kIsNull, kIsNotNull}"
    using True assms(5) by (cases "f = kIsNotNull") (auto simp: forwards_def)
  then show ?thesis
  proof cases
    case 4
    then show ?thesis by (auto simp: denotes_def IsNotNull_mergeWith_def)
  next
    case 5
    with is_not_null_merges [OF wf(1) 5(2)] show ?thesis by (simp only:)
  qed (simp_all only: trivial_merges [OF wf(2)])
next
  case False
  note simps = mergeWith_class
  obtain vs where rej: "rejected_values g = Some vs" if "rejected_values g \<noteq> None" by blast
  show ?thesis
  proof (cases f)
    case (kBigintRange r)
    then have r: "range_inv r" using wf by simp
    have g: "(\<exists>s. g = kBigintRange s) \<or> (\<exists>m. g = kBigintMultiRange m) \<or> rejected_values g = Some vs"
      using kBigintRange wf False assms(5) rej by (cases g) (simp_all add: forwards_def)
    then show ?thesis
      unfolding kBigintRange simps
      using range_range_merges [OF r] range_multi_merges [OF r] range_rejected_merges [OF r _ wf(2) safe(2)]
        wf(2) by (elim disjE exE) (simp_all only: bigint_wf.simps)
  next
    case (kNegatedBigintRange r)
    then have r: "range_inv (nbr_nonNegated r)" "nbr_upper r < INT64_MAX" using wf safe by simp_all
    have g: "(\<exists>s. g = kBigintRange s) \<or> (\<exists>m. g = kBigintMultiRange m) \<or> rejected_values g = Some vs \<or>
        (\<exists>s. g = kNegatedBigintRange s \<and> nbr_lower r \<le> nbr_lower s)"
      using kNegatedBigintRange wf False assms(5) rej by (cases g) (simp_all add: forwards_def)
    then show ?thesis
      unfolding kNegatedBigintRange simps
      using negated_range_range_merges [OF r(1)] negated_range_multi_merges [OF r(1)]
        negated_range_rejected_merges [OF r(1) _ wf(2) safe(2)] negated_ranges_merges [OF r(1) _ r(2)]
        wf(2) by (elim disjE exE conjE) (simp_all only: bigint_wf.simps)
  next
    case (kBigintValuesUsingHashTable h)
    then have h: "hash_inv h" "bigint_safe (kBigintValuesUsingHashTable h)" using wf safe by simp_all
    have g: "(\<exists>m. g = kBigintMultiRange m) \<or> (\<exists>r. g = kBigintRange r) \<or>
        (\<exists>h. g = kBigintValuesUsingHashTable h) \<or> (\<exists>r. g = kNegatedBigintRange r) \<or> rejected_values g \<noteq> None"
      using kBigintValuesUsingHashTable wf False assms(5) by (cases g) (simp_all add: forwards_def)
    then show ?thesis
      unfolding kBigintValuesUsingHashTable simps
      using hash_merges [OF h wf(2)] hash_multi_merges [OF h] wf(2) bigint_wf.simps(11) by blast
  next
    case (kBigintValuesUsingBitmask b)
    then have b: "bitmask_inv b" "bvb_max b < INT64_MAX" using wf safe by simp_all
    have g: "(\<exists>m. g = kBigintMultiRange m) \<or> (\<exists>r. g = kBigintRange r) \<or>
        (\<exists>h. g = kBigintValuesUsingHashTable h) \<or> (\<exists>b. g = kBigintValuesUsingBitmask b) \<or>
        (\<exists>r. g = kNegatedBigintRange r) \<or> rejected_values g \<noteq> None"
      using kBigintValuesUsingBitmask wf False assms(5) by (cases g) (simp_all add: forwards_def)
    then show ?thesis
      unfolding kBigintValuesUsingBitmask simps
      using bitmask_merges [OF b wf(2)] bitmask_multi_merges [OF b] wf(2) bigint_wf.simps(11) by blast
  next
    case (kNegatedBigintValuesUsingHashTable h)
    obtain k where g: "g = kNegatedBigintValuesUsingHashTable k"
      using kNegatedBigintValuesUsingHashTable wf False assms(5) by (cases g) (simp_all add: forwards_def)
    show ?thesis
      using combineNegatedBigintLists_denotes [OF _ wf(1) safe(1) _ wf(2) safe(2)]
      unfolding kNegatedBigintValuesUsingHashTable g simps
        NegatedBigintValuesUsingHashTable_mergeWith_def by simp
  next
    case (kNegatedBigintValuesUsingBitmask b)
    have "\<exists>vs. rejected_values g = Some vs"
      using kNegatedBigintValuesUsingBitmask wf False assms(5) by (cases g) (simp_all add: forwards_def)
    then obtain vs where vs: "rejected_values g = Some vs" ..
    from vs combineNegatedBigintLists_denotes [OF _ wf(1) safe(1) vs wf(2) safe(2)] show ?thesis
      unfolding kNegatedBigintValuesUsingBitmask simps
        NegatedBigintValuesUsingBitmask_mergeWith_def
      by (cases rule: rejected_values_cases) simp_all
  next
    case (kBigintMultiRange m)
    then have m: "multi_inv m" using wf by simp
    have g: "(\<exists>m. g = kBigintMultiRange m) \<or> rejected_values g = Some vs"
      using kBigintMultiRange wf False assms(5) rej by (cases g) (simp_all add: forwards_def)
    then show ?thesis
      unfolding kBigintMultiRange simps
      using multi_multi_merges [OF m] multi_rejected_merges [OF m _ wf(2) safe(2)]
        wf(2) by (elim disjE exE) (simp_all only: bigint_wf.simps)
  qed (use wf False in simp_all)
qed

lemma bigint_merges:
  assumes "bigint_wf f" "bigint_wf g" "bigint_safe f" "bigint_safe g" "4 \<le> n"
  shows "merges f g (mergeWith n f g)"
proof -
  obtain m where "n = 4 + m" using assms(5) le_Suc_ex by blast
  then have n: "n = Suc (Suc (Suc (Suc m)))" by simp
  show ?thesis
  proof (cases "forwards f g")
    case True
    show ?thesis
      unfolding n mergeWith_forwards [OF True assms(1,2)]
      by (rule merges_sym [OF direct_merges [OF assms(2,1,4,3) forwards_once [OF True assms(1,2)]]])
  next
    case False
    then show ?thesis unfolding n by (rule direct_merges [OF assms(1-4)])
  qed
qed

end
