(* ===== verification/Filter_Range_Test.thy ===== *)
theory Filter_Range_Test
  imports Filter_Merge_Bigint
begin

text \<open>
  The tests that decide from the minimum and the maximum of a block of integers whether the block
  can be skipped (\<open>testInt64Range\<close>): they never skip a block with an accepted value, and fail only when the
  difference of the ends overflows in the test of a NOT-IN list.
\<close>

section \<open>Tests on ranges never skip an accepted value\<close>

text \<open>Whether the range \<open>[a, b]\<close>, with a null when \<open>n\<close> holds, has something the filter accepts.\<close>

definition range_has_match :: "Filter \<Rightarrow> int \<Rightarrow> int \<Rightarrow> bool \<Rightarrow> bool" where
  "range_has_match f a b n \<longleftrightarrow> (n \<and> testNull f) \<or> (\<exists>x \<in> {a..b}. accepts64 f x)"

lemma hash_range_test:
  assumes "hash_inv f" "a \<le> b"
  shows "BigintValuesUsingHashTable_testInt64Range f a b n =
    Inr (range_has_match (kBigintValuesUsingHashTable f) a b n)"
proof -
  let ?vs = "bvh_values f"
  note acc = accepts64_values(1) [OF assms(1)] and b = hash_inv_bounds [OF assms(1)]
  show ?thesis
  proof (cases "(n \<and> bvh_nullAllowed f) \<or> a = b \<or> a > bvh_max f \<or> b < bvh_min f")
    case True
    moreover have "\<not> (\<exists>x \<in> {a..b}. x \<in> set ?vs)" if "a > bvh_max f \<or> b < bvh_min f"
      using b that by force
    ultimately show ?thesis
      unfolding BigintValuesUsingHashTable_testInt64Range_def range_has_match_def acc
        hash_test_iff [OF assms(1)] by auto
  next
    case False
    let ?it = "lower_bound ?vs a"
    have "last ?vs \<in> set ?vs" using hash_inv_length [OF assms(1)] by (intro last_in_set) auto
    moreover have "a \<le> last ?vs" using False hash_inv_max [OF assms(1)] by simp
    ultimately have "?it \<noteq> length ?vs" unfolding lower_bound_end by force
    then have it: "?it < length ?vs" using lower_bound_le [of ?vs a] by simp
    have first: "a \<le> ?vs ! ?it" "\<And>x. x \<in> set ?vs \<Longrightarrow> a \<le> x \<Longrightarrow> ?vs ! ?it \<le> x"
    proof -
      show "a \<le> ?vs ! ?it" using lower_bound_above [OF hash_inv_sorted [OF assms(1)] order_refl it] .
      fix x assume "x \<in> set ?vs" "a \<le> x"
      then have "x \<in> set (drop ?it ?vs)" using lower_bound_take [OF hash_inv_sorted [OF assms(1)]] by auto
      then obtain j where "j < length ?vs - ?it" "x = ?vs ! (?it + j)"
        by (auto simp: in_set_conv_nth)
      then show "?vs ! ?it \<le> x"
        using sorted_nth_mono [OF hash_inv_sorted [OF assms(1)], of ?it "?it + j"] by simp
    qed
    have "(\<exists>x \<in> {a..b}. x \<in> set ?vs) \<longleftrightarrow> ?vs ! ?it \<le> b"
      using first nth_mem [OF it] by force
    then show ?thesis
      using False it first(1) assms(2)
      unfolding BigintValuesUsingHashTable_testInt64Range_def range_has_match_def acc
      by (auto simp: Let_def)
  qed
qed

text \<open>
  The test of the hash-table NOT-IN list computes \<open>max - min\<close> when both are rejected values, which overflows
  when they are more than \<open>INT64_MAX\<close> apart.
\<close>

fun range_overflows :: "Filter \<Rightarrow> int \<Rightarrow> int \<Rightarrow> bool \<Rightarrow> bool" where
  "range_overflows (kNegatedBigintValuesUsingHashTable h) a b n \<longleftrightarrow>
     \<not> (n \<and> nbh_nullAllowed h) \<and> a \<in> set (nbh_values h) \<and> b \<in> set (nbh_values h) \<and> \<not> i64 (b - a)"
| "range_overflows _ a b n \<longleftrightarrow> False"

lemma bigint_range_overflow:
  assumes "bigint_wf f" "a \<le> b" "range_overflows f a b n"
  shows "testInt64Range f a b n = Inl SignedOverflow"
  using assms negated_hash_testInt64Range_overflow by (cases f) simp_all

lemma negated_hash_range_test:
  assumes "hash_inv (nbh_nonNegated h)" "a \<le> b" "\<not> range_overflows (kNegatedBigintValuesUsingHashTable h) a b n"
  shows "NegatedBigintValuesUsingHashTable_testInt64Range h a b n =
    Inr (range_has_match (kNegatedBigintValuesUsingHashTable h) a b n)"
proof (cases "n \<and> nbh_nullAllowed h")
  case True
  then show ?thesis by (simp add: NegatedBigintValuesUsingHashTable_testInt64Range_def range_has_match_def)
next
  case False
  then show ?thesis
    using negated_hash_testInt64Range_exact [OF assms(1,2), of n] assms(3)
    by (simp add: range_has_match_def accepts64_values(3) [OF assms(1)])
qed

lemma bigint_range_test:
  assumes "bigint_wf f" "a \<le> b" "\<not> range_overflows f a b n"
  shows "\<exists>t. testInt64Range f a b n = Inr t \<and> (range_has_match f a b n \<longrightarrow> t)"
proof (cases f)
  case (kBigintValuesUsingHashTable h)
  then show ?thesis using hash_range_test [of h a b n] assms by simp
next
  case (kNegatedBigintValuesUsingHashTable h)
  then show ?thesis
    using negated_hash_range_test [of h a b n] assms by simp
next
  case (kBigintMultiRange m)
  have "BigintMultiRange_testInt64Range m a b n" if "range_has_match f a b n"
  proof (cases "n \<and> bmr_nullAllowed m")
    case False
    with that kBigintMultiRange assms(1) obtain x r where
      "a \<le> x" "x \<le> b" "r \<in> set (bmr_ranges m)" "BigintRange_testInt64 r x"
      by (auto simp: range_has_match_def accepts64_values(5) ranges_accept_def)
    moreover from this have "BigintRange_testInt64Range r a b n"
      by (auto simp: BigintRange_testInt64Range_def BigintRange_testInt64_def)
    ultimately show ?thesis by (auto simp: BigintMultiRange_testInt64Range_def list_ex_iff)
  qed (simp add: BigintMultiRange_testInt64Range_def)
  then show ?thesis by (simp add: kBigintMultiRange)
next
  case (kBigintValuesUsingBitmask m)
  then show ?thesis
    by (auto simp: range_has_match_def accepts64_def BigintValuesUsingBitmask_testInt64Range_def
      BigintValuesUsingBitmask_testInt64_def)
next
  case (kBigintRange r)
  then show ?thesis
    by (auto simp: range_has_match_def BigintRange_testInt64Range_def BigintRange_testInt64_def)
next
  case (kNegatedBigintRange r)
  then show ?thesis
    by (auto simp: range_has_match_def NegatedBigintRange_testInt64Range_def BigintRange_testInt64_def)
next
  case (kNegatedBigintValuesUsingBitmask r)
  then show ?thesis
    by (auto simp: range_has_match_def accepts64_def NegatedBigintValuesUsingBitmask_testInt64Range_def)
qed (use assms(1) in \<open>auto simp: range_has_match_def\<close>)

end
