(* ===== verification/Filter_Batch_Test.thy ===== *)
theory Filter_Batch_Test
  imports Filter_Merge_Bigint
begin

text \<open>
  The vectorised tests \<open>testValues\<close> of the integer filters, called through the table of methods: on
  a batch of every lane type they give each lane the verdict of \<open>testInt64\<close>.
\<close>

section \<open>Batches of integers\<close>

text \<open>
  The two ranges keep copies of their bounds narrowed to the type of the lanes, which mean the same
  only when the range reaches into that type.
\<close>

definition reaches :: "int \<Rightarrow> int \<Rightarrow> BigintRange \<Rightarrow> bool" where
  "reaches lo hi r \<longleftrightarrow> br_isSingleValue r \<or> (br_lower r \<le> hi \<and> lo \<le> br_upper r)"

fun bounds_reach :: "int \<Rightarrow> int \<Rightarrow> Filter \<Rightarrow> bool" where
  "bounds_reach lo hi (kBigintRange r) \<longleftrightarrow> reaches lo hi r"
| "bounds_reach lo hi (kNegatedBigintRange r) \<longleftrightarrow> reaches lo hi (nbr_nonNegated r)"
| "bounds_reach lo hi _ \<longleftrightarrow> True"

lemma genericTestValues_accepts:
  assumes "bigint_wf f"
  shows "genericTestValues (testInt64 f) xs = Inr (map (accepts64 f) xs)"
  unfolding genericTestValues_def by (rule rmap_total) (rule bigint_wf_testInt64 [OF assms])

lemma map_accepts64:
  "map (accepts64 (kBigintRange r)) xs = map (BigintRange_testInt64 r) xs"
  "map (accepts64 (kNegatedBigintRange nr)) xs = map (NegatedBigintRange_testInt64 nr) xs"
  "map (accepts64 (kBigintValuesUsingHashTable h)) xs = map (BigintValuesUsingHashTable_testInt64 h) xs"
  "map (accepts64 (kNegatedBigintValuesUsingHashTable nh)) xs =
     map (NegatedBigintValuesUsingHashTable_testInt64 nh) xs"
  by (auto simp: accepts64_def)

text \<open>The classes that do not override \<open>testValues\<close> use the generic loop.\<close>

lemma testValues_generic:
  assumes "bigint_wf f" "\<nexists>r. f = kBigintRange r" "\<nexists>r. f = kNegatedBigintRange r"
    "\<nexists>h. f = kBigintValuesUsingHashTable h" "\<nexists>h. f = kNegatedBigintValuesUsingHashTable h"
  shows "testValues64 f xs = Inr (map (accepts64 f) xs)"
    and "testValues32 f xs = Inr (map (accepts64 f) xs)"
    and "testValues16 f xs = Inr (map (accepts64 f) xs)"
proof -
  have "vt_testValues64 (methods f) = None \<and> vt_testValues32 (methods f) = None \<and>
      vt_testValues16 (methods f) = None"
    using assms by (cases f) (simp_all add: method_tables)
  then show "testValues64 f xs = Inr (map (accepts64 f) xs)"
    "testValues32 f xs = Inr (map (accepts64 f) xs)" "testValues16 f xs = Inr (map (accepts64 f) xs)"
    by (simp_all add: testValues64_def testValues32_def testValues16_def
        genericTestValues_accepts [OF assms(1)])
qed

lemma bigint_testValues64:
  assumes "bigint_wf f" "length xs \<le> kPaddingElements" "kEmptyMarker \<notin> set xs"
  shows "testValues64 f xs = Inr (map (accepts64 f) xs)"
proof (cases f)
  case (kBigintRange r)
  then show ?thesis
    by (simp only: testValues64_def map_accepts64) (simp add: method_tables BigintRange_testValues64_lanes)
next
  case (kNegatedBigintRange r)
  then show ?thesis
    by (simp only: testValues64_def map_accepts64)
      (simp add: method_tables NegatedBigintRange_testValues64_lanes)
next
  case (kBigintValuesUsingHashTable h)
  then show ?thesis using assms
    by (simp only: testValues64_def map_accepts64) (simp add: method_tables hash_testValues64)
next
  case (kNegatedBigintValuesUsingHashTable h)
  then show ?thesis using assms
    by (simp only: testValues64_def map_accepts64) (simp add: method_tables negated_hash_testValues)
qed (rule testValues_generic [OF assms(1)]; simp)+

lemma bigint_testValues32:
  assumes "bigint_wf f" "length xs \<le> 2 * kPaddingElements"
    and lanes: "\<forall>v \<in> set xs. INT32_MIN \<le> v \<and> v \<le> INT32_MAX"
    and reach: "bounds_reach INT32_MIN INT32_MAX f"
  shows "testValues32 f xs = Inr (map (accepts64 f) xs)"
proof -
  have marker: "kEmptyMarker \<notin> set xs" using lanes by (auto simp: kEmptyMarker_def)
  show ?thesis
  proof (cases f)
    case (kBigintRange r)
    then show ?thesis using reach lanes
      by (simp only: testValues32_def map_accepts64)
        (simp add: method_tables BigintRange_testValues32_lanes reaches_def)
  next
    case (kNegatedBigintRange r)
    then show ?thesis using reach lanes
      by (simp only: testValues32_def map_accepts64)
        (simp add: method_tables NegatedBigintRange_testValues32_lanes reaches_def)
  next
    case (kBigintValuesUsingHashTable h)
    then show ?thesis using assms(1,2) marker
      by (simp only: testValues32_def map_accepts64) (simp add: method_tables hash_testValues32)
  next
    case (kNegatedBigintValuesUsingHashTable h)
    then show ?thesis using assms(1,2) marker
      by (simp only: testValues32_def map_accepts64) (simp add: method_tables negated_hash_testValues)
  qed (rule testValues_generic [OF assms(1)]; simp)+
qed

lemma bigint_testValues16:
  assumes "bigint_wf f"
    and lanes: "\<forall>v \<in> set xs. INT16_MIN \<le> v \<and> v \<le> INT16_MAX"
    and reach: "bounds_reach INT16_MIN INT16_MAX f"
  shows "testValues16 f xs = Inr (map (accepts64 f) xs)"
proof (cases f)
  case (kBigintRange r)
  then show ?thesis using reach lanes
    by (simp only: testValues16_def map_accepts64)
      (simp add: method_tables BigintRange_testValues16_lanes reaches_def)
next
  case (kNegatedBigintRange r)
  then show ?thesis using reach lanes
    by (simp only: testValues16_def map_accepts64)
      (simp add: method_tables NegatedBigintRange_testValues16_lanes reaches_def)
next
  case (kBigintValuesUsingHashTable h)
  then show ?thesis
    by (simp only: testValues16_def map_accepts64)
      (simp add: method_tables BigintValuesUsingHashTable_testValues16_def)
next
  case (kNegatedBigintValuesUsingHashTable h)
  then show ?thesis
    by (simp only: testValues16_def map_accepts64)
      (simp add: method_tables NegatedBigintValuesUsingHashTable_testValues16_def
        BigintValuesUsingHashTable_testValues16_def NegatedBigintValuesUsingHashTable_testInt64_def)
qed (rule testValues_generic [OF assms(1)]; simp)+

end
