(* ===== verification/Filter_Merge_Padding.thy ===== *)
theory Filter_Merge_Padding
  imports Filter_Merge_Bigint
begin

text \<open>
  Merging a hash-table IN list with a range, \<open>BigintValuesUsingHashTable::mergeWith(min, max, other)\<close> of
  \<open>velox/type/Filter.cpp\<close>, when the last slot of the table is used: the loop over the table meets the value in
  that slot again in each of the four padding slots.
\<close>

lemma live_table_padded:
  assumes "hash_inv f" "bvh_hashTable f ! bvh_sizeMask f = v" "v \<noteq> kEmptyMarker"
  shows "mset (live (bvh_hashTable f)) = mset (live (bvh_values f)) + replicate_mset kPaddingElements v"
proof -
  let ?t = "bvh_hashTable f" and ?m = "bvh_sizeMask f"
  have "live ?t = live (take (Suc ?m) ?t @ drop (Suc ?m) ?t)" by simp
  also have "\<dots> = live (take (Suc ?m) ?t) @ replicate kPaddingElements v"
    using assms(2,3) unfolding hash_inv_padding [OF assms(1)] filter_append by simp
  finally show ?thesis using hash_inv_live [OF assms(1)] by simp
qed

lemma padded_kept:
  assumes "hash_inv f" "\<not> bvh_containsEmptyMarker f" "bvh_hashTable f ! bvh_sizeMask f = v" "v \<noteq> kEmptyMarker"
    and "BigintRange_testInt64 r v"
  shows "\<exists>kept. rfilter (\<lambda>v. if v \<noteq> kEmptyMarker then testInt64 (kBigintRange r) v else Inr False) (bvh_hashTable f) = Inr kept \<and>
    set kept = {x \<in> set (bvh_values f). BigintRange_testInt64 r x} \<and>
    length kept = card {x \<in> set (bvh_values f). BigintRange_testInt64 r x} + kPaddingElements"
proof -
  let ?vs = "bvh_values f" and ?P = "BigintRange_testInt64 r"
  let ?kept = "filter ?P (live (bvh_hashTable f))"
  have "kEmptyMarker \<notin> set ?vs" using assms(1,2) by (simp add: hash_inv_marker)
  then have live: "live ?vs = ?vs" by (metis (mono_tags, lifting) filter_True)
  have table: "mset (live (bvh_hashTable f)) = mset ?vs + replicate_mset kPaddingElements v"
    using live_table_padded [OF assms(1,3,4)] live by simp
  have "filter_mset ?P (mset (live (bvh_hashTable f))) = filter_mset ?P (mset ?vs) + replicate_mset kPaddingElements v"
    unfolding table using assms(5) by (simp add: filter_mset_eq_conv)
  then have ms: "mset ?kept = mset (filter ?P ?vs) + replicate_mset kPaddingElements v" by (simp only: mset_filter)
  have "v \<in> set ?vs" using hash_inv_table_elem [OF assms(1), of "bvh_sizeMask f"] assms(3,4) by simp
  then have "set ?kept = {x \<in> set ?vs. ?P x}"
    using arg_cong [OF ms, of set_mset] assms(5) by (auto simp: kPaddingElements_def)
  moreover have "length ?kept = card {x \<in> set ?vs. ?P x} + kPaddingElements"
    using arg_cong [OF ms, of size] distinct_card [OF distinct_filter [OF hash_inv_distinct [OF assms(1)]], of ?P]
    by (simp only: size_mset size_union size_replicate_mset set_filter)
  moreover have "rfilter (\<lambda>v. if v \<noteq> kEmptyMarker then testInt64 (kBigintRange r) v else Inr False) (bvh_hashTable f) =
      Inr (filter (\<lambda>v. v \<noteq> kEmptyMarker \<and> ?P v) (bvh_hashTable f))"
    by (rule rfilter_total) simp
  ultimately show ?thesis by (auto simp: conj_commute)
qed

text \<open>The merge creates a filter from the values of the range, with four copies too many of the value in the last slot.\<close>

lemma padded_merge:
  assumes "hash_inv f" "\<not> bvh_containsEmptyMarker f" "bvh_hashTable f ! bvh_sizeMask f = v" "v \<noteq> kEmptyMarker"
    and "BigintRange_testInt64 r v" "max (bvh_min f) (br_lower r) < min (bvh_max f) (br_upper r)"
  shows "\<exists>kept. mergeWith (Suc n) (kBigintValuesUsingHashTable f) (kBigintRange r) =
      createBigintValues kept (bvh_nullAllowed f \<and> br_nullAllowed r) \<and>
    set kept = {x \<in> set (bvh_values f). BigintRange_testInt64 r x} \<and>
    length kept = card {x \<in> set (bvh_values f). BigintRange_testInt64 r x} + 4"
proof -
  from padded_kept [OF assms(1-5)] obtain kept where
    k: "rfilter (\<lambda>v. if v \<noteq> kEmptyMarker then testInt64 (kBigintRange r) v else Inr False) (bvh_hashTable f) = Inr kept"
    "set kept = {x \<in> set (bvh_values f). BigintRange_testInt64 r x}"
    "length kept = card {x \<in> set (bvh_values f). BigintRange_testInt64 r x} + 4"
    unfolding kPaddingElements_def by blast
  let ?lo = "max (bvh_min f) (br_lower r)" and ?hi = "min (bvh_max f) (br_upper r)"
  have "hash_merge_range f ?lo ?hi (kBigintRange r) = createBigintValues kept (bvh_nullAllowed f \<and> testNull (kBigintRange r))"
    unfolding hash_merge_range_def Let_def k(1) using assms(2,6) by (simp del: max_less_iff_conj min_less_iff_conj)
  then have "mergeWith (Suc n) (kBigintValuesUsingHashTable f) (kBigintRange r) =
      createBigintValues kept (bvh_nullAllowed f \<and> br_nullAllowed r)"
    by (simp add: BigintValuesUsingHashTable_mergeWith_def)
  then show ?thesis using k(2,3) by blast
qed

lemma createBigintValues_same:
  assumes "set vs = {v}" "1 < length vs"
  shows "createBigintValues vs na = Inl CheckFailed"
proof -
  have "vs \<noteq> []" using assms(2) by auto
  then show ?thesis using assms
    by (simp add: createBigintValues_def createBigintValuesFilter_def min_max_loop_eq Let_def i64_def
      BigintValuesUsingBitmask_new_def check_def)
qed

lemma createBigintValues_block:
  assumes "1 < length vs" "Max (set vs) - Min (set vs) + 1 = int (length vs)" "i64 (Max (set vs) - Min (set vs))"
  shows "createBigintValues vs na = Inr (kBigintRange (BigintRange_new (Min (set vs)) (Max (set vs)) na))"
proof -
  have "vs \<noteq> []" using assms(1) by auto
  then show ?thesis using assms
    by (simp add: createBigintValues_def createBigintValuesFilter_def min_max_loop_eq Let_def)
qed

text \<open>The values between the least and the greatest kept value that are not in the list.\<close>

lemma gaps_count:
  assumes "W = {x \<in> set vs. BigintRange_testInt64 r x}" "v \<in> W"
  shows "Max W - Min W + 1 = int (card W) + int (card ({Min W..Max W} - set vs))"
proof -
  have fin: "finite W" "W \<noteq> {}" using assms by auto
  have "Min W \<in> W" "Max W \<in> W" using fin by simp_all
  then have "br_lower r \<le> Min W" "Max W \<le> br_upper r" using assms(1) by (auto simp: BigintRange_testInt64_def)
  moreover have "\<forall>x \<in> W. Min W \<le> x \<and> x \<le> Max W" using fin by simp
  moreover have "x \<in> W \<longleftrightarrow> x \<in> set vs \<and> br_lower r \<le> x \<and> x \<le> br_upper r" for x
    using assms(1) by (auto simp: BigintRange_testInt64_def)
  ultimately have "{Min W..Max W} \<inter> set vs = W" by force
  then have "{Min W..Max W} - set vs = {Min W..Max W} - W" "W \<subseteq> {Min W..Max W}" by auto
  then have "card ({Min W..Max W} - set vs) = card {Min W..Max W} - card W" "card W \<le> card {Min W..Max W}"
    using card_Diff_subset [OF fin(1)] card_mono [of "{Min W..Max W}" W] by auto
  moreover have "Min W \<le> Max W" using fin by simp
  ultimately show ?thesis by simp
qed

end
