(* ===== verification/Filter_Merge_Bytes.thy ===== *)
theory Filter_Merge_Bytes
  imports Filter_Merge
begin

text \<open>
  Correctness of \<open>mergeWith\<close> on the string filters: ranges, negated ranges, lists, negated lists
  and \<open>MultiRange\<close> combinations of them merge to a filter that accepts exactly the strings both
  accept.
\<close>

section \<open>What a string filter means\<close>

definition acceptsB :: "Filter \<Rightarrow> string \<Rightarrow> bool" where
  "acceptsB f s \<longleftrightarrow> testBytes f s = Inr True"

fun bytes_atom :: "Filter \<Rightarrow> bool" where
  "bytes_atom (kBytesRange r) \<longleftrightarrow> byr_inv r"
| "bytes_atom (kNegatedBytesRange r) \<longleftrightarrow> byr_inv (nyr_nonNegated r)"
| "bytes_atom (kBytesValues f) \<longleftrightarrow> byv_inv f"
| "bytes_atom (kNegatedBytesValues f) \<longleftrightarrow> byv_inv (nyv_nonNegated f)"
| "bytes_atom _ \<longleftrightarrow> False"

fun bytes_proper :: "Filter \<Rightarrow> bool" where
  "bytes_proper (kMultiRange fs _ _) \<longleftrightarrow> (\<forall>f \<in> set fs. bytes_atom f)"
| "bytes_proper f \<longleftrightarrow> bytes_atom f"

fun bytes_wf :: "Filter \<Rightarrow> bool" where
  "bytes_wf kAlwaysFalse \<longleftrightarrow> True"
| "bytes_wf kAlwaysTrue \<longleftrightarrow> True"
| "bytes_wf kIsNull \<longleftrightarrow> True"
| "bytes_wf kIsNotNull \<longleftrightarrow> True"
| "bytes_wf f \<longleftrightarrow> bytes_proper f"

lemma bytes_atom_cases [consumes 1]:
  assumes "bytes_atom f"
  obtains (range) r where "f = kBytesRange r" "byr_inv r"
    | (negated_range) nr where "f = kNegatedBytesRange nr" "byr_inv (nyr_nonNegated nr)"
    | (inlist) v where "f = kBytesValues v" "byv_inv v"
    | (notinlist) nv where "f = kNegatedBytesValues nv" "byv_inv (nyv_nonNegated nv)"
  using assms by (cases f) auto

lemma acceptsB_simps [simp]:
  "acceptsB kAlwaysFalse s \<longleftrightarrow> False" "acceptsB kAlwaysTrue s \<longleftrightarrow> True"
  "acceptsB kIsNull s \<longleftrightarrow> False" "acceptsB kIsNotNull s \<longleftrightarrow> True"
  by (simp_all add: acceptsB_def)

lemma acceptsB_atoms:
  "byr_inv r \<Longrightarrow> acceptsB (kBytesRange r) s \<longleftrightarrow> bytes_between r s"
  "byr_inv (nyr_nonNegated nr) \<Longrightarrow>
     acceptsB (kNegatedBytesRange nr) s \<longleftrightarrow> \<not> bytes_between (nyr_nonNegated nr) s"
  "byv_inv v \<Longrightarrow> acceptsB (kBytesValues v) s \<longleftrightarrow> s \<in> byv_values v"
  "byv_inv (nyv_nonNegated nv) \<Longrightarrow>
     acceptsB (kNegatedBytesValues nv) s \<longleftrightarrow> s \<notin> byv_values (nyv_nonNegated nv)"
  by (simp_all add: acceptsB_def BytesRange_testBytes_iff NegatedBytesRange_testBytes_def
    BytesValues_testBytes_iff NegatedBytesValues_testBytes_def)

lemma bytes_atom_testBytes: "bytes_atom f \<Longrightarrow> testBytes f s = Inr (acceptsB f s)"
  by (cases rule: bytes_atom_cases) (auto simp: acceptsB_def)

lemma testBytes_multi:
  assumes "\<forall>f \<in> set fs. bytes_atom f"
  shows "testBytes (kMultiRange fs na nan) s = Inr (\<exists>f \<in> set fs. acceptsB f s)"
  using assms rany_total [of fs "\<lambda>f. testBytes f s" "\<lambda>f. acceptsB f s"] bytes_atom_testBytes by simp

lemma acceptsB_multi [simp]:
  "\<forall>f \<in> set fs. bytes_atom f \<Longrightarrow>
     acceptsB (kMultiRange fs na nan) s \<longleftrightarrow> (\<exists>f \<in> set fs. acceptsB f s)"
  unfolding acceptsB_def [of "kMultiRange fs na nan"] by (simp add: testBytes_multi del: testBytes_simps)

lemma bytes_proper_testBytes: "bytes_proper f \<Longrightarrow> testBytes f s = Inr (acceptsB f s)"
  by (cases f) (simp_all add: bytes_atom_testBytes testBytes_multi del: testBytes_simps)

lemma bytes_wf_testBytes: "bytes_wf f \<Longrightarrow> testBytes f s = Inr (acceptsB f s)"
  using bytes_proper_testBytes [of f] by (cases f) (auto simp: acceptsB_def)

text \<open>
  The result of a merge stands for a set of strings and a verdict on nulls. It is a proper string
  filter, or the filter that accepts nothing but, maybe, null.
\<close>

definition denotesB :: "Filter res \<Rightarrow> bool \<Rightarrow> (string \<Rightarrow> bool) \<Rightarrow> bool" where
  "denotesB r na P \<longleftrightarrow> (\<exists>h. r = Inr h \<and> (bytes_proper h \<or> h = kAlwaysFalse \<or> h = kIsNull) \<and>
     testNull h = na \<and> (\<forall>s. acceptsB h s \<longleftrightarrow> P s))"

abbreviation mergesB :: "Filter \<Rightarrow> Filter \<Rightarrow> Filter res \<Rightarrow> bool" where
  "mergesB f g r \<equiv> denotesB r (testNull f \<and> testNull g) (\<lambda>s. acceptsB f s \<and> acceptsB g s)"

lemma denotesB_cong:
  "denotesB r na P \<Longrightarrow> na = na' \<Longrightarrow> (\<And>s. P s = P' s) \<Longrightarrow> denotesB r na' P'"
  by (auto simp: denotesB_def)

lemma mergesB_sym: "mergesB g f r \<Longrightarrow> mergesB f g r"
  by (erule denotesB_cong) auto

lemma denotesB_nullOrFalse: "(\<And>s. \<not> P s) \<Longrightarrow> denotesB (Inr (nullOrFalse na)) na P"
  by (auto simp: denotesB_def nullOrFalse_def)

lemma bytes_values_filter_denotes:
  assumes "finite vs"
  shows "denotesB (bytes_values_filter vs na) na (\<lambda>s. s \<in> vs)"
proof (cases "vs = {}")
  case True
  then show ?thesis by (simp add: bytes_values_filter_def denotesB_nullOrFalse)
next
  case False
  from BytesValues_new_total [OF assms False, of na] obtain f where
    "BytesValues_new vs na = Inr f" "byv_inv f" "byv_values f = vs" "byv_nullAllowed f = na" by blast
  with False show ?thesis by (simp add: bytes_values_filter_def denotesB_def acceptsB_atoms)
qed

lemma BytesRange_new_denotes:
  assumes "\<not> lu \<or> \<not> uu" "\<not> (\<not> lu \<and> l = [] \<and> \<not> le \<and> \<not> uu \<and> u = [] \<and> ue)"
  shows "\<exists>r. BytesRange_new l lu le u uu ue na = Inr r \<and> byr_inv r \<and> ar_nullAllowed r = na \<and>
    (\<forall>s. bytes_between r s \<longleftrightarrow> (lu \<or> l < s \<or> (\<not> le \<and> l = s)) \<and> (uu \<or> s < u \<or> (\<not> ue \<and> s = u)))"
  using assms by (auto simp: BytesRange_new_def byr_inv_def bytes_between_def)

section \<open>Two ranges\<close>

lemma merge_lower_between:
  "merge_lower r q = (lu, le, l) \<Longrightarrow>
     (lu \<or> l < s \<or> (\<not> le \<and> l = s)) \<longleftrightarrow>
       (ar_lowerUnbounded r \<or> byr_lower r < s \<or> (\<not> ar_lowerExclusive r \<and> byr_lower r = s)) \<and>
       (ar_lowerUnbounded q \<or> byr_lower q < s \<or> (\<not> ar_lowerExclusive q \<and> byr_lower q = s))"
  by (cases "byr_lower r" "byr_lower q" rule: linorder_cases; cases "byr_lower r" s rule: linorder_cases;
      cases "byr_lower q" s rule: linorder_cases)
    (auto simp: merge_lower_def mergeExclusive_def Let_def not_less split: if_splits)

lemma merge_upper_between:
  "merge_upper r q = (uu, ue, u) \<Longrightarrow>
     (uu \<or> s < u \<or> (\<not> ue \<and> s = u)) \<longleftrightarrow>
       (ar_upperUnbounded r \<or> s < byr_upper r \<or> (\<not> ar_upperExclusive r \<and> s = byr_upper r)) \<and>
       (ar_upperUnbounded q \<or> s < byr_upper q \<or> (\<not> ar_upperExclusive q \<and> s = byr_upper q))"
  by (cases "byr_upper r" "byr_upper q" rule: linorder_cases; cases "byr_upper r" s rule: linorder_cases;
      cases "byr_upper q" s rule: linorder_cases)
    (auto simp: merge_upper_def mergeExclusive_def Let_def not_less split: if_splits)

lemma merge_bytes_ranges_denotes:
  assumes "byr_inv r" "byr_inv q"
  shows "denotesB (merge_bytes_ranges r q na) na (\<lambda>s. bytes_between r s \<and> bytes_between q s)"
proof -
  obtain lu le l where lo: "merge_lower r q = (lu, le, l)" by (cases "merge_lower r q")
  obtain uu ue u where up: "merge_upper r q = (uu, ue, u)" by (cases "merge_upper r q")
  have both: "bytes_between r s \<and> bytes_between q s \<longleftrightarrow>
      (lu \<or> l < s \<or> (\<not> le \<and> l = s)) \<and> (uu \<or> s < u \<or> (\<not> ue \<and> s = u))" for s
    unfolding merge_lower_between [OF lo] merge_upper_between [OF up] bytes_between_def by blast
  show ?thesis
  proof (cases "\<not> lu \<and> \<not> uu \<and> (l > u \<or> (l = u \<and> (le \<or> ue)))")
    case True
    then have "\<not> (bytes_between r s \<and> bytes_between q s)" for s
      unfolding both by (cases l u rule: linorder_cases) (auto dest: less_trans)
    with True show ?thesis by (simp add: merge_bytes_ranges_def lo up denotesB_nullOrFalse)
  next
    case False
    have unb: "\<not> lu \<or> \<not> uu"
      using lo up assms by (auto simp: merge_lower_def merge_upper_def byr_inv_def Let_def split: if_splits)
    have "\<not> (\<not> lu \<and> l = [] \<and> \<not> le \<and> \<not> uu \<and> u = [] \<and> ue)" using False by (cases "l = u") auto
    from BytesRange_new_denotes [OF unb this, of na] obtain p where p: "BytesRange_new l lu le u uu ue na = Inr p" "byr_inv p"
      "ar_nullAllowed p = na"
      "\<forall>s. bytes_between p s \<longleftrightarrow> (lu \<or> l < s \<or> (\<not> le \<and> l = s)) \<and> (uu \<or> s < u \<or> (\<not> ue \<and> s = u))"
      by blast
    have "merge_bytes_ranges r q na = Inr (kBytesRange p)"
      unfolding merge_bytes_ranges_def lo up prod.case using p(1) by (simp only: False if_False rbind.simps)
    then show ?thesis
      unfolding denotesB_def both
      by (intro exI [of _ "kBytesRange p"]) (simp add: p(2-4) acceptsB_atoms)
  qed
qed

section \<open>A range without some values\<close>

text \<open>Removing the rejected ends of an interval by opening it there.\<close>

lemma open_rejected_ends:
  fixes l u :: "'a::linorder" and lu le uu ue :: bool
  defines "B \<equiv> \<lambda>s. (lu \<or> l < s \<or> (\<not> le \<and> l = s)) \<and> (uu \<or> s < u \<or> (\<not> ue \<and> s = u))"
  assumes "R0 = {v \<in> V. B v}" "lo \<longleftrightarrow> \<not> lu \<and> (le \<or> l \<in> R0)" "R1 = (if \<not> lu then R0 - {l} else R0)"
    and "hi \<longleftrightarrow> \<not> uu \<and> (ue \<or> u \<in> R1)" "R2 = (if \<not> uu then R1 - {u} else R1)"
  shows "(lu \<or> l < s \<or> (\<not> lo \<and> l = s)) \<and> (uu \<or> s < u \<or> (\<not> hi \<and> s = u)) \<and> s \<notin> R2 \<longleftrightarrow> B s \<and> s \<notin> V"
    and "\<forall>v \<in> R2. (lu \<or> l < v) \<and> (uu \<or> v < u)"
  unfolding assms(2-) B_def
  by (cases "s = l"; cases "s = u"; auto) auto

text \<open>Cutting an interval at points inside it.\<close>

lemma cut_interval:
  fixes vs :: "'a::linorder list"
  assumes "sorted_wrt (<) vs" "vs \<noteq> []" "\<forall>v \<in> set vs. L v \<and> U v"
    and "\<And>x y. L x \<Longrightarrow> x < y \<Longrightarrow> L y" "\<And>x y. U y \<Longrightarrow> x < y \<Longrightarrow> U x"
  shows "(L s \<and> s < hd vs) \<or> (hd vs < s \<and> s < last vs \<and> s \<notin> set vs) \<or> (last vs < s \<and> U s) \<longleftrightarrow>
    L s \<and> U s \<and> s \<notin> set vs"
proof -
  have mem: "hd vs \<in> set vs" "last vs \<in> set vs" using assms(2) by simp_all
  have "hd vs \<le> v \<and> v \<le> last vs" if "v \<in> set vs" for v
    using assms(1) that by (induction vs) (auto simp: less_imp_le)
  then have "s \<notin> set vs" if "s < hd vs \<or> last vs < s" using that by force
  then show ?thesis using assms(3-5) mem by (metis linorder_less_linear)
qed

lemma bytes_gaps_denotes:
  assumes "sorted_wrt (<) vs" "vs \<noteq> []"
  shows "\<exists>fs. bytes_gaps vs = Inr fs \<and> (\<forall>f \<in> set fs. bytes_atom f) \<and>
    (\<forall>s. (\<exists>f \<in> set fs. acceptsB f s) \<longleftrightarrow> hd vs < s \<and> s < last vs \<and> s \<notin> set vs)"
  using assms
proof (induction vs rule: bytes_gaps.induct)
  case (1 b f rest)
  then obtain fs where fs: "bytes_gaps (f # rest) = Inr fs" "\<forall>f \<in> set fs. bytes_atom f"
    "\<forall>s. (\<exists>g \<in> set fs. acceptsB g s) \<longleftrightarrow> f < s \<and> s < last (f # rest) \<and> s \<notin> set (f # rest)"
    by (auto simp: BytesRange_new_def)
  obtain p where p: "BytesRange_new b False True f False True False = Inr p" "byr_inv p"
    "\<forall>s. bytes_between p s \<longleftrightarrow> b < s \<and> s < f"
    using BytesRange_new_denotes [of False False b True f True False] by auto
  have "b < f" "\<forall>v \<in> set rest. f < v" using 1(2) by simp_all
  then have "f \<le> last (f # rest)" "\<forall>s. s < f \<longrightarrow> s \<notin> set (f # rest)"
    by (auto simp: less_imp_le dest: last_in_set)
  with fs p \<open>b < f\<close> show ?case
    by (auto simp: acceptsB_atoms less_le_trans)
qed (auto simp: less_le_trans)

lemma split_bytes_range_denotes:
  assumes "byr_inv r" "finite V"
  shows "denotesB (split_bytes_range V r na) na (\<lambda>s. bytes_between r s \<and> s \<notin> V)"
proof -
  let ?l = "byr_lower r" and ?u = "byr_upper r" and ?lu = "ar_lowerUnbounded r" and ?uu = "ar_upperUnbounded r"
  define R0 where "R0 = {v \<in> V. bytes_between r v}"
  define lo where "lo \<longleftrightarrow> \<not> ?lu \<and> (ar_lowerExclusive r \<or> ?l \<in> R0)"
  define R1 where "R1 = (if \<not> ?lu then R0 - {?l} else R0)"
  define hi where "hi \<longleftrightarrow> \<not> ?uu \<and> (ar_upperExclusive r \<or> ?u \<in> R1)"
  define R2 where "R2 = (if \<not> ?uu then R1 - {?u} else R1)"
  let ?vs = "sorted_list_of_set R2"
  let ?L = "\<lambda>s. ?lu \<or> ?l < s \<or> (\<not> lo \<and> ?l = s)" and ?U = "\<lambda>s. ?uu \<or> s < ?u \<or> (\<not> hi \<and> s = ?u)"
  have eq: "split_bytes_range V r na = (if ?vs = [] then
      rbind (BytesRange_new ?l ?lu lo ?u ?uu hi na) (\<lambda>r. Inr (kBytesRange r))
    else rbind (BytesRange_new ?l ?lu lo (hd ?vs) False True False) (\<lambda>first.
      rbind (bytes_gaps ?vs) (\<lambda>between.
      rbind (BytesRange_new (last ?vs) False True ?u ?uu hi False) (\<lambda>final.
        Inr (kMultiRange (kBytesRange first # between @ [kBytesRange final]) na False)))))"
    by (simp only: split_bytes_range_def Let_def BytesRange_testBytes_iff [OF assms(1)]
      R0_def [symmetric] lo_def [symmetric] R1_def [symmetric] hi_def [symmetric] R2_def [symmetric])
  note ends = open_rejected_ends [of R0 V ?lu ?l "ar_lowerExclusive r" ?uu ?u "ar_upperExclusive r" lo R1 hi R2,
      folded bytes_between_def, OF R0_def lo_def R1_def hi_def R2_def]
  have fin: "finite R2" using assms(2) by (simp add: R2_def R1_def R0_def)
  have unb: "\<not> ?lu \<or> \<not> ?uu" using assms(1) by (simp add: byr_inv_def)
  show ?thesis
  proof (cases "?vs = []")
    case True
    then have "R2 = {}" using fin by simp
    have "\<not> (\<not> ?lu \<and> ?l = [] \<and> \<not> lo \<and> \<not> ?uu \<and> ?u = [] \<and> hi)"
      using assms(1) by (auto simp: byr_inv_def lo_def hi_def R1_def)
    from BytesRange_new_denotes [OF unb this, of na] obtain p where
      "BytesRange_new ?l ?lu lo ?u ?uu hi na = Inr p" "byr_inv p" "ar_nullAllowed p = na"
      "\<forall>s. bytes_between p s \<longleftrightarrow> ?L s \<and> ?U s" by blast
    with True ends(1) \<open>R2 = {}\<close> show ?thesis unfolding eq by (auto simp: denotesB_def acceptsB_atoms)
  next
    case False
    have vs: "sorted_wrt (<) ?vs" "set ?vs = R2" using fin by simp_all
    have "\<not> (\<not> ?lu \<and> ?l = [] \<and> \<not> lo \<and> \<not> False \<and> hd ?vs = [] \<and> True)"
      using ends(2) hd_in_set [OF False] vs(2) by auto
    from BytesRange_new_denotes [OF _ this, of False] obtain first where
      first: "BytesRange_new ?l ?lu lo (hd ?vs) False True False = Inr first" "byr_inv first"
      "\<forall>s. bytes_between first s \<longleftrightarrow> ?L s \<and> s < hd ?vs" by auto
    from BytesRange_new_denotes [of False ?uu "last ?vs" True ?u hi False] obtain final where
      final: "BytesRange_new (last ?vs) False True ?u ?uu hi False = Inr final" "byr_inv final"
      "\<forall>s. bytes_between final s \<longleftrightarrow> last ?vs < s \<and> ?U s" by auto
    from bytes_gaps_denotes [OF vs(1) False] obtain fs where
      fs: "bytes_gaps ?vs = Inr fs" "\<forall>f \<in> set fs. bytes_atom f"
      "\<forall>s. (\<exists>f \<in> set fs. acceptsB f s) \<longleftrightarrow> hd ?vs < s \<and> s < last ?vs \<and> s \<notin> set ?vs" by blast
    have cut: "(?L s \<and> s < hd ?vs) \<or> (hd ?vs < s \<and> s < last ?vs \<and> s \<notin> set ?vs) \<or> (last ?vs < s \<and> ?U s) \<longleftrightarrow>
        ?L s \<and> ?U s \<and> s \<notin> set ?vs" for s
      by (rule cut_interval [OF vs(1) False]) (use ends(2) vs(2) in \<open>auto intro: less_trans\<close>)
    let ?fs = "kBytesRange first # fs @ [kBytesRange final]"
    have atoms: "\<forall>f \<in> set ?fs. bytes_atom f" using fs(2) first(2) final(2) by auto
    have "acceptsB (kMultiRange ?fs na False) s \<longleftrightarrow> bytes_between r s \<and> s \<notin> V" for s
    proof -
      have "acceptsB (kMultiRange ?fs na False) s \<longleftrightarrow> (?L s \<and> s < hd ?vs) \<or>
          (hd ?vs < s \<and> s < last ?vs \<and> s \<notin> set ?vs) \<or> (last ?vs < s \<and> ?U s)"
        unfolding acceptsB_multi [OF atoms] fs(3) [rule_format, symmetric]
        using first(2,3) final(2,3) by (auto simp: acceptsB_atoms)
      then show ?thesis using cut [of s] ends(1) [of s] unfolding vs(2) by blast
    qed
    with False first(1) fs(1) final(1) atoms show ?thesis
      unfolding eq denotesB_def by simp
  qed
qed

section \<open>Ranges, lists and negated lists\<close>

lemma range_range_mergesB:
  "byr_inv r \<Longrightarrow> byr_inv q \<Longrightarrow>
     mergesB (kBytesRange r) (kBytesRange q) (BytesRange_mergeWith mrg r (kBytesRange q))"
  using merge_bytes_ranges_denotes [of r q] by (simp add: BytesRange_mergeWith_def acceptsB_atoms)

lemma values_mergesB:
  assumes "byv_inv v" "bytes_atom g"
  shows "mergesB (kBytesValues v) g (BytesValues_mergeWith mrg v g)"
proof -
  let ?na = "byv_nullAllowed v \<and> testNull g"
  have fin: "finite (byv_values v)" "byv_values v \<noteq> {}"
    and b: "\<And>s. s \<in> byv_values v \<Longrightarrow> byv_lower v \<le> s \<and> s \<le> byv_upper v"
    using assms(1) by (auto simp: byv_inv_def)
  note keep = bytes_values_filter_denotes [of "{s \<in> byv_values v. acceptsB g s}" ?na]
  have good: "mergesB (kBytesValues v) g (bytes_values_filter {s \<in> byv_values v. acceptsB g s} ?na)"
    using keep fin assms(1) by (auto simp: acceptsB_atoms elim!: denotesB_cong)
  have none: "mergesB (kBytesValues v) g (Inr (nullOrFalse ?na))"
    if "\<And>s. s \<in> byv_values v \<Longrightarrow> \<not> acceptsB g s"
    using that assms(1) by (auto simp: acceptsB_atoms intro!: denotesB_nullOrFalse)
  show ?thesis
    using assms(2)
  proof (cases rule: bytes_atom_cases)
    case (range r)
    let ?lo = "if ar_lowerUnbounded r then None else Some (byr_lower r)"
    let ?up = "if ar_upperUnbounded r then None else Some (byr_upper r)"
    have "BytesValues_testBytesRange v ?lo ?up na" if "s \<in> byv_values v" "bytes_between r s" for s na
      using that by (intro BytesValues_testBytesRange_sound [OF assms(1), of s])
        (auto simp: bytes_between_def split: if_splits)
    then have test: "\<not> acceptsB g s"
      if "\<not> BytesValues_testBytesRange v ?lo ?up ?na" "s \<in> byv_values v" for s
      using that range by (auto simp: acceptsB_atoms)
    have "BytesValues_mergeWith mrg v g = (if \<not> BytesValues_testBytesRange v ?lo ?up ?na
        then Inr (nullOrFalse ?na) else bytes_values_filter {s \<in> byv_values v. acceptsB g s} ?na)"
      using range
      by (simp only: BytesValues_mergeWith_def Let_def Filter.case BytesRange_testBytes_iff acceptsB_atoms)
    with good none [OF test] show ?thesis by (simp split: if_splits)
  next
    case (negated_range r)
    with good show ?thesis
      by (simp add: BytesValues_mergeWith_def NegatedBytesRange_testBytes_def BytesRange_testBytes_iff
        acceptsB_atoms)
  next
    case (inlist w)
    have wb: "\<And>s. s \<in> byv_values w \<Longrightarrow> byv_lower w \<le> s \<and> s \<le> byv_upper w"
      using inlist(2) by (auto simp: byv_inv_def)
    have "{s \<in> byv_values w. s \<in> byv_values v} = {s \<in> byv_values v. s \<in> byv_values w}" by auto
    moreover have "\<not> acceptsB g s"
      if "s \<in> byv_values v" "byv_upper v < byv_lower w \<or> byv_upper w < byv_lower v" for s
    proof
      assume "acceptsB g s"
      then have "s \<in> byv_values w" using inlist by (simp add: acceptsB_atoms)
      from wb [OF this] b [OF that(1)] that(2) show False by (meson leD le_less_trans order_trans)
    qed
    moreover have "BytesValues_mergeWith mrg v g =
        (if byv_upper v < byv_lower w \<or> byv_upper w < byv_lower v then Inr (nullOrFalse ?na)
         else if card (byv_values v) > card (byv_values w)
         then bytes_values_filter {s \<in> byv_values w. s \<in> byv_values v} ?na
         else bytes_values_filter {s \<in> byv_values v. s \<in> byv_values w} ?na)"
      by (simp add: inlist BytesValues_mergeWith_def Let_def)
    ultimately show ?thesis
      using good none inlist(2) by (simp add: inlist(1) acceptsB_atoms split: if_splits)
  next
    case (notinlist w)
    with good show ?thesis
      by (simp add: BytesValues_mergeWith_def NegatedBytesValues_testBytes_def BytesValues_testBytes_iff
        acceptsB_atoms)
  qed
qed

lemma negated_values_range_mergesB:
  assumes "byv_inv (nyv_nonNegated v)" "byr_inv r"
  shows "mergesB (kNegatedBytesValues v) (kBytesRange r)
    (NegatedBytesValues_mergeWith mrg v (kBytesRange r))"
proof -
  have "finite (byv_values (nyv_nonNegated v))" using assms(1) by (simp add: byv_inv_def)
  from split_bytes_range_denotes [OF assms(2) this, of "nyv_nullAllowed v \<and> ar_nullAllowed r"]
  show ?thesis
    by (simp only: NegatedBytesValues_mergeWith_def Let_def Filter.case testNull_simps)
      (erule denotesB_cong, use assms in \<open>auto simp: acceptsB_atoms\<close>)
qed

lemma negated_values_mergesB:
  assumes "byv_inv (nyv_nonNegated v)" "byv_inv (nyv_nonNegated w)"
    and "\<not> card (byv_values (nyv_nonNegated v)) < card (byv_values (nyv_nonNegated w))"
  shows "mergesB (kNegatedBytesValues v) (kNegatedBytesValues w)
    (NegatedBytesValues_mergeWith mrg v (kNegatedBytesValues w))"
proof -
  let ?V = "byv_values (nyv_nonNegated v)" and ?W = "byv_values (nyv_nonNegated w)"
  have "?V \<union> {s \<in> ?W. NegatedBytesValues_testBytes v s} = ?V \<union> ?W"
    using BytesValues_testBytes_iff [OF assms(1)] by (auto simp: NegatedBytesValues_testBytes_def)
  moreover have "finite (?V \<union> ?W)" "?V \<union> ?W \<noteq> {}" using assms by (auto simp: byv_inv_def)
  moreover from BytesValues_new_total [OF this, of "\<not> (nyv_nullAllowed v \<and> nyv_nullAllowed w)"]
  obtain f where f: "BytesValues_new (?V \<union> ?W) (\<not> (nyv_nullAllowed v \<and> nyv_nullAllowed w)) = Inr f"
    "byv_inv f" "byv_values f = ?V \<union> ?W" by blast
  ultimately have "NegatedBytesValues_mergeWith mrg v (kNegatedBytesValues w) =
      Inr (kNegatedBytesValues \<lparr>nyv_nonNegated = f, nyv_nullAllowed = nyv_nullAllowed v \<and> nyv_nullAllowed w\<rparr>)"
    using assms(3) by (simp add: NegatedBytesValues_mergeWith_def NegatedBytesValues_new_def)
  with f(2,3) assms(1,2) show ?thesis by (simp add: denotesB_def acceptsB_atoms)
qed

section \<open>Copies of string filters\<close>

lemma atom_proper: "bytes_atom f \<Longrightarrow> bytes_proper f"
  by (cases f) auto

lemma clone_atom:
  assumes "bytes_atom f"
  shows "clone f None = Inr f \<and> (\<exists>h. clone f (Some b) = Inr h \<and> bytes_atom h \<and> testNull h = b \<and>
      (\<forall>s. acceptsB h s \<longleftrightarrow> acceptsB f s))"
  using assms
  by (cases rule: bytes_atom_cases)
    (simp_all add: clone_defs value_or_def acceptsB_def byr_inv_def byv_inv_def BytesRange_testBytes_def
      NegatedBytesRange_testBytes_def BytesValues_testBytes_def NegatedBytesValues_testBytes_def)

lemma clone_atoms:
  assumes "\<forall>f \<in> set fs. bytes_atom f"
  shows "rmap (\<lambda>f. clone f None) fs = Inr fs"
  using rmap_total [of fs "\<lambda>f. clone f None" "\<lambda>f. f"] assms clone_atom by simp

lemma clone_proper:
  assumes "bytes_proper f"
  shows "clone f None = Inr f \<and> denotesB (clone f (Some b)) b (acceptsB f)"
proof -
  consider (multi) fs na nan where "f = kMultiRange fs na nan" "\<forall>f \<in> set fs. bytes_atom f"
    | (atom) "bytes_atom f" using assms by (cases f) auto
  then show ?thesis
  proof cases
    case multi
    then show ?thesis
      by (simp add: clone_atoms MultiRange_clone_def denotesB_def)
  next
    case atom
    from clone_atom [OF atom, of b] obtain h where "clone f None = Inr f" "clone f (Some b) = Inr h"
      "bytes_atom h" "testNull h = b" "\<forall>s. acceptsB h s \<longleftrightarrow> acceptsB f s" by blast
    then show ?thesis using atom_proper [of h] by (simp add: denotesB_def)
  qed
qed

section \<open>\<open>MultiRange\<close>\<close>

text \<open>The double loop gathers filters and values that accept what some pair accepts.\<close>

lemma merge_pairs_denotes:
  assumes "\<forall>(f, g) \<in> set ps. mergesB f g (mrg f g)" "finite V" "\<forall>f \<in> set ms. bytes_atom f"
  shows "\<exists>V' ms'. merge_pairs mrg ps (V, ms) = Inr (V', ms') \<and> finite V' \<and>
    (\<forall>f \<in> set ms'. bytes_atom f) \<and>
    (\<forall>s. s \<in> V' \<or> (\<exists>f \<in> set ms'. acceptsB f s) \<longleftrightarrow>
       s \<in> V \<or> (\<exists>f \<in> set ms. acceptsB f s) \<or> (\<exists>(f, g) \<in> set ps. acceptsB f s \<and> acceptsB g s))"
  using assms
proof (induction ps arbitrary: V ms)
  case (Cons p ps)
  obtain f g where p: "p = (f, g)" by (cases p)
  have "mergesB f g (mrg f g)" using Cons.prems(1) p by simp
  then obtain h where h: "mrg f g = Inr h" "bytes_proper h \<or> h = kAlwaysFalse \<or> h = kIsNull"
    "\<forall>s. acceptsB h s \<longleftrightarrow> acceptsB f s \<and> acceptsB g s" by (auto simp: denotesB_def)
  have "\<exists>V1 ms1. merge_pairs mrg (p # ps) (V, ms) = merge_pairs mrg ps (V1, ms1) \<and> finite V1 \<and>
      (\<forall>f \<in> set ms1. bytes_atom f) \<and>
      (\<forall>s. s \<in> V1 \<or> (\<exists>f \<in> set ms1. acceptsB f s) \<longleftrightarrow>
         s \<in> V \<or> (\<exists>f \<in> set ms. acceptsB f s) \<or> acceptsB h s)"
  proof -
    consider "h = kAlwaysFalse \<or> h = kIsNull" | v where "h = kBytesValues v" "byv_inv v"
      | fs na nan where "h = kMultiRange fs na nan" "\<forall>f \<in> set fs. bytes_atom f"
      | "bytes_atom h" "\<nexists>v. h = kBytesValues v"
      using h(2) by (cases h) auto
    then show ?thesis
    proof cases
      case 1
      then show ?thesis using Cons.prems(2,3)
        by (intro exI [of _ V] exI [of _ ms]) (auto simp: p h(1))
    next
      case (2 v)
      then show ?thesis using Cons.prems(2,3)
        by (intro exI [of _ "V \<union> byv_values v"] exI [of _ ms])
          (auto simp: p h(1) acceptsB_atoms byv_inv_def)
    next
      case (3 fs)
      then show ?thesis using Cons.prems(2,3)
        by (intro exI [of _ V] exI [of _ "ms @ fs"]) (auto simp: p h(1) clone_atoms)
    next
      case 4
      then have "merge_pairs mrg (p # ps) (V, ms) = merge_pairs mrg ps (V, ms @ [h])"
        by (cases h) (simp_all add: p h(1))
      then show ?thesis using Cons.prems(2,3) 4
        by (intro exI [of _ V] exI [of _ "ms @ [h]"]) auto
    qed
  qed
  then obtain V1 ms1 where s1: "merge_pairs mrg (p # ps) (V, ms) = merge_pairs mrg ps (V1, ms1)"
    "finite V1" "\<forall>f \<in> set ms1. bytes_atom f"
    "\<forall>s. s \<in> V1 \<or> (\<exists>f \<in> set ms1. acceptsB f s) \<longleftrightarrow>
       s \<in> V \<or> (\<exists>f \<in> set ms. acceptsB f s) \<or> acceptsB h s" by blast
  from Cons.IH [OF _ s1(2,3)] Cons.prems(1) obtain V' ms' where s2:
    "merge_pairs mrg ps (V1, ms1) = Inr (V', ms')" "finite V'" "\<forall>f \<in> set ms'. bytes_atom f"
    "\<forall>s. s \<in> V' \<or> (\<exists>f \<in> set ms'. acceptsB f s) \<longleftrightarrow> s \<in> V1 \<or> (\<exists>f \<in> set ms1. acceptsB f s) \<or>
       (\<exists>(f, g) \<in> set ps. acceptsB f s \<and> acceptsB g s)" by auto
  have "s \<in> V' \<or> (\<exists>f \<in> set ms'. acceptsB f s) \<longleftrightarrow> s \<in> V \<or> (\<exists>f \<in> set ms. acceptsB f s) \<or>
      (\<exists>(f, g) \<in> set (p # ps). acceptsB f s \<and> acceptsB g s)" for s
  proof -
    have "(\<exists>(f, g) \<in> set (p # ps). acceptsB f s \<and> acceptsB g s) \<longleftrightarrow>
        acceptsB h s \<or> (\<exists>(f, g) \<in> set ps. acceptsB f s \<and> acceptsB g s)"
      using h(3) p by simp
    then show ?thesis using s1(4) [THEN spec, of s] s2(4) [THEN spec, of s] by argo
  qed
  then show ?case using s1(1) s2(1-3) by (intro exI [of _ V'] exI [of _ ms']) simp
qed auto

definition multi_merge :: "dispatch \<Rightarrow> Filter list \<Rightarrow> Filter list \<Rightarrow> bool \<Rightarrow> bool \<Rightarrow> Filter res" where
  "multi_merge mrg fs gs na nan =
     rbind (merge_pairs mrg (List.product fs gs) ({}, [])) (\<lambda>(byteValues, merged0).
       rbind (if byteValues \<noteq> {} then
                rbind (BytesValues_new byteValues na) (\<lambda>f. Inr (merged0 @ [kBytesValues f]))
              else Inr merged0) (\<lambda>merged.
         if merged = [] then Inr (nullOrFalse na)
         else if length merged = 1 then clone (hd merged) (Some na)
         else Inr (kMultiRange merged na nan)))"

lemma multi_merge_denotes:
  assumes "\<forall>f \<in> set fs. \<forall>g \<in> set gs. mergesB f g (mrg f g)"
  shows "denotesB (multi_merge mrg fs gs na nan) na
    (\<lambda>s. (\<exists>f \<in> set fs. acceptsB f s) \<and> (\<exists>g \<in> set gs. acceptsB g s))"
proof -
  let ?P = "\<lambda>s. (\<exists>f \<in> set fs. acceptsB f s) \<and> (\<exists>g \<in> set gs. acceptsB g s)"
  have "\<forall>(f, g) \<in> set (List.product fs gs). mergesB f g (mrg f g)" using assms by auto
  from merge_pairs_denotes [OF this finite.emptyI, of "[]"] obtain V ms where
    m: "merge_pairs mrg (List.product fs gs) ({}, []) = Inr (V, ms)" "finite V"
      "\<forall>f \<in> set ms. bytes_atom f"
    and "\<forall>s. s \<in> V \<or> (\<exists>f \<in> set ms. acceptsB f s) \<longleftrightarrow>
      (\<exists>(f, g) \<in> set (List.product fs gs). acceptsB f s \<and> acceptsB g s)" by auto
  then have acc: "s \<in> V \<or> (\<exists>f \<in> set ms. acceptsB f s) \<longleftrightarrow> ?P s" for s by auto
  have "\<exists>all. (if V \<noteq> {} then rbind (BytesValues_new V na) (\<lambda>f. Inr (ms @ [kBytesValues f])) else Inr ms) =
      Inr all \<and> (\<forall>f \<in> set all. bytes_atom f) \<and> (\<forall>s. (\<exists>f \<in> set all. acceptsB f s) \<longleftrightarrow> ?P s)"
  proof (cases "V = {}")
    case True
    then show ?thesis using m(3) acc by simp
  next
    case False
    from BytesValues_new_total [OF m(2) False, of na] obtain f where
      "BytesValues_new V na = Inr f" "byv_inv f" "byv_values f = V" by blast
    with False m(3) acc show ?thesis
      by (intro exI [of _ "ms @ [kBytesValues f]"]) (auto simp: acceptsB_atoms)
  qed
  then obtain ys where ys: "(if V \<noteq> {} then rbind (BytesValues_new V na) (\<lambda>f. Inr (ms @ [kBytesValues f]))
      else Inr ms) = Inr ys" "\<forall>f \<in> set ys. bytes_atom f" "\<forall>s. (\<exists>f \<in> set ys. acceptsB f s) \<longleftrightarrow> ?P s"
    by blast
  have eq: "multi_merge mrg fs gs na nan = (if ys = [] then Inr (nullOrFalse na)
      else if length ys = 1 then clone (hd ys) (Some na) else Inr (kMultiRange ys na nan))"
    unfolding multi_merge_def m(1) rbind.simps prod.case ys(1) ..
  consider "ys = []" | y where "ys = [y]" | "1 < length ys" by (cases ys; cases "tl ys") auto
  then show ?thesis
  proof cases
    case 1
    then show ?thesis using ys(3) by (simp add: eq denotesB_nullOrFalse)
  next
    case (2 y)
    then have "bytes_proper y" "\<forall>s. acceptsB y s \<longleftrightarrow> ?P s" using ys(2,3) atom_proper by auto
    with clone_proper [of y na] 2 show ?thesis by (simp add: eq denotesB_def)
  next
    case 3
    then have "multi_merge mrg fs gs na nan = Inr (kMultiRange ys na nan)" by (auto simp: eq)
    then show ?thesis using ys(2,3) by (simp add: denotesB_def)
  qed
qed

lemma MultiRange_mergeWith_filters:
  "MultiRange_mergeWith mrg fs na nan (kBytesRange r) =
     multi_merge mrg fs [kBytesRange r] (na \<and> ar_nullAllowed r) nan"
  "MultiRange_mergeWith mrg fs na nan (kBytesValues v) =
     multi_merge mrg fs [kBytesValues v] (na \<and> byv_nullAllowed v) nan"
  "MultiRange_mergeWith mrg fs na nan (kNegatedBytesValues nv) =
     multi_merge mrg fs [kNegatedBytesValues nv] (na \<and> nyv_nullAllowed nv) nan"
  "MultiRange_mergeWith mrg fs na nan (kMultiRange gs na' nan') =
     multi_merge mrg fs gs (na \<and> na') (nan \<and> nan')"
  by (simp_all only: MultiRange_mergeWith_def multi_merge_def Let_def Filter.case testNull_simps)

section \<open>Negated ranges\<close>

definition bytes_ranges :: "Filter \<Rightarrow> bool" where
  "bytes_ranges m \<longleftrightarrow> (\<exists>r. m = kBytesRange r \<and> byr_inv r) \<or>
     (\<exists>fs na nan. m = kMultiRange fs na nan \<and> (\<forall>f \<in> set fs. \<exists>r. f = kBytesRange r \<and> byr_inv r))"

lemma lower_half:
  assumes "byr_inv (nyr_nonNegated nr)" "\<not> ar_lowerUnbounded (nyr_nonNegated nr)"
  shows "\<exists>a. BytesRange_new [] True False (byr_lower (nyr_nonNegated nr)) False
      (\<not> NegatedBytesRange_testBytes nr (byr_lower (nyr_nonNegated nr))) False = Inr a \<and> byr_inv a \<and>
    (\<forall>s. bytes_between a s \<longleftrightarrow> s < byr_lower (nyr_nonNegated nr) \<or>
       (s = byr_lower (nyr_nonNegated nr) \<and> \<not> bytes_between (nyr_nonNegated nr) s))"
  using BytesRange_new_denotes [of True False "[]" False "byr_lower (nyr_nonNegated nr)"
      "\<not> NegatedBytesRange_testBytes nr (byr_lower (nyr_nonNegated nr))" False] assms
  by (auto simp: NegatedBytesRange_testBytes_def BytesRange_testBytes_iff)

lemma upper_half:
  assumes "byr_inv (nyr_nonNegated nr)" "\<not> ar_upperUnbounded (nyr_nonNegated nr)"
  shows "\<exists>a. BytesRange_new (byr_upper (nyr_nonNegated nr)) False
      (\<not> NegatedBytesRange_testBytes nr (byr_upper (nyr_nonNegated nr))) [] True False False = Inr a \<and>
    byr_inv a \<and>
    (\<forall>s. bytes_between a s \<longleftrightarrow> byr_upper (nyr_nonNegated nr) < s \<or>
       (s = byr_upper (nyr_nonNegated nr) \<and> \<not> bytes_between (nyr_nonNegated nr) s))"
  using BytesRange_new_denotes [of False True "byr_upper (nyr_nonNegated nr)"
      "\<not> NegatedBytesRange_testBytes nr (byr_upper (nyr_nonNegated nr))" "[]" False False] assms
  by (auto simp: NegatedBytesRange_testBytes_def BytesRange_testBytes_iff)

lemma outside_halves:
  "\<not> bytes_between r s \<longleftrightarrow>
     (\<not> ar_lowerUnbounded r \<and> (s < byr_lower r \<or> (s = byr_lower r \<and> \<not> bytes_between r s))) \<or>
     (\<not> ar_upperUnbounded r \<and> (byr_upper r < s \<or> (s = byr_upper r \<and> \<not> bytes_between r s)))"
  by (cases "byr_lower r" s rule: linorder_cases; cases "byr_upper r" s rule: linorder_cases)
    (auto simp: bytes_between_def not_less less_imp_not_eq less_imp_not_eq2 dest: less_not_sym)

lemma byr_inv_bounded: "byr_inv r \<Longrightarrow> \<not> ar_lowerUnbounded r \<or> \<not> ar_upperUnbounded r"
  by (simp add: byr_inv_def)

lemma clone_range:
  assumes "byr_inv a"
  shows "\<exists>m. clone (kBytesRange a) (Some na) = Inr m \<and> bytes_ranges m \<and> testNull m = na \<and>
    (\<forall>s. acceptsB m s \<longleftrightarrow> bytes_between a s)"
proof -
  have "byr_inv (a\<lparr>ar_nullAllowed := na\<rparr>)" "\<forall>s. bytes_between (a\<lparr>ar_nullAllowed := na\<rparr>) s = bytes_between a s"
    using assms by (simp_all add: byr_inv_def bytes_between_def)
  moreover have "clone (kBytesRange a) (Some na) = Inr (kBytesRange (a\<lparr>ar_nullAllowed := na\<rparr>))"
    by (simp add: clone_defs value_or_def)
  ultimately show ?thesis by (simp add: bytes_ranges_def acceptsB_atoms)
qed

lemma toMultiRange_denotes:
  assumes "byr_inv (nyr_nonNegated nr)"
  shows "\<exists>m. toMultiRange nr = Inr m \<and> bytes_ranges m \<and> testNull m = nyr_nullAllowed nr \<and>
    (\<forall>s. acceptsB m s \<longleftrightarrow> acceptsB (kNegatedBytesRange nr) s)"
proof -
  let ?r = "nyr_nonNegated nr"
  note out = outside_halves [of ?r]
  note copy = clone_defs value_or_def byr_inv_def bytes_between_def
  consider "ar_lowerUnbounded ?r" "\<not> ar_upperUnbounded ?r"
    | "\<not> ar_lowerUnbounded ?r" "ar_upperUnbounded ?r"
    | "\<not> ar_lowerUnbounded ?r" "\<not> ar_upperUnbounded ?r" using byr_inv_bounded [OF assms] by blast
  then show ?thesis
  proof cases
    case 1
    from upper_half [OF assms 1(2)] obtain a where "BytesRange_new (byr_upper ?r) False
      (\<not> NegatedBytesRange_testBytes nr (byr_upper ?r)) [] True False False = Inr a" and a: "byr_inv a"
      "\<forall>s. bytes_between a s \<longleftrightarrow> byr_upper ?r < s \<or> (s = byr_upper ?r \<and> \<not> bytes_between ?r s)" by blast
    then have "toMultiRange nr = clone (kBytesRange a) (Some (nyr_nullAllowed nr))"
      using 1 by (simp add: toMultiRange_def Let_def)
    moreover have "\<forall>s. bytes_between a s \<longleftrightarrow> \<not> bytes_between ?r s" using 1 out a(2) by blast
    ultimately show ?thesis using clone_range [OF a(1)] assms by (simp add: acceptsB_atoms)
  next
    case 2
    from lower_half [OF assms 2(1)] obtain a where "BytesRange_new [] True False (byr_lower ?r) False
      (\<not> NegatedBytesRange_testBytes nr (byr_lower ?r)) False = Inr a" and a: "byr_inv a"
      "\<forall>s. bytes_between a s \<longleftrightarrow> s < byr_lower ?r \<or> (s = byr_lower ?r \<and> \<not> bytes_between ?r s)" by blast
    then have "toMultiRange nr = clone (kBytesRange a) (Some (nyr_nullAllowed nr))"
      using 2 by (simp add: toMultiRange_def Let_def)
    moreover have "\<forall>s. bytes_between a s \<longleftrightarrow> \<not> bytes_between ?r s" using 2 out a(2) by blast
    ultimately show ?thesis using clone_range [OF a(1)] assms by (simp add: acceptsB_atoms)
  next
    case 3
    from lower_half [OF assms 3(1)] obtain a where
      ea: "BytesRange_new [] True False (byr_lower ?r) False
        (\<not> NegatedBytesRange_testBytes nr (byr_lower ?r)) False = Inr a" and a: "byr_inv a"
      "\<forall>s. bytes_between a s \<longleftrightarrow> s < byr_lower ?r \<or> (s = byr_lower ?r \<and> \<not> bytes_between ?r s)" by blast
    from upper_half [OF assms 3(2)] obtain b where
      eb: "BytesRange_new (byr_upper ?r) False
        (\<not> NegatedBytesRange_testBytes nr (byr_upper ?r)) [] True False False = Inr b" and b: "byr_inv b"
      "\<forall>s. bytes_between b s \<longleftrightarrow> byr_upper ?r < s \<or> (s = byr_upper ?r \<and> \<not> bytes_between ?r s)" by blast
    have "toMultiRange nr = Inr (kMultiRange [kBytesRange a, kBytesRange b] (nyr_nullAllowed nr) False)"
      using 3 by (simp add: toMultiRange_def Let_def ea eb)
    moreover have "\<forall>s. bytes_between a s \<or> bytes_between b s \<longleftrightarrow> \<not> bytes_between ?r s"
      using 3 out a(2) b(2) by blast
    ultimately show ?thesis using a(1) b(1) assms
      by (simp add: bytes_ranges_def acceptsB_atoms) blast
  qed
qed

section \<open>The dispatch on string filters\<close>

lemma mergeWith_bytes_class:
  "mergeWith (Suc n) (kBytesRange r) g = BytesRange_mergeWith (mergeWith n) r g"
  "mergeWith (Suc n) (kNegatedBytesRange nr) g = NegatedBytesRange_mergeWith (mergeWith n) nr g"
  "mergeWith (Suc n) (kBytesValues v) g = BytesValues_mergeWith (mergeWith n) v g"
  "mergeWith (Suc n) (kNegatedBytesValues nv) g = NegatedBytesValues_mergeWith (mergeWith n) nv g"
  "mergeWith (Suc n) (kMultiRange fs na nan) g = MultiRange_mergeWith (mergeWith n) fs na nan g"
  by simp_all

text \<open>The calls that a class hands to the class of the other filter, with the sides swapped.\<close>

fun handed :: "Filter \<Rightarrow> Filter \<Rightarrow> bool" where
  "handed (kBytesRange _) g \<longleftrightarrow> (case g of kBytesRange _ \<Rightarrow> False | _ \<Rightarrow> True)"
| "handed (kNegatedBytesRange _) g \<longleftrightarrow> (case g of kBytesValues _ \<Rightarrow> True | _ \<Rightarrow> False)"
| "handed (kBytesValues _) g \<longleftrightarrow> (case g of kMultiRange _ _ _ \<Rightarrow> True | _ \<Rightarrow> False)"
| "handed (kNegatedBytesValues v) g \<longleftrightarrow> (case g of
       kBytesRange _ \<Rightarrow> False
     | kNegatedBytesValues w \<Rightarrow>
         card (byv_values (nyv_nonNegated v)) < card (byv_values (nyv_nonNegated w))
     | _ \<Rightarrow> True)"
| "handed (kMultiRange _ _ _) g \<longleftrightarrow> (case g of kNegatedBytesRange _ \<Rightarrow> True | _ \<Rightarrow> False)"
| "handed _ _ \<longleftrightarrow> False"

lemma mergeWith_handed:
  assumes "bytes_proper f" "bytes_proper g" "handed f g"
  shows "mergeWith (Suc n) f g = mergeWith n g f"
  using assms
  by (cases f; cases g)
    (simp_all add: mergeWith_bytes_class BytesRange_mergeWith_def NegatedBytesRange_mergeWith_def
      BytesValues_mergeWith_def NegatedBytesValues_mergeWith_def MultiRange_mergeWith_def Let_def
      del: mergeWith.simps)

lemma handed_once:
  "bytes_proper f \<Longrightarrow> bytes_proper g \<Longrightarrow> handed f g \<Longrightarrow> \<not> handed g f"
  by (cases f; cases g) auto

text \<open>So a merge is right at every depth once the calls that are not handed on are.\<close>

lemma mergesB_handed:
  assumes "bytes_proper f" "bytes_proper g" "handed f g" "mergesB g f (mergeWith n g f)"
  shows "mergesB f g (mergeWith (Suc n) f g)"
  using mergesB_sym [OF assms(4)] by (simp only: mergeWith_handed [OF assms(1-3)])

fun positive :: "Filter \<Rightarrow> bool" where
  "positive (kNegatedBytesRange _) \<longleftrightarrow> False"
| "positive (kMultiRange fs _ _) \<longleftrightarrow> False"
| "positive f \<longleftrightarrow> bytes_atom f"

lemma positive_atom: "positive f \<Longrightarrow> bytes_atom f"
  by (cases f) auto

lemma values_direct:
  "byv_inv v \<Longrightarrow> bytes_atom g \<Longrightarrow> mergesB (kBytesValues v) g (mergeWith (Suc n) (kBytesValues v) g)"
  using values_mergesB by (simp only: mergeWith_bytes_class)

lemma positive_direct:
  assumes "positive f" "positive g" "\<not> handed f g"
  shows "mergesB f g (mergeWith (Suc n) f g)"
  using positive_atom [OF assms(1)]
proof (cases rule: bytes_atom_cases)
  case (range r)
  then obtain q where "g = kBytesRange q" "byr_inv q" using assms by (cases g) auto
  with range range_range_mergesB show ?thesis by (simp only: mergeWith_bytes_class)
next
  case (negated_range r)
  with assms show ?thesis by simp
next
  case (inlist v)
  with values_direct positive_atom [OF assms(2)] show ?thesis by blast
next
  case (notinlist v)
  then consider q where "g = kBytesRange q" "byr_inv q"
    | w where "g = kNegatedBytesValues w" "byv_inv (nyv_nonNegated w)"
      "\<not> card (byv_values (nyv_nonNegated v)) < card (byv_values (nyv_nonNegated w))"
    using assms by (cases g) auto
  then show ?thesis
  proof cases
    case (1 q)
    from negated_values_range_mergesB [OF notinlist(2) 1(2)] show ?thesis
      by (simp only: notinlist(1) 1(1) mergeWith_bytes_class)
  next
    case (2 w)
    from negated_values_mergesB [OF notinlist(2) 2(2,3)] show ?thesis
      by (simp only: notinlist(1) 2(1) mergeWith_bytes_class)
  qed
qed

text \<open>One more call settles a pair that is handed on, whichever pairs are settled directly.\<close>

lemma swap_level:
  assumes "\<And>f g n. P f \<Longrightarrow> P g \<Longrightarrow> \<not> handed f g \<Longrightarrow> k \<le> n \<Longrightarrow> mergesB f g (mergeWith n f g)"
    and "\<And>f. P f \<Longrightarrow> bytes_proper f"
    and "P f" "P g" "Suc k \<le> n"
  shows "mergesB f g (mergeWith n f g)"
proof (cases "handed f g")
  case True
  obtain m where n: "n = Suc m" "k \<le> m" using assms(5) by (cases n) auto
  have "\<not> handed g f" using handed_once True assms(2-4) by blast
  from assms(1) [OF assms(4,3) this n(2)] show ?thesis
    unfolding n(1) using mergesB_handed True assms(2-4) by blast
next
  case False
  with assms(1,3-5) show ?thesis by simp
qed

lemma positive_merges: "positive f \<Longrightarrow> positive g \<Longrightarrow> 2 \<le> n \<Longrightarrow> mergesB f g (mergeWith n f g)"
proof (rule swap_level [where P = positive and k = 1])
  fix f g n
  assume "positive f" "positive g" "\<not> handed f g" "1 \<le> (n :: nat)"
  then show "mergesB f g (mergeWith n f g)" using positive_direct by (cases n) simp_all
qed (use positive_atom atom_proper in auto)

subsection \<open>Combinations\<close>

fun parts :: "Filter \<Rightarrow> Filter list" where
  "parts (kMultiRange fs _ _) = fs"
| "parts f = [f]"

lemma parts_atoms: "bytes_proper f \<Longrightarrow> \<forall>h \<in> set (parts f). bytes_atom h"
  by (cases f) auto

lemma acceptsB_parts: "bytes_proper f \<Longrightarrow> acceptsB f s \<longleftrightarrow> (\<exists>h \<in> set (parts f). acceptsB h s)"
  by (cases f) simp_all

lemma multi_direct:
  assumes "bytes_proper (kMultiRange fs na nan)" "bytes_proper g" "\<not> handed (kMultiRange fs na nan) g"
    and "\<forall>f \<in> set fs. \<forall>h \<in> set (parts g). mergesB f h (mergeWith n f h)"
  shows "mergesB (kMultiRange fs na nan) g (mergeWith (Suc n) (kMultiRange fs na nan) g)"
proof -
  have "\<exists>b. MultiRange_mergeWith (mergeWith n) fs na nan g =
      multi_merge (mergeWith n) fs (parts g) (na \<and> testNull g) b"
    using assms(2,3) by (cases g) (simp_all only: bytes_proper.simps bytes_atom.simps handed.simps
      Filter.case parts.simps MultiRange_mergeWith_filters testNull_simps not_True_eq_False simp_thms; blast)+
  then obtain b where "mergeWith (Suc n) (kMultiRange fs na nan) g =
      multi_merge (mergeWith n) fs (parts g) (na \<and> testNull g) b" by (auto simp only: mergeWith_bytes_class)
  with multi_merge_denotes [OF assms(4), of "na \<and> testNull g" b] acceptsB_parts [OF assms(2)] assms(1)
  show ?thesis by simp
qed

definition positive_parts :: "Filter \<Rightarrow> bool" where
  "positive_parts f \<longleftrightarrow> (\<forall>h \<in> set (parts f). positive h)"

lemma positive_parts_proper: "positive_parts f \<Longrightarrow> bytes_proper f"
  by (cases f) (auto simp: positive_parts_def positive_atom)

lemma positive_positive_parts: "positive f \<Longrightarrow> positive_parts f"
  by (cases f) (auto simp: positive_parts_def)

lemma bytes_ranges_positive: "bytes_ranges m \<Longrightarrow> positive_parts m"
  by (fastforce simp: bytes_ranges_def positive_parts_def)

lemma positive_parts_merges:
  "positive_parts f \<Longrightarrow> positive_parts g \<Longrightarrow> 4 \<le> n \<Longrightarrow> mergesB f g (mergeWith n f g)"
proof (rule swap_level [where P = positive_parts and k = 3])
  fix f g n
  assume f: "positive_parts f" and g: "positive_parts g" and h: "\<not> handed f g" and n: "3 \<le> (n :: nat)"
  obtain m where m: "n = Suc m" "2 \<le> m" using n by (cases n) auto
  show "mergesB f g (mergeWith n f g)"
  proof (cases "positive f \<and> positive g")
    case True
    with n positive_merges show ?thesis by simp
  next
    case False
    then obtain fs na nan where fs: "f = kMultiRange fs na nan"
      using f g h by (cases f; cases g) (auto simp: positive_parts_def)
    have "\<forall>x \<in> set fs. \<forall>y \<in> set (parts g). mergesB x y (mergeWith m x y)"
      using f g positive_merges [OF _ _ m(2)] by (simp add: fs positive_parts_def)
    then show ?thesis
      unfolding m(1) fs using multi_direct h positive_parts_proper [OF f] positive_parts_proper [OF g] fs
      by blast
  qed
qed (use positive_parts_proper in auto)

subsection \<open>Negated ranges and all pairs\<close>

lemma negated_range_direct:
  assumes "byr_inv (nyr_nonNegated nr)" "bytes_proper g" "\<not> handed (kNegatedBytesRange nr) g"
    and "\<And>m. bytes_ranges m \<Longrightarrow> mergesB g m (mergeWith n g m)"
  shows "mergesB (kNegatedBytesRange nr) g (mergeWith (Suc n) (kNegatedBytesRange nr) g)"
proof -
  from toMultiRange_denotes [OF assms(1)] obtain m where m: "toMultiRange nr = Inr m" "bytes_ranges m"
    "testNull m = nyr_nullAllowed nr" "\<forall>s. acceptsB m s \<longleftrightarrow> acceptsB (kNegatedBytesRange nr) s" by blast
  have "NegatedBytesRange_mergeWith (mergeWith n) nr g = mergeWith n g m"
    using assms(2,3)
    by (cases g) (simp_all add: NegatedBytesRange_mergeWith_def m(1) del: mergeWith.simps)
  then have eq: "mergeWith (Suc n) (kNegatedBytesRange nr) g = mergeWith n g m"
    by (simp only: mergeWith_bytes_class)
  show ?thesis unfolding eq using m(3,4) by (intro denotesB_cong [OF assms(4) [OF m(2)]]) auto
qed

definition simple :: "Filter \<Rightarrow> bool" where
  "simple f \<longleftrightarrow> positive_parts f \<or> (\<exists>nr. f = kNegatedBytesRange nr \<and> byr_inv (nyr_nonNegated nr))"

lemma simple_proper: "simple f \<Longrightarrow> bytes_proper f"
  by (auto simp: simple_def positive_parts_proper)

lemma atom_simple: "bytes_atom f \<Longrightarrow> simple f"
  by (cases rule: bytes_atom_cases) (auto simp: simple_def positive_parts_def)

lemma negated_range_positive_parts:
  assumes "byr_inv (nyr_nonNegated nr)" "positive_parts g" "5 \<le> n"
  shows "mergesB (kNegatedBytesRange nr) g (mergeWith n (kNegatedBytesRange nr) g)"
proof -
  obtain m where m: "n = Suc m" "4 \<le> m" using assms(3) by (cases n) auto
  note g = positive_parts_proper [OF assms(2)]
  show ?thesis
  proof (cases "handed (kNegatedBytesRange nr) g")
    case True
    then obtain v where v: "g = kBytesValues v" by (cases g) auto
    obtain k where "m = Suc k" using m(2) by (cases m) auto
    with values_direct [of v "kNegatedBytesRange nr" k] assms(1) g v
    have "mergesB g (kNegatedBytesRange nr) (mergeWith m g (kNegatedBytesRange nr))"
      by (simp only: bytes_proper.simps bytes_atom.simps)
    then show ?thesis unfolding m(1) using mergesB_handed [OF _ g True] assms(1) by simp
  next
    case False
    have "mergesB g p (mergeWith m g p)" if "bytes_ranges p" for p
      using positive_parts_merges [OF assms(2) bytes_ranges_positive [OF that] m(2)] .
    with negated_range_direct [OF assms(1) g False] show ?thesis unfolding m(1) by blast
  qed
qed

lemma simple_merges:
  assumes "simple f" "simple g" "6 \<le> n"
  shows "mergesB f g (mergeWith n f g)"
proof -
  obtain m where m: "n = Suc m" "5 \<le> m" using assms(3) by (cases n) auto
  consider (pos) "positive_parts f" "positive_parts g"
    | (left) nr where "f = kNegatedBytesRange nr" "byr_inv (nyr_nonNegated nr)" "positive_parts g"
    | (right) nr where "g = kNegatedBytesRange nr" "byr_inv (nyr_nonNegated nr)" "positive_parts f"
    | (both) nr nq where "f = kNegatedBytesRange nr" "byr_inv (nyr_nonNegated nr)"
        "g = kNegatedBytesRange nq" "byr_inv (nyr_nonNegated nq)"
    using assms(1,2) unfolding simple_def by blast
  then show ?thesis
  proof cases
    case pos
    with positive_parts_merges assms(3) show ?thesis by simp
  next
    case left
    with negated_range_positive_parts assms(3) show ?thesis by simp
  next
    case (right nr)
    show ?thesis
    proof (cases "handed f g")
      case True
      have "mergesB g f (mergeWith m g f)" using right negated_range_positive_parts m(2) by blast
      then show ?thesis unfolding m(1)
        using mergesB_handed [OF simple_proper [OF assms(1)] simple_proper [OF assms(2)] True] by blast
    next
      case False
      then obtain v where "f = kBytesValues v" "byv_inv v"
        using right positive_parts_proper [OF right(3)] by (cases f) (auto simp: positive_parts_def)
      with values_direct [of v g m] right show ?thesis unfolding m(1) by simp
    qed
  next
    case (both nr nq)
    have "mergesB g p (mergeWith m g p)" if "bytes_ranges p" for p
      using negated_range_positive_parts [OF both(4) bytes_ranges_positive [OF that] m(2)] both(3) by simp
    then show ?thesis
      unfolding m(1) both(1) using both by (intro negated_range_direct) auto
  qed
qed

lemma proper_merges_multi:
  assumes "bytes_proper (kMultiRange fs na nan)" "bytes_proper g" "\<not> handed (kMultiRange fs na nan) g"
    and "7 \<le> n"
  shows "mergesB (kMultiRange fs na nan) g (mergeWith n (kMultiRange fs na nan) g)"
proof -
  obtain m where m: "n = Suc m" "6 \<le> m" using assms(4) by (cases n) auto
  have "\<forall>f \<in> set fs. \<forall>h \<in> set (parts g). mergesB f h (mergeWith m f h)"
    using parts_atoms [OF assms(1)] parts_atoms [OF assms(2)] simple_merges [OF _ _ m(2)] atom_simple by simp
  with multi_direct [OF assms(1-3)] show ?thesis unfolding m(1) by blast
qed

lemma proper_merges:
  "bytes_proper f \<Longrightarrow> bytes_proper g \<Longrightarrow> 9 \<le> n \<Longrightarrow> mergesB f g (mergeWith n f g)"
proof (rule swap_level [where P = bytes_proper and k = 8])
  fix f g n
  assume f: "bytes_proper f" and g: "bytes_proper g" and h: "\<not> handed f g" and n: "8 \<le> (n :: nat)"
  obtain m where m: "n = Suc m" "7 \<le> m" using n by (cases n) auto
  consider fs na nan where "f = kMultiRange fs na nan"
    | "bytes_atom f" "bytes_atom g"
    | nr where "f = kNegatedBytesRange nr" "\<not> bytes_atom g"
    using f g h by (cases f; cases g) auto
  then show "mergesB f g (mergeWith n f g)"
  proof cases
    case (1 fs na nan)
    then show ?thesis using proper_merges_multi f g h n by simp
  next
    case 2
    then show ?thesis using simple_merges atom_simple n by simp
  next
    case (3 nr)
    then obtain gs na nan where gs: "g = kMultiRange gs na nan" using g by (cases g) auto
    have "mergesB g p (mergeWith m g p)" if "bytes_ranges p" for p
    proof -
      have "bytes_proper p" "\<not> handed g p"
        using positive_parts_proper [OF bytes_ranges_positive [OF that]] that
        by (auto simp: gs bytes_ranges_def)
      with proper_merges_multi g gs m(2) show ?thesis by blast
    qed
    then show ?thesis unfolding m(1) 3(1) using f 3(1) g h by (intro negated_range_direct) auto
  qed
qed auto

subsection \<open>The filters on nulls only\<close>

abbreviation mergesW :: "Filter \<Rightarrow> Filter \<Rightarrow> Filter res \<Rightarrow> bool" where
  "mergesW f g r \<equiv> \<exists>h. r = Inr h \<and> bytes_wf h \<and> testNull h = (testNull f \<and> testNull g) \<and>
     (\<forall>s. testBytes h s = Inr (acceptsB f s \<and> acceptsB g s))"

lemma proper_wf: "bytes_proper h \<Longrightarrow> bytes_wf h"
  by (cases h) auto

lemma mergesB_mergesW:
  assumes "mergesB f g r"
  shows "mergesW f g r"
proof -
  from assms obtain h where h: "r = Inr h" "bytes_proper h \<or> h = kAlwaysFalse \<or> h = kIsNull"
    "testNull h = (testNull f \<and> testNull g)" "\<forall>s. acceptsB h s \<longleftrightarrow> acceptsB f s \<and> acceptsB g s"
    by (auto simp: denotesB_def)
  have wf: "bytes_wf h" using h(2) proper_wf by auto
  then have "\<forall>s. testBytes h s = Inr (acceptsB f s \<and> acceptsB g s)"
    using bytes_wf_testBytes h(4) by simp
  with h(1,3) wf show ?thesis by blast
qed

lemma clone_wf: "bytes_wf f \<Longrightarrow> clone f None = Inr f"
  using clone_proper [of f] by (cases f) simp_all

lemma not_null_clone:
  assumes "bytes_proper f"
  shows "mergeWith (Suc n) f kIsNotNull = clone f (Some False)"
  using assms
  by (cases f) (simp_all add: mergeWith_bytes_class BytesRange_mergeWith_def NegatedBytesRange_mergeWith_def
    BytesValues_mergeWith_def NegatedBytesValues_mergeWith_def MultiRange_mergeWith_def Let_def
    del: mergeWith.simps)

lemma proper_hands_nulls:
  assumes "bytes_proper f" "g \<in> {kAlwaysTrue, kAlwaysFalse, kIsNull}"
  shows "mergeWith (Suc n) f g = mergeWith n g f"
  using assms
  by (cases f) (auto simp: mergeWith_bytes_class BytesRange_mergeWith_def NegatedBytesRange_mergeWith_def
    BytesValues_mergeWith_def NegatedBytesValues_mergeWith_def MultiRange_mergeWith_def Let_def
    simp del: mergeWith.simps)

lemma not_null_merges:
  assumes "bytes_proper f"
  shows "mergesB f kIsNotNull (mergeWith (Suc n) f kIsNotNull)"
  unfolding not_null_clone [OF assms] using clone_proper [OF assms, of False]
  by (auto elim: denotesB_cong)

lemma nulls_first_merges:
  assumes "bytes_wf g"
  shows "mergesW kAlwaysTrue g (mergeWith (Suc n) kAlwaysTrue g)"
    "mergesW kAlwaysFalse g (mergeWith (Suc n) kAlwaysFalse g)"
    "mergesW kIsNull g (mergeWith (Suc n) kIsNull g)"
    "mergesW kIsNotNull g (mergeWith (Suc (Suc n)) kIsNotNull g)"
proof -
  show "mergesW kAlwaysTrue g (mergeWith (Suc n) kAlwaysTrue g)"
    using clone_wf [OF assms] bytes_wf_testBytes [OF assms] assms by simp
  show "mergesW kAlwaysFalse g (mergeWith (Suc n) kAlwaysFalse g)" by simp
  show "mergesW kIsNull g (mergeWith (Suc n) kIsNull g)" by (simp add: IsNull_mergeWith_def)
  show "mergesW kIsNotNull g (mergeWith (Suc (Suc n)) kIsNotNull g)"
  proof (cases "bytes_proper g")
    case True
    then have "mergeWith (Suc (Suc n)) kIsNotNull g = mergeWith (Suc n) g kIsNotNull"
      by (cases g) (simp_all add: IsNotNull_mergeWith_def)
    with mergesB_mergesW [OF mergesB_sym [OF not_null_merges [OF True]]] show ?thesis by presburger
  next
    case False
    with assms show ?thesis by (cases g) (auto simp: IsNotNull_mergeWith_def)
  qed
qed

lemma bytes_merges:
  assumes "bytes_wf f" "bytes_wf g" "9 \<le> n"
  shows "mergesW f g (mergeWith n f g)"
proof -
  obtain m where m: "n = Suc (Suc m)" using assms(3) by (cases n; cases "n - 1") auto
  consider "f \<in> {kAlwaysTrue, kAlwaysFalse, kIsNull, kIsNotNull}"
    | "bytes_proper f" "bytes_proper g"
    | "bytes_proper f" "g = kIsNotNull"
    | "bytes_proper f" "g \<in> {kAlwaysTrue, kAlwaysFalse, kIsNull}"
    using assms(1,2) by (cases f; cases g) auto
  then show ?thesis
  proof cases
    case 1
    then show ?thesis unfolding m using nulls_first_merges [OF assms(2)] by blast
  next
    case 2
    then show ?thesis using mergesB_mergesW proper_merges [OF _ _ assms(3)] by blast
  next
    case 3
    then show ?thesis unfolding m using mergesB_mergesW not_null_merges by blast
  next
    case 4
    have "mergesW g f (mergeWith (Suc m) g f)"
      using 4(2) nulls_first_merges(1-3) [OF assms(1)] by blast
    then show ?thesis unfolding m proper_hands_nulls [OF 4] by (simp add: conj_commute)
  qed
qed

end
