(* ===== verification/Filter_Bytes_Range_Test.thy ===== *)
theory Filter_Bytes_Range_Test
  imports Filter_Merge_Bytes
begin

text \<open>
  The tests that decide from the smallest and the largest string of a block whether the block can be
  skipped (\<open>testBytesRange\<close>), and the tests on the length of a string (\<open>testLength\<close>): neither
  skips a string that the filter accepts.
\<close>

section \<open>Tests on ranges of strings\<close>

lemma negated_range_test:
  assumes "byr_inv (nyr_nonNegated nr)"
  shows "\<exists>r. NegatedBytesRange_testBytesRange nr (Some a) (Some b) n = Inr r \<and>
    ((n \<and> nyr_nullAllowed nr) \<or> (\<exists>s. a \<le> s \<and> s \<le> b \<and> \<not> bytes_between (nyr_nonNegated nr) s) \<longrightarrow> r)"
proof -
  let ?r = "nyr_nonNegated nr"
  have inside: "bytes_between ?r s" if "bytes_between ?r a" "bytes_between ?r b" "a \<le> s" "s \<le> b" for s
  proof -
    have "l < a \<Longrightarrow> l < s" "b < u \<Longrightarrow> s < u" for l u :: string
      using that(3,4) order.strict_trans2 order.strict_trans1 by blast+
    moreover have "a < s \<or> a = s" "s < b \<or> s = b" using that(3,4) by auto
    ultimately show ?thesis using that(1,2) unfolding bytes_between_def by auto
  qed
  have "NegatedBytesRange_testBytesRange nr (Some a) (Some b) n = Inr ((n \<and> nyr_nullAllowed nr) \<or>
      \<not> bytes_between ?r a \<or> \<not> bytes_between ?r b)"
    by (auto simp: NegatedBytesRange_testBytesRange_def NegatedBytesRange_testBytes_def
      BytesRange_testBytes_iff [OF assms])
  with inside show ?thesis by blast
qed

definition bytes_range_has_match :: "Filter \<Rightarrow> string \<Rightarrow> string \<Rightarrow> bool \<Rightarrow> bool" where
  "bytes_range_has_match f a b n \<longleftrightarrow> (n \<and> testNull f) \<or> (\<exists>s. a \<le> s \<and> s \<le> b \<and> acceptsB f s)"

abbreviation keeps_block :: "Filter \<Rightarrow> string \<Rightarrow> string \<Rightarrow> bool \<Rightarrow> bool" where
  "keeps_block f a b n \<equiv> \<exists>r. testBytesRange f (Some a) (Some b) n = Inr r \<and> (bytes_range_has_match f a b n \<longrightarrow> r)"

lemma atom_range_test:
  assumes "bytes_atom f"
  shows "keeps_block f a b n"
  using assms
proof (cases rule: bytes_atom_cases)
  case (range r)
  have "BytesRange_testBytesRange r (Some a) (Some b) n" if "bytes_between r s" "a \<le> s" "s \<le> b" for s
    by (rule BytesRange_testBytesRange_sound [OF range(2) that(1)]) (use that in auto)
  moreover have "BytesRange_testBytesRange r (Some a) (Some b) n" if "n" "ar_nullAllowed r"
    using that by (simp add: BytesRange_testBytesRange_def)
  ultimately show ?thesis using range by (auto simp: bytes_range_has_match_def acceptsB_atoms)
next
  case (negated_range nr)
  then show ?thesis
    using negated_range_test [OF negated_range(2), of a b n]
    by (simp add: bytes_range_has_match_def acceptsB_atoms)
next
  case (inlist v)
  have "BytesValues_testBytesRange v (Some a) (Some b) n" if "s \<in> byv_values v" "a \<le> s" "s \<le> b" for s
    by (rule BytesValues_testBytesRange_sound [OF inlist(2) that(1)]) (use that in auto)
  moreover have "BytesValues_testBytesRange v (Some a) (Some b) n" if "n" "byv_nullAllowed v"
    using that by (simp add: BytesValues_testBytesRange_def)
  ultimately show ?thesis using inlist by (auto simp: bytes_range_has_match_def acceptsB_atoms)
next
  case (notinlist v)
  have "s = b" if "a = b" "a \<le> s" "s \<le> b" for s using that by simp
  then show ?thesis
    using notinlist BytesValues_testBytes_iff [OF notinlist(2)]
    by (auto simp: bytes_range_has_match_def acceptsB_atoms NegatedBytesValues_testBytesRange_def
      NegatedBytesValues_testBytes_def)
qed

lemma any_range_test:
  assumes "\<forall>f \<in> set fs. keeps_block f a b n"
  shows "\<exists>r. rany (\<lambda>f. testBytesRange f (Some a) (Some b) n) fs = Inr r \<and>
    ((\<exists>f \<in> set fs. bytes_range_has_match f a b n) \<longrightarrow> r)"
  using assms
proof (induction fs)
  case (Cons f fs)
  then obtain r q where "testBytesRange f (Some a) (Some b) n = Inr r" "bytes_range_has_match f a b n \<longrightarrow> r"
    "rany (\<lambda>f. testBytesRange f (Some a) (Some b) n) fs = Inr q"
    "(\<exists>f \<in> set fs. bytes_range_has_match f a b n) \<longrightarrow> q" by auto
  then show ?case by (cases r) auto
qed auto

lemma bytes_range_test:
  assumes "bytes_wf f"
  shows "keeps_block f a b n"
proof -
  consider fs na nan where "f = kMultiRange fs na nan" "\<forall>h \<in> set fs. bytes_atom h" | "bytes_atom f"
    | "f \<in> {kAlwaysTrue, kAlwaysFalse, kIsNull, kIsNotNull}" using assms by (cases f) auto
  then show ?thesis
  proof cases
    case (1 fs na nan)
    then have "\<forall>h \<in> set fs. keeps_block h a b n" using atom_range_test by blast
    from any_range_test [OF this] obtain r where
      "rany (\<lambda>f. testBytesRange f (Some a) (Some b) n) fs = Inr r"
      "(\<exists>f \<in> set fs. bytes_range_has_match f a b n) \<longrightarrow> r" by blast
    with 1 show ?thesis by (cases "n \<and> na") (auto simp: bytes_range_has_match_def)
  next
    case 2
    then show ?thesis by (rule atom_range_test)
  next
    case 3
    then show ?thesis by (auto simp: bytes_range_has_match_def)
  qed
qed

section \<open>Tests on lengths\<close>

lemma range_length_test:
  assumes "byr_inv r" "bytes_between r s"
  shows "BytesRange_testLength r (int (length s))"
proof (cases "byr_singleValue r")
  case True
  then have "s = byr_lower r" using assms unfolding byr_inv_def bytes_between_def by (metis less_asym)
  then show ?thesis by (simp add: BytesRange_testLength_def)
qed (simp add: BytesRange_testLength_def)

lemma atom_length_test:
  assumes "bytes_atom f"
  shows "\<exists>r. testLength f (int (length s)) = Inr r \<and> (acceptsB f s \<longrightarrow> r)"
  using assms
proof (cases rule: bytes_atom_cases)
  case (range r)
  then show ?thesis using range_length_test by (simp add: acceptsB_atoms)
next
  case (inlist v)
  then show ?thesis by (auto simp: acceptsB_atoms BytesValues_testLength_def byv_inv_def)
qed auto

lemma any_length_test:
  assumes "\<forall>f \<in> set fs. bytes_atom f"
  shows "\<exists>r. rany (\<lambda>f. testLength f (int (length s))) fs = Inr r \<and> ((\<exists>f \<in> set fs. acceptsB f s) \<longrightarrow> r)"
  using assms
proof (induction fs)
  case (Cons f fs)
  with atom_length_test [of f s] obtain r q where "testLength f (int (length s)) = Inr r" "acceptsB f s \<longrightarrow> r"
    "rany (\<lambda>f. testLength f (int (length s))) fs = Inr q" "(\<exists>f \<in> set fs. acceptsB f s) \<longrightarrow> q" by auto
  then show ?case by (cases r) auto
qed auto

lemma bytes_length_test:
  assumes "bytes_wf f"
  shows "\<exists>r. testLength f (int (length s)) = Inr r \<and> (acceptsB f s \<longrightarrow> r)"
  using assms any_length_test [of _ s] atom_length_test [of f s] by (cases f) auto

end
