(* ===== verification/Std_Map.thy ===== *)
theory Std_Map
  imports Velox_Prelude
begin

text \<open>
  \<open>std::map\<close> as the list of its entries in the order of iteration, with the operations the
  components use. An iterator is the key of its entry.
\<close>

named_theorems map_simps \<open>look-ups after the operations of a map\<close>

type_synonym ('k, 'v) std_map = "('k \<times> 'v) list"

section \<open>Operations\<close>

text \<open>\<open>emplace\<close> leaves the map alone and reports false when the key is present.\<close>

fun map_emplace :: "'k::linorder \<Rightarrow> 'v \<Rightarrow> ('k, 'v) std_map \<Rightarrow> bool \<times> ('k, 'v) std_map" where
  "map_emplace k v [] = (True, [(k, v)])"
| "map_emplace k v ((k', v') # m) =
     (if k < k' then (True, (k, v) # (k', v') # m)
      else if k = k' then (False, (k', v') # m)
      else (let (b, m') = map_emplace k v m in (b, (k', v') # m')))"

text \<open>\<open>m[k] = v\<close>.\<close>

fun map_assign :: "'k::linorder \<Rightarrow> 'v \<Rightarrow> ('k, 'v) std_map \<Rightarrow> ('k, 'v) std_map" where
  "map_assign k v [] = [(k, v)]"
| "map_assign k v ((k', v') # m) =
     (if k < k' then (k, v) # (k', v') # m
      else if k = k' then (k, v) # m
      else (k', v') # map_assign k v m)"

definition map_erase :: "'k \<Rightarrow> ('k, 'v) std_map \<Rightarrow> ('k, 'v) std_map" where
  "map_erase k m = filter (\<lambda>e. fst e \<noteq> k) m"

text \<open>\<open>lower_bound(k)\<close>, the first entry whose key is not less than \<open>k\<close>; \<open>None\<close> is \<open>end()\<close>.\<close>

definition map_lower_bound :: "('k::linorder, 'v) std_map \<Rightarrow> 'k \<Rightarrow> ('k \<times> 'v) option" where
  "map_lower_bound m k = find (\<lambda>e. k \<le> fst e) m"

text \<open>
  The entries before and after the iterator at \<open>k\<close>: \<open>std::prev\<close>, \<open>None\<close> when it is \<open>begin()\<close>, and
  \<open>std::next\<close>, \<open>None\<close> when that is \<open>end()\<close>.
\<close>

definition map_prev :: "('k::linorder, 'v) std_map \<Rightarrow> 'k \<Rightarrow> ('k \<times> 'v) option" where
  "map_prev m k = find (\<lambda>e. fst e < k) (rev m)"

definition map_next :: "('k::linorder, 'v) std_map \<Rightarrow> 'k \<Rightarrow> ('k \<times> 'v) option" where
  "map_next m k = find (\<lambda>e. k < fst e) m"

section \<open>The order of the keys\<close>

definition map_ok :: "('k::linorder, 'v) std_map \<Rightarrow> bool" where
  "map_ok m \<longleftrightarrow> sorted_wrt (<) (map fst m)"

lemma map_ok_Nil [simp]: "map_ok []"
  by (simp add: map_ok_def)

lemma map_ok_Cons [simp]: "map_ok (e # m) \<longleftrightarrow> (\<forall>e' \<in> set m. fst e < fst e') \<and> map_ok m"
  by (auto simp: map_ok_def)

lemma map_ok_distinct: "map_ok m \<Longrightarrow> distinct (map fst m)"
  by (simp add: map_ok_def strict_sorted_iff)

lemma map_of_mem: "map_ok m \<Longrightarrow> map_of m k = Some v \<longleftrightarrow> (k, v) \<in> set m"
  by (simp add: map_ok_distinct)

lemma map_of_below: "\<forall>e \<in> set m. (k :: 'k::linorder) < fst e \<Longrightarrow> map_of m k = None"
  by (induction m) auto

lemma map_emplace_entries: "set (snd (map_emplace k v m)) \<subseteq> insert (k, v) (set m)"
  by (induction m) (auto simp: Let_def split: prod.splits if_splits)

lemma map_assign_entries: "set (map_assign k v m) \<subseteq> insert (k, v) (set m)"
  by (induction m) (auto split: if_splits)

lemma map_emplace_ok [simp]: "map_ok m \<Longrightarrow> map_ok (snd (map_emplace k v m))"
proof (induction m)
  case (Cons e m)
  obtain k' v' where e: "e = (k', v')" by (cases e)
  have "\<forall>e' \<in> set (snd (map_emplace k v m)). k' < fst e'" if "k' < k"
    using map_emplace_entries [of k v m] Cons.prems that e by fastforce
  with Cons e show ?case by (auto simp: less_trans split: prod.splits)
qed simp

lemma map_assign_ok [simp]: "map_ok m \<Longrightarrow> map_ok (map_assign k v m)"
proof (induction m)
  case (Cons e m)
  obtain k' v' where e: "e = (k', v')" by (cases e)
  have "\<forall>e' \<in> set (map_assign k v m). k' < fst e'" if "k' < k"
    using map_assign_entries [of k v m] Cons.prems that e by fastforce
  with Cons e show ?case by (auto simp: less_trans)
qed simp

lemma map_erase_ok [simp]: "map_ok m \<Longrightarrow> map_ok (map_erase k m)"
  unfolding map_erase_def by (induction m) auto

section \<open>Look-ups\<close>

lemma map_emplace_inserted [map_simps]:
  "map_ok m \<Longrightarrow> fst (map_emplace k v m) \<longleftrightarrow> map_of m k = None"
proof (induction m)
  case (Cons e m)
  obtain k' v' where e: "e = (k', v')" by (cases e)
  have "map_of m k = None" if "k < k'"
    using Cons.prems e that less_trans by (intro map_of_below) auto
  with Cons e show ?case by (auto split: prod.splits)
qed simp

lemma map_emplace_of [map_simps]:
  "map_ok m \<Longrightarrow> map_of (snd (map_emplace k v m)) =
     (if map_of m k = None then (map_of m)(k \<mapsto> v) else map_of m)"
proof (induction m)
  case (Cons e m)
  obtain k' v' where e: "e = (k', v')" by (cases e)
  have "map_of m k = None" if "k < k'"
    using Cons.prems e that less_trans by (intro map_of_below) auto
  with Cons e show ?case by (auto simp: fun_eq_iff split: prod.splits)
qed simp

lemma map_assign_of [map_simps]: "map_of (map_assign k v m) = (map_of m)(k \<mapsto> v)"
  by (induction m) (auto simp: fun_eq_iff)

lemma map_erase_of [map_simps]: "map_of (map_erase k m) = (map_of m)(k := None)"
  unfolding map_erase_def by (induction m) (auto simp: fun_eq_iff)

lemma map_emplace_set:
  "map_ok m \<Longrightarrow> map_of m k = None \<Longrightarrow> set (snd (map_emplace k v m)) = insert (k, v) (set m)"
  by (induction m) (auto split: prod.splits if_splits)

lemma map_erase_set [simp]: "set (map_erase k m) = {e \<in> set m. fst e \<noteq> k}"
  by (simp add: map_erase_def)

text \<open>Two maps with the same look-ups are the same.\<close>

lemma map_eqI:
  assumes "map_ok m" "map_ok m'" "map_of m = map_of m'"
  shows "m = m'"
proof -
  have "set m = set m'"
    using assms map_of_mem by (metis (no_types) subrelI subset_antisym)
  then show ?thesis using assms(1,2)
  proof (induction m arbitrary: m')
    case (Cons e m)
    then obtain e' n where n: "m' = e' # n" by (cases m') auto
    have "e = e'" using Cons.prems n by (metis (no_types) list.set_intros(1) map_ok_Cons order_less_asym set_ConsD)
    moreover have "e \<notin> set m" "e' \<notin> set n" using Cons.prems n by auto
    ultimately have "set m = set n" using Cons.prems n by auto
    with Cons n \<open>e = e'\<close> show ?case by simp
  qed simp
qed

section \<open>Neighbours\<close>

lemma find_first:
  assumes "map_ok m" "find (\<lambda>e. P (fst e)) m = Some e" "e' \<in> set m" "P (fst e')"
  shows "fst e \<le> fst e'"
  using assms by (induction m) (auto split: if_splits)

lemma find_mem: "find P m = Some e \<Longrightarrow> e \<in> set m \<and> P e"
  by (induction m) (auto split: if_splits)

lemma find_none: "find P m = None \<longleftrightarrow> (\<forall>e \<in> set m. \<not> P e)"
  by (induction m) auto

lemma find_append: "find P (xs @ ys) = (case find P xs of Some e \<Rightarrow> Some e | None \<Rightarrow> find P ys)"
  by (induction xs) auto

lemma map_lower_bound_some:
  assumes "map_ok m" "map_lower_bound m k = Some e"
  shows "e \<in> set m" "k \<le> fst e" "\<And>e'. e' \<in> set m \<Longrightarrow> k \<le> fst e' \<Longrightarrow> fst e \<le> fst e'"
  using assms find_mem [of "\<lambda>e. k \<le> fst e" m e] find_first [of m "\<lambda>x. k \<le> x" e]
  by (auto simp: map_lower_bound_def)

lemma map_lower_bound_none: "map_lower_bound m k = None \<longleftrightarrow> (\<forall>e \<in> set m. fst e < k)"
  by (auto simp: map_lower_bound_def find_none not_le)

lemma map_next_some:
  assumes "map_ok m" "map_next m k = Some e"
  shows "e \<in> set m" "k < fst e" "\<And>e'. e' \<in> set m \<Longrightarrow> k < fst e' \<Longrightarrow> fst e \<le> fst e'"
  using assms find_mem [of "\<lambda>e. k < fst e" m e] find_first [of m "\<lambda>x. k < x" e]
  by (auto simp: map_next_def)

lemma map_next_none: "map_next m k = None \<longleftrightarrow> (\<forall>e \<in> set m. fst e \<le> k)"
  by (auto simp: map_next_def find_none not_less)

lemma map_prev_some:
  assumes "map_ok m" "map_prev m k = Some e"
  shows "e \<in> set m" "fst e < k" "\<And>e'. e' \<in> set m \<Longrightarrow> fst e' < k \<Longrightarrow> fst e' \<le> fst e"
proof -
  show "e \<in> set m" "fst e < k"
    using assms(2) find_mem [of "\<lambda>e. fst e < k" "rev m" e] by (auto simp: map_prev_def)
  fix e' assume "e' \<in> set m" "fst e' < k"
  with assms show "fst e' \<le> fst e"
    unfolding map_prev_def
  proof (induction m)
    case (Cons x m)
    show ?case
    proof (cases "find (\<lambda>e. fst e < k) (rev m)")
      case None
      then have "e' = x" using Cons.prems by (auto simp: find_none)
      moreover have "e = x" using Cons.prems None \<open>fst e < k\<close>
        using find_mem [OF Cons.prems(2)] by (auto simp: find_none)
      ultimately show ?thesis by simp
    next
      case (Some y)
      then have "e = y" using Cons.prems(2) by (simp add: find_append)
      moreover have "y \<in> set m" using find_mem [OF Some] by simp
      ultimately show ?thesis using Cons Some by (cases "e' = x") auto
    qed
  qed simp
qed

lemma map_prev_none: "map_prev m k = None \<longleftrightarrow> (\<forall>e \<in> set m. k \<le> fst e)"
  by (auto simp: map_prev_def find_none not_less)

end
