(* ===== verification/Power_Of_Two.thy ===== *)
theory Power_Of_Two
  imports Velox_Prelude
begin

text \<open>
  Unsigned 64-bit arithmetic on natural numbers, and the rounding to a power of two of
  \<open>velox/common/base/BitUtil.h\<close> that the memory arenas and the merging structures use.
\<close>

section \<open>Unsigned arithmetic\<close>

definition u64 :: "nat \<Rightarrow> nat" where
  "u64 x = x mod 2 ^ 64"

definition u64_add :: "nat \<Rightarrow> nat \<Rightarrow> nat" where
  "u64_add x y = u64 (x + y)"

definition u64_sub :: "nat \<Rightarrow> nat \<Rightarrow> nat" where
  "u64_sub x y = u64 (x + (2 ^ 64 - y))"

lemma u64_add_in [simp]: "x + y < 2 ^ 64 \<Longrightarrow> u64_add x y = x + y"
  by (simp add: u64_add_def u64_def)

lemma u64_add_other:
  assumes "x < 2 ^ 64" "0 < y" "y < 2 ^ 64"
  shows "u64_add x y \<noteq> x"
proof (cases "x + y < 2 ^ 64")
  case False
  then have "u64_add x y = x + y - 2 ^ 64" using assms(1,3) by (simp add: u64_add_def u64_def le_mod_geq)
  then show ?thesis using False assms(3) by simp
qed (use assms(2) in simp)

lemma u64_sub_in [simp]: "y \<le> x \<Longrightarrow> x < 2 ^ 64 \<Longrightarrow> u64_sub x y = x - y"
proof -
  assume "y \<le> x" "x < 2 ^ 64"
  then have "x + (2 ^ 64 - y) = (x - y) + 2 ^ 64" "x - y < 2 ^ 64" by auto
  then show ?thesis by (simp add: u64_sub_def u64_def)
qed

text \<open>\<open>bits::countLeadingZeros\<close> and \<open>bits::nextPowerOfTwo\<close> of \<open>velox/common/base/BitUtil.h\<close>.\<close>

definition countLeadingZeros :: "nat \<Rightarrow> nat" where
  "countLeadingZeros x = (if x = 0 then 64 else 63 - floor_log2 x)"

definition nextPowerOfTwo :: "nat \<Rightarrow> nat" where
  "nextPowerOfTwo n =
     (if n = 0 then 0
      else let bits = 63 - countLeadingZeros n; lower = 2 ^ bits
           in if lower = n then n else u64 (2 * lower))"

lemma nextPowerOfTwo_spec:
  assumes "0 < n" "n \<le> 2 ^ 63"
  shows "\<exists>k \<le> 63. nextPowerOfTwo n = 2 ^ k \<and> n \<le> 2 ^ k \<and> 2 ^ k < 2 * n"
proof -
  let ?k = "floor_log2 n"
  have k: "2 ^ ?k \<le> n" "n < 2 * 2 ^ ?k" using floor_log2_lower [OF assms(1)] floor_log2_upper [of n] by auto
  have "(2::nat) ^ ?k \<le> 2 ^ 63" using k(1) assms(2) by (rule order_trans)
  then have "?k \<le> 63" by (rule power_le_imp_le_exp [rotated]) simp
  then have "63 - (63 - ?k) = ?k" by simp
  moreover have "?k < 63" if "2 ^ ?k \<noteq> n"
  proof -
    have "(2::nat) ^ ?k < 2 ^ 63" using k(1) that assms(2) by linarith
    then show ?thesis by (rule power_less_imp_less_exp [rotated]) simp
  qed
  moreover have "u64 (2 * 2 ^ ?k) = 2 ^ Suc ?k" if "?k < 63"
  proof -
    have "(2::nat) ^ Suc ?k < 2 ^ 64" using that by (intro power_strict_increasing) auto
    then show ?thesis by (simp add: u64_def)
  qed
  ultimately have eq: "nextPowerOfTwo n = (if 2 ^ ?k = n then 2 ^ ?k else 2 ^ Suc ?k)"
    using assms(1) by (simp add: nextPowerOfTwo_def countLeadingZeros_def Let_def)
  show ?thesis
  proof (cases "2 ^ ?k = n")
    case True
    then show ?thesis using eq assms(1) \<open>?k \<le> 63\<close> by (intro exI [of _ ?k]) simp
  next
    case False
    with \<open>2 ^ ?k \<noteq> n \<Longrightarrow> ?k < 63\<close> eq k show ?thesis by (intro exI [of _ "Suc ?k"]) simp
  qed
qed

end
