(* ===== verification/Mmap_Arena.thy ===== *)
theory Mmap_Arena
  imports Std_Map Power_Of_Two
begin

text \<open>
  The memory arena of \<open>velox/common/memory/MmapArena.h\<close> and \<open>MmapArena.cpp\<close>: a contiguous region
  with a list of free blocks ordered by address and an index of them by size. Addresses and sizes
  are \<open>uint64_t\<close>, natural numbers with the wrap-around of their additions and subtractions written
  out. An operation returns its result, or the check that failed, with the state it leaves.
\<close>

section \<open>The arena\<close>

record MmapArena =
  ma_byteSize :: nat
  ma_address :: nat
  ma_freeBytes :: nat
  ma_freeList :: "(nat, nat) std_map"
  ma_freeLookup :: "(nat, nat set) std_map"

abbreviation kMinGrainSizeBytes :: nat where
  "kMinGrainSizeBytes \<equiv> 1048576"

definition roundBytes :: "nat \<Rightarrow> nat" where
  "roundBytes bytes = nextPowerOfTwo bytes"

text \<open>\<open>freeLookup_[bytes]\<close> is the empty set when there is no entry.\<close>

definition lookup_at :: "(nat, nat set) std_map \<Rightarrow> nat \<Rightarrow> nat set" where
  "lookup_at l bytes = (case map_of l bytes of None \<Rightarrow> {} | Some addrs \<Rightarrow> addrs)"

definition lookup_emplace :: "(nat, nat set) std_map \<Rightarrow> nat \<Rightarrow> nat \<Rightarrow> (nat, nat set) std_map" where
  "lookup_emplace l bytes address = map_assign bytes (insert address (lookup_at l bytes)) l"

definition removeFromLookup :: "MmapArena \<Rightarrow> nat \<Rightarrow> nat \<Rightarrow> MmapArena" where
  "removeFromLookup a addr bytes =
     (let addrs = lookup_at (ma_freeLookup a) bytes - {addr};
          l = map_assign bytes addrs (ma_freeLookup a)
      in a\<lparr>ma_freeLookup := (if addrs = {} then map_erase bytes l else l)\<rparr>)"

definition addFreeBlock :: "MmapArena \<Rightarrow> nat \<Rightarrow> nat \<Rightarrow> unit res \<times> MmapArena" where
  "addFreeBlock a address bytes =
     (let (inserted, freeList) = map_emplace address bytes (ma_freeList a)
      in if \<not> inserted then (Inl CheckFailed, a)
         else (Inr (), a\<lparr>ma_freeList := freeList,
                         ma_freeLookup := lookup_emplace (ma_freeLookup a) bytes address\<rparr>))"

text \<open>\<open>removeFreeBlock(addr, bytes)\<close>, also called with the entry of an iterator.\<close>

definition removeFreeBlock :: "MmapArena \<Rightarrow> nat \<Rightarrow> nat \<Rightarrow> MmapArena" where
  "removeFreeBlock a addr bytes =
     removeFromLookup (a\<lparr>ma_freeList := map_erase addr (ma_freeList a)\<rparr>) addr bytes"

text \<open>\<open>freeList_[addr] = size; freeLookup_[size].emplace(addr)\<close>.\<close>

definition resizeFreeBlock :: "MmapArena \<Rightarrow> nat \<Rightarrow> nat \<Rightarrow> MmapArena" where
  "resizeFreeBlock a addr size' =
     a\<lparr>ma_freeList := map_assign addr size' (ma_freeList a),
       ma_freeLookup := lookup_emplace (ma_freeLookup a) size' addr\<rparr>"

text \<open>
  The constructor takes the result of \<open>mmap\<close>, \<open>None\<close> when the call failed. The block is added to empty
  maps, so the check in \<open>addFreeBlock\<close> passes.
\<close>

definition MmapArena_new :: "nat \<Rightarrow> nat option \<Rightarrow> MmapArena res" where
  "MmapArena_new capacityBytes ptr =
     check (capacityBytes mod kMinGrainSizeBytes = 0)
       (case ptr of
          None \<Rightarrow> Inl CheckFailed
        | Some address \<Rightarrow>
            (let a = \<lparr>ma_byteSize = capacityBytes, ma_address = address, ma_freeBytes = 0,
                      ma_freeList = [], ma_freeLookup = []\<rparr>;
                 (r, a') = addFreeBlock a address capacityBytes
             in rbind r (\<lambda>_. Inr (a'\<lparr>ma_freeBytes := capacityBytes\<rparr>))))"

text \<open>
  \<open>pick\<close> is the element that \<open>begin()\<close> of an \<open>std::unordered_set\<close> points to. A null pointer is
  \<^const>\<open>None\<close>.
\<close>

definition MmapArena_allocate ::
    "(nat set \<Rightarrow> nat) \<Rightarrow> MmapArena \<Rightarrow> nat \<Rightarrow> nat option res \<times> MmapArena" where
  "MmapArena_allocate pick a bytes0 =
     (if bytes0 = 0 then (Inr None, a)
      else let bytes = roundBytes bytes0
           in case map_lower_bound (ma_freeLookup a) bytes of
                None \<Rightarrow> (Inr None, a)
              | Some (curFreeBytes, addrs) \<Rightarrow>
                  (let a1 = a\<lparr>ma_freeBytes := u64_sub (ma_freeBytes a) bytes\<rparr>;
                       address = pick addrs
                   in if curFreeBytes = bytes then
                        (Inr (Some address), removeFreeBlock a1 address curFreeBytes)
                      else case addFreeBlock a1 (u64_add address bytes) (u64_sub curFreeBytes bytes) of
                             (Inl e, a2) \<Rightarrow> (Inl e, a2)
                           | (Inr _, a2) \<Rightarrow> (Inr (Some address), removeFreeBlock a2 address curFreeBytes)))"

text \<open>The second half of \<open>free\<close>: merging the new block with the neighbours it touches.\<close>

definition mergeNeighbours ::
    "MmapArena \<Rightarrow> nat \<Rightarrow> nat \<Rightarrow> (nat \<times> nat) option \<Rightarrow> (nat \<times> nat) option \<Rightarrow> MmapArena" where
  "mergeNeighbours a curAddr bytes mergePrev mergeNext =
     (case mergePrev of
        Some (prevAddr, prevBytes) \<Rightarrow>
          (let a1 = removeFreeBlock a curAddr bytes;
               a2 = removeFromLookup a1 prevAddr prevBytes
           in case mergeNext of
                None \<Rightarrow> resizeFreeBlock a2 prevAddr (u64_add (u64_sub curAddr prevAddr) bytes)
              | Some (nextAddr, nextBytes) \<Rightarrow>
                  resizeFreeBlock (removeFreeBlock a2 nextAddr nextBytes) prevAddr
                    (u64_add (u64_sub nextAddr prevAddr) nextBytes))
      | None \<Rightarrow>
          (case mergeNext of
             None \<Rightarrow> a
           | Some (nextAddr, nextBytes) \<Rightarrow>
               resizeFreeBlock (removeFromLookup (removeFreeBlock a nextAddr nextBytes) curAddr bytes)
                 curAddr (u64_add (u64_sub nextAddr curAddr) nextBytes)))"

text \<open>A null address is 0; \<open>madvise\<close> has no effect on the state of the arena.\<close>

definition MmapArena_free :: "MmapArena \<Rightarrow> nat \<Rightarrow> nat \<Rightarrow> unit res \<times> MmapArena" where
  "MmapArena_free a address bytes0 =
     (if address = 0 \<or> bytes0 = 0 then (Inr (), a)
      else let bytes = roundBytes bytes0;
               a1 = a\<lparr>ma_freeBytes := u64_add (ma_freeBytes a) bytes\<rparr>
           in case addFreeBlock a1 address bytes of
                (Inl e, a2) \<Rightarrow> (Inl e, a2)
              | (Inr _, a2) \<Rightarrow>
                  (let prevItr = map_prev (ma_freeList a2) address;
                       nextItr = map_next (ma_freeList a2) address;
                       prevEnd = (\<lambda>(prevAddr, prevBytes). u64_add prevAddr prevBytes);
                       curEndAddr = u64_add address bytes
                   in if \<not> (case prevItr of None \<Rightarrow> True | Some e \<Rightarrow> prevEnd e \<le> address) then
                        (Inl CheckFailed, a2)
                      else if \<not> (case nextItr of None \<Rightarrow> True | Some e \<Rightarrow> curEndAddr \<le> fst e) then
                        (Inl CheckFailed, a2)
                      else
                        (Inr (), mergeNeighbours a2 address bytes
                           (case prevItr of None \<Rightarrow> None | Some e \<Rightarrow> if prevEnd e = address then Some e else None)
                           (case nextItr of None \<Rightarrow> None | Some e \<Rightarrow> if curEndAddr = fst e then Some e else None))))"

definition MmapArena_empty :: "MmapArena \<Rightarrow> bool" where
  "MmapArena_empty a \<longleftrightarrow> ma_freeBytes a = ma_byteSize a"

subsection \<open>\<open>checkConsistency\<close>\<close>

text \<open>The loop over the free list counts the errors; the loop over the index too.\<close>

fun check_free_list :: "(nat, nat set) std_map \<Rightarrow> nat \<Rightarrow> (nat, nat) std_map \<Rightarrow> nat" where
  "check_free_list l arenaEndAddress [] = 0"
| "check_free_list l arenaEndAddress ((addr, bytes) # rest) =
     (let blockEndAddress = u64_add addr bytes
      in (case map_of l bytes of None \<Rightarrow> 1 | Some addrs \<Rightarrow> if addr \<in> addrs then 0 else 1) +
         (if blockEndAddress > arenaEndAddress then 1 else 0) +
         (case rest of [] \<Rightarrow> 0 | (nextAddr, _) # _ \<Rightarrow> if blockEndAddress > nextAddr then 1 else 0) +
         check_free_list l arenaEndAddress rest)"

fun check_free_lookup :: "(nat, nat set) std_map \<Rightarrow> nat" where
  "check_free_lookup [] = 0"
| "check_free_lookup ((_, addrs) # rest) = (if addrs = {} then 1 else 0) + check_free_lookup rest"

definition checkConsistency :: "MmapArena \<Rightarrow> bool" where
  "checkConsistency a =
     (let arenaEndAddress = u64_add (ma_address a) (ma_byteSize a);
          freeListTotalBytes = u64 (sum_list (map snd (ma_freeList a)));
          freeLookupTotalBytes = u64 (sum_list (map (\<lambda>(bytes, addrs). bytes * card addrs) (ma_freeLookup a)));
          numErrors = check_free_list (ma_freeLookup a) arenaEndAddress (ma_freeList a) +
            check_free_lookup (ma_freeLookup a) +
            (if freeListTotalBytes \<noteq> freeLookupTotalBytes \<or> freeListTotalBytes \<noteq> ma_freeBytes a then 1 else 0)
      in numErrors = 0)"

end
