(* ===== verification/Block_Allocator.thy ===== *)
theory Block_Allocator
  imports Velox_Prelude
begin

text \<open>
  What a client relies on when it takes blocks of memory from an allocator and gives them back: the
  contract of the two calls, and what every sequence of calls then keeps. The arenas meet it.
\<close>

section \<open>A client and its blocks\<close>

text \<open>The client asks for a number of bytes, or gives back the block at an index of its list.\<close>

datatype client_op = Alloc nat | Free nat

text \<open>A request that throws or returns null gives the client nothing; a failing \<open>free\<close> ends the run.\<close>

fun client_step ::
    "('s \<Rightarrow> nat \<Rightarrow> nat option res \<times> 's) \<Rightarrow> ('s \<Rightarrow> nat \<Rightarrow> nat \<Rightarrow> unit res \<times> 's) \<Rightarrow> client_op \<Rightarrow>
      's \<times> (nat \<times> nat) list \<Rightarrow> ('s \<times> (nat \<times> nat) list) res" where
  "client_step alloc dealloc (Alloc n) (s, live) =
     (case alloc s n of
        (Inr (Some p), s') \<Rightarrow> Inr (s', (p, n) # live)
      | (_, s') \<Rightarrow> Inr (s', live))"
| "client_step alloc dealloc (Free i) (s, live) =
     (if i < length live then
        (case live ! i of (p, n) \<Rightarrow>
           (case dealloc s p n of
              (Inl e, _) \<Rightarrow> Inl e
            | (Inr _, s') \<Rightarrow> Inr (s', take i live @ drop (Suc i) live)))
      else Inr (s, live))"

fun client_run ::
    "('s \<Rightarrow> nat \<Rightarrow> nat option res \<times> 's) \<Rightarrow> ('s \<Rightarrow> nat \<Rightarrow> nat \<Rightarrow> unit res \<times> 's) \<Rightarrow> client_op list \<Rightarrow>
      's \<times> (nat \<times> nat) list \<Rightarrow> ('s \<times> (nat \<times> nat) list) res" where
  "client_run alloc dealloc [] c = Inr c"
| "client_run alloc dealloc (op # ops) c =
     rbind (client_step alloc dealloc op c) (client_run alloc dealloc ops)"

text \<open>The requests a client may make.\<close>

fun op_ok :: "nat \<Rightarrow> client_op \<Rightarrow> bool" where
  "op_ok limit (Alloc n) \<longleftrightarrow> 0 < n \<and> n \<le> limit"
| "op_ok limit (Free i) \<longleftrightarrow> True"

section \<open>The contract\<close>

locale block_allocator =
  fixes inv :: "'s \<Rightarrow> bool"
    and used :: "'s \<Rightarrow> nat set"
    and owns :: "'s \<Rightarrow> nat \<Rightarrow> nat \<Rightarrow> bool"
    and bytes :: "nat \<Rightarrow> nat \<Rightarrow> nat set"
    and limit :: nat
    and alloc :: "'s \<Rightarrow> nat \<Rightarrow> nat option res \<times> 's"
    and dealloc :: "'s \<Rightarrow> nat \<Rightarrow> nat \<Rightarrow> unit res \<times> 's"
  assumes alloc_ok: "inv s \<Longrightarrow> 0 < n \<Longrightarrow> n \<le> limit \<Longrightarrow> alloc s n = (r, s') \<Longrightarrow>
      inv s' \<and> (\<forall>p m. owns s p m \<longrightarrow> owns s' p m) \<and>
      (case r of
         Inr (Some p) \<Rightarrow> bytes p n \<inter> used s = {} \<and> used s' = used s \<union> bytes p n \<and> owns s' p n
       | _ \<Rightarrow> used s' = used s)"
    and dealloc_ok: "inv s \<Longrightarrow> 0 < n \<Longrightarrow> n \<le> limit \<Longrightarrow> owns s p n \<Longrightarrow>
      \<exists>s'. dealloc s p n = (Inr (), s') \<and> inv s' \<and> used s' = used s - bytes p n \<and>
        (\<forall>q m. owns s q m \<longrightarrow> bytes p n \<inter> bytes q m = {} \<longrightarrow> owns s' q m)"
begin

text \<open>The blocks a client holds: owned, apart from each other, and together all that is in use.\<close>

definition holds :: "'s \<Rightarrow> (nat \<times> nat) list \<Rightarrow> bool" where
  "holds s live \<longleftrightarrow> inv s \<and> used s = (\<Union>(p, n) \<in> set live. bytes p n) \<and>
     (\<forall>(p, n) \<in> set live. 0 < n \<and> n \<le> limit \<and> owns s p n) \<and>
     sorted_wrt (\<lambda>(p, n) (q, m). bytes p n \<inter> bytes q m = {}) live"

lemma alloc_holds:
  assumes "holds s live" "0 < n" "n \<le> limit"
  shows "\<exists>s' live'. client_step alloc dealloc (Alloc n) (s, live) = Inr (s', live') \<and> holds s' live'"
proof -
  obtain r s' where eq: "alloc s n = (r, s')" by (cases "alloc s n")
  have inv: "inv s" using assms(1) by (simp add: holds_def)
  note ok = alloc_ok [OF inv assms(2,3) eq]
  show ?thesis
  proof (cases "\<exists>p. r = Inr (Some p)")
    case True
    then obtain p where p: "r = Inr (Some p)" by blast
    have "bytes p n \<inter> bytes q m = {}" if "(q, m) \<in> set live" for q m
      using assms(1) ok p that unfolding holds_def by auto
    then have "holds s' ((p, n) # live)" using assms ok p unfolding holds_def by auto
    then show ?thesis using p eq by simp
  next
    case False
    then have "client_step alloc dealloc (Alloc n) (s, live) = Inr (s', live)" "used s' = used s"
      using eq ok by (auto split: sum.splits option.splits)
    moreover have "holds s' live" using assms(1) ok calculation(2) unfolding holds_def by auto
    ultimately show ?thesis by blast
  qed
qed

lemma dealloc_holds:
  assumes "holds s live"
  shows "\<exists>s' live'. client_step alloc dealloc (Free i) (s, live) = Inr (s', live') \<and> holds s' live'"
proof (cases "i < length live")
  case True
  obtain p n where pn: "live ! i = (p, n)" by (cases "live ! i")
  let ?l = "take i live" and ?r = "drop (Suc i) live"
  have live: "live = ?l @ (p, n) # ?r" using id_take_nth_drop [OF True] pn by simp
  have inv: "inv s" using assms by (simp add: holds_def)
  have mem: "0 < m \<and> m \<le> limit \<and> owns s q m" if "(q, m) \<in> set live" for q m
    using assms that by (auto simp: holds_def)
  have own: "0 < n" "n \<le> limit" "owns s p n" using mem [of p n] nth_mem [OF True] pn by auto
  from dealloc_ok [OF inv own] obtain s' where s': "dealloc s p n = (Inr (), s')" "inv s'"
    "used s' = used s - bytes p n"
    "\<forall>q m. owns s q m \<longrightarrow> bytes p n \<inter> bytes q m = {} \<longrightarrow> owns s' q m" by blast
  have H: "holds s (?l @ (p, n) # ?r)" using assms live by simp
  have apart: "bytes p n \<inter> bytes q m = {}" if "(q, m) \<in> set ?l \<union> set ?r" for q m
    using H that unfolding holds_def by (auto simp: sorted_wrt_append Int_commute)
  have "used s' = (\<Union>(p, n) \<in> set (?l @ ?r). bytes p n)"
    using H s'(3) apart unfolding holds_def by auto
  moreover have "0 < m \<and> m \<le> limit \<and> owns s' q m" if "(q, m) \<in> set (?l @ ?r)" for q m
    using that mem [of q m] s'(4) apart [of q m] by (auto dest: in_set_takeD in_set_dropD)
  moreover have "sorted_wrt (\<lambda>(p, n) (q, m). bytes p n \<inter> bytes q m = {}) (?l @ ?r)"
    using H unfolding holds_def by (simp add: sorted_wrt_append)
  ultimately have "holds s' (?l @ ?r)" using s'(2) unfolding holds_def by blast
  then show ?thesis using True pn s'(1) by auto
qed (use assms in auto)

text \<open>Every run of a client succeeds and leaves it with blocks apart from each other.\<close>

lemma run_holds:
  assumes "holds s live" "\<forall>op \<in> set ops. op_ok limit op"
  shows "\<exists>s' live'. client_run alloc dealloc ops (s, live) = Inr (s', live') \<and> holds s' live'"
  using assms
proof (induction ops arbitrary: s live)
  case (Cons op ops)
  have "\<exists>s' live'. client_step alloc dealloc op (s, live) = Inr (s', live') \<and> holds s' live'"
    using Cons.prems alloc_holds dealloc_holds by (cases op) auto
  with Cons show ?case by fastforce
qed simp

lemma run_disjoint:
  assumes "inv s" "used s = {}" "\<forall>op \<in> set ops. op_ok limit op"
  shows "\<exists>s' live. client_run alloc dealloc ops (s, []) = Inr (s', live) \<and> inv s' \<and>
    used s' = (\<Union>(p, n) \<in> set live. bytes p n) \<and>
    sorted_wrt (\<lambda>(p, n) (q, m). bytes p n \<inter> bytes q m = {}) live"
  using run_holds [of s "[]" ops] assms by (auto simp: holds_def)

end

end
