(* ===== verification/Mmap_Arena_Correct.thy ===== *)
theory Mmap_Arena_Correct
  imports Mmap_Arena Block_Allocator
begin

text \<open>
  Correctness of the arena: the free blocks are the maximal intervals of the free space, the index
  by size agrees with them, \<open>allocate\<close> takes its block out of the free space and \<open>free\<close> puts it back,
  and \<open>free\<close> fails on exactly the blocks that overlap the free space.
\<close>

section \<open>Free blocks as a set of addresses\<close>

definition free_space :: "(nat \<times> nat) set \<Rightarrow> nat set" where
  "free_space B = (\<Union>(x, s) \<in> B. {x..<x + s})"

text \<open>Blocks of at least one byte, with a gap between any two.\<close>

definition separated :: "(nat \<times> nat) set \<Rightarrow> bool" where
  "separated B \<longleftrightarrow> (\<forall>x s. (x, s) \<in> B \<longrightarrow> 0 < s) \<and>
     (\<forall>x s y t. (x, s) \<in> B \<longrightarrow> (y, t) \<in> B \<longrightarrow> (x, s) = (y, t) \<or> x + s < y \<or> y + t < x)"

lemma separated_pos: "separated B \<Longrightarrow> (x, s) \<in> B \<Longrightarrow> 0 < s"
  unfolding separated_def by blast

lemma separated_gap:
  "separated B \<Longrightarrow> (x, s) \<in> B \<Longrightarrow> (y, t) \<in> B \<Longrightarrow> (x, s) = (y, t) \<or> x + s < y \<or> y + t < x"
  unfolding separated_def by blast

lemma mem_free_space: "p \<in> free_space B \<longleftrightarrow> (\<exists>x s. (x, s) \<in> B \<and> x \<le> p \<and> p < x + s)"
  by (fastforce simp: free_space_def)

lemma block_subset: "(x, s) \<in> B \<Longrightarrow> {x..<x + s} \<subseteq> free_space B"
  by (auto simp: free_space_def)

lemma free_space_E:
  assumes "p \<in> free_space B"
  obtains x s where "(x, s) \<in> B" "x \<le> p" "p < x + s"
  using assms by (auto simp: mem_free_space)

text \<open>The blocks are the maximal intervals of the free space, so the free space determines them.\<close>

lemma separated_end:
  assumes "separated B" "(x, s) \<in> B"
  shows "x + s \<notin> free_space B"
proof
  assume "x + s \<in> free_space B"
  then obtain y t where "(y, t) \<in> B" "y \<le> x + s" "x + s < y + t" by (rule free_space_E)
  then show False using separated_gap [OF assms, of y t] by auto
qed

lemma separated_start:
  assumes "separated B" "(x, s) \<in> B" "x \<noteq> 0"
  shows "x - 1 \<notin> free_space B"
proof
  assume "x - 1 \<in> free_space B"
  then obtain y t where y: "(y, t) \<in> B" "y \<le> x - 1" "x - 1 < y + t" by (rule free_space_E)
  have "y < x" "x \<le> y + t" using y assms(3) by linarith+
  then show False using separated_gap [OF assms(1,2) y(1)] by auto
qed

lemma separated_maximal:
  assumes "separated B"
  shows "(x, s) \<in> B \<longleftrightarrow> 0 < s \<and> {x..<x + s} \<subseteq> free_space B \<and> x + s \<notin> free_space B \<and>
    (x = 0 \<or> x - 1 \<notin> free_space B)"
proof
  assume B: "(x, s) \<in> B"
  then have "{x..<x + s} \<subseteq> free_space B" by (auto simp: free_space_def)
  with separated_pos [OF assms B] separated_end [OF assms B] separated_start [OF assms B]
  show "0 < s \<and> {x..<x + s} \<subseteq> free_space B \<and> x + s \<notin> free_space B \<and> (x = 0 \<or> x - 1 \<notin> free_space B)"
    by blast
next
  assume m: "0 < s \<and> {x..<x + s} \<subseteq> free_space B \<and> x + s \<notin> free_space B \<and>
      (x = 0 \<or> x - 1 \<notin> free_space B)"
  then have "x \<in> free_space B" by auto
  then obtain y t where y: "(y, t) \<in> B" "y \<le> x" "x < y + t" by (rule free_space_E)
  have sub: "{y..<y + t} \<subseteq> free_space B" using y(1) by (auto simp: free_space_def)
  have yx: "y = x"
  proof (rule ccontr)
    assume "y \<noteq> x"
    then have "x \<noteq> 0" "x - 1 \<in> {y..<y + t}" using y by auto
    with m sub show False by blast
  qed
  have "x + s \<notin> {y..<y + t}" using m sub by blast
  moreover have "y + t \<notin> {x..<x + s}" using m separated_end [OF assms y(1)] by blast
  ultimately have "s = t" using yx by auto
  with y(1) yx show "(x, s) \<in> B" by simp
qed

lemma blocks_unique:
  assumes "map_ok fl" "map_ok gl" "separated (set fl)" "separated (set gl)"
    and "free_space (set fl) = free_space (set gl)"
  shows "fl = gl"
proof -
  have "map_of fl x = Some s \<longleftrightarrow> map_of gl x = Some s" for x s
    unfolding map_of_mem [OF assms(1)] map_of_mem [OF assms(2)]
      separated_maximal [OF assms(3)] separated_maximal [OF assms(4)] assms(5) ..
  then have "map_of fl x = map_of gl x" for x by (metis not_Some_eq)
  then show ?thesis using map_eqI [OF assms(1,2)] by blast
qed

text \<open>The number of free bytes is the sum of the sizes.\<close>

lemma separated_subset: "separated B \<Longrightarrow> C \<subseteq> B \<Longrightarrow> separated C"
  unfolding separated_def by blast

lemma separated_disjoint:
  assumes "separated (insert (x, s) B)" "(x, s) \<notin> B"
  shows "{x..<x + s} \<inter> free_space B = {}"
proof -
  have "p \<notin> {x..<x + s}" if "p \<in> free_space B" for p
    using that
  proof (rule free_space_E)
    fix y t assume y: "(y, t) \<in> B" "y \<le> p" "p < y + t"
    then have "(x, s) \<noteq> (y, t)" using assms(2) by blast
    with separated_gap [OF assms(1), of x s y t] y show ?thesis by auto
  qed
  then show ?thesis by blast
qed

lemma free_space_insert [simp]: "free_space (insert (x, s) B) = {x..<x + s} \<union> free_space B"
  by (auto simp: free_space_def)

lemma free_space_empty [simp]: "free_space {} = {}"
  by (simp add: free_space_def)

lemma free_space_card:
  assumes "map_ok fl" "separated (set fl)"
  shows "finite (free_space (set fl)) \<and> card (free_space (set fl)) = sum_list (map snd fl)"
  using assms
proof (induction fl)
  case (Cons e fl)
  obtain x s where e: "e = (x, s)" by (cases e)
  have "(x, s) \<notin> set fl" using Cons.prems(1) e by auto
  with Cons.prems(2) e have "{x..<x + s} \<inter> free_space (set fl) = {}"
    by (intro separated_disjoint) simp_all
  moreover have "separated (set fl)" using Cons.prems(2) by (rule separated_subset) auto
  ultimately show ?case using Cons e by (simp add: card_Un_disjoint)
qed simp

subsection \<open>Replacing blocks\<close>

lemma separated_insert:
  assumes "separated B" "0 < s" "\<And>y t. (y, t) \<in> B \<Longrightarrow> y + t < x \<or> x + s < y"
  shows "separated (insert (x, s) B)"
proof -
  have "(y, t) = (z, u) \<or> y + t < z \<or> z + u < y"
    if "(y, t) \<in> insert (x, s) B" "(z, u) \<in> insert (x, s) B" for y t z u
    using that assms(3) [of y t] assms(3) [of z u] separated_gap [OF assms(1), of y t z u] by auto
  moreover have "0 < t" if "(y, t) \<in> insert (x, s) B" for y t
    using that assms(2) separated_pos [OF assms(1)] by auto
  ultimately show ?thesis unfolding separated_def by blast
qed

lemma free_space_remove:
  assumes "separated B" "(x, s) \<in> B"
  shows "free_space (B - {(x, s)}) = free_space B - {x..<x + s}"
proof -
  let ?C = "B - {(x, s)}"
  have B: "B = insert (x, s) ?C" using assms(2) by blast
  then have "{x..<x + s} \<inter> free_space ?C = {}" using separated_disjoint [of x s ?C] assms(1) by auto
  moreover have "free_space B = {x..<x + s} \<union> free_space ?C" by (subst B) (rule free_space_insert)
  ultimately show ?thesis by auto
qed

section \<open>The index by size\<close>

definition indexed :: "(nat \<times> nat) set \<Rightarrow> (nat, nat set) std_map \<Rightarrow> bool" where
  "indexed B l \<longleftrightarrow> map_ok l \<and>
     (\<forall>s. map_of l s = (if {x. (x, s) \<in> B} = {} then None else Some {x. (x, s) \<in> B}))"

lemma indexed_at: "indexed B l \<Longrightarrow> lookup_at l s = {x. (x, s) \<in> B}"
  by (simp add: indexed_def lookup_at_def)

lemma indexed_emplace: "indexed B l \<Longrightarrow> indexed (insert (x, s) B) (lookup_emplace l s x)"
  using indexed_at [of B l s] by (auto simp: indexed_def lookup_emplace_def map_simps)

lemma indexed_remove:
  assumes "indexed B (ma_freeLookup a)"
  shows "indexed (B - {(x, s)}) (ma_freeLookup (removeFromLookup a x s))"
proof -
  have "{y. (y, s) \<in> B} - {x} = {y. (y, s) \<in> B - {(x, s)}}" by auto
  moreover have "{y. (y, t) \<in> B - {(x, s)}} = {y. (y, t) \<in> B}" if "t \<noteq> s" for t using that by auto
  ultimately show ?thesis
    using assms unfolding removeFromLookup_def Let_def indexed_at [OF assms]
    by (simp add: indexed_def map_simps)
qed

lemma indexed_entry: "indexed B l \<Longrightarrow> (s, S) \<in> set l \<longleftrightarrow> S = {x. (x, s) \<in> B} \<and> S \<noteq> {}"
  by (subst map_of_mem [symmetric]) (auto simp: indexed_def)

section \<open>The invariant\<close>

abbreviation blocks :: "MmapArena \<Rightarrow> (nat \<times> nat) set" where
  "blocks a \<equiv> set (ma_freeList a)"

definition index_inv :: "MmapArena \<Rightarrow> bool" where
  "index_inv a \<longleftrightarrow> map_ok (ma_freeList a) \<and> indexed (blocks a) (ma_freeLookup a)"

definition arena_inv :: "MmapArena \<Rightarrow> bool" where
  "arena_inv a \<longleftrightarrow> index_inv a \<and> separated (blocks a) \<and>
     free_space (blocks a) \<subseteq> {ma_address a..<ma_address a + ma_byteSize a} \<and>
     ma_freeBytes a = card (free_space (blocks a)) \<and>
     0 < ma_address a \<and> ma_address a + ma_byteSize a < 2 ^ 64"

definition same_region :: "MmapArena \<Rightarrow> MmapArena \<Rightarrow> bool" where
  "same_region a b \<longleftrightarrow> ma_address a = ma_address b \<and> ma_byteSize a = ma_byteSize b \<and>
     ma_freeBytes a = ma_freeBytes b"

lemma same_region_refl [simp]: "same_region a a"
  by (simp add: same_region_def)

text \<open>An arena is determined by its region and its free space.\<close>

lemma arena_unique:
  assumes "arena_inv a" "arena_inv b" "ma_address a = ma_address b" "ma_byteSize a = ma_byteSize b"
    and "free_space (blocks a) = free_space (blocks b)"
  shows "a = b"
proof -
  have "ma_freeList a = ma_freeList b"
    using assms by (intro blocks_unique) (auto simp: arena_inv_def index_inv_def)
  moreover from this have "ma_freeLookup a = ma_freeLookup b"
    using assms by (intro map_eqI) (auto simp: arena_inv_def index_inv_def indexed_def)
  moreover have "ma_freeBytes a = ma_freeBytes b" using assms by (auto simp: arena_inv_def)
  ultimately show ?thesis using assms(3,4) by (intro MmapArena.equality) simp_all
qed

section \<open>The operations on blocks\<close>

lemma map_erase_block: "map_ok m \<Longrightarrow> (k, v) \<in> set m \<Longrightarrow> set (map_erase k m) = set m - {(k, v)}"
  using map_of_mem [of m k] by (auto, metis option.inject)

lemma map_assign_block:
  "map_ok m \<Longrightarrow> (k, v) \<in> set m \<Longrightarrow> set (map_assign k w m) = insert (k, w) (set m - {(k, v)})"
proof (induction m)
  case (Cons e m)
  obtain k' v' where e: "e = (k', v')" by (cases e)
  show ?case
  proof (cases "k = k'")
    case True
    then have "(k, v) \<notin> set m" using Cons.prems(1) e by auto
    with True Cons.prems e show ?thesis by auto
  next
    case False
    then have "(k, v) \<in> set m" "k' < k" using Cons.prems e by auto
    with Cons e False show ?thesis by auto
  qed
qed simp

lemma addFreeBlock_new:
  assumes "index_inv a" "x \<notin> fst ` blocks a"
  shows "\<exists>a'. addFreeBlock a x s = (Inr (), a') \<and> index_inv a' \<and> same_region a' a \<and>
    blocks a' = insert (x, s) (blocks a)"
proof -
  have ok: "map_ok (ma_freeList a)" using assms(1) by (simp add: index_inv_def)
  have new: "map_of (ma_freeList a) x = None" using assms(2) by (simp add: map_of_eq_None_iff)
  obtain fl where fl: "map_emplace x s (ma_freeList a) = (True, fl)"
    using map_emplace_inserted [OF ok, of x s] new by (cases "map_emplace x s (ma_freeList a)") auto
  have "map_ok fl" "set fl = insert (x, s) (blocks a)"
    using map_emplace_ok [OF ok, of x s] map_emplace_set [OF ok new, of s] fl by simp_all
  with fl assms(1) indexed_emplace show ?thesis
    by (auto simp: addFreeBlock_def index_inv_def same_region_def)
qed

lemma addFreeBlock_present:
  assumes "index_inv a" "x \<in> fst ` blocks a"
  shows "addFreeBlock a x s = (Inl CheckFailed, a)"
proof -
  have "map_ok (ma_freeList a)" using assms(1) by (simp add: index_inv_def)
  moreover have "map_of (ma_freeList a) x \<noteq> None" using assms(2) by (simp add: map_of_eq_None_iff)
  ultimately have "\<not> fst (map_emplace x s (ma_freeList a))" by (simp add: map_simps)
  then show ?thesis by (auto simp: addFreeBlock_def split: prod.splits)
qed

lemma removeFromLookup_rest [simp]:
  "ma_freeList (removeFromLookup a x s) = ma_freeList a" "ma_address (removeFromLookup a x s) = ma_address a"
  "ma_byteSize (removeFromLookup a x s) = ma_byteSize a" "ma_freeBytes (removeFromLookup a x s) = ma_freeBytes a"
  by (simp_all add: removeFromLookup_def Let_def)

lemma removeFreeBlock_inv:
  assumes "index_inv a" "(x, s) \<in> blocks a"
  shows "index_inv (removeFreeBlock a x s) \<and> same_region (removeFreeBlock a x s) a \<and>
    blocks (removeFreeBlock a x s) = blocks a - {(x, s)}"
proof -
  have "blocks (removeFreeBlock a x s) = blocks a - {(x, s)}"
    using assms map_erase_block [of "ma_freeList a" x s] by (simp add: removeFreeBlock_def index_inv_def del: map_erase_set)
  then show ?thesis
    using assms(1) indexed_remove [of "blocks a" "a\<lparr>ma_freeList := map_erase x (ma_freeList a)\<rparr>" x s]
    by (simp add: index_inv_def) (simp add: removeFreeBlock_def same_region_def)
qed

lemma resize_inv:
  assumes "index_inv a" "(x, s) \<in> blocks a"
  shows "index_inv (resizeFreeBlock (removeFromLookup a x s) x t) \<and>
    same_region (resizeFreeBlock (removeFromLookup a x s) x t) a \<and>
    blocks (resizeFreeBlock (removeFromLookup a x s) x t) = insert (x, t) (blocks a - {(x, s)})"
  using assms indexed_emplace [OF indexed_remove, of "blocks a" a x t x s]
    map_assign_block [of "ma_freeList a" x s t]
  by (simp add: resizeFreeBlock_def index_inv_def same_region_def removeFromLookup_def Let_def)

lemma resize_around_inv:
  assumes "index_inv a" "(x, s) \<in> blocks a" "(y, t) \<in> blocks a" "x \<noteq> y"
  shows "index_inv (resizeFreeBlock (removeFreeBlock (removeFromLookup a x s) y t) x u) \<and>
    same_region (resizeFreeBlock (removeFreeBlock (removeFromLookup a x s) y t) x u) a \<and>
    blocks (resizeFreeBlock (removeFreeBlock (removeFromLookup a x s) y t) x u) =
      insert (x, u) (blocks a - {(x, s)} - {(y, t)})"
proof -
  let ?b = "removeFreeBlock (removeFromLookup a x s) y t"
  let ?fl = "map_erase y (ma_freeList a)"
  have ok: "map_ok (ma_freeList a)" "indexed (blocks a) (ma_freeLookup a)"
    using assms(1) by (simp_all add: index_inv_def)
  have erase: "set ?fl = blocks a - {(y, t)}" using map_erase_block [OF ok(1) assms(3)] .
  have "set (map_assign x u ?fl) = insert (x, u) (blocks a - {(y, t)} - {(x, s)})"
    using map_assign_block [of ?fl x s u] ok(1) assms(2,4) erase by (simp del: map_erase_set)
  moreover have "blocks a - {(y, t)} - {(x, s)} = blocks a - {(x, s)} - {(y, t)}" by blast
  moreover have "indexed (blocks a - {(x, s)} - {(y, t)}) (ma_freeLookup ?b)"
    unfolding removeFreeBlock_def using indexed_remove [OF ok(2)] by (intro indexed_remove) simp
  moreover have "ma_freeList ?b = ?fl" "same_region ?b a" by (simp_all add: removeFreeBlock_def same_region_def)
  ultimately show ?thesis
    using indexed_emplace [of _ "ma_freeLookup ?b" x u] ok(1)
    by (simp add: index_inv_def resizeFreeBlock_def same_region_def del: map_erase_set)
qed

section \<open>The operations keep the invariant\<close>

lemma block_in_region:
  assumes "arena_inv a" "(x, s) \<in> blocks a"
  shows "0 < s" "ma_address a \<le> x" "x + s \<le> ma_address a + ma_byteSize a" "x + s < 2 ^ 64" "0 < x"
proof -
  show "0 < s" using assms separated_pos by (auto simp: arena_inv_def)
  then have "x \<in> free_space (blocks a)" "x + s - 1 \<in> free_space (blocks a)"
    using block_subset [OF assms(2)] by auto
  then have "x \<in> {ma_address a..<ma_address a + ma_byteSize a}"
    "x + s - 1 \<in> {ma_address a..<ma_address a + ma_byteSize a}"
    using assms(1) unfolding arena_inv_def by blast+
  then show "ma_address a \<le> x" "x + s \<le> ma_address a + ma_byteSize a" by auto
  then show "x + s < 2 ^ 64" "0 < x" using assms(1) by (auto simp: arena_inv_def)
qed

lemma arena_finite: "arena_inv a \<Longrightarrow> finite (free_space (blocks a))"
  unfolding arena_inv_def by (meson finite_atLeastLessThan finite_subset)

lemma MmapArena_new_inv:
  assumes "MmapArena_new cap (Some x) = Inr a" "0 < x" "0 < cap" "x + cap < 2 ^ 64"
  shows "arena_inv a \<and> ma_address a = x \<and> ma_byteSize a = cap \<and>
    free_space (blocks a) = {x..<x + cap}"
proof -
  let ?e = "\<lparr>ma_byteSize = cap, ma_address = x, ma_freeBytes = 0, ma_freeList = [], ma_freeLookup = []\<rparr>"
  have "index_inv ?e" by (simp add: index_inv_def indexed_def)
  from addFreeBlock_new [OF this, of x cap] obtain b where
    b: "addFreeBlock ?e x cap = (Inr (), b)" "index_inv b" "same_region b ?e" "blocks b = {(x, cap)}"
    by auto
  then have "a = b\<lparr>ma_freeBytes := cap\<rparr>" using assms(1) by (simp add: MmapArena_new_def)
  moreover have "separated {(x, cap)}" using assms(3) by (simp add: separated_def)
  ultimately show ?thesis
    using b assms by (simp add: arena_inv_def index_inv_def same_region_def)
qed

subsection \<open>\<open>allocate\<close>\<close>

text \<open>What \<open>begin()\<close> of an unordered set that is not empty points to.\<close>

definition picks :: "(nat set \<Rightarrow> nat) \<Rightarrow> bool" where
  "picks pick \<longleftrightarrow> (\<forall>S. S \<noteq> {} \<longrightarrow> pick S \<in> S)"

lemma picks_D: "picks pick \<Longrightarrow> S \<noteq> {} \<Longrightarrow> pick S \<in> S"
  by (simp add: picks_def)

lemma roundBytes_pos: "0 < n \<Longrightarrow> n \<le> 2 ^ 63 \<Longrightarrow> 0 < roundBytes n"
  using nextPowerOfTwo_spec [of n] by (auto simp: roundBytes_def)

lemma roundBytes_bound:
  assumes "0 < n" "n \<le> 2 ^ 63"
  shows "roundBytes n < 2 ^ 64"
proof -
  from nextPowerOfTwo_spec [OF assms] obtain k where "k \<le> 63" "roundBytes n = 2 ^ k" by (auto simp: roundBytes_def)
  moreover from this have "(2 :: nat) ^ k < 2 ^ 64" by (intro power_strict_increasing) simp_all
  ultimately show ?thesis by simp
qed

lemma take_from_block:
  assumes "separated B" "(p, s) \<in> B" "0 < r" "r < s"
  shows "separated (insert (p + r, s - r) B - {(p, s)})"
    "free_space (insert (p + r, s - r) B - {(p, s)}) = free_space B - {p..<p + r}"
    "p + r \<notin> fst ` B"
proof -
  have "(p, s) \<noteq> (p + r, s - r)" using assms(3) by simp
  then have eq: "insert (p + r, s - r) B - {(p, s)} = insert (p + r, s - r) (B - {(p, s)})" by blast
  have "separated (B - {(p, s)})" using assms(1) by (rule separated_subset) blast
  moreover have "y + t < p + r \<or> p + r + (s - r) < y" if "(y, t) \<in> B - {(p, s)}" for y t
    using separated_gap [OF assms(1,2), of y t] that assms(4) by auto
  ultimately show "separated (insert (p + r, s - r) B - {(p, s)})"
    unfolding eq using assms(4) by (intro separated_insert) auto
  have "{p..<p + s} = {p..<p + r} \<union> {p + r..<p + r + (s - r)}" using assms(3,4) by auto
  moreover have "{p..<p + s} \<subseteq> free_space B" using assms(2) by (auto simp: free_space_def)
  ultimately show "free_space (insert (p + r, s - r) B - {(p, s)}) = free_space B - {p..<p + r}"
    unfolding eq free_space_insert free_space_remove [OF assms(1,2)] by auto
  show "p + r \<notin> fst ` B"
  proof
    assume "p + r \<in> fst ` B"
    then obtain t where t: "(p + r, t) \<in> B" by auto
    have "(p, s) \<noteq> (p + r, t)" using assms(3) by simp
    then show False using separated_gap [OF assms(1,2) t] assms(3,4) by auto
  qed
qed

lemma allocate_found:
  assumes "arena_inv a" "picks pick" "0 < n" "n \<le> 2 ^ 63"
    and "map_lower_bound (ma_freeLookup a) (roundBytes n) = Some (s, S)"
  shows "\<exists>p a'. MmapArena_allocate pick a n = (Inr (Some p), a') \<and> arena_inv a' \<and> (p, s) \<in> blocks a \<and>
    roundBytes n \<le> s \<and>
    ma_address a' = ma_address a \<and> ma_byteSize a' = ma_byteSize a \<and>
    free_space (blocks a') = free_space (blocks a) - {p..<p + roundBytes n}"
proof -
  let ?r = "roundBytes n" and ?p = "pick S" and ?B = "blocks a"
  let ?a1 = "a\<lparr>ma_freeBytes := u64_sub (ma_freeBytes a) ?r\<rparr>"
  have inv: "index_inv a" "separated ?B" using assms(1) by (simp_all add: arena_inv_def)
  have idx: "indexed ?B (ma_freeLookup a)" using inv(1) by (simp add: index_inv_def)
  then have ok: "map_ok (ma_freeLookup a)" by (simp add: indexed_def)
  have r: "0 < ?r" using roundBytes_pos assms(3,4) by blast
  have "(s, S) \<in> set (ma_freeLookup a)" and s: "?r \<le> s"
    using map_lower_bound_some(1,2) [OF ok assms(5)] by simp_all
  then have S: "S = {x. (x, s) \<in> ?B}" "S \<noteq> {}" using indexed_entry [OF idx] by blast+
  have "?p \<in> S" by (rule picks_D [OF assms(2) S(2)])
  then have p: "(?p, s) \<in> ?B" using eqset_imp_iff [OF S(1), of ?p] by simp
  note pb = block_in_region [OF assms(1) p]
  have sub: "{?p..<?p + ?r} \<subseteq> free_space ?B" using block_subset [OF p] s by auto
  have fin: "finite (free_space ?B)" by (rule arena_finite [OF assms(1)])
  have fb: "ma_freeBytes a = card (free_space ?B)" using assms(1) by (simp add: arena_inv_def)
  have cap: "card (free_space ?B) \<le> ma_byteSize a"
    using card_mono [of "{ma_address a..<ma_address a + ma_byteSize a}" "free_space ?B"] assms(1)
    by (simp add: arena_inv_def)
  then have "card (free_space ?B) < 2 ^ 64" using assms(1) by (simp add: arena_inv_def)
  moreover have "?r \<le> card (free_space ?B)" using card_mono [OF fin sub] by simp
  ultimately have bytes: "u64_sub (ma_freeBytes a) ?r = card (free_space ?B - {?p..<?p + ?r})"
    using sub fin fb by (simp add: card_Diff_subset)
  have region: "free_space ?B - {?p..<?p + ?r} \<subseteq> {ma_address a..<ma_address a + ma_byteSize a}"
    using assms(1) unfolding arena_inv_def by blast
  have result: "arena_inv b"
    if "index_inv b" "same_region b ?a1" "separated (blocks b)" "free_space (blocks b) = free_space ?B - {?p..<?p + ?r}"
    for b
    using that assms(1) bytes region by (simp add: arena_inv_def same_region_def)
  have idx1: "index_inv ?a1" "blocks ?a1 = ?B" using inv(1) by (simp_all add: index_inv_def)
  show ?thesis
  proof (cases "s = ?r")
    case True
    let ?b = "removeFreeBlock ?a1 ?p s"
    have b: "index_inv ?b" "same_region ?b ?a1" "blocks ?b = ?B - {(?p, s)}"
      using removeFreeBlock_inv [OF idx1(1), of ?p s] p by simp_all
    have "separated (blocks ?b)" unfolding b(3) using inv(2) by (rule separated_subset) blast
    then have "arena_inv ?b" using b True free_space_remove [OF inv(2) p] by (intro result) simp_all
    moreover have "MmapArena_allocate pick a n = (Inr (Some ?p), ?b)"
      using assms(3,5) True by (simp add: MmapArena_allocate_def Let_def)
    ultimately show ?thesis
      using b p s True free_space_remove [OF inv(2) p] by (simp add: same_region_def)
  next
    case False
    then have rs: "?r < s" using s by simp
    note tk = take_from_block [OF inv(2) p r rs]
    have args: "u64_add ?p ?r = ?p + ?r" "u64_sub s ?r = s - ?r" using pb rs by simp_all
    from addFreeBlock_new [OF idx1(1), of "?p + ?r" "s - ?r"] tk(3) obtain c where
      c: "addFreeBlock ?a1 (?p + ?r) (s - ?r) = (Inr (), c)" "index_inv c" "same_region c ?a1"
      "blocks c = insert (?p + ?r, s - ?r) ?B" unfolding idx1(2) by blast
    let ?b = "removeFreeBlock c ?p s"
    have b: "index_inv ?b" "same_region ?b c" "blocks ?b = insert (?p + ?r, s - ?r) ?B - {(?p, s)}"
      using removeFreeBlock_inv [OF c(2), of ?p s] p c(4) by simp_all
    have "arena_inv ?b" using b c(3) tk by (intro result) (simp_all add: same_region_def)
    moreover have "MmapArena_allocate pick a n = (Inr (Some ?p), ?b)"
      using assms(3,5) False c(1) by (simp add: MmapArena_allocate_def Let_def args)
    ultimately show ?thesis using b c(3) p s tk(2) by (simp add: same_region_def)
  qed
qed

lemma allocate_none:
  assumes "0 < n" "map_lower_bound (ma_freeLookup a) (roundBytes n) = None"
  shows "MmapArena_allocate pick a n = (Inr None, a)"
  using assms by (simp add: MmapArena_allocate_def)

text \<open>A request is refused exactly when no free block is large enough for its rounded size.\<close>

lemma allocate_refused:
  assumes "arena_inv a"
  shows "map_lower_bound (ma_freeLookup a) r = None \<longleftrightarrow> (\<forall>(x, s) \<in> blocks a. s < r)"
proof -
  have idx: "indexed (blocks a) (ma_freeLookup a)" using assms by (auto simp: arena_inv_def index_inv_def)
  have "(\<exists>S. (s, S) \<in> set (ma_freeLookup a)) \<longleftrightarrow> (\<exists>x. (x, s) \<in> blocks a)" for s
    unfolding indexed_entry [OF idx] by auto
  then show ?thesis unfolding map_lower_bound_none by fastforce
qed

lemma least_fit:
  assumes "arena_inv a" "map_lower_bound (ma_freeLookup a) r = Some (s, S)" "(y, t) \<in> blocks a" "r \<le> t"
  shows "s \<le> t"
proof -
  have idx: "indexed (blocks a) (ma_freeLookup a)" using assms(1) by (simp add: arena_inv_def index_inv_def)
  then have ok: "map_ok (ma_freeLookup a)" by (simp add: indexed_def)
  have "(t, {x. (x, t) \<in> blocks a}) \<in> set (ma_freeLookup a)" using assms(3) unfolding indexed_entry [OF idx] by blast
  from map_lower_bound_some(3) [OF ok assms(2) this] assms(4) show ?thesis by simp
qed

subsection \<open>\<open>free\<close>\<close>

lemma free_space_Un: "free_space (B \<union> C) = free_space B \<union> free_space C"
  by (auto simp: free_space_def)

text \<open>A new block joined with the blocks that end where it starts and start where it ends.\<close>

lemma join_blocks:
  assumes B: "separated B" "0 < r" "\<And>y t. (y, t) \<in> B \<Longrightarrow> y + t \<le> x \<or> x + r \<le> y"
    and mp: "mp = None \<Longrightarrow> (\<forall>(y, t) \<in> B. y + t \<noteq> x)" "\<And>p s. mp = Some (p, s) \<Longrightarrow> (p, s) \<in> B \<and> p + s = x"
    and mn: "mn = None \<Longrightarrow> (\<forall>(y, t) \<in> B. y \<noteq> x + r)" "\<And>q u. mn = Some (q, u) \<Longrightarrow> (q, u) \<in> B \<and> q = x + r"
    and C: "C = B - set_option mp - set_option mn"
    and lo: "lo = (case mp of None \<Rightarrow> x | Some (p, s) \<Rightarrow> p)"
    and hi: "hi = (case mn of None \<Rightarrow> x + r | Some (q, u) \<Rightarrow> q + u)"
  shows "separated (insert (lo, hi - lo) C)"
    "free_space (insert (lo, hi - lo) C) = free_space B \<union> {x..<x + r}" "lo < hi"
proof -
  have lox: "lo \<le> x" "x + r \<le> hi" using mp(2) mn(2) by (auto simp: lo hi split: option.splits)
  then show less: "lo < hi" using B(2) by linarith
  have "separated C" using B(1) by (rule separated_subset) (auto simp: C)
  moreover have "y + t < lo \<or> hi < y" if y: "(y, t) \<in> C" for y t
  proof -
    have yB: "(y, t) \<in> B" "mp \<noteq> Some (y, t)" "mn \<noteq> Some (y, t)" using y by (auto simp: C)
    note t = separated_pos [OF B(1) yB(1)]
    show ?thesis
    proof (cases "y + t \<le> x")
      case True
      show ?thesis
      proof (cases mp)
        case None
        with mp(1) yB(1) True show ?thesis by (auto simp: lo)
      next
        case (Some e)
        obtain p s where e: "e = (p, s)" by (cases e)
        with mp(2) Some have "(p, s) \<in> B" "p + s = x" by auto
        with separated_gap [OF B(1) yB(1), of p s] yB(2) True t Some e show ?thesis by (auto simp: lo)
      qed
    next
      case False
      then have ge: "x + r \<le> y" using B(3) [OF yB(1)] by simp
      show ?thesis
      proof (cases mn)
        case None
        with mn(1) yB(1) ge show ?thesis by (force simp: hi)
      next
        case (Some e)
        obtain q u where e: "e = (q, u)" by (cases e)
        with mn(2) Some have "(q, u) \<in> B" "q = x + r" by auto
        with separated_gap [OF B(1) yB(1), of q u] yB(3) ge t Some e show ?thesis by (auto simp: hi)
      qed
    qed
  qed
  ultimately show "separated (insert (lo, hi - lo) C)"
    using less by (intro separated_insert) auto
  have "B = C \<union> set_option mp \<union> set_option mn" using mp(2) mn(2) by (fastforce simp: C)
  then have "free_space B = free_space C \<union> free_space (set_option mp) \<union> free_space (set_option mn)"
    by (metis free_space_Un)
  moreover have "{lo..<hi} = free_space (set_option mp) \<union> {x..<x + r} \<union> free_space (set_option mn)"
    using mp(2) mn(2) by (cases mp; cases mn) (fastforce simp: lo hi)+
  moreover have "lo + (hi - lo) = hi" using less by simp
  ultimately show "free_space (insert (lo, hi - lo) C) = free_space B \<union> {x..<x + r}" by auto
qed

lemma mergeNeighbours_blocks:
  assumes "index_inv c" "blocks c = insert (x, r) B" "x \<notin> fst ` B"
    and mp: "\<And>p s. mp = Some (p, s) \<Longrightarrow> (p, s) \<in> B \<and> p + s = x"
    and mn: "\<And>q u. mn = Some (q, u) \<Longrightarrow> (q, u) \<in> B \<and> q = x + r \<and> q + u < 2 ^ 64"
    and "x + r < 2 ^ 64" "0 < r"
    and lo: "lo = (case mp of None \<Rightarrow> x | Some (p, s) \<Rightarrow> p)"
    and hi: "hi = (case mn of None \<Rightarrow> x + r | Some (q, u) \<Rightarrow> q + u)"
  shows "index_inv (mergeNeighbours c x r mp mn) \<and> same_region (mergeNeighbours c x r mp mn) c \<and>
    blocks (mergeNeighbours c x r mp mn) = insert (lo, hi - lo) (B - set_option mp - set_option mn)"
proof -
  have x: "(x, r) \<in> blocks c" "(x, r) \<notin> B" using assms(2,3) by force+
  note rm = removeFreeBlock_inv [OF assms(1)]
  show ?thesis
  proof (cases mp)
    case None
    show ?thesis
    proof (cases mn)
      case None
      with \<open>mp = None\<close> show ?thesis using assms(1,2) by (simp add: mergeNeighbours_def lo hi)
    next
      case (Some e)
      obtain q u where e: "e = (q, u)" by (cases e)
      then have q: "(q, u) \<in> B" "q = x + r" "q + u < 2 ^ 64" "(q, u) \<noteq> (x, r)" "x \<noteq> q"
        using mn Some assms(7) by auto
      let ?d = "removeFreeBlock c q u"
      have d: "index_inv ?d" "same_region ?d c" "blocks ?d = insert (x, r) B - {(q, u)}"
        using rm [of q u] q(1) assms(2) by simp_all
      have "u64_add (u64_sub q x) u = hi - lo"
        using q Some None e by (simp add: lo hi)
      moreover have "insert (x, hi - lo) (blocks ?d - {(x, r)}) = insert (lo, hi - lo) (B - {(q, u)})"
        using x(2) q(4) None by (auto simp: d(3) lo)
      ultimately show ?thesis
        using resize_inv [OF d(1), of x r "hi - lo"] x d q(4,5) None Some e
        by (simp add: mergeNeighbours_def same_region_def)
    qed
  next
    case mpS: (Some e)
    obtain p s where e: "e = (p, s)" by (cases e)
    then have p: "(p, s) \<in> B" "p + s = x" using mp mpS by auto
    have px: "p \<noteq> x" using assms(3) p(1) by force
    let ?d = "removeFreeBlock c x r"
    have d: "index_inv ?d" "same_region ?d c" "blocks ?d = B"
      using rm [OF x(1)] x(2) assms(2) by simp_all
    show ?thesis
    proof (cases mn)
      case None
      have "u64_add (u64_sub x p) r = hi - lo"
        using p assms(6) mpS None e by (simp add: lo hi)
      then show ?thesis
        using resize_inv [OF d(1), of p s "hi - lo"] d p(1) mpS None e
        by (simp add: mergeNeighbours_def same_region_def lo Let_def)
    next
      case (Some f)
      obtain q u where f: "f = (q, u)" by (cases f)
      then have q: "(q, u) \<in> B" "q = x + r" "q + u < 2 ^ 64" using mn Some by auto
      have pq: "p \<noteq> q" using p(2) q(2) assms(7) by simp
      have "u64_add (u64_sub q p) u = hi - lo"
        using p(2) q mpS Some e f by (simp add: lo hi)
      then show ?thesis
        using resize_around_inv [OF d(1), of p s q u "hi - lo"] d p(1) q(1) pq mpS Some e f
        by (simp add: mergeNeighbours_def same_region_def lo Let_def)
    qed
  qed
qed

lemma prev_block:
  assumes "map_ok m" "set m = insert (x, r) B" "map_prev m x = Some (p, s)"
  shows "(p, s) \<in> B" "p < x" "\<And>y t. (y, t) \<in> B \<Longrightarrow> y < x \<Longrightarrow> y \<le> p"
  using map_prev_some [OF assms(1,3)] assms(2) by auto fastforce

lemma next_block:
  assumes "map_ok m" "set m = insert (x, r) B" "map_next m x = Some (q, u)"
  shows "(q, u) \<in> B" "x < q" "\<And>y t. (y, t) \<in> B \<Longrightarrow> x < y \<Longrightarrow> q \<le> y"
  using map_next_some [OF assms(1,3)] assms(2) by auto fastforce

lemma disjoint_block:
  assumes "separated B" "0 < r" "(y, t) \<in> B" "{x..<x + r} \<inter> free_space B = {}"
  shows "y + t \<le> x \<or> x + r \<le> y"
proof (rule ccontr)
  assume "\<not> ?thesis"
  then have "max x y \<in> {x..<x + r}" "max x y \<in> {y..<y + t}" using assms(2) separated_pos [OF assms(1,3)] by auto
  with block_subset [OF assms(3)] assms(4) show False by blast
qed

lemma free_arena_inv:
  assumes "arena_inv a" "X \<subseteq> {ma_address a..<ma_address a + ma_byteSize a}" "X \<inter> free_space (blocks a) = {}"
    and "index_inv b" "same_region b (a\<lparr>ma_freeBytes := u64_add (ma_freeBytes a) (card X)\<rparr>)"
    and "separated (blocks b)" "free_space (blocks b) = free_space (blocks a) \<union> X"
  shows "arena_inv b"
proof -
  let ?R = "{ma_address a..<ma_address a + ma_byteSize a}"
  have sub: "free_space (blocks a) \<union> X \<subseteq> ?R" using assms(1,2) unfolding arena_inv_def by blast
  have "finite X" using assms(2) by (rule finite_subset) simp
  then have card: "card (free_space (blocks a) \<union> X) = ma_freeBytes a + card X"
    using card_Un_disjoint [OF arena_finite [OF assms(1)], of X] assms(1,3) by (simp add: arena_inv_def Int_commute)
  have "card (free_space (blocks a) \<union> X) \<le> ma_byteSize a" using card_mono [OF _ sub] by simp
  then have "u64_add (ma_freeBytes a) (card X) = card (free_space (blocks a) \<union> X)"
    using assms(1) card by (simp add: arena_inv_def)
  then show ?thesis using assms(1,4-7) sub by (simp add: arena_inv_def same_region_def)
qed

text \<open>The neighbours that \<open>free\<close> merges with, found next to the block it has just added.\<close>

definition merge_prev :: "(nat, nat) std_map \<Rightarrow> nat \<Rightarrow> (nat \<times> nat) option" where
  "merge_prev m x = (case map_prev m x of None \<Rightarrow> None
     | Some e \<Rightarrow> if (\<lambda>(p, s). u64_add p s) e = x then Some e else None)"

definition merge_next :: "(nat, nat) std_map \<Rightarrow> nat \<Rightarrow> nat \<Rightarrow> (nat \<times> nat) option" where
  "merge_next m x r = (case map_next m x of None \<Rightarrow> None
     | Some e \<Rightarrow> if u64_add x r = fst e then Some e else None)"

definition fresh_block :: "(nat \<times> nat) set \<Rightarrow> nat \<Rightarrow> nat \<Rightarrow> bool" where
  "fresh_block B x r \<longleftrightarrow> separated B \<and> 0 < r \<and> x + r < 2 ^ 64 \<and>
     (\<forall>y t. (y, t) \<in> B \<longrightarrow> (y + t \<le> x \<or> x + r \<le> y) \<and> y + t < 2 ^ 64)"

lemma fresh_block_D:
  assumes "fresh_block B x r"
  shows "separated B" "0 < r" "x + r < 2 ^ 64" "\<And>y t. (y, t) \<in> B \<Longrightarrow> y + t \<le> x \<or> x + r \<le> y"
    "\<And>y t. (y, t) \<in> B \<Longrightarrow> y + t < 2 ^ 64" "\<And>y t. (y, t) \<in> B \<Longrightarrow> 0 < t" "x \<notin> fst ` B"
proof -
  show B: "separated B" "0 < r" "x + r < 2 ^ 64" "\<And>y t. (y, t) \<in> B \<Longrightarrow> y + t \<le> x \<or> x + r \<le> y"
    "\<And>y t. (y, t) \<in> B \<Longrightarrow> y + t < 2 ^ 64" using assms unfolding fresh_block_def by blast+
  show pos: "0 < t" if "(y, t) \<in> B" for y t using separated_pos [OF B(1) that] .
  show "x \<notin> fst ` B" using B(2,4) pos by fastforce
qed

lemma fresh_prev:
  assumes "fresh_block B x r" "map_ok m" "set m = insert (x, r) B"
  shows "\<And>p s. map_prev m x = Some (p, s) \<Longrightarrow> (p, s) \<in> B \<and> u64_add p s = p + s \<and> p + s \<le> x"
    "\<And>p s. merge_prev m x = Some (p, s) \<Longrightarrow> (p, s) \<in> B \<and> p + s = x"
    "merge_prev m x = None \<Longrightarrow> (\<forall>(y, t) \<in> B. y + t \<noteq> x)"
proof -
  note D = fresh_block_D [OF assms(1)]
  show pv: "(p, s) \<in> B \<and> u64_add p s = p + s \<and> p + s \<le> x" if "map_prev m x = Some (p, s)" for p s
    using prev_block(1,2) [OF assms(2,3) that] D(4) [of p s] D(5) [of p s] by simp
  then show "(p, s) \<in> B \<and> p + s = x" if "merge_prev m x = Some (p, s)" for p s
    using that by (auto simp: merge_prev_def split: option.splits if_splits)
  show "\<forall>(y, t) \<in> B. y + t \<noteq> x" if none: "merge_prev m x = None"
  proof safe
    fix y t assume y: "(y, t) \<in> B" "x = y + t"
    then have "map_prev m x \<noteq> None" using D(6) [OF y(1)] assms(3) by (auto simp: map_prev_none intro!: bexI [of _ "(y, t)"])
    then obtain p s where p: "map_prev m x = Some (p, s)" by auto
    note pb = prev_block [OF assms(2,3) p]
    have "y \<le> p" using pb(3) [OF y(1)] D(6) [OF y(1)] y(2) by simp
    then have "(y, t) = (p, s)" using separated_gap [OF D(1) y(1) pb(1)] pb(2) y(2) D(6) [OF pb(1)] by auto
    with none p pv [OF p] y(2) show False by (simp add: merge_prev_def)
  qed
qed

lemma fresh_next:
  assumes "fresh_block B x r" "map_ok m" "set m = insert (x, r) B"
  shows "\<And>q u. map_next m x = Some (q, u) \<Longrightarrow> (q, u) \<in> B \<and> x + r \<le> q"
    "\<And>q u. merge_next m x r = Some (q, u) \<Longrightarrow> (q, u) \<in> B \<and> q = x + r \<and> q + u < 2 ^ 64"
    "merge_next m x r = None \<Longrightarrow> (\<forall>(y, t) \<in> B. y \<noteq> x + r)"
proof -
  note D = fresh_block_D [OF assms(1)]
  have xr: "u64_add x r = x + r" using D(3) by simp
  show nx: "(q, u) \<in> B \<and> x + r \<le> q" if "map_next m x = Some (q, u)" for q u
    using next_block(1,2) [OF assms(2,3) that] D(4) [of q u] by auto
  then show "(q, u) \<in> B \<and> q = x + r \<and> q + u < 2 ^ 64" if "merge_next m x r = Some (q, u)" for q u
    using that D(5) xr by (auto simp: merge_next_def split: option.splits if_splits)
  show "\<forall>(y, t) \<in> B. y \<noteq> x + r" if none: "merge_next m x r = None"
  proof safe
    fix t assume y: "(x + r, t) \<in> B"
    then have "map_next m x \<noteq> None" using D(2) assms(3) by (auto simp: map_next_none intro!: bexI [of _ "(x + r, t)"])
    then obtain q u where q: "map_next m x = Some (q, u)" by auto
    have "q = x + r" using next_block(3) [OF assms(2,3) q y] nx [OF q] D(2) by simp
    with none q xr show False by (simp add: merge_next_def)
  qed
qed

lemma free_eq:
  assumes "fresh_block B x r" "r = roundBytes n" "0 < n" "0 < x"
    and "addFreeBlock (a\<lparr>ma_freeBytes := u64_add (ma_freeBytes a) r\<rparr>) x r = (Inr (), c)"
    and "map_ok (ma_freeList c)" "blocks c = insert (x, r) B"
  shows "MmapArena_free a x n =
    (Inr (), mergeNeighbours c x r (merge_prev (ma_freeList c) x) (merge_next (ma_freeList c) x r))"
proof -
  have "case map_prev (ma_freeList c) x of None \<Rightarrow> True | Some e \<Rightarrow> (\<lambda>(p, s). u64_add p s) e \<le> x"
    using fresh_prev(1) [OF assms(1,6,7)] by (auto split: option.splits)
  moreover have "case map_next (ma_freeList c) x of None \<Rightarrow> True | Some e \<Rightarrow> u64_add x r \<le> fst e"
    using fresh_next(1) [OF assms(1,6,7)] fresh_block_D(3) [OF assms(1)] by (auto split: option.splits)
  ultimately show ?thesis
    using assms(3-5) unfolding assms(2) MmapArena_free_def Let_def merge_prev_def merge_next_def by simp
qed

text \<open>Freeing a block that is not free succeeds and adds exactly its bytes to the free space.\<close>

lemma free_ok:
  assumes "arena_inv a" "0 < n" "n \<le> 2 ^ 63" "0 < x"
    and "{x..<x + roundBytes n} \<subseteq> {ma_address a..<ma_address a + ma_byteSize a}"
    and "{x..<x + roundBytes n} \<inter> free_space (blocks a) = {}"
  shows "\<exists>a'. MmapArena_free a x n = (Inr (), a') \<and> arena_inv a' \<and>
    ma_address a' = ma_address a \<and> ma_byteSize a' = ma_byteSize a \<and>
    free_space (blocks a') = free_space (blocks a) \<union> {x..<x + roundBytes n}"
proof -
  let ?r = "roundBytes n" and ?B = "blocks a"
  let ?a1 = "a\<lparr>ma_freeBytes := u64_add (ma_freeBytes a) ?r\<rparr>"
  have inv: "index_inv a" "separated ?B" "ma_address a + ma_byteSize a < 2 ^ 64"
    using assms(1) by (simp_all add: arena_inv_def)
  have r: "0 < ?r" using roundBytes_pos assms(2,3) by blast
  then have "x + ?r - 1 \<in> {x..<x + ?r}" by simp
  then have "x + ?r - 1 < ma_address a + ma_byteSize a" using assms(5) by fastforce
  then have "x + ?r < 2 ^ 64" using inv(3) r by linarith
  then have fresh: "fresh_block ?B x ?r"
    using inv(2) r disjoint_block [OF inv(2) r _ assms(6)] block_in_region(4) [OF assms(1)]
    unfolding fresh_block_def by blast
  note D = fresh_block_D [OF fresh]
  have "index_inv ?a1" "x \<notin> fst ` blocks ?a1" using inv(1) D(7) by (simp_all add: index_inv_def)
  from addFreeBlock_new [OF this, of ?r] obtain c where
    c: "addFreeBlock ?a1 x ?r = (Inr (), c)" "index_inv c" "same_region c ?a1" "blocks c = insert (x, ?r) ?B"
    by auto
  have ok: "map_ok (ma_freeList c)" using c(2) by (simp add: index_inv_def)
  let ?mp = "merge_prev (ma_freeList c) x" and ?mn = "merge_next (ma_freeList c) x ?r"
  note pv = fresh_prev [OF fresh ok c(4)] and nx = fresh_next [OF fresh ok c(4)]
  let ?b = "mergeNeighbours c x ?r ?mp ?mn"
  have eq: "MmapArena_free a x n = (Inr (), ?b)" by (rule free_eq [OF fresh refl assms(2,4) c(1) ok c(4)])
  have b: "index_inv ?b" "same_region ?b c" and
    bl: "blocks ?b = insert (case ?mp of None \<Rightarrow> x | Some (p, s) \<Rightarrow> p, (case ?mn of None \<Rightarrow> x + ?r | Some (q, u) \<Rightarrow> q + u) -
      (case ?mp of None \<Rightarrow> x | Some (p, s) \<Rightarrow> p)) (?B - set_option ?mp - set_option ?mn)"
    using mergeNeighbours_blocks [OF c(2,4) D(7) pv(2) nx(2) D(3) r refl refl] by blast+
  have nx2: "(q, u) \<in> ?B \<and> q = x + ?r" if "?mn = Some (q, u)" for q u using nx(2) [OF that] by blast
  note join = join_blocks [OF D(1,2,4) pv(3,2) nx(3) nx2 refl refl refl]
  have sep: "separated (blocks ?b)" unfolding bl by (rule join(1))
  have sp: "free_space (blocks ?b) = free_space ?B \<union> {x..<x + ?r}" unfolding bl by (rule join(2))
  have "arena_inv ?b"
    using free_arena_inv [OF assms(1,5,6) b(1) _ sep sp] b(2) c(3) by (simp add: same_region_def)
  with eq sp b(2) c(3) show ?thesis by (simp add: same_region_def)
qed

text \<open>Freeing a block that overlaps the free space fails a check.\<close>

lemma free_overlap:
  assumes "arena_inv a" "0 < n" "n \<le> 2 ^ 63" "0 < x" "x + roundBytes n < 2 ^ 64"
    and "{x..<x + roundBytes n} \<inter> free_space (blocks a) \<noteq> {}"
  shows "fst (MmapArena_free a x n) = Inl CheckFailed"
proof -
  let ?r = "roundBytes n" and ?B = "blocks a"
  let ?a1 = "a\<lparr>ma_freeBytes := u64_add (ma_freeBytes a) ?r\<rparr>"
  have inv: "index_inv ?a1" "separated ?B" using assms(1) by (simp_all add: arena_inv_def index_inv_def)
  from assms(6) obtain z where "z \<in> {x..<x + ?r}" "z \<in> free_space ?B" by blast
  then obtain y t where y: "(y, t) \<in> ?B" "y < x + ?r" "x < y + t" by (auto elim!: free_space_E)
  show ?thesis
  proof (cases "x \<in> fst ` ?B")
    case True
    then have "addFreeBlock ?a1 x ?r = (Inl CheckFailed, ?a1)" using addFreeBlock_present [OF inv(1)] by simp
    then show ?thesis using assms(2,4) by (simp add: MmapArena_free_def Let_def)
  next
    case False
    then obtain c where c: "addFreeBlock ?a1 x ?r = (Inr (), c)" "index_inv c" "blocks c = insert (x, ?r) ?B"
      using addFreeBlock_new [OF inv(1), of x ?r] by auto
    have ok: "map_ok (ma_freeList c)" using c(2) by (simp add: index_inv_def)
    have "y \<noteq> x" using False y(1) by force
    have "(\<exists>p s. map_prev (ma_freeList c) x = Some (p, s) \<and> x < u64_add p s) \<or>
        (\<exists>q u. map_next (ma_freeList c) x = Some (q, u) \<and> q < u64_add x ?r)"
    proof (cases "y < x")
      case True
      then have "map_prev (ma_freeList c) x \<noteq> None"
        using y(1) c(3) by (auto simp: map_prev_none intro!: bexI [of _ "(y, t)"])
      then obtain p s where p: "map_prev (ma_freeList c) x = Some (p, s)" by auto
      note pb = prev_block [OF ok c(3) p]
      have "(p, s) = (y, t)" using separated_gap [OF inv(2) y(1) pb(1)] pb(2) pb(3) [OF y(1) True] y(3) by auto
      with p y(3) block_in_region(4) [OF assms(1) y(1)] show ?thesis by simp
    next
      case False
      then have "map_next (ma_freeList c) x \<noteq> None"
        using y(1) c(3) \<open>y \<noteq> x\<close> by (auto simp: map_next_none intro!: bexI [of _ "(y, t)"])
      then obtain q u where q: "map_next (ma_freeList c) x = Some (q, u)" by auto
      have "q \<le> y" using next_block(3) [OF ok c(3) q y(1)] False \<open>y \<noteq> x\<close> by simp
      with q y(2) assms(5) show ?thesis by simp
    qed
    then show ?thesis using assms(2,4) c(1) by (auto simp: MmapArena_free_def Let_def)
  qed
qed

section \<open>\<open>checkConsistency\<close> on arenas that keep the invariant\<close>

lemma check_free_list_zero:
  assumes "\<And>x s. (x, s) \<in> set m \<Longrightarrow> (\<exists>S. map_of l s = Some S \<and> x \<in> S) \<and> x + s \<le> e \<and> x + s < 2 ^ 64"
    and "map_ok m" "separated (set m)"
  shows "check_free_list l e m = 0"
  using assms
proof (induction l e m rule: check_free_list.induct)
  case (2 l e x s m)
  have "separated (set m)" using 2(4) by (rule separated_subset) auto
  then have "check_free_list l e m = 0" using 2 by (intro 2(1)) auto
  moreover have "u64_add x s \<le> y" if "m = (y, t) # m'" for y t m'
    using separated_gap [OF 2(4), of x s y t] 2(2) [of x s] 2(3) that by auto
  moreover have "\<exists>S. map_of l s = Some S \<and> x \<in> S" "u64_add x s \<le> e" using 2(2) [of x s] by auto
  ultimately show ?case by (auto simp: Let_def split: list.splits)
qed simp

lemma check_free_lookup_zero: "\<forall>(s, S) \<in> set l. S \<noteq> {} \<Longrightarrow> check_free_lookup l = 0"
  by (induction l rule: check_free_lookup.induct) auto

text \<open>The index adds up the same bytes, grouped by size.\<close>

lemma lookup_total:
  assumes "map_ok m" "indexed (set m) l"
  shows "sum_list (map (\<lambda>(bytes, addrs). bytes * card addrs) l) = sum_list (map snd m)"
proof -
  let ?at = "\<lambda>s. {x. (x, s) \<in> set m}"
  have dl: "distinct (map fst l)" "distinct l" and dm: "distinct m"
    using assms map_ok_distinct distinct_map by (auto simp: indexed_def)
  have fin: "finite (?at s)" for s by (rule finite_subset [of _ "fst ` set m"]) force+
  have l: "set l = (\<lambda>s. (s, ?at s)) ` (snd ` set m)"
    using indexed_entry [OF assms(2)] by (auto simp: image_iff) force
  have "sum_list (map (\<lambda>(bytes, addrs). bytes * card addrs) l) = (\<Sum>(s, S) \<in> set l. s * card S)"
    using dl(2) by (simp add: sum_list_distinct_conv_sum_set)
  also have "\<dots> = (\<Sum>s \<in> snd ` set m. s * card (?at s))"
    unfolding l by (subst sum.reindex) (auto simp: inj_on_def)
  also have "\<dots> = (\<Sum>s \<in> snd ` set m. \<Sum>e \<in> {e \<in> set m. snd e = s}. snd e)"
  proof (rule sum.cong [OF refl])
    fix s
    have "{e \<in> set m. snd e = s} = (\<lambda>x. (x, s)) ` ?at s" by auto
    then have "card {e \<in> set m. snd e = s} = card (?at s)" by (simp add: card_image inj_on_def)
    then show "s * card (?at s) = (\<Sum>e \<in> {e \<in> set m. snd e = s}. snd e)" by simp
  qed
  also have "\<dots> = (\<Sum>e \<in> set m. snd e)" by (rule sum.group) auto
  also have "\<dots> = sum_list (map snd m)" using dm by (simp add: sum_list_distinct_conv_sum_set)
  finally show ?thesis .
qed

lemma arena_consistent:
  assumes "arena_inv a"
  shows "checkConsistency a"
proof -
  have inv: "map_ok (ma_freeList a)" "indexed (blocks a) (ma_freeLookup a)" "separated (blocks a)"
    "ma_freeBytes a = card (free_space (blocks a))" "ma_address a + ma_byteSize a < 2 ^ 64"
    using assms by (simp_all add: arena_inv_def index_inv_def)
  have "check_free_list (ma_freeLookup a) (u64_add (ma_address a) (ma_byteSize a)) (ma_freeList a) = 0"
    using inv block_in_region [OF assms] by (intro check_free_list_zero) (auto simp: indexed_def)
  moreover have "check_free_lookup (ma_freeLookup a) = 0"
    using indexed_entry [OF inv(2)] by (intro check_free_lookup_zero) blast
  moreover have "card (free_space (blocks a)) < 2 ^ 64"
  proof -
    have "card (free_space (blocks a)) \<le> card {ma_address a..<ma_address a + ma_byteSize a}"
      using assms by (intro card_mono) (auto simp: arena_inv_def)
    with inv(5) show ?thesis by simp
  qed
  ultimately show ?thesis
    using lookup_total [OF inv(1,2)] free_space_card [OF inv(1,3)] inv(4)
    by (simp add: checkConsistency_def u64_def)
qed

text \<open>
  A \<open>free\<close> that fails a check leaves an inconsistent arena: either the bytes are counted though the block was not
  added, or the block was added and overlaps a neighbour.
\<close>

lemma check_free_list_overlap:
  assumes "map_ok m" "(x, s) \<in> set m" "(y, t) \<in> set m" "x < y" "\<forall>e' \<in> set m. fst e' \<le> x \<or> y \<le> fst e'" "y < u64_add x s"
  shows "check_free_list l e m \<noteq> 0"
  using assms
proof (induction m)
  case (Cons h m)
  obtain z u where h: "h = (z, u)" by fastforce
  show ?case
  proof (cases "(x, s) \<in> set m")
    case True
    then have "z < x" using Cons.prems(1) h by auto
    then have "check_free_list l e m \<noteq> 0" using Cons True h by (intro Cons.IH) auto
    then show ?thesis using h by (simp add: Let_def)
  next
    case False
    then have zu: "z = x" "u = s" using Cons.prems(2) h by auto
    then have "(y, t) \<in> set m" using Cons.prems(3,4) h by auto
    then obtain k v m' where m: "m = (k, v) # m'" by (cases m) auto
    then have "k \<le> y" using \<open>(y, t) \<in> set m\<close> Cons.prems(1) h by auto
    then show ?thesis using Cons.prems(6) h zu m by (auto simp: Let_def)
  qed
qed simp

lemma failed_free:
  assumes "arena_inv a" "n \<le> 2 ^ 63" "MmapArena_free a x n = (Inl e, a')"
  shows "\<not> checkConsistency a'"
proof -
  let ?b = "roundBytes n" and ?a = "a\<lparr>ma_freeBytes := u64_add (ma_freeBytes a) (roundBytes n)\<rparr>"
  have nx: "x \<noteq> 0" "0 < n" using assms(3) by (auto simp: MmapArena_free_def split: if_splits)
  have idx: "index_inv ?a" using assms(1) by (simp add: arena_inv_def index_inv_def)
  show ?thesis
  proof (cases "x \<in> fst ` blocks a")
    case True
    then have a': "a' = ?a"
      using addFreeBlock_present [OF idx, of x ?b] nx assms(3) by (simp add: MmapArena_free_def Let_def)
    have total: "u64 (sum_list (map snd (ma_freeList a))) = ma_freeBytes a"
      using arena_consistent [OF assms(1)] by (auto simp: checkConsistency_def Let_def split: if_splits)
    have "ma_freeBytes a < 2 ^ 64" unfolding total [symmetric] by (simp add: u64_def)
    moreover have "0 < ?b" "?b < 2 ^ 64" using roundBytes_pos [OF nx(2) assms(2)] roundBytes_bound [OF nx(2) assms(2)] by simp_all
    ultimately have "u64_add (ma_freeBytes a) ?b \<noteq> ma_freeBytes a" by (rule u64_add_other)
    then show ?thesis using total by (auto simp: a' checkConsistency_def Let_def)
  next
    case False
    then obtain a2 where a2: "addFreeBlock ?a x ?b = (Inr (), a2)" "index_inv a2" "blocks a2 = insert (x, ?b) (blocks a)"
      using addFreeBlock_new [OF idx, of x ?b] by auto
    have ok: "map_ok (ma_freeList a2)" using a2(2) by (simp add: index_inv_def)
    have a': "a' = a2" using assms(3) nx a2(1) by (auto simp: MmapArena_free_def Let_def split: if_splits)
    consider (prv) y t where "map_prev (ma_freeList a2) x = Some (y, t)" "x < u64_add y t"
      | (nxt) y t where "map_next (ma_freeList a2) x = Some (y, t)" "y < u64_add x ?b"
      using assms(3) nx a2(1) by (auto simp: MmapArena_free_def Let_def not_le split: if_splits option.splits)
    then have "check_free_list (ma_freeLookup a2) (u64_add (ma_address a2) (ma_byteSize a2)) (ma_freeList a2) \<noteq> 0"
    proof cases
      case prv
      note p = map_prev_some [OF ok prv(1)]
      show ?thesis
        by (rule check_free_list_overlap [OF ok, of y t x ?b]) (use p a2(3) prv(2) in \<open>auto simp: not_less [symmetric]\<close>)
    next
      case nxt
      note p = map_next_some [OF ok nxt(1)]
      show ?thesis
        by (rule check_free_list_overlap [OF ok, of x ?b y t]) (use p a2(3) nxt(2) in \<open>auto simp: not_less [symmetric]\<close>)
    qed
    then show ?thesis by (simp add: a' checkConsistency_def Let_def)
  qed
qed

section \<open>The arena meets the contract of an allocator\<close>

definition region :: "MmapArena \<Rightarrow> nat set" where
  "region a = {ma_address a..<ma_address a + ma_byteSize a}"

definition arena_used :: "MmapArena \<Rightarrow> nat set" where
  "arena_used a = region a - free_space (blocks a)"

abbreviation block_bytes :: "nat \<Rightarrow> nat \<Rightarrow> nat set" where
  "block_bytes p n \<equiv> {p..<p + roundBytes n}"

abbreviation arena_owns :: "MmapArena \<Rightarrow> nat \<Rightarrow> nat \<Rightarrow> bool" where
  "arena_owns a p n \<equiv> block_bytes p n \<subseteq> arena_used a"

lemma arena_free_region: "arena_inv a \<Longrightarrow> free_space (blocks a) \<subseteq> region a"
  by (simp add: arena_inv_def region_def)

lemma arena_alloc_contract:
  assumes "picks pick" "arena_inv a" "0 < n" "n \<le> 2 ^ 63" "MmapArena_allocate pick a n = (r, a')"
  shows "arena_inv a' \<and> region a' = region a \<and> ma_address a' = ma_address a \<and> ma_byteSize a' = ma_byteSize a \<and>
    (r = Inr None \<and> a' = a \<or>
     (\<exists>p. r = Inr (Some p) \<and> block_bytes p n \<inter> arena_used a = {} \<and> arena_used a' = arena_used a \<union> block_bytes p n \<and>
        block_bytes p n \<subseteq> region a))"
proof (cases "map_lower_bound (ma_freeLookup a) (roundBytes n)")
  case None
  then show ?thesis using allocate_none [OF assms(3)] assms(2,5) by simp
next
  case (Some e)
  obtain s S where "e = (s, S)" by (cases e)
  with allocate_found [OF assms(2,1,3,4)] Some assms(5) obtain p where
    p: "r = Inr (Some p)" "arena_inv a'" "(p, s) \<in> blocks a" "roundBytes n \<le> s"
    "ma_address a' = ma_address a" "ma_byteSize a' = ma_byteSize a"
    "free_space (blocks a') = free_space (blocks a) - block_bytes p n" by force
  have "block_bytes p n \<subseteq> {p..<p + s}" using p(4) by simp
  then have "block_bytes p n \<subseteq> free_space (blocks a)" using block_subset [OF p(3)] by blast
  moreover from this have "block_bytes p n \<subseteq> region a" using arena_free_region [OF assms(2)] by (rule order_trans)
  moreover have "region a' = region a" using p(5,6) by (simp add: region_def)
  ultimately show ?thesis using p(1,2,5-7) unfolding arena_used_def by blast
qed

lemma arena_free_contract:
  assumes "arena_inv a" "0 < n" "n \<le> 2 ^ 63" "arena_owns a p n"
  shows "\<exists>a'. MmapArena_free a p n = (Inr (), a') \<and> arena_inv a' \<and> region a' = region a \<and>
    ma_address a' = ma_address a \<and> ma_byteSize a' = ma_byteSize a \<and>
    arena_used a' = arena_used a - block_bytes p n"
proof -
  have "p \<in> block_bytes p n" using roundBytes_pos [OF assms(2,3)] by simp
  then have "p \<in> region a" using assms(4) unfolding arena_used_def by blast
  then have "0 < p" using assms(1) by (simp add: arena_inv_def region_def)
  have sub: "block_bytes p n \<subseteq> {ma_address a..<ma_address a + ma_byteSize a}"
    "block_bytes p n \<inter> free_space (blocks a) = {}"
    using assms(4) unfolding arena_used_def region_def by blast+
  from free_ok [OF assms(1-3) \<open>0 < p\<close> sub] obtain a' where a': "MmapArena_free a p n = (Inr (), a')"
    "arena_inv a'" "ma_address a' = ma_address a" "ma_byteSize a' = ma_byteSize a"
    "free_space (blocks a') = free_space (blocks a) \<union> block_bytes p n" by blast
  moreover have "region a' = region a" using a'(3,4) by (simp add: region_def)
  ultimately show ?thesis unfolding arena_used_def by blast
qed

interpretation arena: block_allocator
  "\<lambda>a. picks pick \<and> arena_inv a \<and> ma_address a = base \<and> ma_byteSize a = capacity"
  arena_used arena_owns block_bytes "2 ^ 63" "MmapArena_allocate pick" MmapArena_free
  for pick base capacity
proof (unfold_locales, goal_cases)
  case (1 a n r a')
  then have p: "picks pick" "arena_inv a" "ma_address a = base" "ma_byteSize a = capacity" by blast+
  note k = arena_alloc_contract [OF p(1,2) 1(2-4)]
  then have c: "arena_inv a' \<and> ma_address a' = base \<and> ma_byteSize a' = capacity"
    "(r = Inr None \<and> a' = a) \<or> (\<exists>p. r = Inr (Some p) \<and> block_bytes p n \<inter> arena_used a = {} \<and>
      arena_used a' = arena_used a \<union> block_bytes p n)" using p(3,4) by auto
  from c(2) show ?case
  proof (elim disjE exE conjE)
    assume "r = Inr None" "a' = a"
    with p show ?thesis by simp
  next
    fix q
    assume q: "r = Inr (Some q)" "block_bytes q n \<inter> arena_used a = {}"
      "arena_used a' = arena_used a \<union> block_bytes q n"
    have "arena_owns a' p m" if "arena_owns a p m" for p m using that q(3) by blast
    moreover have "arena_owns a' q n" using q(3) by blast
    ultimately show ?thesis unfolding q(1) sum.case option.case
      by (intro conjI allI impI p(1) c(1) q(2,3))
  qed
next
  case (2 a n p)
  then have "arena_inv a" "picks pick" "ma_address a = base" "ma_byteSize a = capacity" by blast+
  from arena_free_contract [OF this(1) 2(2-4)] this(3,4) obtain a' where a': "MmapArena_free a p n = (Inr (), a')"
    "arena_inv a' \<and> ma_address a' = base \<and> ma_byteSize a' = capacity"
    "arena_used a' = arena_used a - block_bytes p n" by auto
  have "arena_owns a' q m" if "arena_owns a q m" "block_bytes p n \<inter> block_bytes q m = {}" for q m
    unfolding a'(3) using that by blast
  with a' \<open>picks pick\<close> show ?case by (elim conjE) (intro exI [of _ a'] conjI allI impI)
qed

text \<open>The region and what is in use determine the arena.\<close>

lemma arena_same_used:
  assumes "arena_inv a" "arena_inv b" "ma_address a = ma_address b" "ma_byteSize a = ma_byteSize b"
    and "arena_used a = arena_used b"
  shows "a = b"
proof -
  have "region a = region b" using assms(3,4) by (simp add: region_def)
  then have "free_space (blocks a) = free_space (blocks b)"
    using assms(5) arena_free_region [OF assms(1)] arena_free_region [OF assms(2)] unfolding arena_used_def by blast
  then show ?thesis by (rule arena_unique [OF assms(1-4)])
qed

lemma arena_unused:
  assumes "arena_inv a" "arena_inv b" "ma_address a = ma_address b" "ma_byteSize a = ma_byteSize b"
    and "arena_used a = {}" "arena_used b = {}"
  shows "a = b"
  using arena_same_used [OF assms(1-4)] assms(5,6) by simp

lemma arena_empty_unused:
  assumes "arena_inv a"
  shows "MmapArena_empty a \<longleftrightarrow> arena_used a = {}"
proof -
  have f: "free_space (blocks a) \<subseteq> region a" "finite (region a)" "card (region a) = ma_byteSize a"
    "ma_freeBytes a = card (free_space (blocks a))"
    using assms by (simp_all add: arena_inv_def region_def)
  have "free_space (blocks a) = region a \<Longrightarrow> MmapArena_empty a" by (simp add: MmapArena_empty_def f(3,4))
  moreover have "MmapArena_empty a \<Longrightarrow> free_space (blocks a) = region a"
    using card_subset_eq [OF f(2,1)] f(3,4) unfolding MmapArena_empty_def by presburger
  ultimately show ?thesis using f(1) unfolding arena_used_def by blast
qed

end
