(* ===== verification/Managed_Arenas.thy ===== *)
theory Managed_Arenas
  imports Mmap_Arena_Correct
begin

text \<open>
  \<open>ManagedMmapArenas\<close> of \<open>velox/common/memory/MmapArena.h\<close> and \<open>MmapArena.cpp\<close>: arenas of one
  capacity, ordered by address, that grow by a new arena when the current one cannot serve a request.
  The shared pointer to the current arena is its key, since the current arena is never erased.
\<close>

section \<open>Operations\<close>

record ManagedMmapArenas =
  mm_singleArenaCapacity :: nat
  mm_arenas :: "(nat, MmapArena) std_map"
  mm_currentArena :: nat

text \<open>\<open>ptr\<close> is what \<open>mmap\<close> returns for the region of the arena.\<close>

definition ManagedMmapArenas_new :: "nat \<Rightarrow> nat option \<Rightarrow> ManagedMmapArenas res" where
  "ManagedMmapArenas_new singleArenaCapacity ptr =
     rbind (MmapArena_new singleArenaCapacity ptr) (\<lambda>arena.
       Inr \<lparr>mm_singleArenaCapacity = singleArenaCapacity,
            mm_arenas = snd (map_emplace (ma_address arena) arena []),
            mm_currentArena = ma_address arena\<rparr>)"

text \<open>
  \<open>mmap\<close> returns a region that is not mapped, so \<open>emplace\<close> inserts the new arena, whose region the
  call asks for only when the current arena has returned null.
\<close>

definition ManagedMmapArenas_allocate ::
    "(nat set \<Rightarrow> nat) \<Rightarrow> nat option \<Rightarrow> ManagedMmapArenas \<Rightarrow> nat \<Rightarrow> nat option res \<times> ManagedMmapArenas" where
  "ManagedMmapArenas_allocate pick ptr m bytes =
     (case map_of (mm_arenas m) (mm_currentArena m) of
        None \<Rightarrow> (Inl NullDeref, m)
      | Some arena \<Rightarrow>
          (case MmapArena_allocate pick arena bytes of
             (Inl e, arena') \<Rightarrow>
               (Inl e, m\<lparr>mm_arenas := map_assign (mm_currentArena m) arena' (mm_arenas m)\<rparr>)
           | (Inr (Some result), arena') \<Rightarrow>
               (Inr (Some result), m\<lparr>mm_arenas := map_assign (mm_currentArena m) arena' (mm_arenas m)\<rparr>)
           | (Inr None, arena') \<Rightarrow>
               (let m1 = m\<lparr>mm_arenas := map_assign (mm_currentArena m) arena' (mm_arenas m)\<rparr>
                in case MmapArena_new (mm_singleArenaCapacity m) ptr of
                     Inl e \<Rightarrow> (Inl e, m1)
                   | Inr newArena \<Rightarrow>
                       (let (result, newArena') = MmapArena_allocate pick newArena bytes
                        in (result, m1\<lparr>mm_arenas :=
                                         snd (map_emplace (ma_address newArena) newArena' (mm_arenas m1)),
                                       mm_currentArena := ma_address newArena\<rparr>)))))"

text \<open>\<open>--iter\<close> and the check that the block ends inside the arena before its address.\<close>

definition before_address :: "ManagedMmapArenas \<Rightarrow> nat \<Rightarrow> nat \<Rightarrow> (nat \<times> MmapArena) res" where
  "before_address m address bytes =
     (case map_prev (mm_arenas m) address of
        None \<Rightarrow> Inl CheckFailed
      | Some (first, arena) \<Rightarrow>
          check (u64_add first (mm_singleArenaCapacity m) \<ge> u64_add address bytes) (Inr (first, arena)))"

text \<open>The iterator that \<open>free\<close> looks the arena of an address up with.\<close>

definition arena_of :: "ManagedMmapArenas \<Rightarrow> nat \<Rightarrow> nat \<Rightarrow> (nat \<times> MmapArena) res" where
  "arena_of m address bytes =
     (case map_lower_bound (mm_arenas m) address of
        Some (first, arena) \<Rightarrow>
          if first = address then Inr (first, arena) else before_address m address bytes
      | None \<Rightarrow> before_address m address bytes)"

definition ManagedMmapArenas_free :: "ManagedMmapArenas \<Rightarrow> nat \<Rightarrow> nat \<Rightarrow> unit res \<times> ManagedMmapArenas" where
  "ManagedMmapArenas_free m address bytes =
     (if mm_arenas m = [] then (Inl CheckFailed, m)
      else case arena_of m address bytes of
             Inl e \<Rightarrow> (Inl e, m)
           | Inr (first, arena) \<Rightarrow>
               (let (r, arena') = MmapArena_free arena address bytes;
                    m1 = m\<lparr>mm_arenas := map_assign first arena' (mm_arenas m)\<rparr>
                in case r of
                     Inl e \<Rightarrow> (Inl e, m1)
                   | Inr _ \<Rightarrow>
                       if MmapArena_empty arena' \<and> first \<noteq> mm_currentArena m1 then
                         (Inr (), m1\<lparr>mm_arenas := map_erase first (mm_arenas m1)\<rparr>)
                       else (Inr (), m1)))"

section \<open>The invariant\<close>

definition managed_inv :: "ManagedMmapArenas \<Rightarrow> bool" where
  "managed_inv m \<longleftrightarrow> map_ok (mm_arenas m) \<and> 0 < mm_singleArenaCapacity m \<and>
     mm_singleArenaCapacity m mod kMinGrainSizeBytes = 0 \<and>
     (\<forall>x a. (x, a) \<in> set (mm_arenas m) \<longrightarrow>
        arena_inv a \<and> ma_address a = x \<and> ma_byteSize a = mm_singleArenaCapacity m) \<and>
     (\<forall>x a y b. (x, a) \<in> set (mm_arenas m) \<longrightarrow> (y, b) \<in> set (mm_arenas m) \<longrightarrow> x < y \<longrightarrow>
        x + mm_singleArenaCapacity m \<le> y) \<and>
     (\<exists>a. (mm_currentArena m, a) \<in> set (mm_arenas m))"

definition managed_used :: "ManagedMmapArenas \<Rightarrow> nat set" where
  "managed_used m = (\<Union>(x, a) \<in> set (mm_arenas m). arena_used a)"

definition managed_owns :: "ManagedMmapArenas \<Rightarrow> nat \<Rightarrow> nat \<Rightarrow> bool" where
  "managed_owns m p n \<longleftrightarrow> (\<exists>(x, a) \<in> set (mm_arenas m). arena_owns a p n)"

text \<open>What the system promises of \<open>mmap\<close>: a region of the capacity apart from the mapped ones.\<close>

definition fresh_region :: "ManagedMmapArenas \<Rightarrow> nat option \<Rightarrow> bool" where
  "fresh_region m ptr \<longleftrightarrow> (case ptr of None \<Rightarrow> True
     | Some x \<Rightarrow> 0 < x \<and> x + mm_singleArenaCapacity m < 2 ^ 64 \<and>
         (\<forall>(y, b) \<in> set (mm_arenas m).
            y + mm_singleArenaCapacity m \<le> x \<or> x + mm_singleArenaCapacity m \<le> y))"

lemma managed_invI:
  assumes "map_ok (mm_arenas m)" "0 < mm_singleArenaCapacity m"
    and "mm_singleArenaCapacity m mod kMinGrainSizeBytes = 0"
    and "\<And>x a. (x, a) \<in> set (mm_arenas m) \<Longrightarrow>
      arena_inv a \<and> ma_address a = x \<and> ma_byteSize a = mm_singleArenaCapacity m"
    and "\<And>x a y b. (x, a) \<in> set (mm_arenas m) \<Longrightarrow> (y, b) \<in> set (mm_arenas m) \<Longrightarrow> x < y \<Longrightarrow>
      x + mm_singleArenaCapacity m \<le> y"
    and "(mm_currentArena m, c) \<in> set (mm_arenas m)"
  shows "managed_inv m"
  unfolding managed_inv_def using assms by blast

lemma managed_basic:
  assumes "managed_inv m"
  shows "map_ok (mm_arenas m)" "0 < mm_singleArenaCapacity m"
    "mm_singleArenaCapacity m mod kMinGrainSizeBytes = 0" "\<exists>c. (mm_currentArena m, c) \<in> set (mm_arenas m)"
  using assms unfolding managed_inv_def by blast+

lemma managed_arena:
  assumes "managed_inv m" "(x, a) \<in> set (mm_arenas m)"
  shows "arena_inv a" "ma_address a = x" "ma_byteSize a = mm_singleArenaCapacity m"
    "region a = {x..<x + mm_singleArenaCapacity m}" "x + mm_singleArenaCapacity m < 2 ^ 64"
proof -
  show a: "arena_inv a" "ma_address a = x" "ma_byteSize a = mm_singleArenaCapacity m"
    using assms unfolding managed_inv_def by blast+
  then show "region a = {x..<x + mm_singleArenaCapacity m}" "x + mm_singleArenaCapacity m < 2 ^ 64"
    by (simp_all add: region_def arena_inv_def)
qed

lemma managed_gap:
  assumes "managed_inv m" "(x, a) \<in> set (mm_arenas m)" "(y, b) \<in> set (mm_arenas m)" "x < y"
  shows "x + mm_singleArenaCapacity m \<le> y"
  using assms unfolding managed_inv_def by blast

lemma managed_same_key:
  assumes "managed_inv m" "(x, a) \<in> set (mm_arenas m)" "(x, b) \<in> set (mm_arenas m)"
  shows "a = b"
proof -
  have ok: "map_ok (mm_arenas m)" using assms(1) by (simp add: managed_inv_def)
  have "map_of (mm_arenas m) x = Some a" "map_of (mm_arenas m) x = Some b"
    unfolding map_of_mem [OF ok] by (rule assms(2,3))+
  then show ?thesis by simp
qed

lemma managed_apart:
  assumes "managed_inv m" "(x, a) \<in> set (mm_arenas m)" "(y, b) \<in> set (mm_arenas m)" "(y, b) \<noteq> (x, a)"
  shows "region a \<inter> region b = {}"
proof -
  have "x \<noteq> y" using managed_same_key [OF assms(1-2)] assms(3,4) by blast
  then have "x + mm_singleArenaCapacity m \<le> y \<or> y + mm_singleArenaCapacity m \<le> x"
    using managed_gap [OF assms(1-3)] managed_gap [OF assms(1,3,2)] by linarith
  then show ?thesis
    unfolding managed_arena(4) [OF assms(1,2)] managed_arena(4) [OF assms(1,3)] by auto
qed

lemma arena_used_region: "arena_used a \<subseteq> region a"
  by (auto simp: arena_used_def)

text \<open>The bytes in use in the other arenas are apart from the region of an arena.\<close>

definition used_elsewhere :: "ManagedMmapArenas \<Rightarrow> nat \<Rightarrow> nat set" where
  "used_elsewhere m x = (\<Union>(y, b) \<in> {e \<in> set (mm_arenas m). fst e \<noteq> x}. arena_used b)"

lemma used_split:
  assumes "managed_inv m" "(x, a) \<in> set (mm_arenas m)"
  shows "managed_used m = arena_used a \<union> used_elsewhere m x" "used_elsewhere m x \<inter> region a = {}"
proof -
  have "set (mm_arenas m) = insert (x, a) {e \<in> set (mm_arenas m). fst e \<noteq> x}"
    using assms(2) managed_same_key [OF assms] by fastforce
  then have "managed_used m = (\<Union>(y, b) \<in> insert (x, a) {e \<in> set (mm_arenas m). fst e \<noteq> x}. arena_used b)"
    unfolding managed_used_def by (rule arg_cong)
  then show "managed_used m = arena_used a \<union> used_elsewhere m x" by (simp add: used_elsewhere_def)
  have "arena_used b \<inter> region a = {}" if "(y, b) \<in> set (mm_arenas m)" "y \<noteq> x" for y b
  proof -
    have "region a \<inter> region b = {}" using managed_apart [OF assms that(1)] that(2) by simp
    then show ?thesis using arena_used_region [of b] by blast
  qed
  then show "used_elsewhere m x \<inter> region a = {}" unfolding used_elsewhere_def by fastforce
qed

subsection \<open>Replacing, adding and erasing an arena\<close>

lemma replace_arena:
  assumes "managed_inv m" "(x, a) \<in> set (mm_arenas m)" "arena_inv a'" "ma_address a' = ma_address a"
    and "ma_byteSize a' = ma_byteSize a" "m' = m\<lparr>mm_arenas := map_assign x a' (mm_arenas m)\<rparr>"
  shows "managed_inv m'" "managed_used m' = arena_used a' \<union> used_elsewhere m x"
    "set (mm_arenas m') = insert (x, a') (set (mm_arenas m) - {(x, a)})"
    "used_elsewhere m' x = used_elsewhere m x"
proof -
  have ok: "map_ok (mm_arenas m)" using assms(1) by (simp add: managed_inv_def)
  show set: "set (mm_arenas m') = insert (x, a') (set (mm_arenas m) - {(x, a)})"
    using map_assign_block [OF ok assms(2)] assms(6) by simp
  have keys: "fst e \<in> fst ` set (mm_arenas m)" if "e \<in> set (mm_arenas m')" for e
    using that assms(2) unfolding set by force
  note ax = managed_arena [OF assms(1,2)]
  have cap: "mm_singleArenaCapacity m' = mm_singleArenaCapacity m" "mm_currentArena m' = mm_currentArena m"
    by (simp_all add: assms(6))
  have "y + mm_singleArenaCapacity m \<le> z"
    if yz: "(y, b) \<in> set (mm_arenas m')" "(z, c) \<in> set (mm_arenas m')" "y < z" for y b z c
  proof -
    obtain b' c' where "(y, b') \<in> set (mm_arenas m)" "(z, c') \<in> set (mm_arenas m)"
      using keys [OF yz(1)] keys [OF yz(2)] by auto
    then show ?thesis using managed_gap [OF assms(1)] yz(3) by blast
  qed
  moreover have "arena_inv b \<and> ma_address b = y \<and> ma_byteSize b = mm_singleArenaCapacity m"
    if "(y, b) \<in> set (mm_arenas m')" for y b
    using that managed_arena(1-3) [OF assms(1), of y b] assms(3-5) ax(2,3) unfolding set by auto
  moreover obtain c where "(mm_currentArena m, c) \<in> set (mm_arenas m)" using managed_basic(4) [OF assms(1)] by blast
  then have "(mm_currentArena m, if mm_currentArena m = x then a' else c) \<in> set (mm_arenas m')"
    using managed_same_key [OF assms(1,2)] unfolding set by auto
  moreover have "map_ok (mm_arenas m')" using ok by (simp add: assms(6))
  ultimately show "managed_inv m'"
    using managed_basic(2,3) [OF assms(1)] by (intro managed_invI) (simp_all only: cap)
  have "{e \<in> set (mm_arenas m'). fst e \<noteq> x} = {e \<in> set (mm_arenas m). fst e \<noteq> x}" by (auto simp: set)
  then show else': "used_elsewhere m' x = used_elsewhere m x" by (simp add: used_elsewhere_def)
  show "managed_used m' = arena_used a' \<union> used_elsewhere m x"
    using used_split(1) [OF \<open>managed_inv m'\<close>, of x a'] set else' by simp
qed

lemma add_arena:
  assumes "managed_inv m" "fresh_region m (Some x)" "arena_inv a" "ma_address a = x"
    and "ma_byteSize a = mm_singleArenaCapacity m"
    and "m' = m\<lparr>mm_arenas := snd (map_emplace x a (mm_arenas m)), mm_currentArena := x\<rparr>"
  shows "managed_inv m'" "managed_used m' = arena_used a \<union> managed_used m" "managed_used m \<inter> region a = {}"
    "set (mm_arenas m') = insert (x, a) (set (mm_arenas m))"
proof -
  let ?cap = "mm_singleArenaCapacity m"
  have ok: "map_ok (mm_arenas m)" "0 < ?cap" using assms(1) by (simp_all add: managed_inv_def)
  have fresh: "y + ?cap \<le> x \<or> x + ?cap \<le> y" if "(y, b) \<in> set (mm_arenas m)" for y b
    using assms(2) that unfolding fresh_region_def by auto
  have "map_of (mm_arenas m) x = None"
  proof (rule ccontr)
    assume "map_of (mm_arenas m) x \<noteq> None"
    then obtain b where "(x, b) \<in> set (mm_arenas m)" using map_of_SomeD by fastforce
    with fresh ok(2) show False by fastforce
  qed
  then show set: "set (mm_arenas m') = insert (x, a) (set (mm_arenas m))"
    using map_emplace_set [OF ok(1)] assms(6) by simp
  have cap: "mm_singleArenaCapacity m' = ?cap" "mm_currentArena m' = x" by (simp_all add: assms(6))
  have "y + ?cap \<le> z"
    if "(y, b) \<in> set (mm_arenas m')" "(z, c) \<in> set (mm_arenas m')" "y < z" for y b z c
    using that managed_gap [OF assms(1)] fresh [of y b] fresh [of z c] unfolding set by fastforce
  moreover have "arena_inv b \<and> ma_address b = y \<and> ma_byteSize b = ?cap" if "(y, b) \<in> set (mm_arenas m')" for y b
    using that managed_arena(1-3) [OF assms(1), of y b] assms(3-5) unfolding set by auto
  moreover have "map_ok (mm_arenas m')" using ok by (simp add: assms(6))
  moreover have "(x, a) \<in> set (mm_arenas m')" by (simp add: set)
  ultimately show "managed_inv m'"
    using managed_basic(2,3) [OF assms(1)] by (intro managed_invI) (simp_all only: cap)
  show "managed_used m' = arena_used a \<union> managed_used m" by (auto simp: managed_used_def set)
  have "arena_used b \<inter> region a = {}" if "(y, b) \<in> set (mm_arenas m)" for y b
    using fresh [OF that] arena_used_region [of b] assms(4,5)
    unfolding managed_arena(4) [OF assms(1) that] region_def [of a] by fastforce
  then show "managed_used m \<inter> region a = {}" by (auto simp: managed_used_def)
qed

lemma erase_arena:
  assumes "managed_inv m" "(x, a) \<in> set (mm_arenas m)" "x \<noteq> mm_currentArena m" "arena_used a = {}"
    and "m' = m\<lparr>mm_arenas := map_erase x (mm_arenas m)\<rparr>"
  shows "managed_inv m'" "managed_used m' = managed_used m"
    "set (mm_arenas m') = set (mm_arenas m) - {(x, a)}"
proof -
  have ok: "map_ok (mm_arenas m)" using assms(1) by (simp add: managed_inv_def)
  show set: "set (mm_arenas m') = set (mm_arenas m) - {(x, a)}"
    using map_erase_block [OF ok assms(2)] assms(5) by (simp del: map_erase_set)
  then show "managed_used m' = managed_used m" using assms(4) by (auto simp: managed_used_def)
  have cap: "mm_singleArenaCapacity m' = mm_singleArenaCapacity m" "mm_currentArena m' = mm_currentArena m"
    by (simp_all add: assms(5))
  obtain c where "(mm_currentArena m, c) \<in> set (mm_arenas m)" using managed_basic(4) [OF assms(1)] by blast
  then have "(mm_currentArena m, c) \<in> set (mm_arenas m')" using assms(3) by (simp add: set)
  moreover have "map_ok (mm_arenas m')" using ok by (simp add: assms(5))
  moreover have "(y, b) \<in> set (mm_arenas m') \<Longrightarrow> (y, b) \<in> set (mm_arenas m)" for y b by (simp add: set)
  ultimately show "managed_inv m'"
    using managed_basic(2,3) [OF assms(1)] managed_arena(1-3) [OF assms(1)] managed_gap [OF assms(1)]
    by (intro managed_invI) (simp_all only: cap, blast+)
qed

section \<open>The contract\<close>

lemma owns_mono:
  assumes "managed_owns m p n"
    and "\<And>x a. (x, a) \<in> set (mm_arenas m) \<Longrightarrow> arena_owns a p n \<Longrightarrow> \<exists>b. (x, b) \<in> set (mm_arenas m') \<and> arena_owns b p n"
  shows "managed_owns m' p n"
  using assms unfolding managed_owns_def by blast

lemma managed_ownsI: "(x, a) \<in> set (mm_arenas m) \<Longrightarrow> arena_owns a p n \<Longrightarrow> managed_owns m p n"
  unfolding managed_owns_def by blast

lemma MmapArena_new_fresh:
  assumes "managed_inv m" "fresh_region m ptr" "MmapArena_new (mm_singleArenaCapacity m) ptr = Inr a"
  obtains x where "ptr = Some x" "arena_inv a" "ma_address a = x" "ma_byteSize a = mm_singleArenaCapacity m"
    "arena_used a = {}"
proof -
  obtain x where x: "ptr = Some x" using assms(3) by (cases ptr) (auto simp: MmapArena_new_def)
  moreover have "0 < x" "x + mm_singleArenaCapacity m < 2 ^ 64"
    using assms(2) unfolding x fresh_region_def by simp_all
  ultimately show ?thesis
    using that MmapArena_new_inv [of "mm_singleArenaCapacity m" x a] assms(3) managed_basic(2) [OF assms(1)]
    by (simp add: arena_used_def region_def)
qed

lemma map_assign_same:
  assumes "map_ok m" "(k, v) \<in> set m"
  shows "map_assign k v m = m"
proof (rule map_eqI)
  have "map_of m k = Some v" unfolding map_of_mem [OF assms(1)] by (rule assms(2))
  then show "map_of (map_assign k v m) = map_of m" by (simp add: map_assign_of fun_upd_idem)
qed (simp_all add: assms(1))

lemma grow_contract:
  assumes "managed_inv m" "fresh_region m ptr" "picks pick" "0 < n" "n \<le> 2 ^ 63"
    and "MmapArena_new (mm_singleArenaCapacity m) ptr = Inr a" "MmapArena_allocate pick a n = (r, a')"
    and "m' = m\<lparr>mm_arenas := snd (map_emplace (ma_address a) a' (mm_arenas m)), mm_currentArena := ma_address a\<rparr>"
  shows "managed_inv m' \<and> (\<forall>p k. managed_owns m p k \<longrightarrow> managed_owns m' p k) \<and>
    (r = Inr None \<and> managed_used m' = managed_used m \<or>
     (\<exists>p. r = Inr (Some p) \<and> block_bytes p n \<inter> managed_used m = {} \<and>
        managed_used m' = managed_used m \<union> block_bytes p n \<and> managed_owns m' p n))"
proof -
  from MmapArena_new_fresh [OF assms(1,2,6)] obtain x where x: "ptr = Some x" "arena_inv a" "ma_address a = x"
    "ma_byteSize a = mm_singleArenaCapacity m" "arena_used a = {}" by blast
  note c = arena_alloc_contract [OF assms(3) x(2) assms(4,5,7)]
  have a': "arena_inv a'" "ma_address a' = x" "ma_byteSize a' = mm_singleArenaCapacity m" "region a' = region a"
    using c x(3,4) by simp_all
  note add = add_arena [OF assms(1) assms(2) [unfolded x(1)] a'(1-3) assms(8) [unfolded x(3)]]
  have owns: "managed_owns m' p k" if "managed_owns m p k" for p k
    using that by (rule owns_mono) (auto simp: add(4))
  from c consider "r = Inr None" "a' = a"
    | p where "r = Inr (Some p)" "arena_used a' = arena_used a \<union> block_bytes p n" "block_bytes p n \<subseteq> region a" by blast
  then show ?thesis
  proof cases
    case 1
    then show ?thesis using add(1,2) owns x(5) by simp
  next
    case (2 p)
    have "block_bytes p n \<inter> managed_used m = {}" using add(3) 2(3) a'(4) by blast
    moreover have "managed_used m' = managed_used m \<union> block_bytes p n" using add(2) 2(2) x(5) by auto
    moreover have "managed_owns m' p n" using managed_ownsI [of x a' m' p n] add(4) 2(2) by blast
    ultimately show ?thesis using add(1) owns 2(1) by blast
  qed
qed

lemma managed_alloc_contract:
  assumes "managed_inv m" "fresh_region m ptr" "picks pick" "0 < n" "n \<le> 2 ^ 63"
    and "ManagedMmapArenas_allocate pick ptr m n = (r, m')"
  shows "managed_inv m' \<and> (\<forall>p k. managed_owns m p k \<longrightarrow> managed_owns m' p k) \<and>
    ((\<forall>p. r \<noteq> Inr (Some p)) \<and> managed_used m' = managed_used m \<or>
     (\<exists>p. r = Inr (Some p) \<and> block_bytes p n \<inter> managed_used m = {} \<and>
        managed_used m' = managed_used m \<union> block_bytes p n \<and> managed_owns m' p n))"
proof -
  let ?x = "mm_currentArena m"
  note ok = managed_basic(1) [OF assms(1)]
  obtain a where a: "(?x, a) \<in> set (mm_arenas m)" using managed_basic(4) [OF assms(1)] by blast
  then have look: "map_of (mm_arenas m) ?x = Some a" unfolding map_of_mem [OF ok] .
  obtain q a' where al: "MmapArena_allocate pick a n = (q, a')" by (cases "MmapArena_allocate pick a n")
  note c = arena_alloc_contract [OF assms(3) managed_arena(1) [OF assms(1) a] assms(4,5) al]
  then have a': "arena_inv a'" "ma_address a' = ma_address a" "ma_byteSize a' = ma_byteSize a" by blast+
  from c consider "q = Inr None" "a' = a"
    | p where "q = Inr (Some p)" "block_bytes p n \<inter> arena_used a = {}" "arena_used a' = arena_used a \<union> block_bytes p n"
      "block_bytes p n \<subseteq> region a" by blast
  then show ?thesis
  proof cases
    case 1
    show ?thesis
    proof (cases "MmapArena_new (mm_singleArenaCapacity m) ptr")
      case (Inl e)
      then have "r = Inl e" "m' = m"
        using assms(6) look al 1 map_assign_same [OF ok a] by (simp_all add: ManagedMmapArenas_allocate_def)
      then show ?thesis using assms(1) by simp
    next
      case (Inr b)
      obtain q' b' where b': "MmapArena_allocate pick b n = (q', b')" by (cases "MmapArena_allocate pick b n")
      have m': "r = q'" "m' = m\<lparr>mm_arenas := snd (map_emplace (ma_address b) b' (mm_arenas m)),
          mm_currentArena := ma_address b\<rparr>"
        using assms(6) look al 1 Inr b' map_assign_same [OF ok a] by (simp_all add: ManagedMmapArenas_allocate_def)
      show ?thesis using grow_contract [OF assms(1-5) Inr b' m'(2)] unfolding m'(1) [symmetric]
        by (elim conjE disjE, intro conjI disjI1) (assumption | simp)+
    qed
  next
    case (2 p)
    have m': "r = Inr (Some p)" "m' = m\<lparr>mm_arenas := map_assign ?x a' (mm_arenas m)\<rparr>"
      using assms(6) look al 2(1) by (simp_all add: ManagedMmapArenas_allocate_def)
    note rp = replace_arena [OF assms(1) a a' m'(2)] and sp = used_split [OF assms(1) a]
    have "managed_owns m' u k" if "managed_owns m u k" for u k
      using that
    proof (rule owns_mono)
      fix y b assume "(y, b) \<in> set (mm_arenas m)" "arena_owns b u k"
      then show "\<exists>b'. (y, b') \<in> set (mm_arenas m') \<and> arena_owns b' u k"
        unfolding rp(3) using 2(3) by (cases "(y, b) = (?x, a)") blast+
    qed
    moreover have "managed_owns m' p n" using managed_ownsI [of ?x a' m' p n] rp(3) 2(3) by blast
    moreover have "block_bytes p n \<inter> managed_used m = {}" using sp 2(2,4) by blast
    moreover have "managed_used m' = managed_used m \<union> block_bytes p n" using sp(1) rp(2) 2(3) by blast
    ultimately show ?thesis using rp(1) m'(1) by blast
  qed
qed

lemma roundBytes_ge: "0 < n \<Longrightarrow> n \<le> 2 ^ 63 \<Longrightarrow> n \<le> roundBytes n"
  using nextPowerOfTwo_spec [of n] by (auto simp: roundBytes_def)

lemma arena_of_owner:
  assumes "managed_inv m" "(x, a) \<in> set (mm_arenas m)" "0 < n" "n \<le> 2 ^ 63" "block_bytes p n \<subseteq> region a"
  shows "arena_of m p n = Inr (x, a)"
proof -
  let ?cap = "mm_singleArenaCapacity m"
  note ok = managed_basic(1) [OF assms(1)] and reg = managed_arena(4,5) [OF assms(1,2)]
  have r: "0 < roundBytes n" "n \<le> roundBytes n" using roundBytes_pos roundBytes_ge assms(3,4) by blast+
  then have "p \<in> block_bytes p n" "p + roundBytes n - 1 \<in> block_bytes p n" by simp_all
  then have "p \<in> region a" "p + roundBytes n - 1 \<in> region a" using assms(5) by blast+
  then have px: "x \<le> p" "p < x + ?cap" "p + roundBytes n \<le> x + ?cap" using r(1) unfolding reg by auto
  have only: "y = x" if "(y, b) \<in> set (mm_arenas m)" "x \<le> y" "y \<le> p" for y b
    using managed_gap [OF assms(1,2) that(1)] that(2,3) px(2) by linarith
  show ?thesis
  proof (cases "x = p")
    case True
    then obtain e where e: "map_lower_bound (mm_arenas m) p = Some e"
      using map_lower_bound_none [of "mm_arenas m" p] assms(2) by (cases "map_lower_bound (mm_arenas m) p") force+
    obtain y b where yb: "e = (y, b)" by (cases e)
    note lb = map_lower_bound_some [OF ok e]
    have "y = p" using lb(1,2) lb(3) [OF assms(2)] True yb by simp
    then have "b = a" using managed_same_key [OF assms(1,2)] lb(1) yb True by blast
    then show ?thesis using e yb \<open>y = p\<close> True by (simp add: arena_of_def)
  next
    case False
    then have "x < p" using px(1) by simp
    have nokey: "(p, b) \<notin> set (mm_arenas m)" for b using only [of p b] px(1) False by blast
    then have eq: "arena_of m p n = before_address m p n"
      using map_lower_bound_some(1) [OF ok, of p] by (auto simp: arena_of_def split: option.splits)
    obtain e where e: "map_prev (mm_arenas m) p = Some e"
      using map_prev_none [of "mm_arenas m" p] assms(2) \<open>x < p\<close> by (cases "map_prev (mm_arenas m) p") force+
    obtain y b where yb: "e = (y, b)" by (cases e)
    note pv = map_prev_some [OF ok e]
    have mem: "(y, b) \<in> set (mm_arenas m)" using pv(1) yb by simp
    have "y = x" using only [OF mem] pv(2) pv(3) [OF assms(2)] \<open>x < p\<close> yb by simp
    then have "b = a" using managed_same_key [OF assms(1,2)] mem by blast
    moreover have "u64_add p n \<le> u64_add x ?cap" using px(3) r(2) reg(2) by simp
    ultimately show ?thesis using eq e yb \<open>y = x\<close> by (simp add: before_address_def)
  qed
qed

lemma managed_free_contract:
  assumes "managed_inv m" "0 < n" "n \<le> 2 ^ 63" "managed_owns m p n"
  shows "\<exists>m'. ManagedMmapArenas_free m p n = (Inr (), m') \<and> managed_inv m' \<and>
    managed_used m' = managed_used m - block_bytes p n \<and>
    (\<forall>q k. managed_owns m q k \<longrightarrow> 0 < roundBytes k \<longrightarrow> block_bytes p n \<inter> block_bytes q k = {} \<longrightarrow> managed_owns m' q k)"
proof -
  obtain x a where a: "(x, a) \<in> set (mm_arenas m)" "arena_owns a p n"
    using assms(4) unfolding managed_owns_def by blast
  have reg: "block_bytes p n \<subseteq> region a" using a(2) arena_used_region by (rule order_trans)
  from arena_free_contract [OF managed_arena(1) [OF assms(1) a(1)] assms(2,3) a(2)] obtain a' where
    a': "MmapArena_free a p n = (Inr (), a')" "arena_inv a'" "ma_address a' = ma_address a"
    "ma_byteSize a' = ma_byteSize a" "arena_used a' = arena_used a - block_bytes p n" by blast
  define m1 where "m1 = m\<lparr>mm_arenas := map_assign x a' (mm_arenas m)\<rparr>"
  note rp = replace_arena [OF assms(1) a(1) a'(2-4) m1_def] and sp = used_split [OF assms(1) a(1)]
  have used: "managed_used m1 = managed_used m - block_bytes p n" using rp(2) sp a'(5) reg by blast
  have owns: "managed_owns m1 q k" if "managed_owns m q k" "block_bytes p n \<inter> block_bytes q k = {}" for q k
    using that(1)
  proof (rule owns_mono)
    fix y b assume "(y, b) \<in> set (mm_arenas m)" "arena_owns b q k"
    then show "\<exists>b'. (y, b') \<in> set (mm_arenas m1) \<and> arena_owns b' q k"
      unfolding rp(3) using a'(5) that(2) by (cases "(y, b) = (x, a)") blast+
  qed
  have ne: "mm_arenas m \<noteq> []" using a(1) by auto
  have cur: "mm_currentArena m1 = mm_currentArena m" by (simp add: m1_def)
  show ?thesis
  proof (cases "MmapArena_empty a' \<and> x \<noteq> mm_currentArena m1")
    case True
    define m2 where "m2 = m1\<lparr>mm_arenas := map_erase x (mm_arenas m1)\<rparr>"
    have x1: "(x, a') \<in> set (mm_arenas m1)" "arena_used a' = {}"
      using rp(3) arena_empty_unused [OF a'(2)] True by blast+
    note er = erase_arena [OF rp(1) x1(1) _ x1(2) m2_def]
    have "managed_owns m2 q k" if "managed_owns m q k" "0 < roundBytes k" "block_bytes p n \<inter> block_bytes q k = {}" for q k
    proof -
      have "managed_owns m1 q k" using owns that by blast
      moreover have "\<not> arena_owns a' q k" using x1(2) that(2) by simp
      ultimately show ?thesis
        by (rule_tac owns_mono) (use er(3) True in auto)
    qed
    moreover have "ManagedMmapArenas_free m p n = (Inr (), m2)"
      using ne arena_of_owner [OF assms(1) a(1) assms(2,3) reg] a'(1) True
      by (simp add: ManagedMmapArenas_free_def m1_def m2_def)
    ultimately show ?thesis using er(1,2) True used by (intro exI [of _ m2]) blast
  next
    case False
    then have "ManagedMmapArenas_free m p n = (Inr (), m1)"
      using ne arena_of_owner [OF assms(1) a(1) assms(2,3) reg] a'(1)
      by (auto simp: ManagedMmapArenas_free_def m1_def)
    then show ?thesis using rp(1) used owns by (intro exI [of _ m1]) blast
  qed
qed

section \<open>The managed arenas meet the contract of an allocator\<close>

text \<open>
  \<open>mmap k m\<close> is what the system returns at the \<open>k\<close>-th call, when the arenas of \<open>m\<close> are mapped.
\<close>

definition mmap_ok :: "(nat \<Rightarrow> ManagedMmapArenas \<Rightarrow> nat option) \<Rightarrow> bool" where
  "mmap_ok mmap \<longleftrightarrow> (\<forall>k m. managed_inv m \<longrightarrow> fresh_region m (mmap k m))"

definition managed_alloc ::
    "(nat set \<Rightarrow> nat) \<Rightarrow> (nat \<Rightarrow> ManagedMmapArenas \<Rightarrow> nat option) \<Rightarrow> ManagedMmapArenas \<times> nat \<Rightarrow> nat \<Rightarrow>
      nat option res \<times> (ManagedMmapArenas \<times> nat)" where
  "managed_alloc pick mmap s n =
     (let (r, m') = ManagedMmapArenas_allocate pick (mmap (snd s) (fst s)) (fst s) n in (r, (m', Suc (snd s))))"

definition managed_dealloc ::
    "ManagedMmapArenas \<times> nat \<Rightarrow> nat \<Rightarrow> nat \<Rightarrow> unit res \<times> (ManagedMmapArenas \<times> nat)" where
  "managed_dealloc s p n = (let (r, m') = ManagedMmapArenas_free (fst s) p n in (r, (m', snd s)))"

interpretation managed: block_allocator
  "\<lambda>s. picks pick \<and> mmap_ok mmap \<and> managed_inv (fst s)" "\<lambda>s. managed_used (fst s)"
  "\<lambda>s p n. 0 < roundBytes n \<and> managed_owns (fst s) p n" block_bytes
  "2 ^ 63" "managed_alloc pick mmap" managed_dealloc
  for pick mmap
proof (unfold_locales, goal_cases)
  case (1 s n r s')
  obtain m k where s: "s = (m, k)" by (cases s)
  obtain r' m' where al: "ManagedMmapArenas_allocate pick (mmap k m) m n = (r', m')"
    by (cases "ManagedMmapArenas_allocate pick (mmap k m) m n")
  have s': "r = r'" "s' = (m', Suc k)" using 1(4) s al by (simp_all add: managed_alloc_def)
  have p: "managed_inv m" "picks pick" "mmap_ok mmap" using 1(1) s by simp_all
  then have f: "fresh_region m (mmap k m)" unfolding mmap_ok_def by blast
  note c = managed_alloc_contract [OF p(1) f p(2) 1(2,3) al]
  then have inv: "managed_inv m'" and own: "\<And>q j. managed_owns m q j \<Longrightarrow> managed_owns m' q j" by blast+
  from c consider "\<forall>q. r \<noteq> Inr (Some q)" "managed_used m' = managed_used m"
    | q where "r = Inr (Some q)" "block_bytes q n \<inter> managed_used m = {}"
      "managed_used m' = managed_used m \<union> block_bytes q n" "managed_owns m' q n" unfolding s'(1) by blast
  then show ?case
  proof cases
    case 1
    then show ?thesis using inv own p s s' by (auto split: sum.splits option.splits)
  next
    case (2 q)
    then show ?thesis using inv own p s s'(2) roundBytes_pos [OF 1(2,3)] by simp
  qed
next
  case (2 s n p)
  obtain m k where s: "s = (m, k)" by (cases s)
  have inv: "managed_inv m" and own: "managed_owns m p n" using 2(1,4) s by simp_all
  from managed_free_contract [OF inv 2(2,3) own] obtain m' where m': "ManagedMmapArenas_free m p n = (Inr (), m')"
    "managed_inv m'" "managed_used m' = managed_used m - block_bytes p n"
    "\<forall>q k. managed_owns m q k \<longrightarrow> 0 < roundBytes k \<longrightarrow> block_bytes p n \<inter> block_bytes q k = {} \<longrightarrow> managed_owns m' q k"
    by blast
  have "managed_dealloc s p n = (Inr (), (m', k))" using m'(1) s by (simp add: managed_dealloc_def)
  then show ?case using 2(1) s m'(2-4) by (intro exI [of _ "(m', k)"] conjI) (simp_all only: fst_conv, blast+)
qed

lemma ManagedMmapArenas_new_inv:
  assumes "ManagedMmapArenas_new cap (Some x) = Inr m" "0 < x" "0 < cap" "x + cap < 2 ^ 64"
  shows "managed_inv m \<and> managed_used m = {} \<and> mm_singleArenaCapacity m = cap"
proof -
  from assms(1) obtain a where a: "MmapArena_new cap (Some x) = Inr a"
    "m = \<lparr>mm_singleArenaCapacity = cap, mm_arenas = [(ma_address a, a)], mm_currentArena = ma_address a\<rparr>"
    by (auto simp: ManagedMmapArenas_new_def)
  have "cap mod kMinGrainSizeBytes = 0" using a(1) by (simp add: MmapArena_new_def)
  moreover note MmapArena_new_inv [OF a(1) assms(2-4)]
  ultimately show ?thesis
    using a(2) assms(3) by (simp add: managed_inv_def managed_used_def arena_used_def region_def)
qed

text \<open>
  A request above the capacity maps a new arena on every call and keeps it: each call adds one arena
  that nothing will ever erase.
\<close>

lemma oversized_request:
  assumes "managed_inv m" "fresh_region m (Some x)" "n \<le> 2 ^ 63" "mm_singleArenaCapacity m < n"
  shows "\<exists>m'. ManagedMmapArenas_allocate pick (Some x) m n = (Inr None, m') \<and> managed_inv m' \<and>
    managed_used m' = managed_used m \<and> length (mm_arenas m') = Suc (length (mm_arenas m)) \<and>
    mm_singleArenaCapacity m' = mm_singleArenaCapacity m"
proof -
  let ?cap = "mm_singleArenaCapacity m" and ?y = "mm_currentArena m"
  note ok = managed_basic(1) [OF assms(1)]
  have n: "0 < n" "?cap < roundBytes n" using assms(3,4) roundBytes_ge [of n] by simp_all
  have none: "MmapArena_allocate pick a n = (Inr None, a)" if "arena_inv a" "ma_byteSize a = ?cap" for a
  proof (rule allocate_none [OF n(1)])
    have "s < roundBytes n" if "(z, s) \<in> blocks a" for z s
      using block_in_region(2,3) [OF \<open>arena_inv a\<close> that] \<open>ma_byteSize a = ?cap\<close> n(2) by linarith
    then show "map_lower_bound (ma_freeLookup a) (roundBytes n) = None"
      unfolding allocate_refused [OF \<open>arena_inv a\<close>] by blast
  qed
  obtain a where a: "(?y, a) \<in> set (mm_arenas m)" using managed_basic(4) [OF assms(1)] by blast
  then have look: "map_of (mm_arenas m) ?y = Some a" unfolding map_of_mem [OF ok] .
  have "\<exists>b. MmapArena_new ?cap (Some x) = Inr b"
    using managed_basic(3) [OF assms(1)] by (simp add: MmapArena_new_def addFreeBlock_def)
  then obtain b where b: "MmapArena_new ?cap (Some x) = Inr b" by blast
  from MmapArena_new_fresh [OF assms(1,2) b] have
    b': "arena_inv b" "ma_address b = x" "ma_byteSize b = ?cap" "arena_used b = {}" by auto
  define m' where "m' = m\<lparr>mm_arenas := snd (map_emplace x b (mm_arenas m)), mm_currentArena := x\<rparr>"
  note add = add_arena [OF assms(1,2) b'(1-3) m'_def]
  have "ManagedMmapArenas_allocate pick (Some x) m n = (Inr None, m')"
    using look b none [OF managed_arena(1,3) [OF assms(1) a]] none [OF b'(1,3)] map_assign_same [OF ok a] b'(2)
    by (simp add: ManagedMmapArenas_allocate_def m'_def)
  moreover have "length (mm_arenas m') = Suc (length (mm_arenas m))"
  proof -
    have "(x, b) \<notin> set (mm_arenas m)"
      using assms(2) managed_basic(2) [OF assms(1)] by (force simp: fresh_region_def)
    moreover have "distinct (mm_arenas m)" "distinct (mm_arenas m')"
      using map_ok_distinct [OF ok] map_ok_distinct [OF managed_basic(1) [OF add(1)]] distinct_map by blast+
    ultimately show ?thesis using add(4) by (simp flip: distinct_card)
  qed
  moreover have "mm_singleArenaCapacity m' = ?cap" by (simp add: m'_def)
  ultimately show ?thesis using add(1,2) b'(4) by auto
qed

text \<open>A system that maps each region just below the others, while there is room, keeps the promise.\<close>

definition map_below :: "nat \<Rightarrow> ManagedMmapArenas \<Rightarrow> nat option" where
  "map_below k m = (case mm_arenas m of [] \<Rightarrow> None
     | (y, b) # _ \<Rightarrow> if mm_singleArenaCapacity m < y then Some (y - mm_singleArenaCapacity m) else None)"

lemma map_below_ok: "mmap_ok map_below"
proof -
  have "fresh_region m (map_below k m)" if "managed_inv m" for k m
  proof (cases "mm_arenas m")
    case Nil
    then show ?thesis by (simp add: fresh_region_def map_below_def)
  next
    case (Cons e es)
    obtain y b where e: "e = (y, b)" by (cases e)
    have "y \<le> z" if "(z, c) \<in> set (mm_arenas m)" for z c
      using managed_basic(1) [OF \<open>managed_inv m\<close>] that Cons e by auto
    moreover have "y + mm_singleArenaCapacity m < 2 ^ 64"
      using managed_arena(5) [OF \<open>managed_inv m\<close>, of y b] Cons e by simp
    ultimately show ?thesis using Cons e by (fastforce simp: fresh_region_def map_below_def)
  qed
  then show ?thesis by (simp add: mmap_ok_def)
qed

end
