(* ===== verification/Tree_Of_Losers.thy ===== *)
theory Tree_Of_Losers
  imports Power_Of_Two
begin

text \<open>
  The merging structures of \<open>velox/exec/TreeOfLosers.h\<close>: \<open>TreeOfLosers\<close> and \<open>MergeArray\<close>. A
  \<open>MergeStream\<close> is the list of the elements it still has to give; \<open>hasData\<close> is that the list is not
  empty and the order of two streams is the order of their first elements. A \<open>Stream*\<close> is the index
  of the stream, and a null pointer is \<^const>\<open>None\<close>. \<open>TIndex\<close> is \<open>uint16_t\<close>, its default.
\<close>

section \<open>\<open>TreeOfLosers\<close>\<close>

abbreviation kEmpty :: nat where
  "kEmpty \<equiv> 65535"

text \<open>Conversion to \<open>TIndex\<close>.\<close>

definition TIndex :: "nat \<Rightarrow> nat" where
  "TIndex x = x mod 65536"

definition parent :: "nat \<Rightarrow> nat" where
  "parent node = TIndex ((node - 1) div 2)"

definition leftChild :: "nat \<Rightarrow> nat" where
  "leftChild node = TIndex (node * 2 + 1)"

definition rightChild :: "nat \<Rightarrow> nat" where
  "rightChild node = TIndex (node * 2 + 2)"

definition hasData :: "'a list \<Rightarrow> bool" where
  "hasData s \<longleftrightarrow> s \<noteq> []"

definition compare :: "'a::linorder list \<Rightarrow> 'a list \<Rightarrow> int" where
  "compare s t = (if hd s < hd t then - 1 else if hd s = hd t then 0 else 1)"

record 'a TreeOfLosers =
  tol_streams :: "'a list list"
  tol_values :: "nat list"
  tol_equals :: "bool list"
  tol_lastIndex :: nat
  tol_firstStream :: nat

text \<open>The loop of the constructor over the levels, with the number of nodes so far.\<close>

function level_loop :: "nat \<Rightarrow> nat \<Rightarrow> nat \<Rightarrow> nat \<times> nat" where
  "level_loop numStreams size' levelSize =
     (if 0 < levelSize \<and> numStreams > levelSize then
        level_loop numStreams (size' + levelSize) (levelSize * 2)
      else (size', levelSize))"
  by pat_completeness auto
termination by (relation "measure (\<lambda>(n, _, l). n - l)") auto

declare level_loop.simps [simp del]

definition TreeOfLosers_new :: "'a list list \<Rightarrow> 'a TreeOfLosers res" where
  "TreeOfLosers_new streams =
     check (length streams < kEmpty) (check (1 \<le> length streams)
       (let numStreams = length streams;
            (size', levelSize) = level_loop numStreams 0 1;
            firstStream =
              (if numStreams = nextPowerOfTwo numStreams then size'
               else let secondLastSize = levelSize div 2; overflow = numStreams - secondLastSize
                    in (size' - secondLastSize) + overflow)
        in Inr \<lparr>tol_streams = streams, tol_values = replicate firstStream kEmpty,
                tol_equals = replicate firstStream False, tol_lastIndex = kEmpty,
                tol_firstStream = firstStream\<rparr>))"

text \<open>The recursion of \<open>first\<close> is bounded by its first argument.\<close>

fun first :: "nat \<Rightarrow> 'a::linorder list list \<Rightarrow> nat \<Rightarrow> nat list \<Rightarrow> nat \<Rightarrow> (nat \<times> nat list) res" where
  "first 0 streams firstStream vals node = Inl StackExhausted"
| "first (Suc k) streams firstStream vals node =
     (if node \<ge> firstStream then
        if node - firstStream < length streams then
          Inr (if hasData (streams ! (node - firstStream)) then node - firstStream else kEmpty, vals)
        else Inl OutOfRange
      else
        rbind (first k streams firstStream vals (leftChild node)) (\<lambda>(left, vals1).
        rbind (first k streams firstStream vals1 (rightChild node)) (\<lambda>(right, vals2).
          if left = kEmpty then Inr (right, vals2)
          else if right = kEmpty then Inr (left, vals2)
          else if compare (streams ! left) (streams ! right) < 0 then Inr (left, vals2[node := right])
          else Inr (right, vals2[node := left]))))"

text \<open>
  The first loop of \<open>propagate\<close> skips the empty nodes; it gives \<^const>\<open>None\<close> when it returns at the
  root. The second loop takes the value to the root. An access past the end of \<open>values_\<close> is an error.
\<close>

function skip_empty :: "nat list \<Rightarrow> nat \<Rightarrow> nat option res" where
  "skip_empty vals node =
     (if node \<ge> length vals then Inl OutOfRange
      else if vals ! node = kEmpty then
        if node = 0 then Inr None else skip_empty vals (parent node)
      else Inr (Some node))"
  by pat_completeness auto
termination
  by (relation "measure snd") (auto simp: parent_def TIndex_def intro: le_less_trans [OF mod_less_eq_dividend])

function propagate_loop ::
    "'a::linorder list list \<Rightarrow> nat list \<Rightarrow> nat \<Rightarrow> nat \<Rightarrow> (nat \<times> nat list) res" where
  "propagate_loop streams vals node val =
     (if node \<ge> length vals then Inl OutOfRange
      else let (val', vals') =
             (if vals ! node = kEmpty then (val, vals)
              else if val = kEmpty then (vals ! node, vals[node := kEmpty])
              else if compare (streams ! (vals ! node)) (streams ! val) < 0 then
                (vals ! node, vals[node := val])
              else (val, vals))
           in if node = 0 then Inr (val', vals')
              else propagate_loop streams vals' (parent node) val')"
  by pat_completeness auto
termination
  by (relation "measure (\<lambda>(_, _, node, _). node)")
    (auto simp: parent_def TIndex_def intro: le_less_trans [OF mod_less_eq_dividend])

declare skip_empty.simps [simp del] propagate_loop.simps [simp del]

definition propagate :: "'a::linorder list list \<Rightarrow> nat list \<Rightarrow> nat \<Rightarrow> nat \<Rightarrow> (nat \<times> nat list) res" where
  "propagate streams vals node val =
     rbind (skip_empty vals node) (\<lambda>start.
       case start of None \<Rightarrow> Inr (val, vals) | Some node' \<Rightarrow> propagate_loop streams vals node' val)"

definition tree_next :: "nat \<Rightarrow> 'a::linorder TreeOfLosers \<Rightarrow> (nat option \<times> 'a TreeOfLosers) res" where
  "tree_next depth t =
     (if tol_lastIndex t = kEmpty \<and> tol_values t = [] then
        Inr (if hasData (tol_streams t ! 0) then Some 0 else None, t)
      else
        rbind (if tol_lastIndex t = kEmpty then
                 first depth (tol_streams t) (tol_firstStream t) (tol_values t) 0
               else
                 propagate (tol_streams t) (tol_values t)
                   (parent (TIndex (tol_firstStream t + tol_lastIndex t)))
                   (if hasData (tol_streams t ! tol_lastIndex t) then tol_lastIndex t else kEmpty))
          (\<lambda>(index, vals).
             Inr (if index = kEmpty then None else Some index,
                  t\<lparr>tol_values := vals, tol_lastIndex := index\<rparr>)))"

subsection \<open>Merging with a flag for equal elements\<close>

fun firstWithEquals ::
    "nat \<Rightarrow> 'a::linorder list list \<Rightarrow> nat \<Rightarrow> nat list \<Rightarrow> bool list \<Rightarrow> nat \<Rightarrow>
      ((nat \<times> bool) \<times> nat list \<times> bool list) res" where
  "firstWithEquals 0 streams firstStream vals eqs node = Inl StackExhausted"
| "firstWithEquals (Suc k) streams firstStream vals eqs node =
     (if node \<ge> firstStream then
        if node - firstStream < length streams then
          Inr ((if hasData (streams ! (node - firstStream)) then node - firstStream else kEmpty, False), vals, eqs)
        else Inl OutOfRange
      else
        rbind (firstWithEquals k streams firstStream vals eqs (leftChild node)) (\<lambda>(left, vals1, eqs1).
        rbind (firstWithEquals k streams firstStream vals1 eqs1 (rightChild node)) (\<lambda>(right, vals2, eqs2).
          if fst left = kEmpty then Inr (right, vals2, eqs2)
          else if fst right = kEmpty then Inr (left, vals2, eqs2)
          else let comparison = compare (streams ! fst left) (streams ! fst right)
               in if comparison = 0 then
                    Inr ((fst left, True), vals2[node := fst right], eqs2[node := snd right])
                  else if comparison < 0 then
                    Inr (left, vals2[node := fst right], eqs2[node := snd right])
                  else Inr (right, vals2[node := fst left], eqs2[node := snd left]))))"

function propagateWithEquals_loop ::
    "'a::linorder list list \<Rightarrow> nat list \<Rightarrow> bool list \<Rightarrow> nat \<Rightarrow> nat \<times> bool \<Rightarrow>
      ((nat \<times> bool) \<times> nat list \<times> bool list) res" where
  "propagateWithEquals_loop streams vals eqs node val =
     (if node \<ge> length vals then Inl OutOfRange
      else let (val', vals', eqs') =
             (if vals ! node = kEmpty then (val, vals, eqs)
              else if fst val = kEmpty then
                ((vals ! node, eqs ! node), vals[node := kEmpty], eqs[node := False])
              else let comparison = compare (streams ! (vals ! node)) (streams ! fst val)
                   in if comparison = 0 then ((fst val, True), vals, eqs)
                      else if comparison < 0 then
                        ((vals ! node, eqs ! node), vals[node := fst val], eqs[node := snd val])
                      else (val, vals, eqs))
           in if node = 0 then Inr (val', vals', eqs')
              else propagateWithEquals_loop streams vals' eqs' (parent node) val')"
  by pat_completeness auto
termination
  by (relation "measure (\<lambda>(_, _, _, node, _). node)")
    (auto simp: parent_def TIndex_def intro: le_less_trans [OF mod_less_eq_dividend])

declare propagateWithEquals_loop.simps [simp del]

definition propagateWithEquals ::
    "'a::linorder list list \<Rightarrow> nat list \<Rightarrow> bool list \<Rightarrow> nat \<Rightarrow> nat \<Rightarrow>
      ((nat \<times> bool) \<times> nat list \<times> bool list) res" where
  "propagateWithEquals streams vals eqs node valueIndex =
     rbind (skip_empty vals node) (\<lambda>start.
       case start of
         None \<Rightarrow> Inr ((valueIndex, False), vals, eqs)
       | Some node' \<Rightarrow> propagateWithEquals_loop streams vals eqs node' (valueIndex, False))"

definition nextWithEquals ::
    "nat \<Rightarrow> 'a::linorder TreeOfLosers \<Rightarrow> ((nat option \<times> bool) \<times> 'a TreeOfLosers) res" where
  "nextWithEquals depth t =
     (if tol_lastIndex t = kEmpty \<and> tol_values t = [] then
        Inr ((if hasData (tol_streams t ! 0) then Some 0 else None, False), t)
      else
        rbind (if tol_lastIndex t = kEmpty then
                 firstWithEquals depth (tol_streams t) (tol_firstStream t) (tol_values t) (tol_equals t) 0
               else
                 propagateWithEquals (tol_streams t) (tol_values t) (tol_equals t)
                   (parent (TIndex (tol_firstStream t + tol_lastIndex t)))
                   (if hasData (tol_streams t ! tol_lastIndex t) then tol_lastIndex t else kEmpty))
          (\<lambda>(result, vals, eqs).
             Inr (if fst result = kEmpty then (None, False) else (Some (fst result), snd result),
                  t\<lparr>tol_values := vals, tol_equals := eqs, tol_lastIndex := fst result\<rparr>)))"

section \<open>\<open>MergeArray\<close>\<close>

record 'a MergeArray =
  mra_isFirst :: bool
  mra_streams :: "'a list list"

text \<open>
  \<open>std::sort\<close> leaves the order of equal streams open: \<open>sort\<close> is any function that returns the streams
  in the order of their first elements.
\<close>

definition MergeArray_new :: "('a list list \<Rightarrow> 'a list list) \<Rightarrow> 'a list list \<Rightarrow> 'a MergeArray" where
  "MergeArray_new std_sort streams = \<lparr>mra_isFirst = True, mra_streams = std_sort (filter hasData streams)\<rparr>"

text \<open>
  \<open>std::lower_bound\<close> is given streams in the order of their first elements and finds the first that is
  not less than the moved one. The stream to read is the first of the array after the call; the result
  tells if there is one.
\<close>

definition array_next :: "'a::linorder MergeArray \<Rightarrow> (bool \<times> 'a MergeArray) res" where
  "array_next a =
     (if mra_isFirst a then Inr (mra_streams a \<noteq> [], a\<lparr>mra_isFirst := False\<rparr>)
      else case mra_streams a of
             [] \<Rightarrow> Inl OutOfRange
           | s # rest \<Rightarrow>
               if \<not> hasData s then Inr (rest \<noteq> [], a\<lparr>mra_streams := rest\<rparr>)
               else let before = takeWhile (\<lambda>t. compare t s < 0) rest
                    in Inr (True, a\<lparr>mra_streams := before @ s # drop (length before) rest\<rparr>))"

end
