(* ===== verification/Tree_Tournament.thy ===== *)
theory Tree_Tournament
  imports Tree_Of_Losers
begin

text \<open>
  The tournament behind \<open>TreeOfLosers\<close>: the shape of the tree in terms of its node numbers, what it means
  that the stored losers are those of a tournament with a given winner, and how the result of a match
  at a node extends to the node above.
\<close>

section \<open>The shape of the tree\<close>

text \<open>The node \<open>d\<close> lies under the node \<open>a\<close> when climbing from \<open>d\<close> to the parents meets \<open>a\<close>.\<close>

function climbs :: "nat \<Rightarrow> nat \<Rightarrow> bool" where
  "climbs d a = (if d \<le> a then d = a else climbs ((d - 1) div 2) a)"
  by pat_completeness auto
termination by (relation "measure fst") auto

declare climbs.simps [simp del]

lemma climbs_eq: "climbs d a \<longleftrightarrow> d = a \<or> (a < d \<and> climbs ((d - 1) div 2) a)"
  by (subst climbs.simps) auto

lemma climbs_refl [simp]: "climbs d d"
  by (subst climbs_eq) simp

lemma climbs_ge: "climbs d a \<Longrightarrow> a \<le> d"
  by (subst (asm) climbs_eq) auto

lemma climbs_root [simp]: "climbs d 0"
proof (induction d rule: less_induct)
  case (less d)
  then show ?case by (subst climbs_eq) (cases "d = 0"; simp)
qed

lemma half_eq: "(d - 1) div 2 = n \<longleftrightarrow> d = 2 * n + 1 \<or> d = 2 * n + 2" if "0 < d" for d n :: nat
  using that by presburger

lemma climbs_children:
  assumes "d \<noteq> a"
  shows "climbs d a \<longleftrightarrow> climbs d (2 * a + 1) \<or> climbs d (2 * a + 2)"
  using assms
proof (induction d rule: less_induct)
  case (less d)
  show ?case
  proof (cases "d \<le> a")
    case True
    then show ?thesis using less.prems climbs_ge [of d a] climbs_ge [of d "2 * a + 1"] climbs_ge [of d "2 * a + 2"] by force
  next
    case False
    let ?p = "(d - 1) div 2"
    have up: "climbs d c \<longleftrightarrow> climbs ?p c" if "c \<noteq> d" for c
    proof (cases "c < d")
      case True
      then show ?thesis by (subst climbs_eq) auto
    next
      case False
      then show ?thesis using that climbs_ge [of d c] climbs_ge [of ?p c] by auto
    qed
    show ?thesis
    proof (cases "?p = a")
      case True
      then have "d = 2 * a + 1 \<or> d = 2 * a + 2" using half_eq [of d a] False by simp
      moreover have "climbs d a" using up [of a] True less.prems by simp
      ultimately show ?thesis by auto
    next
      case neq: False
      then have "d \<noteq> 2 * a + 1" "d \<noteq> 2 * a + 2" using half_eq [of d a] False by auto
      then show ?thesis using up less.IH [of ?p] neq less.prems False by auto
    qed
  qed
qed

lemma climbs_disjoint: "\<not> (climbs d (2 * a + 1) \<and> climbs d (2 * a + 2))"
proof (induction d rule: less_induct)
  case (less d)
  show ?case
  proof
    assume c: "climbs d (2 * a + 1) \<and> climbs d (2 * a + 2)"
    let ?p = "(d - 1) div 2"
    have "climbs d (2 * a + 1)" "climbs d (2 * a + 2)" using c by auto
    then have *: "d = 2 * a + 1 \<or> climbs ?p (2 * a + 1)" "d = 2 * a + 2 \<or> climbs ?p (2 * a + 2)"
      by (subst (asm) climbs_eq, auto)+
    have "d \<ge> 2 * a + 2" using climbs_ge c by auto
    then have "climbs ?p (2 * a + 1)" "?p < d" using *(1) by auto
    moreover from this have "d \<noteq> 2 * a + 2" using climbs_ge by fastforce
    ultimately show False using *(2) less by blast
  qed
qed

lemma climbs_trans: "climbs d b \<Longrightarrow> climbs b a \<Longrightarrow> climbs d a"
proof (induction d rule: less_induct)
  case (less d)
  show ?case
  proof (cases "d = b")
    case False
    then have "b < d" "climbs ((d - 1) div 2) b" using less.prems(1) by (subst (asm) climbs_eq, auto)+
    then have "climbs ((d - 1) div 2) a" using less by auto
    moreover have "a < d" using climbs_ge [OF less.prems(2)] \<open>b < d\<close> by simp
    ultimately show ?thesis by (subst climbs_eq) simp
  qed (use less in simp)
qed

lemma climbs_child [simp]: "climbs (2 * a + 1) a" "climbs (2 * a + 2) a" "climbs (Suc (2 * a)) a" "climbs (Suc (Suc (2 * a))) a"
  using climbs_children [of "2 * a + 1" a] climbs_children [of "2 * a + 2" a] by simp_all

lemma climbs_left: "climbs d (2 * a + 1) \<Longrightarrow> climbs d a"
  using climbs_trans climbs_child(1) by blast

lemma climbs_right: "climbs d (2 * a + 2) \<Longrightarrow> climbs d a"
  using climbs_trans climbs_child(2) by blast

section \<open>Winners and losers\<close>

text \<open>The first element of a stream, if it has one.\<close>

definition head :: "'a list list \<Rightarrow> nat \<Rightarrow> 'a option" where
  "head streams j = (if j < length streams \<and> hasData (streams ! j) then Some (hd (streams ! j)) else None)"

text \<open>
  \<open>wins h fs vals node w\<close>: in the subtree of \<open>node\<close> the losers stored in \<open>vals\<close> are the result of a
  tournament on the first elements \<open>h\<close> that \<open>w\<close> has won; \<open>w\<close> is \<open>kEmpty\<close> when no stream has data.
\<close>

inductive wins :: "(nat \<Rightarrow> 'a::linorder option) \<Rightarrow> nat \<Rightarrow> nat list \<Rightarrow> nat \<Rightarrow> nat \<Rightarrow> bool"
  for h fs vals where
  leaf: "fs \<le> node \<Longrightarrow> w = (if h (node - fs) = None then kEmpty else node - fs) \<Longrightarrow> wins h fs vals node w"
| pass: "node < fs \<Longrightarrow> wins h fs vals (2 * node + 1) l \<Longrightarrow> wins h fs vals (2 * node + 2) r \<Longrightarrow>
    vals ! node = kEmpty \<Longrightarrow> l = kEmpty \<or> r = kEmpty \<Longrightarrow> w = (if l = kEmpty then r else l) \<Longrightarrow>
    wins h fs vals node w"
| play: "node < fs \<Longrightarrow> wins h fs vals (2 * node + 1) l \<Longrightarrow> wins h fs vals (2 * node + 2) r \<Longrightarrow>
    l \<noteq> kEmpty \<Longrightarrow> r \<noteq> kEmpty \<Longrightarrow> (w, vals ! node) = (l, r) \<or> (w, vals ! node) = (r, l) \<Longrightarrow>
    h w = Some x \<Longrightarrow> h (vals ! node) = Some y \<Longrightarrow> x \<le> y \<Longrightarrow> wins h fs vals node w"

lemma wins_mem:
  assumes "wins h fs vals node w" "w \<noteq> kEmpty"
  shows "climbs (fs + w) node \<and> h w \<noteq> None"
  using assms
proof (induction rule: wins.induct)
  case (leaf node w)
  then show ?case by (auto split: if_splits)
next
  case (pass node l r w)
  then show ?case using climbs_left [of "fs + w" node] climbs_right [of "fs + w" node] by (simp split: if_splits)
next
  case (play node l r w x y)
  then show ?case using climbs_left [of "fs + w" node] climbs_right [of "fs + w" node] by auto
qed

text \<open>A tournament depends only on the nodes and the streams under its node.\<close>

lemma wins_frame:
  assumes "wins h fs vals node w"
    and "\<And>d. climbs d node \<Longrightarrow> d < fs \<Longrightarrow> vals' ! d = vals ! d"
    and "\<And>j. climbs (fs + j) node \<Longrightarrow> h' j = h j"
  shows "wins h' fs vals' node w"
  using assms
proof (induction rule: wins.induct)
  case (leaf node w)
  then have "h' (node - fs) = h (node - fs)" by simp
  then show ?case using leaf(1,2) by (intro wins.leaf) simp_all
next
  case (pass node l r w)
  have "wins h' fs vals' (2 * node + 1) l" "wins h' fs vals' (2 * node + 2) r"
    using pass.IH pass.prems climbs_left climbs_right by blast+
  moreover have "vals' ! node = kEmpty" using pass by simp
  ultimately show ?case using wins.pass [of node fs h' vals' l r w] pass.hyps(1,5,6) by blast
next
  case (play node l r w x y)
  have sub: "wins h' fs vals' (2 * node + 1) l" "wins h' fs vals' (2 * node + 2) r"
    using play.IH play.prems climbs_left climbs_right by blast+
  have v: "vals' ! node = vals ! node" using play by simp
  have "climbs (fs + l) node" "climbs (fs + r) node"
    using wins_mem [OF play.hyps(2) play.hyps(4)] wins_mem [OF play.hyps(3) play.hyps(5)] climbs_left climbs_right by blast+
  then have "h' w = h w" "h' (vals ! node) = h (vals ! node)" using play.hyps(6) play.prems(2) by auto
  then show ?case using wins.play [of node fs h' vals' l r w x y] play.hyps sub v by simp
qed

lemma climbs_leaf:
  assumes "climbs (fs + j) node" "fs \<le> node" "j \<le> fs"
  shows "node = fs + j"
proof (rule ccontr)
  assume "node \<noteq> fs + j"
  then have "node < fs + j" "climbs ((fs + j - 1) div 2) node" using assms(1) by (subst (asm) climbs_eq, simp)+
  then show False using climbs_ge [of "(fs + j - 1) div 2" node] assms(2,3) by linarith
qed

text \<open>The winner has the least first element of the streams under the node.\<close>

lemma wins_least:
  assumes "wins h fs vals node w" "climbs (fs + j) node" "h j = Some z" "j \<le> fs" "fs < kEmpty"
  shows "w \<noteq> kEmpty \<and> (\<exists>x. h w = Some x \<and> x \<le> z)"
  using assms
proof (induction rule: wins.induct)
  case (leaf node w)
  then have "node = fs + j" using climbs_leaf by blast
  then show ?case using leaf by auto
next
  case (pass node l r w)
  have "fs + j \<noteq> node" using pass.hyps(1) by simp
  then have "climbs (fs + j) (2 * node + 1) \<or> climbs (fs + j) (2 * node + 2)"
    using pass.prems(1) climbs_children by blast
  then show ?case using pass.IH pass.prems(2-4) pass.hyps(5,6) by fastforce
next
  case (play node l r w x y)
  have "fs + j \<noteq> node" using play.hyps(1) by simp
  then have "climbs (fs + j) (2 * node + 1) \<or> climbs (fs + j) (2 * node + 2)"
    using play.prems(1) climbs_children by blast
  then have "(\<exists>x'. h l = Some x' \<and> x' \<le> z) \<or> (\<exists>x'. h r = Some x' \<and> x' \<le> z)"
    using play.IH play.prems(2-4) by blast
  then show ?case using play.hyps(4-9) by (auto intro: order_trans)
qed

lemma wins_empty:
  assumes "wins h fs vals node w" "w = kEmpty" "climbs d node" "d < fs"
  shows "vals ! d = kEmpty"
  using assms
proof (induction rule: wins.induct)
  case (leaf node w)
  then show ?case using climbs_ge [of d node] by simp
next
  case (pass node l r w)
  then have "l = kEmpty" "r = kEmpty" by (auto split: if_splits)
  then show ?case using pass climbs_children [of d node] by (cases "d = node") auto
next
  case (play node l r w x y)
  then show ?case by auto
qed

lemma wins_inner:
  assumes "wins h fs vals node w" "node < fs"
  obtains l r where "wins h fs vals (2 * node + 1) l" "wins h fs vals (2 * node + 2) r"
    "(l = kEmpty \<or> r = kEmpty) \<and> vals ! node = kEmpty \<and> w = (if l = kEmpty then r else l) \<or>
     l \<noteq> kEmpty \<and> r \<noteq> kEmpty \<and> ((w, vals ! node) = (l, r) \<or> (w, vals ! node) = (r, l))"
  using assms(1)
proof (cases rule: wins.cases)
  case leaf
  then show ?thesis using assms(2) by simp
next
  case (pass l r)
  then show ?thesis using that by blast
next
  case (play l r x y)
  then show ?thesis using that by blast
qed

definition up :: "nat \<Rightarrow> nat" where
  "up c = (c - 1) div 2"

text \<open>The other child of the parent of a node.\<close>

definition sibling :: "nat \<Rightarrow> nat" where
  "sibling c = (if odd c then c + 1 else c - 1)"

lemma sibling_parent:
  assumes "0 < c"
  shows "c = 2 * (up c) + 1 \<and> sibling c = 2 * (up c) + 2 \<or>
    c = 2 * (up c) + 2 \<and> sibling c = 2 * (up c) + 1"
proof (cases "odd c")
  case True
  then have "c = 2 * (up c) + 1" unfolding up_def by presburger
  with True show ?thesis by (simp add: sibling_def)
next
  case False
  then have "c = 2 * (up c) + 2" using assms unfolding up_def by presburger
  moreover from this have "c - 1 = 2 * (up c) + 1" by presburger
  ultimately show ?thesis using False unfolding sibling_def by presburger
qed

lemma sibling_disjoint:
  assumes "0 < c" "climbs d c"
  shows "\<not> climbs d (sibling c)"
  using sibling_parent [OF assms(1)] climbs_disjoint [of d "up c"] assms(2) by metis

lemma climbs_parent: "0 < c \<Longrightarrow> climbs d c \<Longrightarrow> climbs d (up c)"
proof -
  assume c: "0 < c" "climbs d c"
  then have "climbs c (up c)" by (subst climbs_eq) (auto simp: up_def)
  then show ?thesis using climbs_trans c(2) by blast
qed

lemma up_less: "0 < c \<Longrightarrow> up c < c"
  by (auto simp: up_def)

text \<open>On the path of the winner, the node stores the winner of the other side.\<close>

lemma wins_path:
  assumes "wins h fs vals (up c) u" "u \<noteq> kEmpty" "0 < c" "climbs (fs + u) c" "up c < fs"
  shows "wins h fs vals c u \<and> wins h fs vals (sibling c) (vals ! (up c))"
proof -
  let ?p = "up c"
  obtain l r where lr: "wins h fs vals (2 * ?p + 1) l" "wins h fs vals (2 * ?p + 2) r"
    and w: "(l = kEmpty \<or> r = kEmpty) \<and> vals ! ?p = kEmpty \<and> u = (if l = kEmpty then r else l) \<or>
     l \<noteq> kEmpty \<and> r \<noteq> kEmpty \<and> ((u, vals ! ?p) = (l, r) \<or> (u, vals ! ?p) = (r, l))"
    using wins_inner [OF assms(1,5)] by blast
  note dis = climbs_disjoint [of "fs + u" ?p]
  have mem: "l = u \<Longrightarrow> climbs (fs + u) (2 * ?p + 1)" "r = u \<Longrightarrow> climbs (fs + u) (2 * ?p + 2)"
    using wins_mem [OF lr(1)] wins_mem [OF lr(2)] assms(2) by auto
  from sibling_parent [OF assms(3)] show ?thesis
  proof (elim disjE conjE)
    assume c: "c = 2 * ?p + 1" "sibling c = 2 * ?p + 2"
    then have "r \<noteq> u" using mem(2) dis assms(4) by metis
    then have "l = u" "r = vals ! ?p" using w assms(2) by (auto split: if_splits)
    then show ?thesis using lr c by metis
  next
    assume c: "c = 2 * ?p + 2" "sibling c = 2 * ?p + 1"
    then have "l \<noteq> u" using mem(1) dis assms(4) by metis
    then have "r = u" "l = vals ! ?p" using w assms(2) by (auto split: if_splits)
    then show ?thesis using lr c by metis
  qed
qed

lemma wins_all_path:
  assumes "wins h fs vals 0 u" "u \<noteq> kEmpty" "u \<le> fs" "climbs (fs + u) c"
  shows "wins h fs vals c u"
  using assms(4)
proof (induction c rule: less_induct)
  case (less c)
  show ?case
  proof (cases "c = 0")
    case False
    let ?p = "up c"
    have p: "climbs (fs + u) ?p" "?p < c" using climbs_parent up_less less.prems False by auto
    have "?p < fs"
    proof (rule ccontr)
      assume "\<not> ?p < fs"
      then have "?p = fs + u" using climbs_leaf [OF p(1)] assms(3) by simp
      then show False using climbs_ge [OF less.prems] p(2) by simp
    qed
    with wins_path [OF less.IH [OF p(2,1)] assms(2) _ less.prems] False show ?thesis by simp
  qed (use assms in simp)
qed

text \<open>The result of a match at a node, the node's side first or second.\<close>

lemma wins_join:
  assumes "wins h fs vals c a" "wins h fs vals (sibling c) b" "0 < c" "up c < fs"
    and "(a = kEmpty \<or> b = kEmpty) \<and> vals ! (up c) = kEmpty \<and> w = (if a = kEmpty then b else a) \<or>
      a \<noteq> kEmpty \<and> b \<noteq> kEmpty \<and> ((w, vals ! (up c)) = (a, b) \<or> (w, vals ! (up c)) = (b, a)) \<and>
        h w = Some x \<and> h (vals ! (up c)) = Some y \<and> x \<le> y"
  shows "wins h fs vals (up c) w"
proof -
  let ?p = "up c"
  obtain l r where lr: "wins h fs vals (2 * ?p + 1) l" "wins h fs vals (2 * ?p + 2) r"
    "(l, r) = (a, b) \<or> (l, r) = (b, a)"
    using sibling_parent [OF assms(3)] assms(1,2) by metis
  from assms(5) show ?thesis
  proof (elim disjE conjE)
    assume "vals ! ?p = kEmpty" "w = (if a = kEmpty then b else a)" "a = kEmpty"
    then show ?thesis using wins.pass [OF assms(4) lr(1,2), of w] lr(3) by auto
  next
    assume "vals ! ?p = kEmpty" "w = (if a = kEmpty then b else a)" "b = kEmpty"
    then show ?thesis using wins.pass [OF assms(4) lr(1,2), of w] lr(3) by auto
  qed (use wins.play [OF assms(4) lr(1,2), of w x y] lr(3) in auto)
qed

section \<open>A value that climbs\<close>

lemma parent_eq: "c < 65536 \<Longrightarrow> parent c = up c"
  by (simp add: parent_def TIndex_def up_def)

lemma child_eq: "node < 32767 \<Longrightarrow> leftChild node = 2 * node + 1" "node < 32767 \<Longrightarrow> rightChild node = 2 * node + 2"
  by (simp_all add: leftChild_def rightChild_def TIndex_def)

lemma compare_head:
  "head ss i = Some x \<Longrightarrow> head ss j = Some y \<Longrightarrow>
     compare (ss ! i) (ss ! j) = (if x < y then - 1 else if x = y then 0 else 1)"
  by (auto simp: head_def compare_def split: if_splits)

text \<open>
  What holds while a value climbs: it has won the subtree of \<open>c\<close>, and every node above stores the
  winner of the side that does not contain \<open>c\<close>.
\<close>

definition climbing :: "(nat \<Rightarrow> 'a::linorder option) \<Rightarrow> nat \<Rightarrow> nat list \<Rightarrow> nat \<Rightarrow> nat \<Rightarrow> bool" where
  "climbing h fs vals c val \<longleftrightarrow> wins h fs vals c val \<and>
     (\<forall>c'. 0 < c' \<longrightarrow> climbs c c' \<longrightarrow> wins h fs vals (sibling c') (vals ! (up c')))"

lemma frame_below:
  assumes "wins h fs vals c w" "\<not> climbs p c"
  shows "wins h fs (vals[p := x]) c w"
  using assms(1)
proof (rule wins_frame)
  fix d assume "climbs d c"
  then have "d \<noteq> p" using assms(2) by blast
  then show "vals[p := x] ! d = vals ! d" by simp
qed simp

lemma climbing_up:
  assumes "climbing h fs vals c val" "0 < c" "up c < fs" "fs = length vals"
    and "vals' = vals[up c := loser]" "wins h fs vals' (up c) val'"
  shows "climbing h fs vals' (up c) val'"
  unfolding climbing_def
proof (intro conjI allI impI assms(6))
  let ?p = "up c"
  fix c' assume c': "0 < c'" "climbs ?p c'"
  have "c' \<le> ?p" using climbs_ge [OF c'(2)] .
  then have "up c' \<noteq> ?p" using up_less [OF c'(1)] by linarith
  then have v: "vals' ! (up c') = vals ! (up c')" using assms(5) by simp
  have "climbs c c'" using climbs_parent [OF assms(2) climbs_refl] climbs_trans c'(2) by blast
  then have "wins h fs vals (sibling c') (vals ! (up c'))" using assms(1) c'(1) by (simp add: climbing_def)
  from frame_below [OF this sibling_disjoint [OF c']] have "wins h fs vals' (sibling c') (vals ! (up c'))"
    using assms(5) by simp
  then show "wins h fs vals' (sibling c') (vals' ! (up c'))" by (simp add: v)
qed

lemma parent_not_below: "0 < c \<Longrightarrow> \<not> climbs (up c) c \<and> \<not> climbs (up c) (sibling c)"
  using climbs_ge [of "up c" c] climbs_ge [of "up c" "sibling c"] sibling_parent [of c] by linarith

text \<open>The match of one round of the loop: the new winner and what the node stores.\<close>

definition match_result :: "'a::linorder list list \<Rightarrow> nat \<Rightarrow> nat \<Rightarrow> nat \<times> nat" where
  "match_result streams stored val =
     (if stored = kEmpty then (val, stored)
      else if val = kEmpty then (stored, kEmpty)
      else if compare (streams ! stored) (streams ! val) < 0 then (stored, val)
      else (val, stored))"

lemma match_wins:
  assumes "climbing (head ss) fs vals c val" "0 < c" "up c < fs" "fs = length vals"
    and "match_result ss (vals ! (up c)) val = (val', stored')"
  shows "wins (head ss) fs (vals[up c := stored']) (up c) val'"
proof -
  let ?p = "up c" and ?v = "vals ! (up c)"
  let ?vals' = "vals[?p := stored']"
  have w: "wins (head ss) fs vals c val" "wins (head ss) fs vals (sibling c) ?v"
    using assms(1,2) by (simp_all add: climbing_def)
  have w': "wins (head ss) fs ?vals' c val" "wins (head ss) fs ?vals' (sibling c) ?v"
    using frame_below [OF w(1)] frame_below [OF w(2)] parent_not_below [OF assms(2)] by blast+
  have s: "?vals' ! ?p = stored'" using assms(3,4) by simp
  show ?thesis
  proof (cases "val = kEmpty \<or> ?v = kEmpty")
    case True
    then show ?thesis
      using assms(5) by (intro wins_join [OF w' assms(2,3)]) (auto simp: s match_result_def split: if_splits)
  next
    case False
    then obtain x y where xy: "head ss val = Some x" "head ss ?v = Some y"
      using wins_mem [OF w(1)] wins_mem [OF w(2)] by blast
    show ?thesis
    proof (cases "y < x")
      case True
      then show ?thesis using False assms(5) xy compare_head [OF xy(2,1)]
        by (intro wins_join [OF w' assms(2,3), of val' y x]) (auto simp: s match_result_def)
    next
      case nless: False
      then show ?thesis using False assms(5) xy compare_head [OF xy(2,1)]
        by (intro wins_join [OF w' assms(2,3), of val' x y]) (auto simp: s match_result_def split: if_splits)
    qed
  qed
qed

end
