(* ===== verification/Tree_Of_Losers_Next.thy ===== *)
theory Tree_Of_Losers_Next
  imports Tree_Tournament
begin

text \<open>
  Correctness of the constructor of \<open>TreeOfLosers\<close> and of \<open>next\<close>: with at most 32768 streams, \<open>first\<close>
  and \<open>propagate\<close> stay inside the arrays, return at a recursion depth of 16, and give a stream with the
  least first element.
\<close>

section \<open>\<open>propagate\<close> and \<open>first\<close>\<close>

lemma list_update_noop: "xs ! i = v \<Longrightarrow> xs[i := v] = xs"
  by auto

lemma propagate_loop_match:
  assumes "node < length vals" "match_result ss (vals ! node) val = (val', stored')"
  shows "propagate_loop ss vals node val =
    (if node = 0 then Inr (val', vals[node := stored'])
     else propagate_loop ss (vals[node := stored']) (parent node) val')"
proof -
  have "(if vals ! node = kEmpty then (val, vals)
         else if val = kEmpty then (vals ! node, vals[node := kEmpty])
         else if compare (ss ! (vals ! node)) (ss ! val) < 0 then (vals ! node, vals[node := val])
         else (val, vals)) = (val', vals[node := stored'])"
    using assms(2) by (simp add: match_result_def list_update_noop split: if_splits)
  then show ?thesis using assms(1) by (subst propagate_loop.simps) simp
qed

lemma propagate_loop_wins:
  assumes "climbing (head ss) fs vals c val" "0 < c" "c \<le> 2 * fs" "fs = length vals" "fs < 32768"
  shows "\<exists>w vals'. propagate_loop ss vals (parent c) val = Inr (w, vals') \<and> length vals' = fs \<and>
    wins (head ss) fs vals' 0 w"
  using assms
proof (induction c arbitrary: vals val rule: less_induct)
  case (less c)
  let ?p = "up c"
  have p: "?p < fs" "?p < c" "parent c = ?p"
    using less.prems parent_eq [of c] up_less [of c] sibling_parent [of c] by auto
  obtain val' stored' where m: "match_result ss (vals ! ?p) val = (val', stored')"
    by (cases "match_result ss (vals ! ?p) val")
  note w = match_wins [OF less.prems(1,2) p(1) less.prems(4) m]
  note step = propagate_loop_match [OF _ m]
  show ?case
  proof (cases "?p = 0")
    case True
    then show ?thesis using step w p less.prems(4) by (auto simp: p(3))
  next
    case False
    have "climbing (head ss) fs (vals[?p := stored']) ?p val'"
      using climbing_up [OF less.prems(1,2) p(1) less.prems(4) refl w] .
    from less.IH [OF p(2) this] obtain w' vals' where
      "propagate_loop ss (vals[?p := stored']) (parent ?p) val' = Inr (w', vals')" "length vals' = fs"
      "wins (head ss) fs vals' 0 w'" using False p(1) less.prems(4,5) by auto
    then show ?thesis using step False p less.prems(4) by auto
  qed
qed

text \<open>Skipping the empty nodes first makes no difference.\<close>

lemma propagate_is_loop: "propagate ss vals node val = propagate_loop ss vals node val"
proof (induction node rule: less_induct)
  case (less node)
  show ?case
  proof (cases "node < length vals \<and> vals ! node = kEmpty \<and> node \<noteq> 0")
    case True
    have "parent node < node"
      using True by (auto simp: parent_def TIndex_def intro: le_less_trans [OF mod_less_eq_dividend])
    moreover have "propagate ss vals node val = propagate ss vals (parent node) val"
      using True by (simp add: propagate_def) (subst skip_empty.simps, simp)
    moreover have "propagate_loop ss vals node val = propagate_loop ss vals (parent node) val"
      using True by (subst propagate_loop.simps) simp
    ultimately show ?thesis using less by simp
  next
    case False
    then show ?thesis
      unfolding propagate_def
      by (subst skip_empty.simps) (auto simp: propagate_loop.simps [of ss vals node val])
  qed
qed

text \<open>The match of \<open>first\<close> at a node whose children have been played; \<open>tie\<close> decides equal elements.\<close>

lemma first_match:
  assumes "node < fs" "wins h fs v (2 * node + 1) l" "wins h fs v (2 * node + 2) r" "v ! node = kEmpty" "length v = fs"
    and "l \<noteq> kEmpty \<Longrightarrow> r \<noteq> kEmpty \<Longrightarrow> (w, x) = (l, r) \<and> the (h l) \<le> the (h r) \<or> (w, x) = (r, l) \<and> the (h r) \<le> the (h l)"
    and "v' = (if l = kEmpty \<or> r = kEmpty then v else v[node := x])"
    and "l = kEmpty \<Longrightarrow> w = r" "l \<noteq> kEmpty \<Longrightarrow> r = kEmpty \<Longrightarrow> w = l"
  shows "wins h fs v' node w"
proof (cases "l = kEmpty \<or> r = kEmpty")
  case True
  then show ?thesis using assms(4,7-9) by (intro wins.pass [OF assms(1-3), of w, THEN wins_frame]) auto
next
  case False
  let ?v = "v[node := x]"
  have "\<not> climbs node (2 * node + 1)" "\<not> climbs node (2 * node + 2)"
    using climbs_ge [of node "2 * node + 1"] climbs_ge [of node "2 * node + 2"] by auto
  then have w: "wins h fs ?v (2 * node + 1) l" "wins h fs ?v (2 * node + 2) r"
    using frame_below assms(2,3) by blast+
  obtain y z where yz: "h l = Some y" "h r = Some z"
    using wins_mem [OF assms(2)] wins_mem [OF assms(3)] False by auto
  have "?v ! node = x" using assms(1,5) by simp
  moreover have "(w, x) = (l, r) \<and> y \<le> z \<or> (w, x) = (r, l) \<and> z \<le> y" using assms(6) False yz by simp
  ultimately show ?thesis
    using wins.play [OF assms(1) w, of w y z] wins.play [OF assms(1) w, of w z y] False yz assms(7) by auto
qed

lemma first_leaf:
  "fs \<le> node \<Longrightarrow> node \<le> 2 * fs \<Longrightarrow> length ss = fs + 1 \<Longrightarrow>
     first (Suc k) ss fs vals node = Inr (if head ss (node - fs) = None then kEmpty else node - fs, vals)"
  by (simp add: head_def less_diff_conv2)

lemma first_wins:
  assumes "fs < (node + 1) * 2 ^ k" "length ss = fs + 1" "node \<le> 2 * fs" "fs < 32768" "length vals = fs"
    and "\<And>d. climbs d node \<Longrightarrow> d < fs \<Longrightarrow> vals ! d = kEmpty"
  shows "\<exists>w vals'. first (Suc k) ss fs vals node = Inr (w, vals') \<and> length vals' = fs \<and>
    wins (head ss) fs vals' node w \<and> (\<forall>d. \<not> climbs d node \<longrightarrow> vals' ! d = vals ! d)"
  using assms
proof (induction k arbitrary: node vals)
  case 0
  then have "fs \<le> node" by simp
  moreover have "wins (head ss) fs vals node (if head ss (node - fs) = None then kEmpty else node - fs)"
    using \<open>fs \<le> node\<close> by (intro wins.leaf) simp_all
  ultimately show ?case using first_leaf [of fs node ss 0 vals] 0(2,3,5) by simp
next
  case (Suc k)
  show ?case
  proof (cases "fs \<le> node")
    case True
    moreover have "wins (head ss) fs vals node (if head ss (node - fs) = None then kEmpty else node - fs)"
      using True by (intro wins.leaf) simp_all
    ultimately show ?thesis using first_leaf [OF True Suc.prems(3,2), of "Suc k" vals] Suc.prems(5) by simp
  next
    case False
    let ?l = "2 * node + 1" and ?r = "2 * node + 2"
    have ch: "leftChild node = ?l" "rightChild node = ?r" using child_eq [of node] False Suc.prems(4) by auto
    have lr: "?l \<le> 2 * fs" "?r \<le> 2 * fs" using False by auto
    have "fs < (?l + 1) * 2 ^ k" "fs < (?r + 1) * 2 ^ k" using Suc.prems(1) by (simp_all add: algebra_simps)
    note bounds = this
    from Suc.IH [OF bounds(1) Suc.prems(2) lr(1) Suc.prems(4,5)] Suc.prems(6) climbs_left obtain wl v1 where
      l: "first (Suc k) ss fs vals ?l = Inr (wl, v1)" "length v1 = fs" "wins (head ss) fs v1 ?l wl"
      "\<forall>d. \<not> climbs d ?l \<longrightarrow> v1 ! d = vals ! d" by blast
    have "v1 ! d = kEmpty" if "climbs d ?r" "d < fs" for d
      using l(4) climbs_disjoint [of d node] that Suc.prems(6) [OF climbs_right [OF that(1)]] by auto
    from Suc.IH [OF bounds(2) Suc.prems(2) lr(2) Suc.prems(4) l(2) this] obtain wr v2 where
      r: "first (Suc k) ss fs v1 ?r = Inr (wr, v2)" "length v2 = fs" "wins (head ss) fs v2 ?r wr"
      "\<forall>d. \<not> climbs d ?r \<longrightarrow> v2 ! d = v1 ! d" by blast
    have wl: "wins (head ss) fs v2 ?l wl"
    proof (rule wins_frame [OF l(3)])
      fix d assume "climbs d ?l"
      then show "v2 ! d = v1 ! d" using r(4) climbs_disjoint [of d node] by blast
    qed simp
    have out: "v2 ! d = vals ! d" if "\<not> climbs d node" for d
      using l(4) r(4) that climbs_left climbs_right by metis
    have node: "v2 ! node = kEmpty"
      using l(4) r(4) climbs_ge [of node ?l] climbs_ge [of node ?r] Suc.prems(6) [of node] False by fastforce
    let ?less = "compare (ss ! wl) (ss ! wr) < 0"
    let ?w = "if wl = kEmpty then wr else if wr = kEmpty then wl else if ?less then wl else wr"
    let ?v = "if wl = kEmpty \<or> wr = kEmpty then v2 else v2[node := if ?less then wr else wl]"
    have "wins (head ss) fs ?v node ?w"
    proof (rule first_match [OF _ wl r(3) node r(2), where x = "if ?less then wr else wl"])
      assume "wl \<noteq> kEmpty" "wr \<noteq> kEmpty"
      then obtain x y where xy: "head ss wl = Some x" "head ss wr = Some y"
        using wins_mem [OF wl] wins_mem [OF r(3)] by auto
      then show "(?w, if ?less then wr else wl) = (wl, wr) \<and> the (head ss wl) \<le> the (head ss wr) \<or>
          (?w, if ?less then wr else wl) = (wr, wl) \<and> the (head ss wr) \<le> the (head ss wl)"
        using compare_head [OF xy] \<open>wl \<noteq> kEmpty\<close> \<open>wr \<noteq> kEmpty\<close> by (auto split: if_splits)
    qed (use False in auto)
    moreover have "first (Suc (Suc k)) ss fs vals node = Inr (?w, ?v)"
      using l(1) r(1) False ch by (simp del: first.simps(2) add: first.simps(2) [of "Suc k"])
    moreover have "?v ! d = vals ! d" if "\<not> climbs d node" for d
    proof -
      have "node \<noteq> d" using that climbs_refl by blast
      then show ?thesis using out [OF that] by simp
    qed
    moreover have "length ?v = fs" using r(2) by simp
    ultimately show ?thesis by blast
  qed
qed

section \<open>The constructor\<close>

lemma level_loop_spec:
  assumes "level_loop n s l = (s', l')" "l = 2 ^ i" "s + 1 = l" "l div 2 < n \<or> l = 1"
  shows "s' + 1 = l' \<and> n \<le> l' \<and> (\<exists>j. l' = 2 ^ j) \<and> (l' div 2 < n \<or> l' = 1)"
  using assms
proof (induction n s l arbitrary: i rule: level_loop.induct)
  case (1 n s l)
  show ?case
  proof (cases "0 < l \<and> n > l")
    case True
    then have "level_loop n (s + l) (l * 2) = (s', l')" using 1(2) by (subst (asm) level_loop.simps) simp
    moreover have "l * 2 = 2 ^ Suc i" "s + l + 1 = l * 2" "l * 2 div 2 < n" using 1(3,4) True by simp_all
    ultimately show ?thesis using 1(1) [OF True] by blast
  next
    case False
    then have "s' = s" "l' = l" "n \<le> l" using 1(2,3) by (subst (asm) level_loop.simps, auto)+
    then show ?thesis using 1(3-5) by blast
  qed
qed

lemma power_of_two_between:
  assumes "(2::nat) ^ j div 2 < 2 ^ k" "2 ^ k \<le> (2::nat) ^ j"
  shows "(2::nat) ^ j = 2 ^ k"
proof -
  have "k \<le> j" using assms(2) by simp
  moreover have "j \<le> k"
  proof (cases j)
    case (Suc i)
    then show ?thesis using assms(1) by (simp add: Suc_leI)
  qed simp
  ultimately show ?thesis by simp
qed

text \<open>The first leaf follows the \<open>n - 1\<close> inner nodes.\<close>

lemma TreeOfLosers_new_eq:
  assumes "1 \<le> length ss" "length ss < kEmpty"
  shows "TreeOfLosers_new ss = Inr \<lparr>tol_streams = ss, tol_values = replicate (length ss - 1) kEmpty,
    tol_equals = replicate (length ss - 1) False, tol_lastIndex = kEmpty, tol_firstStream = length ss - 1\<rparr>"
proof -
  let ?n = "length ss"
  obtain s l where loop: "level_loop ?n 0 1 = (s, l)" by (cases "level_loop ?n 0 1")
  obtain j where l: "s + 1 = l" "?n \<le> l" "l = 2 ^ j" "l div 2 < ?n \<or> l = 1"
    using level_loop_spec [OF loop, of 0] by (metis add_0 div_less less_2_cases_iff power_0)
  have small: "0 < ?n" "?n \<le> 2 ^ 63" using assms by (linarith, simp)
  obtain k where k: "nextPowerOfTwo ?n = 2 ^ k" "?n \<le> 2 ^ k" "2 ^ k < 2 * ?n"
    using nextPowerOfTwo_spec [of ?n] small by blast
  have "(if ?n = nextPowerOfTwo ?n then s else (s - l div 2) + (?n - l div 2)) = ?n - 1"
  proof (cases "?n = nextPowerOfTwo ?n")
    case True
    then have n: "?n = 2 ^ k" using k(1) by simp
    have "2 ^ j div 2 < (2::nat) ^ k" using l(3,4) n by (auto simp: l(3))
    moreover have "(2::nat) ^ k \<le> 2 ^ j" using l(2,3) n by simp
    ultimately have "l = ?n" using power_of_two_between [of j k] l(3) n by simp
    then show ?thesis using True l(1) by simp
  next
    case False
    have "l \<noteq> 1"
    proof
      assume "l = 1"
      then have n: "?n = 1" using l(2) assms(1) by simp
      then have "(2::nat) ^ k < 2" using k(3) by linarith
      moreover have "1 \<le> (2::nat) ^ k" by simp
      ultimately have "(2::nat) ^ k = 1" by linarith
      then show False using False k(1) n by simp
    qed
    then obtain i where "j = Suc i" using l(3) by (cases j) auto
    then have "l = 2 * (l div 2)" using l(3) by simp
    then have "(s - l div 2) + (?n - l div 2) = ?n - 1" using l(1,2,4) \<open>l \<noteq> 1\<close> by linarith
    then show ?thesis using False by simp
  qed
  then show ?thesis
    using assms by (simp add: TreeOfLosers_new_def check_def loop Let_def del: One_nat_def split: if_splits)
qed

section \<open>\<open>next\<close>\<close>

text \<open>
  What holds between two calls. Either no stream has been returned and all nodes are empty, or the
  stored losers are those of a tournament that the last returned stream has won; only the last
  returned stream may have changed since.
\<close>

definition tree_inv :: "'a::linorder TreeOfLosers \<Rightarrow> bool" where
  "tree_inv t \<longleftrightarrow>
     1 \<le> length (tol_streams t) \<and> length (tol_streams t) \<le> 32768 \<and>
     tol_firstStream t + 1 = length (tol_streams t) \<and> length (tol_values t) = tol_firstStream t \<and>
     (tol_lastIndex t = kEmpty \<and> (\<forall>d < tol_firstStream t. tol_values t ! d = kEmpty) \<or>
      1 < length (tol_streams t) \<and> tol_lastIndex t < length (tol_streams t) \<and>
      (\<exists>h. wins h (tol_firstStream t) (tol_values t) 0 (tol_lastIndex t) \<and>
        (\<forall>j. j \<noteq> tol_lastIndex t \<longrightarrow> h j = head (tol_streams t) j)))"

definition pop_stream :: "nat \<Rightarrow> 'a TreeOfLosers \<Rightarrow> 'a TreeOfLosers" where
  "pop_stream i t = t\<lparr>tol_streams := (tol_streams t)[i := tl (tol_streams t ! i)]\<rparr>"

text \<open>The stream to return: one with the least first element, or none when all are at the end.\<close>

definition least_stream :: "'a::linorder list list \<Rightarrow> nat option \<Rightarrow> bool" where
  "least_stream ss r \<longleftrightarrow>
     (case r of None \<Rightarrow> \<forall>j < length ss. \<not> hasData (ss ! j)
      | Some i \<Rightarrow> i < length ss \<and> hasData (ss ! i) \<and> (\<forall>j < length ss. hasData (ss ! j) \<longrightarrow> hd (ss ! i) \<le> hd (ss ! j)))"

lemma head_None: "head ss j = None \<longleftrightarrow> j < length ss \<longrightarrow> \<not> hasData (ss ! j)"
  by (simp add: head_def)

lemma head_Some: "head ss j = Some x \<longleftrightarrow> j < length ss \<and> hasData (ss ! j) \<and> hd (ss ! j) = x"
  by (auto simp: head_def)

lemma head_update: "j \<noteq> i \<Longrightarrow> head (ss[i := s]) j = head ss j"
  by (simp add: head_def)

lemma wins_index:
  assumes "wins (head ss) fs vals node w" "w \<noteq> kEmpty"
  shows "w < length ss"
  using wins_mem [OF assms] head_None [of ss w] by auto

lemma wins_root_least:
  assumes "wins (head ss) fs vals 0 w" "fs + 1 = length ss" "fs < kEmpty"
  shows "least_stream ss (if w = kEmpty then None else Some w)"
proof -
  have le: "w \<noteq> kEmpty \<and> hasData (ss ! w) \<and> hd (ss ! w) \<le> hd (ss ! j)" if "j < length ss" "hasData (ss ! j)" for j
    using wins_least [OF assms(1), of j "hd (ss ! j)"] that assms(2,3) by (auto simp: head_Some)
  show ?thesis
  proof (cases "w = kEmpty")
    case True
    then show ?thesis using le by (auto simp: least_stream_def)
  next
    case False
    then show ?thesis using le wins_index [OF assms(1)] wins_mem [OF assms(1)] head_None [of ss w]
      by (auto simp: least_stream_def)
  qed
qed

lemma wins_climbing:
  assumes "wins h fs vals 0 u" "u \<noteq> kEmpty" "u \<le> fs" "\<And>j. j \<noteq> u \<Longrightarrow> h' j = h j"
  shows "climbing h' fs vals (fs + u) (if h' u = None then kEmpty else u)"
  unfolding climbing_def
proof (intro conjI allI impI)
  show "wins h' fs vals (fs + u) (if h' u = None then kEmpty else u)" by (intro wins.leaf) simp_all
  fix c assume c: "0 < c" "climbs (fs + u) c"
  have p: "climbs (fs + u) (up c)" using climbs_parent c by blast
  have "up c < fs"
  proof (rule ccontr)
    assume "\<not> up c < fs"
    then have "up c = fs + u" using climbs_leaf [OF p] assms(3) by simp
    then show False using climbs_ge [OF c(2)] up_less [OF c(1)] by simp
  qed
  from wins_path [OF wins_all_path [OF assms(1-3) p] assms(2) c this]
  have "wins h fs vals (sibling c) (vals ! up c)" by blast
  then show "wins h' fs vals (sibling c) (vals ! up c)"
  proof (rule wins_frame)
    fix j assume "climbs (fs + j) (sibling c)"
    then have "j \<noteq> u" using sibling_disjoint [OF c] by blast
    then show "h' j = h j" by (rule assms(4))
  qed simp
qed

lemma tree_next_wins:
  assumes "tree_inv t" "16 \<le> depth" "tol_values t \<noteq> []"
  shows "\<exists>w vals. tree_next depth t =
      Inr (if w = kEmpty then None else Some w, t\<lparr>tol_values := vals, tol_lastIndex := w\<rparr>) \<and>
    length vals = tol_firstStream t \<and> wins (head (tol_streams t)) (tol_firstStream t) vals 0 w"
proof -
  let ?ss = "tol_streams t" and ?fs = "tol_firstStream t" and ?vals = "tol_values t" and ?u = "tol_lastIndex t"
  have inv: "?fs + 1 = length ?ss" "?fs < 32768" "length ?vals = ?fs" using assms(1) by (auto simp: tree_inv_def)
  show ?thesis
  proof (cases "?u = kEmpty")
    case True
    obtain k where k: "depth = Suc k" "15 \<le> k" using assms(2) by (cases depth) auto
    have "(2::nat) ^ 15 \<le> 2 ^ k" using k(2) by (intro power_increasing) auto
    then have "?fs < (0 + 1) * 2 ^ k" using inv(2) by simp
    moreover have "?vals ! d = kEmpty" if "d < ?fs" for d using assms(1) True that by (auto simp: tree_inv_def)
    ultimately obtain w vals where "first depth ?ss ?fs ?vals 0 = Inr (w, vals)" "length vals = ?fs"
      "wins (head ?ss) ?fs vals 0 w"
      using first_wins [of ?fs 0 k ?ss ?vals] inv k(1) by auto
    then show ?thesis using True assms(3) by (intro exI [of _ w] exI [of _ vals]) (simp add: tree_next_def)
  next
    case False
    then obtain h where h: "?u < length ?ss" "wins h ?fs ?vals 0 ?u" "\<And>j. j \<noteq> ?u \<Longrightarrow> h j = head ?ss j"
      using assms(1) unfolding tree_inv_def by blast
    have u: "?u \<le> ?fs" "0 < ?fs" using h(1) inv(1,3) assms(3) length_greater_0_conv [of ?vals] by linarith+
    have "climbing (head ?ss) ?fs ?vals (?fs + ?u) (if head ?ss ?u = None then kEmpty else ?u)"
      using wins_climbing [OF h(2) False u(1)] h(3) by metis
    from propagate_loop_wins [OF this _ _ inv(3) [symmetric] inv(2)] u obtain w vals where
      "propagate_loop ?ss ?vals (parent (?fs + ?u)) (if head ?ss ?u = None then kEmpty else ?u) = Inr (w, vals)"
      "length vals = ?fs" "wins (head ?ss) ?fs vals 0 w" by force
    moreover have "TIndex (?fs + ?u) = ?fs + ?u" using u(1) inv(2) by (simp add: TIndex_def)
    moreover have "(if hasData (?ss ! ?u) then ?u else kEmpty) = (if head ?ss ?u = None then kEmpty else ?u)"
      using h(1) by (simp add: head_None)
    ultimately have "propagate ?ss ?vals (parent (TIndex (?fs + ?u))) (if hasData (?ss ! ?u) then ?u else kEmpty) =
      Inr (w, vals)" by (simp only: propagate_is_loop)
    then show ?thesis using False \<open>length vals = ?fs\<close> \<open>wins (head ?ss) ?fs vals 0 w\<close>
      by (intro exI [of _ w] exI [of _ vals]) (simp add: tree_next_def)
  qed
qed

lemma tree_inv_after:
  assumes "tree_inv t" "length vals = tol_firstStream t" "wins (head (tol_streams t)) (tol_firstStream t) vals 0 w"
    "tol_values t \<noteq> []" "w \<noteq> kEmpty \<Longrightarrow> i = w"
  shows "tree_inv (t\<lparr>tol_values := vals, tol_lastIndex := w, tol_equals := e, tol_streams := (tol_streams t)[i := s]\<rparr>)"
proof (cases "w = kEmpty")
  case True
  then show ?thesis using assms(1,2) wins_empty [OF assms(3)] by (auto simp: tree_inv_def)
next
  case False
  then have "w < length (tol_streams t)" using wins_index [OF assms(3)] by blast
  moreover have "1 < length (tol_streams t)"
    using assms(1,4) length_greater_0_conv [of "tol_values t"] unfolding tree_inv_def by linarith
  moreover have "\<forall>j. j \<noteq> w \<longrightarrow> head (tol_streams t) j = head ((tol_streams t)[i := s]) j"
    using assms(5) False head_update by metis
  ultimately show ?thesis using assms(1-3) unfolding tree_inv_def by auto
qed

lemma tree_next_single:
  assumes "tree_inv t" "tol_values t = []"
  shows "tree_next depth t = Inr (if hasData (tol_streams t ! 0) then Some 0 else None, t)"
    "length (tol_streams t) = 1" "tol_lastIndex t = kEmpty"
  using assms by (auto simp: tree_inv_def tree_next_def)

lemma least_stream_single:
  "length ss = 1 \<Longrightarrow> least_stream ss (if hasData (ss ! 0) then Some 0 else None)"
  by (simp add: least_stream_def)

text \<open>Every call returns a stream with the least first element, and the caller may then advance that stream in any way.\<close>

lemma tree_next_spec:
  assumes "tree_inv t" "16 \<le> depth"
  shows "\<exists>r t'. tree_next depth t = Inr (r, t') \<and> tree_inv t' \<and> tol_streams t' = tol_streams t \<and>
    least_stream (tol_streams t) r \<and>
    (\<forall>i s. r = Some i \<longrightarrow> tree_inv (t'\<lparr>tol_streams := (tol_streams t')[i := s]\<rparr>))"
proof (cases "tol_values t = []")
  case True
  note single = tree_next_single [OF assms(1) True]
  have "tree_inv (t\<lparr>tol_streams := (tol_streams t)[i := s]\<rparr>)" for i s
    using assms(1) single(3) True by (auto simp: tree_inv_def)
  moreover have "least_stream (tol_streams t) (if hasData (tol_streams t ! 0) then Some 0 else None)"
    using least_stream_single single(2) .
  ultimately show ?thesis using single(1) assms(1) by blast
next
  case False
  from tree_next_wins [OF assms False] obtain w vals where
    n: "tree_next depth t = Inr (if w = kEmpty then None else Some w, t\<lparr>tol_values := vals, tol_lastIndex := w\<rparr>)"
      (is "_ = Inr (?r, ?t')")
    and w: "length vals = tol_firstStream t" "wins (head (tol_streams t)) (tol_firstStream t) vals 0 w" by blast
  have after: "w \<noteq> kEmpty \<longrightarrow> i = w \<Longrightarrow>
      tree_inv (t\<lparr>tol_values := vals, tol_lastIndex := w, tol_equals := tol_equals t, tol_streams := (tol_streams t)[i := s]\<rparr>)"
    for i s using tree_inv_after [OF assms(1) w False] by blast
  have "tree_inv ?t'" using after [of w "tol_streams t ! w"] by simp
  moreover have "tree_inv (?t'\<lparr>tol_streams := (tol_streams ?t')[i := s]\<rparr>)" if "?r = Some i" for i s
    using after [of i s] that by (simp split: if_splits)
  moreover have "least_stream (tol_streams t) ?r"
    using wins_root_least [OF w(2)] assms(1) by (simp add: tree_inv_def)
  ultimately show ?thesis using n by auto
qed

lemma tree_inv_new:
  assumes "1 \<le> length ss" "length ss \<le> 32768"
  shows "\<exists>t. TreeOfLosers_new ss = Inr t \<and> tree_inv t \<and> tol_streams t = ss"
  using TreeOfLosers_new_eq [of ss] assms by (simp add: tree_inv_def)

text \<open>The runs of a caller: \<open>next\<close>, then any change of the stream it returned.\<close>

inductive tree_run :: "'a::linorder list list \<Rightarrow> 'a TreeOfLosers \<Rightarrow> bool" for ss where
  start: "TreeOfLosers_new ss = Inr t \<Longrightarrow> tree_run ss t"
| advance: "tree_run ss t \<Longrightarrow> tree_next 16 t = Inr (Some i, t') \<Longrightarrow>
    tree_run ss (t'\<lparr>tol_streams := (tol_streams t')[i := s]\<rparr>)"
| finished: "tree_run ss t \<Longrightarrow> tree_next 16 t = Inr (None, t') \<Longrightarrow> tree_run ss t'"

lemma tree_run_inv:
  assumes "tree_run ss t" "1 \<le> length ss" "length ss \<le> 32768"
  shows "tree_inv t"
  using assms(1)
proof induction
  case (start t)
  then show ?case using tree_inv_new [OF assms(2,3)] by auto
next
  case (advance t i t' s)
  then show ?case using tree_next_spec [of t 16] by auto
next
  case (finished t t')
  then show ?case using tree_next_spec [of t 16] by auto
qed

section \<open>Too many streams\<close>

text \<open>
  With more than 32768 streams the right child of node 32767 does not fit into \<open>TIndex\<close>: it is the root.
  The nodes on the leftmost path are \<open>2 ^ i - 1\<close>.
\<close>

lemma first_never_returns:
  assumes "32768 \<le> fs" "fs < 65535" "length ss = fs + 1" "i \<le> 15"
  shows "first depth ss fs vals (2 ^ i - 1) = Inl StackExhausted"
  using assms(4)
proof (induction depth arbitrary: i vals)
  case (Suc k)
  have "(2::nat) ^ i \<le> 2 ^ 15" using Suc.prems by (intro power_increasing) auto
  then have inner: "\<not> fs \<le> 2 ^ i - 1" using assms(1) by simp
  show ?case
  proof (cases "i = 15")
    case True
    have children: "leftChild 32767 = 65535" "rightChild 32767 = 0"
      by (simp_all add: leftChild_def rightChild_def TIndex_def)
    have "first k ss fs v 0 = Inl StackExhausted" for v using Suc.IH [of 0 v] by simp
    moreover have "first k ss fs vals 65535 = Inl StackExhausted \<or> (\<exists>w. first k ss fs vals 65535 = Inr (w, vals))"
      using assms(1-3) by (cases k) auto
    ultimately show ?thesis using inner True children by auto
  next
    case False
    then have "Suc i \<le> 15" using Suc.prems by simp
    have "(2::nat) ^ Suc i \<le> 2 ^ 15" using \<open>Suc i \<le> 15\<close> by (intro power_increasing) auto
    moreover have "1 \<le> (2::nat) ^ i" by simp
    then have "(2 ^ i - 1) * 2 + 1 = (2::nat) ^ Suc i - 1" unfolding power_Suc by linarith
    ultimately have "leftChild (2 ^ i - 1) = 2 ^ Suc i - 1" by (simp add: leftChild_def TIndex_def)
    then show ?thesis using inner Suc.IH [OF \<open>Suc i \<le> 15\<close>, of vals] by simp
  qed
qed simp

end
