(* ===== verification/Tree_Of_Losers_Equals.thy ===== *)
theory Tree_Of_Losers_Equals
  imports Tree_Of_Losers_Next
begin

text \<open>
  Correctness of \<open>nextWithEquals\<close>: the flag that comes with a stream tells exactly if another stream has
  an equal first element.
\<close>

section \<open>\<open>nextWithEquals\<close>\<close>

text \<open>Another stream under the node has an equal first element.\<close>

definition twin :: "(nat \<Rightarrow> 'a option) \<Rightarrow> nat \<Rightarrow> nat \<Rightarrow> nat \<Rightarrow> bool" where
  "twin h fs node v \<longleftrightarrow> (\<exists>j. j \<noteq> v \<and> climbs (fs + j) node \<and> h j = h v)"

text \<open>The flag of a stored loser tells if it has a twin on the side it came from.\<close>

definition flags :: "(nat \<Rightarrow> 'a option) \<Rightarrow> nat \<Rightarrow> nat list \<Rightarrow> bool list \<Rightarrow> bool" where
  "flags h fs vals eqs \<longleftrightarrow>
     (\<forall>c. 0 < c \<longrightarrow> up c < fs \<longrightarrow> vals ! up c \<noteq> kEmpty \<longrightarrow> climbs (fs + vals ! up c) c \<longrightarrow>
        eqs ! up c = twin h fs c (vals ! up c))"

lemma flagsD:
  "flags h fs vals eqs \<Longrightarrow> 0 < c \<Longrightarrow> up c < fs \<Longrightarrow> vals ! up c \<noteq> kEmpty \<Longrightarrow> climbs (fs + vals ! up c) c \<Longrightarrow>
     eqs ! up c = twin h fs c (vals ! up c)"
  unfolding flags_def by blast

lemma climbs_up_cases:
  assumes "0 < c" "d \<noteq> up c"
  shows "climbs d (up c) \<longleftrightarrow> climbs d c \<or> climbs d (sibling c)"
  using climbs_children [OF assms(2)] sibling_parent [OF assms(1)] by metis

text \<open>The twins of the winner of a match: those of its own side, and the winner of the other side.\<close>

lemma twin_up:
  assumes "wins h fs vals c a" "wins h fs vals (sibling c) b" "a \<noteq> kEmpty" "0 < c" "up c < fs" "fs < kEmpty"
    and "b \<noteq> kEmpty \<Longrightarrow> the (h a) \<le> the (h b)" "\<And>j. h j \<noteq> None \<Longrightarrow> j \<le> fs"
  shows "twin h fs (up c) a \<longleftrightarrow> twin h fs c a \<or> (b \<noteq> kEmpty \<and> h b = h a)"
proof
  assume "twin h fs (up c) a"
  then obtain j where j: "j \<noteq> a" "climbs (fs + j) (up c)" "h j = h a" by (auto simp: twin_def)
  show "twin h fs c a \<or> (b \<noteq> kEmpty \<and> h b = h a)"
  proof (cases "climbs (fs + j) c")
    case True
    then show ?thesis using j by (auto simp: twin_def)
  next
    case False
    then have s: "climbs (fs + j) (sibling c)" using climbs_up_cases [OF assms(4), of "fs + j"] j(2) assms(5) by auto
    obtain z where z: "h a = Some z" using wins_mem [OF assms(1,3)] by auto
    then obtain x where "b \<noteq> kEmpty" "h b = Some x" "x \<le> z"
      using wins_least [OF assms(2) s _ _ assms(6), of z] j(3) assms(8) [of j] by auto
    then show ?thesis using assms(7) z by auto
  qed
next
  assume "twin h fs c a \<or> (b \<noteq> kEmpty \<and> h b = h a)"
  then show "twin h fs (up c) a"
  proof (elim disjE conjE)
    assume "twin h fs c a"
    then show ?thesis using climbs_parent [OF assms(4)] by (auto simp: twin_def)
  next
    assume b: "b \<noteq> kEmpty" "h b = h a"
    have "climbs (fs + b) (sibling c)" "climbs (fs + a) c" 
      using wins_mem [OF assms(2) b(1)] wins_mem [OF assms(1,3)] by blast+
    moreover from this have "b \<noteq> a" using sibling_disjoint [OF assms(4)] by blast
    ultimately show ?thesis using b climbs_up_cases [OF assms(4), of "fs + b"] assms(5) by (auto simp: twin_def)
  qed
qed

text \<open>The match of one round with flags: the winner with its flag, and the stored loser with its flag.\<close>

definition match_flagged :: "'a::linorder list list \<Rightarrow> nat \<Rightarrow> bool \<Rightarrow> nat \<Rightarrow> bool \<Rightarrow> (nat \<times> bool) \<times> nat \<times> bool" where
  "match_flagged streams stored e val f =
     (if stored = kEmpty then ((val, f), stored, e)
      else if val = kEmpty then ((stored, e), kEmpty, False)
      else if compare (streams ! stored) (streams ! val) = 0 then ((val, True), stored, e)
      else if compare (streams ! stored) (streams ! val) < 0 then ((stored, e), val, f)
      else ((val, f), stored, e))"

lemma match_flagged_erase:
  "match_flagged ss stored e val f = ((val', f'), stored', e') \<Longrightarrow> match_result ss stored val = (val', stored')"
  by (auto simp: match_flagged_def match_result_def split: if_splits)

lemma propagateWithEquals_loop_match:
  assumes "node < length vals" "match_flagged ss (vals ! node) (eqs ! node) val f = (w, stored', e')"
  shows "propagateWithEquals_loop ss vals eqs node (val, f) =
    (if node = 0 then Inr (w, vals[node := stored'], eqs[node := e'])
     else propagateWithEquals_loop ss (vals[node := stored']) (eqs[node := e']) (parent node) w)"
proof -
  have "(if vals ! node = kEmpty then ((val, f), vals, eqs)
         else if fst (val, f) = kEmpty then
           ((vals ! node, eqs ! node), vals[node := kEmpty], eqs[node := False])
         else let comparison = compare (ss ! (vals ! node)) (ss ! fst (val, f))
              in if comparison = 0 then ((fst (val, f), True), vals, eqs)
                 else if comparison < 0 then
                   ((vals ! node, eqs ! node), vals[node := fst (val, f)], eqs[node := snd (val, f)])
                 else ((val, f), vals, eqs)) = (w, vals[node := stored'], eqs[node := e'])"
    using assms(2) by (auto simp: match_flagged_def Let_def list_update_noop split: if_splits)
  then show ?thesis using assms(1) by (subst propagateWithEquals_loop.simps) simp
qed

lemma sibling_twice:
  assumes "0 < c"
  shows "0 < sibling c \<and> up (sibling c) = up c \<and> sibling (sibling c) = c"
proof (cases "odd c")
  case True
  then show ?thesis by (simp add: sibling_def up_def) presburger
next
  case False
  then have "odd (c - 1)" "0 < c - 1" using assms by presburger+
  then show ?thesis using False by (simp add: sibling_def up_def) presburger
qed

lemma side_cases: "0 < c \<Longrightarrow> 0 < c' \<Longrightarrow> up c' = up c \<Longrightarrow> c' = c \<or> c' = sibling c"
  using sibling_parent [of c] sibling_parent [of c'] by metis

lemma flags_store:
  assumes "flags h fs vals eqs" "0 < c" "up c < fs" "length vals = fs" "length eqs = fs"
    and "v = kEmpty \<or> (v = vals ! up c \<and> e = eqs ! up c) \<or> (climbs (fs + v) c \<and> e = twin h fs c v)"
  shows "flags h fs (vals[up c := v]) (eqs[up c := e])"
  unfolding flags_def
proof (intro allI impI)
  fix c' assume c': "0 < c'" "up c' < fs" "vals[up c := v] ! up c' \<noteq> kEmpty"
    "climbs (fs + vals[up c := v] ! up c') c'"
  show "eqs[up c := e] ! up c' = twin h fs c' (vals[up c := v] ! up c')"
  proof (cases "up c' = up c")
    case True
    then have v: "vals[up c := v] ! up c' = v" "eqs[up c := e] ! up c' = e" using assms(3-5) by simp_all
    from assms(6) consider "v = kEmpty" | "v = vals ! up c" "e = eqs ! up c" | "climbs (fs + v) c" "e = twin h fs c v"
      by blast
    then show ?thesis
    proof cases
      case 1
      then show ?thesis using c'(3) v(1) by simp
    next
      case 2
      then show ?thesis using flagsD [OF assms(1) c'(1,2)] c'(3,4) v True by simp
    next
      case 3
      have "c' \<noteq> sibling c" using sibling_disjoint [OF assms(2) 3(1)] c'(4) v(1) by auto
      then show ?thesis using side_cases [OF assms(2) c'(1) True] 3 v by simp
    qed
  next
    case False
    then show ?thesis using flagsD [OF assms(1) c'(1,2)] c'(3,4) by simp
  qed
qed

lemma match_flags:
  assumes "climbing (head ss) fs vals c val" "flags (head ss) fs vals eqs" "val \<noteq> kEmpty \<Longrightarrow> f = twin (head ss) fs c val"
    and c: "0 < c" "up c < fs" and len: "length vals = fs" "length eqs = fs" "length ss = fs + 1" "fs < kEmpty"
    and m: "match_flagged ss (vals ! up c) (eqs ! up c) val f = ((val', f'), stored', e')"
  shows "flags (head ss) fs (vals[up c := stored']) (eqs[up c := e'])"
    "val' \<noteq> kEmpty \<Longrightarrow> f' = twin (head ss) fs (up c) val'"
proof -
  let ?v = "vals ! up c" and ?h = "head ss"
  have w: "wins ?h fs vals c val" "wins ?h fs vals (sibling c) ?v" using assms(1) c(1) by (simp_all add: climbing_def)
  have mem: "climbs (fs + val) c" if "val \<noteq> kEmpty" using wins_mem [OF w(1) that] by blast
  show "flags ?h fs (vals[up c := stored']) (eqs[up c := e'])"
    using m assms(3) mem by (intro flags_store [OF assms(2) c len(1,2)]) (auto simp: match_flagged_def split: if_splits)
  have dom: "j \<le> fs" if "?h j \<noteq> None" for j using that len(3) by (auto simp: head_def split: if_splits)
  have sc: "0 < sibling c" "up (sibling c) = up c" "sibling (sibling c) = c"
    using sibling_twice [OF c(1)] by blast+
  have e: "eqs ! up c = twin ?h fs (sibling c) ?v" if "?v \<noteq> kEmpty"
    using flagsD [OF assms(2) sc(1)] sc(2) c(2) that wins_mem [OF w(2) that] by simp
  note own = twin_up [OF w _ c len(4) _ dom]
  have "wins ?h fs vals (sibling (sibling c)) val" "up (sibling c) < fs" using w(1) sc c(2) by simp_all
  note other = twin_up [OF w(2) this(1) _ sc(1) this(2) len(4) _ dom]
  assume val': "val' \<noteq> kEmpty"
  show "f' = twin ?h fs (up c) val'"
  proof (cases "?v = kEmpty \<or> val = kEmpty")
    case True
    then show ?thesis using m val' own other assms(3) e sc(2) by (auto simp: match_flagged_def split: if_splits)
  next
    case False
    then obtain x y where xy: "?h val = Some x" "?h ?v = Some y"
      using wins_mem [OF w(1)] wins_mem [OF w(2)] by blast
    show ?thesis
      using m False own other assms(3) e sc(2) xy compare_head [OF xy(2,1)]
      by (auto simp: match_flagged_def split: if_splits)
  qed
qed

lemma propagateWithEquals_loop_wins:
  assumes "climbing (head ss) fs vals c val" "0 < c" "c \<le> 2 * fs"
    and "flags (head ss) fs vals eqs" "val \<noteq> kEmpty \<Longrightarrow> f = twin (head ss) fs c val"
    and len: "length vals = fs" "length eqs = fs" "length ss = fs + 1" "fs < 32768"
  shows "\<exists>w g vals' eqs'. propagateWithEquals_loop ss vals eqs (parent c) (val, f) = Inr ((w, g), vals', eqs') \<and>
    length vals' = fs \<and> length eqs' = fs \<and> wins (head ss) fs vals' 0 w \<and> flags (head ss) fs vals' eqs' \<and>
    (w \<noteq> kEmpty \<longrightarrow> g = twin (head ss) fs 0 w)"
  using assms(1-7)
proof (induction c arbitrary: vals eqs val f rule: less_induct)
  case (less c)
  let ?p = "up c"
  have p: "?p < fs" "?p < c" "parent c = ?p"
    using less.prems(2,3) len(4) parent_eq [of c] up_less [of c] sibling_parent [of c] by auto
  obtain val' f' stored' e' where m: "match_flagged ss (vals ! ?p) (eqs ! ?p) val f = ((val', f'), stored', e')"
    by (metis surj_pair)
  note fs = less.prems(6,7)
  have small: "fs < kEmpty" using len(4) by simp
  note w = match_wins [OF less.prems(1,2) p(1) fs(1) [symmetric] match_flagged_erase [OF m]]
  note fl = match_flags [OF less.prems(1,4,5,2) p(1) fs len(3) small m]
  note step = propagateWithEquals_loop_match [OF _ m]
  let ?vals = "vals[?p := stored']" and ?eqs = "eqs[?p := e']"
  show ?case
  proof (cases "?p = 0")
    case True
    then have "propagateWithEquals_loop ss vals eqs (parent c) (val, f) = Inr ((val', f'), ?vals, ?eqs)"
      using step p fs(1) by simp
    moreover have "wins (head ss) fs ?vals 0 val'" "val' \<noteq> kEmpty \<longrightarrow> f' = twin (head ss) fs 0 val'"
      using w fl(2) True by simp_all
    moreover have "length ?vals = fs" "length ?eqs = fs" using fs by simp_all
    ultimately show ?thesis using fl(1) by blast
  next
    case False
    have "climbing (head ss) fs ?vals ?p val'"
      using climbing_up [OF less.prems(1,2) p(1) fs(1) [symmetric] refl w] .
    moreover have "0 < ?p" "?p \<le> 2 * fs" "length ?vals = fs" "length ?eqs = fs" using False p(1) fs by simp_all
    moreover have "propagateWithEquals_loop ss vals eqs (parent c) (val, f) =
        propagateWithEquals_loop ss ?vals ?eqs (parent ?p) (val', f')" using step False p fs(1) by simp
    ultimately show ?thesis using less.IH [OF p(2) _ _ _ fl] by metis
  qed
qed

lemma propagateWithEquals_is_loop:
  "propagateWithEquals ss vals eqs node v = propagateWithEquals_loop ss vals eqs node (v, False)"
proof (induction node rule: less_induct)
  case (less node)
  show ?case
  proof (cases "node < length vals \<and> vals ! node = kEmpty \<and> node \<noteq> 0")
    case True
    have "parent node < node"
      using True by (auto simp: parent_def TIndex_def intro: le_less_trans [OF mod_less_eq_dividend])
    moreover have "propagateWithEquals ss vals eqs node v = propagateWithEquals ss vals eqs (parent node) v"
      using True by (simp add: propagateWithEquals_def) (subst skip_empty.simps, simp)
    moreover have "propagateWithEquals_loop ss vals eqs node (v, False) =
        propagateWithEquals_loop ss vals eqs (parent node) (v, False)"
      using True by (subst propagateWithEquals_loop.simps) simp
    ultimately show ?thesis using less by simp
  next
    case False
    then show ?thesis
      unfolding propagateWithEquals_def
      by (subst skip_empty.simps) (auto simp: propagateWithEquals_loop.simps [of ss vals eqs node "(v, False)"])
  qed
qed

text \<open>The flags under a node; all flags when the node is the root.\<close>

definition flags_under :: "(nat \<Rightarrow> 'a option) \<Rightarrow> nat \<Rightarrow> nat list \<Rightarrow> bool list \<Rightarrow> nat \<Rightarrow> bool" where
  "flags_under h fs vals eqs node \<longleftrightarrow>
     (\<forall>c. 0 < c \<longrightarrow> up c < fs \<longrightarrow> climbs (up c) node \<longrightarrow> vals ! up c \<noteq> kEmpty \<longrightarrow> climbs (fs + vals ! up c) c \<longrightarrow>
        eqs ! up c = twin h fs c (vals ! up c))"

lemma flags_under_root: "flags_under h fs vals eqs 0 \<Longrightarrow> flags h fs vals eqs"
  by (simp add: flags_under_def flags_def)

lemma flags_under_frame:
  assumes "flags_under h fs vals eqs node"
    and "\<And>d. climbs d node \<Longrightarrow> d < fs \<Longrightarrow> vals' ! d = vals ! d \<and> eqs' ! d = eqs ! d"
  shows "flags_under h fs vals' eqs' node"
  using assms unfolding flags_under_def by metis

text \<open>The flags of a subtree are those of its two sides and that of its node.\<close>

lemma flags_under_node:
  assumes "flags_under h fs vals eqs (2 * node + 1)" "flags_under h fs vals eqs (2 * node + 2)"
    and "vals ! node = kEmpty \<or> (climbs (fs + vals ! node) (2 * node + 1) \<and> eqs ! node = twin h fs (2 * node + 1) (vals ! node)) \<or>
      (climbs (fs + vals ! node) (2 * node + 2) \<and> eqs ! node = twin h fs (2 * node + 2) (vals ! node))"
  shows "flags_under h fs vals eqs node"
  unfolding flags_under_def
proof (intro allI impI)
  fix c assume c: "0 < c" "up c < fs" "climbs (up c) node" "vals ! up c \<noteq> kEmpty" "climbs (fs + vals ! up c) c"
  show "eqs ! up c = twin h fs c (vals ! up c)"
  proof (cases "up c = node")
    case True
    then have "c = 2 * node + 1 \<or> c = 2 * node + 2" using sibling_parent [OF c(1)] by auto
    then show ?thesis using True c(4,5) assms(3) climbs_disjoint [of "fs + vals ! node" node] by metis
  next
    case False
    then have "climbs (up c) (2 * node + 1) \<or> climbs (up c) (2 * node + 2)" using climbs_children c(3) by blast
    then show ?thesis using assms(1,2) c unfolding flags_under_def by blast
  qed
qed

lemma child_simps:
  "up (2 * n + 1) = n" "up (2 * n + 2) = n" "sibling (2 * n + 1) = 2 * n + 2" "sibling (2 * n + 2) = 2 * n + 1"
  by (simp_all add: up_def sibling_def)

text \<open>The match of \<open>firstWithEquals\<close>: the winner with its flag, what the node stores, and its flag.\<close>

definition first_flagged ::
    "'a::linorder list list \<Rightarrow> nat \<times> bool \<Rightarrow> nat \<times> bool \<Rightarrow> (nat \<times> bool) \<times> (nat \<times> bool) option" where
  "first_flagged ss left right =
     (if fst left = kEmpty then (right, None)
      else if fst right = kEmpty then (left, None)
      else if compare (ss ! fst left) (ss ! fst right) = 0 then ((fst left, True), Some right)
      else if compare (ss ! fst left) (ss ! fst right) < 0 then (left, Some right)
      else (right, Some left))"

definition store :: "nat \<Rightarrow> 'b option \<Rightarrow> 'b list \<Rightarrow> 'b list" where
  "store node s xs = (case s of None \<Rightarrow> xs | Some x \<Rightarrow> xs[node := x])"

lemma length_store [simp]: "length (store node s xs) = length xs"
  by (simp add: store_def split: option.split)

lemma store_other: "d \<noteq> node \<Longrightarrow> store node s xs ! d = xs ! d"
  by (simp add: store_def split: option.split)

lemma store_under: "climbs d (2 * node + 1) \<or> climbs d (2 * node + 2) \<Longrightarrow> store node s xs ! d = xs ! d"
  using climbs_ge [of d "2 * node + 1"] climbs_ge [of d "2 * node + 2"] by (intro store_other) auto

lemma first_flagged_wins:
  assumes "node < fs" "length v = fs" "v ! node = kEmpty"
    and w: "wins (head ss) fs v (2 * node + 1) (fst left)" "wins (head ss) fs v (2 * node + 2) (fst right)"
    and m: "first_flagged ss left right = (won, s)"
  shows "wins (head ss) fs (store node (map_option fst s) v) node (fst won)"
proof (cases "fst left = kEmpty \<or> fst right = kEmpty")
  case True
  then have "wins (head ss) fs v node (fst won)" "s = None"
    using m assms(3) by (auto simp: first_flagged_def split: if_splits intro!: wins.pass [OF assms(1) w])
  then show ?thesis by (simp add: store_def)
next
  case False
  then obtain x y where xy: "head ss (fst left) = Some x" "head ss (fst right) = Some y"
    using wins_mem [OF w(1)] wins_mem [OF w(2)] by auto
  have "s \<noteq> None" using m False by (auto simp: first_flagged_def split: if_splits)
  then obtain z where z: "s = Some z" by blast
  have "(fst won, fst z) = (fst left, fst right) \<and> x \<le> y \<or> (fst won, fst z) = (fst right, fst left) \<and> y \<le> x"
    using m False z compare_head [OF xy] by (auto simp: first_flagged_def split: if_splits)
  then show ?thesis
    using xy False z by (intro first_match [OF assms(1) w assms(3,2), where x = "fst z"]) (auto simp: store_def)
qed

lemma first_flagged_twin:
  assumes w: "wins (head ss) fs v (2 * node + 1) (fst left)" "wins (head ss) fs v (2 * node + 2) (fst right)"
    and "node < fs" "fs < kEmpty" "length ss = fs + 1" and m: "first_flagged ss left right = (won, s)"
    and "fst left \<noteq> kEmpty \<Longrightarrow> snd left = twin (head ss) fs (2 * node + 1) (fst left)"
    and "fst right \<noteq> kEmpty \<Longrightarrow> snd right = twin (head ss) fs (2 * node + 2) (fst right)"
    and "fst won \<noteq> kEmpty"
  shows "snd won = twin (head ss) fs node (fst won)"
proof -
  let ?h = "head ss" and ?a = "fst left" and ?b = "fst right"
  have dom: "j \<le> fs" if "?h j \<noteq> None" for j using that assms(5) by (auto simp: head_def split: if_splits)
  have l: "twin ?h fs node ?a = (twin ?h fs (2 * node + 1) ?a \<or> ?b \<noteq> kEmpty \<and> ?h ?b = ?h ?a)"
    if "?a \<noteq> kEmpty" "?b \<noteq> kEmpty \<Longrightarrow> the (?h ?a) \<le> the (?h ?b)"
    using twin_up [of ?h fs v "2 * node + 1" ?a ?b, unfolded child_simps, OF w that(1) _ assms(3,4) that(2) dom] by simp
  have r: "twin ?h fs node ?b = (twin ?h fs (2 * node + 2) ?b \<or> ?a \<noteq> kEmpty \<and> ?h ?a = ?h ?b)"
    if "?b \<noteq> kEmpty" "?a \<noteq> kEmpty \<Longrightarrow> the (?h ?b) \<le> the (?h ?a)"
    using twin_up [of ?h fs v "2 * node + 2" ?b ?a, unfolded child_simps, OF w(2,1) that(1) _ assms(3,4) that(2) dom] by simp
  show ?thesis
  proof (cases "?a = kEmpty \<or> ?b = kEmpty")
    case True
    then show ?thesis using m assms(7-9) l r by (auto simp: first_flagged_def split: if_splits)
  next
    case False
    then obtain x y where xy: "?h ?a = Some x" "?h ?b = Some y"
      using wins_mem [OF w(1)] wins_mem [OF w(2)] by auto
    then show ?thesis using m False assms(7-9) l r compare_head [OF xy] by (auto simp: first_flagged_def split: if_splits)
  qed
qed

lemma first_flagged_flags:
  assumes w: "wins (head ss) fs v (2 * node + 1) (fst left)" "wins (head ss) fs v (2 * node + 2) (fst right)"
    and f: "flags_under (head ss) fs v e (2 * node + 1)" "flags_under (head ss) fs v e (2 * node + 2)"
    and "node < fs" "length v = fs" "length e = fs" "v ! node = kEmpty" and m: "first_flagged ss left right = (won, s)"
    and "fst left \<noteq> kEmpty \<Longrightarrow> snd left = twin (head ss) fs (2 * node + 1) (fst left)"
    and "fst right \<noteq> kEmpty \<Longrightarrow> snd right = twin (head ss) fs (2 * node + 2) (fst right)"
  shows "flags_under (head ss) fs (store node (map_option fst s) v) (store node (map_option snd s) e) node"
proof (rule flags_under_node)
  let ?v = "store node (map_option fst s) v" and ?e = "store node (map_option snd s) e"
  show "flags_under (head ss) fs ?v ?e (2 * node + 1)"
    by (rule flags_under_frame [OF f(1)]) (simp add: store_under del: add_2_eq_Suc' One_nat_def)
  show "flags_under (head ss) fs ?v ?e (2 * node + 2)"
    by (rule flags_under_frame [OF f(2)]) (simp add: store_under del: add_2_eq_Suc' One_nat_def)
  show "?v ! node = kEmpty \<or>
    (climbs (fs + ?v ! node) (2 * node + 1) \<and> ?e ! node = twin (head ss) fs (2 * node + 1) (?v ! node)) \<or>
    (climbs (fs + ?v ! node) (2 * node + 2) \<and> ?e ! node = twin (head ss) fs (2 * node + 2) (?v ! node))"
  proof (cases s)
    case None
    then show ?thesis using assms(8) by (simp add: store_def)
  next
    case (Some z)
    then have "z = left \<and> fst left \<noteq> kEmpty \<or> z = right \<and> fst right \<noteq> kEmpty"
      using m by (auto simp: first_flagged_def split: if_splits)
    then show ?thesis
      using Some assms(5-7,10,11) wins_mem [OF w(1)] wins_mem [OF w(2)] by (auto simp: store_def)
  qed
qed


lemma firstWithEquals_leaf:
  "fs \<le> node \<Longrightarrow> node \<le> 2 * fs \<Longrightarrow> length ss = fs + 1 \<Longrightarrow>
     firstWithEquals (Suc k) ss fs vals eqs node =
       Inr ((if head ss (node - fs) = None then kEmpty else node - fs, False), vals, eqs)"
  by (simp add: head_def less_diff_conv2)

lemma firstWithEquals_match:
  assumes "node < fs" "node < 32767"
    and "firstWithEquals k ss fs vals eqs (2 * node + 1) = Inr (left, v1, e1)"
    and "firstWithEquals k ss fs v1 e1 (2 * node + 2) = Inr (right, v2, e2)"
    and "first_flagged ss left right = (won, s)"
  shows "firstWithEquals (Suc k) ss fs vals eqs node =
    Inr (won, store node (map_option fst s) v2, store node (map_option snd s) e2)"
  using assms(1,3-5) child_eq [OF assms(2)]
  by (auto simp: first_flagged_def store_def Let_def split: if_splits)

definition flagged_tree :: "'a::linorder list list \<Rightarrow> nat \<Rightarrow> nat list \<Rightarrow> bool list \<Rightarrow> nat \<Rightarrow> nat \<times> bool \<Rightarrow> bool" where
  "flagged_tree ss fs vals eqs node w \<longleftrightarrow>
     length vals = fs \<and> length eqs = fs \<and> wins (head ss) fs vals node (fst w) \<and>
     flags_under (head ss) fs vals eqs node \<and> (fst w \<noteq> kEmpty \<longrightarrow> snd w = twin (head ss) fs node (fst w))"

lemma flagged_leaf:
  assumes "fs \<le> node" "node \<le> 2 * fs" "length ss = fs + 1" "length vals = fs" "length eqs = fs"
  shows "flagged_tree ss fs vals eqs node (if head ss (node - fs) = None then kEmpty else node - fs, False)"
proof -
  let ?w = "if head ss (node - fs) = None then kEmpty else node - fs"
  have "wins (head ss) fs vals node ?w" using wins.leaf [OF assms(1)] by blast
  moreover have "\<not> climbs (up c) node" if "up c < fs" for c using climbs_ge [of "up c" node] that assms(1) by auto
  then have "flags_under (head ss) fs vals eqs node" unfolding flags_under_def by blast
  moreover have "j = node - fs" if "climbs (fs + j) node" "head ss j \<noteq> None" for j
    using climbs_leaf [OF that(1) assms(1)] that(2) assms(3) head_None [of ss j] by auto
  then have "\<not> twin (head ss) fs node (node - fs)" if "head ss (node - fs) \<noteq> None"
    using that unfolding twin_def by metis
  ultimately show ?thesis using assms(4,5) by (simp add: flagged_tree_def)
qed

lemma flagged_frame:
  assumes "flagged_tree ss fs vals eqs node w" "length vals' = fs" "length eqs' = fs"
    and "\<And>d. climbs d node \<Longrightarrow> vals' ! d = vals ! d \<and> eqs' ! d = eqs ! d"
  shows "flagged_tree ss fs vals' eqs' node w"
proof -
  have "wins (head ss) fs vals' node (fst w)"
    using assms(1,4) by (auto simp: flagged_tree_def elim!: wins_frame)
  moreover have "flags_under (head ss) fs vals' eqs' node"
    using assms(1,4) by (auto simp: flagged_tree_def elim!: flags_under_frame)
  ultimately show ?thesis using assms(1-3) by (simp add: flagged_tree_def)
qed

lemma flagged_node:
  assumes "flagged_tree ss fs v e (2 * node + 1) left" "flagged_tree ss fs v e (2 * node + 2) right"
    and "node < fs" "fs < kEmpty" "length ss = fs + 1" "v ! node = kEmpty"
    and "first_flagged ss left right = (won, s)"
  shows "flagged_tree ss fs (store node (map_option fst s) v) (store node (map_option snd s) e) node won"
proof -
  note d = assms(1,2) [unfolded flagged_tree_def]
  have w: "wins (head ss) fs v (2 * node + 1) (fst left)" "wins (head ss) fs v (2 * node + 2) (fst right)"
    and f: "flags_under (head ss) fs v e (2 * node + 1)" "flags_under (head ss) fs v e (2 * node + 2)"
    and len: "length v = fs" "length e = fs" using d by blast+
  have t: "fst left \<noteq> kEmpty \<Longrightarrow> snd left = twin (head ss) fs (2 * node + 1) (fst left)"
    "fst right \<noteq> kEmpty \<Longrightarrow> snd right = twin (head ss) fs (2 * node + 2) (fst right)" using d by blast+
  show ?thesis
    unfolding flagged_tree_def
    using first_flagged_wins [OF assms(3) len(1) assms(6) w assms(7)]
      first_flagged_flags [OF w f assms(3) len assms(6,7) t]
      first_flagged_twin [OF w assms(3-5,7) t] len by simp
qed

lemma firstWithEquals_wins:
  assumes "fs < (node + 1) * 2 ^ k" "length ss = fs + 1" "node \<le> 2 * fs" "fs < 32768"
    "length vals = fs" "length eqs = fs" and "\<And>d. climbs d node \<Longrightarrow> d < fs \<Longrightarrow> vals ! d = kEmpty"
  shows "\<exists>w vals' eqs'. firstWithEquals (Suc k) ss fs vals eqs node = Inr (w, vals', eqs') \<and>
    flagged_tree ss fs vals' eqs' node w \<and> (\<forall>d. \<not> climbs d node \<longrightarrow> vals' ! d = vals ! d \<and> eqs' ! d = eqs ! d)"
  using assms
proof (induction k arbitrary: node vals eqs)
  case 0
  then have "fs \<le> node" by simp
  then show ?case using firstWithEquals_leaf [of fs node ss 0] flagged_leaf [of fs node ss vals eqs] 0 by auto
next
  case (Suc k)
  show ?case
  proof (cases "fs \<le> node")
    case True
    then show ?thesis using firstWithEquals_leaf [of fs node ss "Suc k"] flagged_leaf [of fs node ss vals eqs] Suc.prems
      by auto
  next
    case False
    let ?l = "2 * node + 1" and ?r = "2 * node + 2"
    have lr: "?l \<le> 2 * fs" "?r \<le> 2 * fs" "node < fs" "node < 32767" using False Suc.prems(4) by auto
    have bounds: "fs < (?l + 1) * 2 ^ k" "fs < (?r + 1) * 2 ^ k" using Suc.prems(1) by (simp_all add: algebra_simps)
    from Suc.IH [OF bounds(1) Suc.prems(2) lr(1) Suc.prems(4-6)] Suc.prems(7) climbs_left obtain left v1 e1 where
      l: "firstWithEquals (Suc k) ss fs vals eqs ?l = Inr (left, v1, e1)" "flagged_tree ss fs v1 e1 ?l left"
      "\<forall>d. \<not> climbs d ?l \<longrightarrow> v1 ! d = vals ! d \<and> e1 ! d = eqs ! d" by blast
    have len1: "length v1 = fs" "length e1 = fs" using l(2) by (simp_all add: flagged_tree_def)
    have "v1 ! d = kEmpty" if "climbs d ?r" "d < fs" for d
      using l(3) climbs_disjoint [of d node] that Suc.prems(7) [OF climbs_right [OF that(1)]] by auto
    from Suc.IH [OF bounds(2) Suc.prems(2) lr(2) Suc.prems(4) len1 this] obtain right v2 e2 where
      r: "firstWithEquals (Suc k) ss fs v1 e1 ?r = Inr (right, v2, e2)" "flagged_tree ss fs v2 e2 ?r right"
      "\<forall>d. \<not> climbs d ?r \<longrightarrow> v2 ! d = v1 ! d \<and> e2 ! d = e1 ! d" by blast
    have len2: "length v2 = fs" "length e2 = fs" using r(2) by (simp_all add: flagged_tree_def)
    have l2: "flagged_tree ss fs v2 e2 ?l left"
      using flagged_frame [OF l(2) len2] r(3) climbs_disjoint [of _ node] by blast
    have node: "v2 ! node = kEmpty"
      using l(3) r(3) climbs_ge [of node ?l] climbs_ge [of node ?r] Suc.prems(7) [of node] False by fastforce
    obtain won s where m: "first_flagged ss left right = (won, s)" by (cases "first_flagged ss left right")
    have "store node x y ! d = y ! d" if "\<not> climbs d node" for d x and y :: "'b list"
      using that climbs_refl [of node] store_other [of d node] by metis
    moreover have "v2 ! d = vals ! d \<and> e2 ! d = eqs ! d" if "\<not> climbs d node" for d
      using l(3) r(3) that climbs_left climbs_right by metis
    ultimately have "\<forall>d. \<not> climbs d node \<longrightarrow> store node (map_option fst s) v2 ! d = vals ! d \<and>
      store node (map_option snd s) e2 ! d = eqs ! d" by metis
    moreover have "flagged_tree ss fs (store node (map_option fst s) v2) (store node (map_option snd s) e2) node won"
      using flagged_node [OF l2 r(2) lr(3) _ Suc.prems(2) node m] Suc.prems(4) by simp
    ultimately show ?thesis using firstWithEquals_match [OF lr(3,4) l(1) r(1) m] by blast
  qed
qed

text \<open>A change of the stream that has won leaves the flags right: no stored loser has it on its side.\<close>

lemma flags_change:
  assumes "flags h fs vals eqs" "wins h fs vals 0 u" "u \<noteq> kEmpty" "u \<le> fs" "\<And>j. j \<noteq> u \<Longrightarrow> h' j = h j"
  shows "flags h' fs vals eqs"
  unfolding flags_def
proof (intro allI impI)
  fix c assume c: "0 < c" "up c < fs" "vals ! up c \<noteq> kEmpty" "climbs (fs + vals ! up c) c"
  have u: "\<not> climbs (fs + u) c"
  proof
    assume a: "climbs (fs + u) c"
    note p = wins_all_path [OF assms(2-4) climbs_parent [OF c(1) a]]
    have "wins h fs vals (sibling c) (vals ! up c)" using wins_path [OF p assms(3) c(1) a c(2)] by blast
    then show False using wins_mem c(3,4) sibling_disjoint [OF c(1,4)] by blast
  qed
  have "h' j = h j" if "climbs (fs + j) c" for j using u that assms(5) by metis
  then have "twin h' fs c (vals ! up c) = twin h fs c (vals ! up c)" using c(4) unfolding twin_def by metis
  then show "eqs ! up c = twin h' fs c (vals ! up c)" using flagsD [OF assms(1) c] by simp
qed

definition equals_inv :: "'a::linorder TreeOfLosers \<Rightarrow> bool" where
  "equals_inv t \<longleftrightarrow> tree_inv t \<and> length (tol_equals t) = tol_firstStream t \<and>
     (tol_lastIndex t \<noteq> kEmpty \<longrightarrow> flags (head (tol_streams t)) (tol_firstStream t) (tol_values t) (tol_equals t))"

lemma nextWithEquals_wins:
  assumes "equals_inv t" "16 \<le> depth" "tol_values t \<noteq> []"
  shows "\<exists>w vals eqs. nextWithEquals depth t =
      Inr (if fst w = kEmpty then (None, False) else (Some (fst w), snd w),
        t\<lparr>tol_values := vals, tol_equals := eqs, tol_lastIndex := fst w\<rparr>) \<and>
    flagged_tree (tol_streams t) (tol_firstStream t) vals eqs 0 w"
proof -
  let ?ss = "tol_streams t" and ?fs = "tol_firstStream t" and ?vals = "tol_values t" and ?u = "tol_lastIndex t"
    and ?eqs = "tol_equals t"
  have tree: "tree_inv t" and le: "length ?eqs = ?fs" using assms(1) by (auto simp: equals_inv_def)
  have inv: "?fs + 1 = length ?ss" "?fs < 32768" "length ?vals = ?fs" using tree by (auto simp: tree_inv_def)
  show ?thesis
  proof (cases "?u = kEmpty")
    case True
    obtain k where k: "depth = Suc k" "15 \<le> k" using assms(2) by (cases depth) auto
    have "(2::nat) ^ 15 \<le> 2 ^ k" using k(2) by (intro power_increasing) auto
    then have "?fs < (0 + 1) * 2 ^ k" using inv(2) by simp
    moreover have "?vals ! d = kEmpty" if "d < ?fs" for d using tree True that by (auto simp: tree_inv_def)
    ultimately obtain w vals eqs where "firstWithEquals depth ?ss ?fs ?vals ?eqs 0 = Inr (w, vals, eqs)"
      "flagged_tree ?ss ?fs vals eqs 0 w"
      using firstWithEquals_wins [of ?fs 0 k ?ss ?vals ?eqs] inv le k(1) by auto
    then show ?thesis using True assms(3)
      by (intro exI [of _ w] exI [of _ vals] exI [of _ eqs]) (simp add: nextWithEquals_def)
  next
    case False
    then obtain h where h: "?u < length ?ss" "wins h ?fs ?vals 0 ?u" "\<And>j. j \<noteq> ?u \<Longrightarrow> h j = head ?ss j"
      using tree unfolding tree_inv_def by blast
    have u: "?u \<le> ?fs" "0 < ?fs" using h(1) inv(1,3) assms(3) length_greater_0_conv [of ?vals] by linarith+
    let ?val = "if head ?ss ?u = None then kEmpty else ?u"
    have c: "climbing (head ?ss) ?fs ?vals (?fs + ?u) ?val"
      using wins_climbing [OF h(2) False u(1)] h(3) by metis
    have f: "flags (head ?ss) ?fs ?vals ?eqs" using assms(1) False by (simp add: equals_inv_def)
    have "flagged_tree ?ss ?fs ?vals ?eqs (?fs + ?u) (?val, False)"
      using flagged_leaf [of ?fs "?fs + ?u" ?ss ?vals ?eqs, unfolded diff_add_inverse] u(1) inv(1,3) le by linarith
    then have t: "?val \<noteq> kEmpty \<Longrightarrow> False = twin (head ?ss) ?fs (?fs + ?u) ?val" by (simp add: flagged_tree_def)
    from propagateWithEquals_loop_wins [OF c _ _ f t inv(3) le inv(1) [symmetric] inv(2)] u obtain w g vals eqs where
      l: "propagateWithEquals_loop ?ss ?vals ?eqs (parent (?fs + ?u)) (?val, False) = Inr ((w, g), vals, eqs)"
      and w: "length vals = ?fs" "length eqs = ?fs" "wins (head ?ss) ?fs vals 0 w" "flags (head ?ss) ?fs vals eqs"
      "w \<noteq> kEmpty \<longrightarrow> g = twin (head ?ss) ?fs 0 w" by force
    have "TIndex (?fs + ?u) = ?fs + ?u" using u(1) inv(2) by (simp add: TIndex_def)
    moreover have "(if hasData (?ss ! ?u) then ?u else kEmpty) = ?val" using h(1) by (simp add: head_None)
    ultimately have "propagateWithEquals ?ss ?vals ?eqs (parent (TIndex (?fs + ?u)))
        (if hasData (?ss ! ?u) then ?u else kEmpty) = Inr ((w, g), vals, eqs)"
      using l by (simp only: propagateWithEquals_is_loop)
    moreover have "flagged_tree ?ss ?fs vals eqs 0 (w, g)"
      using w by (simp add: flagged_tree_def flags_under_def flags_def)
    ultimately show ?thesis using False
      by (intro exI [of _ "(w, g)"] exI [of _ vals] exI [of _ eqs]) (simp add: nextWithEquals_def)
  qed
qed

text \<open>The flag: another stream has an equal first element.\<close>

definition equal_elsewhere :: "'a list list \<Rightarrow> nat option \<Rightarrow> bool" where
  "equal_elsewhere ss r \<longleftrightarrow>
     (case r of None \<Rightarrow> False
      | Some i \<Rightarrow> \<exists>j < length ss. j \<noteq> i \<and> hasData (ss ! j) \<and> hd (ss ! j) = hd (ss ! i))"

lemma twin_root:
  assumes "head ss w \<noteq> None"
  shows "twin (head ss) fs 0 w \<longleftrightarrow> equal_elsewhere ss (Some w)"
  using assms by (auto simp: twin_def equal_elsewhere_def head_def split: if_splits)

lemma nextWithEquals_spec:
  assumes "equals_inv t" "16 \<le> depth"
  shows "\<exists>r t'. nextWithEquals depth t = Inr ((r, equal_elsewhere (tol_streams t) r), t') \<and> equals_inv t' \<and>
    tol_streams t' = tol_streams t \<and> least_stream (tol_streams t) r \<and> (\<forall>i. r = Some i \<longrightarrow> equals_inv (pop_stream i t'))"
proof (cases "tol_values t = []")
  case True
  have tree: "tree_inv t" using assms(1) by (simp add: equals_inv_def)
  note single = tree_next_single [OF tree True]
  let ?r = "if hasData (tol_streams t ! 0) then Some 0 else None"
  have "nextWithEquals depth t = Inr ((?r, equal_elsewhere (tol_streams t) ?r), t)"
    using single(2,3) True by (simp add: nextWithEquals_def equal_elsewhere_def)
  moreover have "equals_inv (pop_stream i t)" for i
    using assms(1) single(3) True by (auto simp: tree_inv_def pop_stream_def equals_inv_def)
  ultimately show ?thesis using assms(1) least_stream_single [OF single(2)] by blast
next
  case False
  let ?ss = "tol_streams t" and ?fs = "tol_firstStream t"
  have tree: "tree_inv t" using assms(1) by (simp add: equals_inv_def)
  have fs: "?fs + 1 = length ?ss" "?fs < kEmpty" using tree by (auto simp: tree_inv_def)
  from nextWithEquals_wins [OF assms False] obtain w g vals eqs where
    n: "nextWithEquals depth t = Inr (if w = kEmpty then (None, False) else (Some w, g),
        t\<lparr>tol_values := vals, tol_equals := eqs, tol_lastIndex := w\<rparr>)" (is "_ = Inr (_, ?t')")
    and ft: "flagged_tree ?ss ?fs vals eqs 0 (w, g)" by force
  let ?r = "if w = kEmpty then None else Some w"
  have w: "length vals = ?fs" "length eqs = ?fs" "wins (head ?ss) ?fs vals 0 w" "flags (head ?ss) ?fs vals eqs"
    "w \<noteq> kEmpty \<Longrightarrow> g = twin (head ?ss) ?fs 0 w" using ft flags_under_root by (auto simp: flagged_tree_def)
  have "nextWithEquals depth t = Inr ((?r, equal_elsewhere ?ss ?r), ?t')"
    using n w(5) twin_root [of ?ss w ?fs] wins_mem [OF w(3)] by (simp add: equal_elsewhere_def)
  moreover have after: "equals_inv (t\<lparr>tol_values := vals, tol_lastIndex := w, tol_equals := eqs, tol_streams := ?ss[i := s]\<rparr>)"
    (is "equals_inv ?t2") if "w \<noteq> kEmpty \<Longrightarrow> i = w" for i s
  proof -
    have "tree_inv ?t2" using tree_inv_after [OF tree w(1,3) False] that by blast
    moreover have "flags (head (?ss[i := s])) ?fs vals eqs" if "w \<noteq> kEmpty"
      using flags_change [OF w(4,3) that] wins_index [OF w(3) that] fs(1) head_update \<open>w \<noteq> kEmpty \<Longrightarrow> i = w\<close> [OF that]
      by (metis Suc_eq_plus1 less_Suc_eq_le)
    ultimately show ?thesis using w(2) by (simp add: equals_inv_def)
  qed
  have "equals_inv ?t'" using after [of w "?ss ! w"] by (cases t) simp
  moreover have "equals_inv (pop_stream i ?t')" if "?r = Some i" for i
    using after [of i "tl (?ss ! i)"] that by (cases t) (simp add: pop_stream_def split: if_splits)
  moreover have "least_stream ?ss ?r" using wins_root_least [OF w(3) fs] .
  moreover have "tol_streams ?t' = ?ss" by simp
  ultimately show ?thesis by blast
qed

lemma equals_inv_new:
  assumes "1 \<le> length ss" "length ss \<le> 32768"
  shows "\<exists>t. TreeOfLosers_new ss = Inr t \<and> equals_inv t \<and> tol_streams t = ss"
  using TreeOfLosers_new_eq [of ss] assms by (simp add: tree_inv_def equals_inv_def)

end
