(* ===== verification/Stream_Merger.thy ===== *)
theory Stream_Merger
  imports Velox_Prelude "HOL-Library.Multiset"
begin

text \<open>
  The interface that \<open>TreeOfLosers\<close> and \<open>MergeArray\<close> of \<open>velox/exec/TreeOfLosers.h\<close> share, and the loop
  of their callers: ask for the stream with the least first element, take that element, until no
  stream is returned. \<open>pull\<close> is one round; the loop is a partial function, so that it returns is part
  of what is proved.
\<close>

partial_function (option) drain :: "('s \<Rightarrow> ('r option \<times> 's) res) \<Rightarrow> 's \<Rightarrow> 'r list res option" where
  "drain pull s =
     (case pull s of
        Inl e \<Rightarrow> Some (Inl e)
      | Inr (None, s') \<Rightarrow> Some (Inr [])
      | Inr (Some x, s') \<Rightarrow>
          Option.bind (drain pull s') (\<lambda>rest. Some (rbind rest (\<lambda>xs. Inr (x # xs)))))"

lemma drain_None: "pull s = Inr (None, s') \<Longrightarrow> drain pull s = Some (Inr [])"
  by (subst drain.simps) simp

lemma drain_Some: "pull s = Inr (Some x, s') \<Longrightarrow> drain pull s' = Some (Inr xs) \<Longrightarrow> drain pull s = Some (Inr (x # xs))"
  by (subst drain.simps) simp

lemma sorted_list_of_add_mset_least:
  "(\<And>y. y \<in># M \<Longrightarrow> x \<le> y) \<Longrightarrow> sorted_list_of_multiset (add_mset x M) = x # sorted_list_of_multiset M"
  by (simp add: insort_is_Cons)

locale merger =
  fixes inv :: "'s \<Rightarrow> bool" and pending :: "'s \<Rightarrow> 'a::linorder multiset"
    and pull :: "'s \<Rightarrow> ('r option \<times> 's) res" and key :: "'r \<Rightarrow> 'a"
  assumes pull_step: "inv s \<Longrightarrow>
    (\<exists>s'. pull s = Inr (None, s') \<and> pending s = {#}) \<or>
    (\<exists>x s'. pull s = Inr (Some x, s') \<and> inv s' \<and> pending s = add_mset (key x) (pending s') \<and>
      (\<forall>y. y \<in># pending s' \<longrightarrow> key x \<le> y))"
begin

text \<open>The loop ends and gives every element, in order.\<close>

lemma drain_sorts:
  "inv s \<Longrightarrow> \<exists>xs. drain pull s = Some (Inr xs) \<and> map key xs = sorted_list_of_multiset (pending s)"
proof (induction "size (pending s)" arbitrary: s rule: less_induct)
  case less
  from pull_step [OF less.prems] show ?case
  proof (elim disjE exE conjE)
    fix s' assume "pull s = Inr (None, s')" "pending s = {#}"
    then show ?thesis using drain_None by fastforce
  next
    fix x s' assume p: "pull s = Inr (Some x, s')" "inv s'" "pending s = add_mset (key x) (pending s')"
      and x: "\<forall>y. y \<in># pending s' \<longrightarrow> key x \<le> y"
    from less.hyps [OF _ p(2)] p(3) obtain xs where
      xs: "drain pull s' = Some (Inr xs)" "map key xs = sorted_list_of_multiset (pending s')" by auto
    have "map key (x # xs) = sorted_list_of_multiset (pending s)"
      using sorted_list_of_add_mset_least [of "pending s'" "key x"] x xs(2) p(3) by (simp only: list.map)
    then show ?thesis using drain_Some [OF p(1) xs(1)] by blast
  qed
qed

end

text \<open>A merger that tells with each element if an equal one is still to come.\<close>

locale flag_merger = merger inv pending pull fst
  for inv :: "'s \<Rightarrow> bool" and pending :: "'s \<Rightarrow> 'a::linorder multiset"
    and pull :: "'s \<Rightarrow> (('a \<times> bool) option \<times> 's) res" +
  assumes pull_flag: "inv s \<Longrightarrow> pull s = Inr (Some x, s') \<Longrightarrow> snd x \<longleftrightarrow> fst x \<in># pending s'"
begin

lemma drain_flags:
  "inv s \<Longrightarrow> drain pull s = Some (Inr xs) \<Longrightarrow> i < length xs \<Longrightarrow>
     snd (xs ! i) \<longleftrightarrow> Suc i < length xs \<and> fst (xs ! Suc i) = fst (xs ! i)"
proof (induction xs arbitrary: s i)
  case (Cons y ys)
  from pull_step [OF Cons.prems(1)] show ?case
  proof (elim disjE exE conjE)
    fix s' assume "pull s = Inr (None, s')"
    then show ?thesis using drain_None Cons.prems(2) by fastforce
  next
    fix x s' assume p: "pull s = Inr (Some x, s')" "inv s'" "\<forall>y. y \<in># pending s' \<longrightarrow> fst x \<le> y"
    from drain_sorts [OF p(2)] obtain zs where
      zs: "drain pull s' = Some (Inr zs)" "map fst zs = sorted_list_of_multiset (pending s')" by blast
    then have eq: "y = x" "ys = zs" using drain_Some [OF p(1) zs(1)] Cons.prems(2) by auto
    show ?thesis
    proof (cases i)
      case 0
      have set: "set (map fst zs) = set_mset (pending s')" and sorted: "sorted (map fst zs)" using zs(2) by simp_all
      have "fst x \<in> set (map fst zs) \<longleftrightarrow> zs \<noteq> [] \<and> fst (zs ! 0) = fst x"
      proof (cases zs)
        case (Cons z zs')
        then have "fst z \<in># pending s'" using set by auto
        then have "fst x \<le> fst z" using p(3) by blast
        moreover have "fst z \<le> a" if "a \<in> set (map fst zs)" for a using that sorted Cons by auto
        ultimately show ?thesis using Cons by fastforce
      qed simp
      then show ?thesis using pull_flag [OF Cons.prems(1) p(1)] set eq 0 by auto
    next
      case (Suc k)
      then show ?thesis using Cons.IH [OF p(2), of k] zs(1) eq Cons.prems(3) by simp
    qed
  qed
qed simp

end

end
