(* ===== verification/Merge_Streams.thy ===== *)
theory Merge_Streams
  imports Tree_Of_Losers_Equals Stream_Merger
begin

text \<open>
  \<open>TreeOfLosers\<close> and \<open>MergeArray\<close> as instances of the interface for merging sorted streams: one round of
  a caller on each of them, and the proof that every round takes the least element that is left.
\<close>

section \<open>Draining a tree\<close>

text \<open>One round of a caller: \<open>next\<close>, then the first element of the returned stream is popped.\<close>

definition tree_pull :: "'a::linorder TreeOfLosers \<Rightarrow> ('a option \<times> 'a TreeOfLosers) res" where
  "tree_pull t =
     rbind (tree_next 16 t) (\<lambda>(r, t').
       case r of None \<Rightarrow> Inr (None, t')
       | Some i \<Rightarrow> Inr (Some (hd (tol_streams t' ! i)), pop_stream i t'))"

definition equals_pull :: "'a::linorder TreeOfLosers \<Rightarrow> (('a \<times> bool) option \<times> 'a TreeOfLosers) res" where
  "equals_pull t =
     rbind (nextWithEquals 16 t) (\<lambda>((r, flag), t').
       case r of None \<Rightarrow> Inr (None, t')
       | Some i \<Rightarrow> Inr (Some (hd (tol_streams t' ! i), flag), pop_stream i t'))"

definition tree_pending :: "'a TreeOfLosers \<Rightarrow> 'a multiset" where
  "tree_pending t = mset (concat (tol_streams t))"

lemma mset_concat_pop:
  assumes "i < length ss" "hasData (ss ! i)"
  shows "mset (concat ss) = add_mset (hd (ss ! i)) (mset (concat (ss[i := tl (ss ! i)])))"
proof -
  have u: "ss[i := tl (ss ! i)] = take i ss @ tl (ss ! i) # drop (Suc i) ss"
    using assms(1) by (simp add: upd_conv_take_nth_drop)
  have "mset (concat ss) = mset (concat (take i ss @ ss ! i # drop (Suc i) ss))"
    using id_take_nth_drop [OF assms(1)] by simp
  also have "\<dots> = mset (concat (take i ss)) + mset (ss ! i) + mset (concat (drop (Suc i) ss))" by simp
  also have "mset (ss ! i) = add_mset (hd (ss ! i)) (mset (tl (ss ! i)))"
    using assms(2) by (cases "ss ! i") (simp_all add: hasData_def)
  finally show ?thesis using u by simp
qed

lemma sorted_hd: "sorted s \<Longrightarrow> x \<in> set s \<Longrightarrow> hd s \<le> x"
  by (cases s) auto

lemma in_concat_nth: "y \<in> set (concat ss) \<longleftrightarrow> (\<exists>j < length ss. y \<in> set (ss ! j))"
  by (simp add: set_conv_nth [of ss]) blast

lemma least_stream_all:
  assumes "least_stream ss (Some i)" "\<forall>s \<in> set ss. sorted s" "y \<in> set (concat ss)"
  shows "hd (ss ! i) \<le> y"
proof -
  obtain j where j: "j < length ss" "y \<in> set (ss ! j)" using assms(3) in_concat_nth [of y ss] by auto
  then have "hd (ss ! i) \<le> hd (ss ! j)" using assms(1) by (auto simp: least_stream_def hasData_def)
  moreover have "hd (ss ! j) \<le> y" using sorted_hd [OF bspec [OF assms(2) nth_mem [OF j(1)]] j(2)] .
  ultimately show ?thesis by simp
qed

lemma all_update: "\<forall>s \<in> set ss. P s \<Longrightarrow> P x \<Longrightarrow> \<forall>s \<in> set (ss[i := x]). P s"
  using set_update_subset_insert [of ss i x] by blast

lemma least_stream_pop:
  assumes "least_stream ss (Some i)" "\<forall>s \<in> set ss. sorted s"
  shows "mset (concat ss) = add_mset (hd (ss ! i)) (mset (concat (ss[i := tl (ss ! i)])))"
    "\<forall>y. y \<in># mset (concat (ss[i := tl (ss ! i)])) \<longrightarrow> hd (ss ! i) \<le> y"
    "\<forall>s \<in> set (ss[i := tl (ss ! i)]). sorted s"
proof -
  have i: "i < length ss" "hasData (ss ! i)" using assms(1) by (auto simp: least_stream_def)
  show m: "mset (concat ss) = add_mset (hd (ss ! i)) (mset (concat (ss[i := tl (ss ! i)])))"
    using mset_concat_pop i .
  show "\<forall>y. y \<in># mset (concat (ss[i := tl (ss ! i)])) \<longrightarrow> hd (ss ! i) \<le> y"
  proof (intro allI impI)
    fix y assume "y \<in># mset (concat (ss[i := tl (ss ! i)]))"
    then have "y \<in># mset (concat ss)" using m by simp
    then show "hd (ss ! i) \<le> y" using least_stream_all [OF assms] by simp
  qed
  show "\<forall>s \<in> set (ss[i := tl (ss ! i)]). sorted s"
    using assms(2) i(1) by (intro all_update sorted_tl) simp_all
qed

lemma least_stream_none: "least_stream ss None \<Longrightarrow> mset (concat ss) = {#}"
  by (auto simp: least_stream_def hasData_def in_set_conv_nth)

interpretation tree: merger "\<lambda>t. tree_inv t \<and> (\<forall>s \<in> set (tol_streams t). sorted s)" tree_pending tree_pull id
proof
  fix t :: "'a TreeOfLosers"
  assume inv: "tree_inv t \<and> (\<forall>s \<in> set (tol_streams t). sorted s)"
  from tree_next_spec [of t 16] inv obtain r t' where
    n: "tree_next 16 t = Inr (r, t')" "tol_streams t' = tol_streams t" "least_stream (tol_streams t) r"
    "\<forall>i. r = Some i \<longrightarrow> tree_inv (pop_stream i t')" by (auto simp: pop_stream_def)
  show "(\<exists>s'. tree_pull t = Inr (None, s') \<and> tree_pending t = {#}) \<or>
    (\<exists>x s'. tree_pull t = Inr (Some x, s') \<and> (tree_inv s' \<and> (\<forall>s \<in> set (tol_streams s'). sorted s)) \<and>
      tree_pending t = add_mset (id x) (tree_pending s') \<and> (\<forall>y. y \<in># tree_pending s' \<longrightarrow> id x \<le> y))"
  proof (cases r)
    case None
    then show ?thesis using n(1,3) least_stream_none by (auto simp: tree_pull_def tree_pending_def)
  next
    case (Some i)
    note pop = least_stream_pop [of "tol_streams t" i] inv n(3)
    have "tree_pull t = Inr (Some (hd (tol_streams t ! i)), pop_stream i t')" using n(1,2) Some by (simp add: tree_pull_def)
    moreover have "tol_streams (pop_stream i t') = (tol_streams t)[i := tl (tol_streams t ! i)]"
      using n(2) by (simp add: pop_stream_def)
    ultimately show ?thesis using pop n(4) Some by (simp add: tree_pending_def)
  qed
qed

text \<open>With strictly increasing streams, an equal element elsewhere is one that is still to come.\<close>

lemma equal_elsewhere_pending:
  assumes "least_stream ss (Some i)" "\<forall>s \<in> set ss. sorted_wrt (<) s"
  shows "equal_elsewhere ss (Some i) \<longleftrightarrow> hd (ss ! i) \<in> set (concat (ss[i := tl (ss ! i)]))"
proof -
  let ?x = "hd (ss ! i)"
  have i: "i < length ss" "hasData (ss ! i)" using assms(1) by (auto simp: least_stream_def)
  have own: "?x \<notin> set (tl (ss ! i))"
    using assms(2) i by (cases "ss ! i") (fastforce simp: hasData_def dest: nth_mem)+
  have other: "?x \<in> set (ss ! j) \<longleftrightarrow> hasData (ss ! j) \<and> hd (ss ! j) = ?x" if "j < length ss" for j
  proof
    assume x: "?x \<in> set (ss ! j)"
    then have d: "hasData (ss ! j)" by (auto simp: hasData_def)
    have "sorted (ss ! j)" using assms(2) nth_mem [OF that] strict_sorted_imp_sorted by blast
    then have "hd (ss ! j) \<le> ?x" using sorted_hd x by blast
    moreover have "?x \<le> hd (ss ! j)" using assms(1) that d by (simp add: least_stream_def)
    ultimately show "hasData (ss ! j) \<and> hd (ss ! j) = ?x" using d by simp
  next
    assume "hasData (ss ! j) \<and> hd (ss ! j) = ?x"
    then show "?x \<in> set (ss ! j)" using hd_in_set [of "ss ! j"] by (simp add: hasData_def)
  qed
  have "?x \<in> set (concat (ss[i := tl (ss ! i)])) \<longleftrightarrow> (\<exists>j < length ss. ?x \<in> set (ss[i := tl (ss ! i)] ! j))"
    using in_concat_nth [of ?x "ss[i := tl (ss ! i)]"] by simp
  moreover have "?x \<in> set (ss[i := tl (ss ! i)] ! j) \<longleftrightarrow> j \<noteq> i \<and> ?x \<in> set (ss ! j)" if "j < length ss" for j
    using own that by (cases "j = i") simp_all
  ultimately show ?thesis using other by (auto simp: equal_elsewhere_def)
qed

interpretation equals_tree: flag_merger
  "\<lambda>t. equals_inv t \<and> (\<forall>s \<in> set (tol_streams t). sorted_wrt (<) s)" tree_pending equals_pull
proof
  fix t :: "'a TreeOfLosers"
  assume inv: "equals_inv t \<and> (\<forall>s \<in> set (tol_streams t). sorted_wrt (<) s)"
  have sorted: "\<forall>s \<in> set (tol_streams t). sorted s" using inv strict_sorted_imp_sorted by blast
  from nextWithEquals_spec [of t 16] inv obtain r t' where
    n: "nextWithEquals 16 t = Inr ((r, equal_elsewhere (tol_streams t) r), t')" "tol_streams t' = tol_streams t"
    "least_stream (tol_streams t) r" "\<forall>i. r = Some i \<longrightarrow> equals_inv (pop_stream i t')" by auto
  have pulled: "equals_pull t = Inr (Some (hd (tol_streams t ! i), equal_elsewhere (tol_streams t) (Some i)), pop_stream i t')"
    if "r = Some i" for i using n(1,2) that by (simp add: equals_pull_def)
  have streams: "tol_streams (pop_stream i t') = (tol_streams t)[i := tl (tol_streams t ! i)]" for i
    using n(2) by (simp add: pop_stream_def)
  {
    show "(\<exists>s'. equals_pull t = Inr (None, s') \<and> tree_pending t = {#}) \<or>
      (\<exists>x s'. equals_pull t = Inr (Some x, s') \<and> (equals_inv s' \<and> (\<forall>s \<in> set (tol_streams s'). sorted_wrt (<) s)) \<and>
        tree_pending t = add_mset (fst x) (tree_pending s') \<and> (\<forall>y. y \<in># tree_pending s' \<longrightarrow> fst x \<le> y))"
    proof (cases r)
      case None
      then show ?thesis using n(1,3) least_stream_none by (auto simp: equals_pull_def tree_pending_def)
    next
      case (Some i)
      have i: "i < length (tol_streams t)" using n(3) Some by (simp add: least_stream_def)
      have "sorted_wrt (<) (tl (tol_streams t ! i))" using inv i nth_mem by (cases "tol_streams t ! i") fastforce+
      then have "\<forall>s \<in> set (tol_streams (pop_stream i t')). sorted_wrt (<) s"
        unfolding streams using inv by (intro all_update) simp_all
      then show ?thesis
        using pulled [OF Some] least_stream_pop [of "tol_streams t" i] sorted n(3,4) Some streams by (simp add: tree_pending_def)
    qed
  next
    fix x s' assume p: "equals_pull t = Inr (Some x, s')"
    show "snd x = (fst x \<in># tree_pending s')"
    proof (cases r)
      case None
      then show ?thesis using p n(1) by (simp add: equals_pull_def)
    next
      case (Some i)
      then show ?thesis using p pulled [OF Some] equal_elsewhere_pending [of "tol_streams t" i] n(3) inv streams
        by (auto simp: tree_pending_def)
    qed
  }
qed

section \<open>Draining an array\<close>

definition array_pull :: "'a::linorder MergeArray \<Rightarrow> ('a option \<times> 'a MergeArray) res" where
  "array_pull a =
     rbind (array_next a) (\<lambda>(found, a').
       if found then
         case mra_streams a' of
           [] \<Rightarrow> Inl OutOfRange
         | s # rest \<Rightarrow> Inr (Some (hd s), a'\<lparr>mra_streams := tl s # rest\<rparr>)
       else Inr (None, a'))"

abbreviation by_head :: "'a::linorder list list \<Rightarrow> bool" where
  "by_head ss \<equiv> sorted_wrt (\<lambda>s t. hd s \<le> hd t) ss"

text \<open>
  What holds between two calls: all streams have data and are in the order of their first elements,
  except the first one after the first call, which has been popped.
\<close>

definition array_inv :: "'a::linorder MergeArray \<Rightarrow> bool" where
  "array_inv a \<longleftrightarrow>
     (let settled = (if mra_isFirst a then mra_streams a else tl (mra_streams a))
      in (\<not> mra_isFirst a \<longrightarrow> mra_streams a \<noteq> []) \<and> (\<forall>s \<in> set settled. hasData s) \<and> by_head settled)"

text \<open>\<open>std::sort\<close> returns the streams in the order of their first elements.\<close>

definition sorts_streams :: "('a::linorder list list \<Rightarrow> 'a list list) \<Rightarrow> bool" where
  "sorts_streams std_sort \<longleftrightarrow> 
     (\<forall>ss. (\<forall>s \<in> set ss. hasData s) \<longrightarrow> mset (std_sort ss) = mset ss \<and> by_head (std_sort ss))"

lemma array_inv_new: "sorts_streams std_sort \<Longrightarrow> array_inv (MergeArray_new std_sort ss)"
proof -
  assume "sorts_streams std_sort"
  then have s: "mset (std_sort (filter hasData ss)) = mset (filter hasData ss)" "by_head (std_sort (filter hasData ss))"
    by (simp_all add: sorts_streams_def)
  then show ?thesis using mset_eq_setD [OF s(1)] by (auto simp: array_inv_def MergeArray_new_def)
qed

text \<open>The position that \<open>std::lower_bound\<close> gives keeps the order.\<close>

lemma by_head_insert:
  assumes "by_head rest" "before = takeWhile (\<lambda>t. compare t s < 0) rest"
  shows "by_head (before @ s # drop (length before) rest)"
proof -
  let ?after = "drop (length before) rest"
  have rest: "rest = before @ ?after" using assms(2) by (metis takeWhile_dropWhile_id dropWhile_eq_drop)
  have b: "hd t < hd s" if "t \<in> set before" for t
    using that set_takeWhileD assms(2) by (fastforce simp: compare_def split: if_splits)
  have a: "hd s \<le> hd t" if "t \<in> set ?after" for t
  proof (cases ?after)
    case (Cons u us)
    then have "\<not> compare u s < 0"
      using assms(2) hd_dropWhile [of "\<lambda>t. compare t s < 0" rest] by (simp add: dropWhile_eq_drop)
    then have "hd s \<le> hd u" by (auto simp: compare_def split: if_splits)
    moreover have "by_head (u # us)" using assms(1) rest Cons by (metis sorted_wrt_append)
    ultimately show ?thesis using that Cons by auto
  qed (use that in simp)
  have "by_head before" "by_head ?after" "\<forall>x \<in> set before. \<forall>y \<in> set ?after. hd x \<le> hd y"
    using assms(1) rest by (metis sorted_wrt_append)+
  then show ?thesis using a b by (auto simp: sorted_wrt_append intro: less_imp_le)
qed

definition array_settled :: "'a::linorder MergeArray \<Rightarrow> bool" where
  "array_settled a \<longleftrightarrow> \<not> mra_isFirst a \<and> (\<forall>s \<in> set (mra_streams a). hasData s) \<and> by_head (mra_streams a)"

lemma array_next_spec:
  assumes "array_inv a"
  shows "\<exists>a'. array_next a = Inr (mra_streams a' \<noteq> [], a') \<and> array_settled a' \<and>
    mset (filter hasData (mra_streams a')) = mset (filter hasData (mra_streams a))"
proof (cases "mra_isFirst a")
  case True
  then show ?thesis using assms
    by (intro exI [of _ "a\<lparr>mra_isFirst := False\<rparr>"]) (simp add: array_next_def array_settled_def array_inv_def Let_def)
next
  case False
  then obtain s rest where ss: "mra_streams a = s # rest" "\<forall>t \<in> set rest. hasData t" "by_head rest"
    using assms by (cases "mra_streams a") (auto simp: array_inv_def Let_def)
  show ?thesis
  proof (cases "hasData s")
    case True
    let ?before = "takeWhile (\<lambda>t. compare t s < 0) rest"
    let ?ss = "?before @ s # drop (length ?before) rest"
    have m: "mset rest = mset ?before + mset (drop (length ?before) rest)"
      using takeWhile_dropWhile_id [of "\<lambda>t. compare t s < 0" rest] by (metis dropWhile_eq_drop mset_append)
    then have "set ?ss = insert s (set rest)" by (metis (no_types) list.set(2) mset.simps(2) mset_append set_mset_mset union_mset_add_mset_right)
    then have "array_settled (a\<lparr>mra_streams := ?ss\<rparr>)"
      using False True ss(2) by_head_insert [OF ss(3) refl] by (simp add: array_settled_def)
    moreover have "mset ?ss = mset (mra_streams a)" using m ss(1) by simp
    then have "mset (filter hasData ?ss) = mset (filter hasData (mra_streams a))" by (simp only: mset_filter)
    ultimately show ?thesis using False True ss(1) by (intro exI [of _ "a\<lparr>mra_streams := ?ss\<rparr>"]) (simp add: array_next_def Let_def)
  next
    case nodata: False
    then show ?thesis using False ss
      by (intro exI [of _ "a\<lparr>mra_streams := rest\<rparr>"]) (simp add: array_next_def array_settled_def)
  qed
qed

definition array_pending :: "'a MergeArray \<Rightarrow> 'a multiset" where
  "array_pending a = mset (concat (mra_streams a))"

lemma concat_filter_hasData: "mset (concat ss) = mset (concat (filter hasData ss))"
  by (induction ss) (auto simp: hasData_def)

lemma mset_concat_cong: "mset xs = mset ys \<Longrightarrow> mset (concat xs) = mset (concat ys)"
  by (metis mset_concat mset_map sum_mset_sum_list)

interpretation array: merger "\<lambda>a. array_inv a \<and> (\<forall>s \<in> set (mra_streams a). sorted s)" array_pending array_pull id
proof
  fix a :: "'a MergeArray"
  assume inv: "array_inv a \<and> (\<forall>s \<in> set (mra_streams a). sorted s)"
  from array_next_spec [of a] inv obtain a' where n: "array_next a = Inr (mra_streams a' \<noteq> [], a')" "array_settled a'"
    "mset (filter hasData (mra_streams a')) = mset (filter hasData (mra_streams a))" by blast
  have p: "array_pending a' = array_pending a"
    using mset_concat_cong [OF n(3)] concat_filter_hasData [of "mra_streams a"] concat_filter_hasData [of "mra_streams a'"]
    by (simp add: array_pending_def)
  have "filter hasData (mra_streams a') = mra_streams a'" using n(2) by (simp add: array_settled_def)
  then have "set (mra_streams a') \<subseteq> set (mra_streams a)" using mset_eq_setD [OF n(3)] by auto
  then have sorted: "\<forall>s \<in> set (mra_streams a'). sorted s" using inv by blast
  show "(\<exists>s'. array_pull a = Inr (None, s') \<and> array_pending a = {#}) \<or>
    (\<exists>x s'. array_pull a = Inr (Some x, s') \<and> (array_inv s' \<and> (\<forall>s \<in> set (mra_streams s'). sorted s)) \<and>
      array_pending a = add_mset (id x) (array_pending s') \<and> (\<forall>y. y \<in># array_pending s' \<longrightarrow> id x \<le> y))"
  proof (cases "mra_streams a'")
    case Nil
    then show ?thesis using n(1) p by (auto simp: array_pull_def array_pending_def)
  next
    case (Cons s rest)
    let ?b = "a'\<lparr>mra_streams := tl s # rest\<rparr>"
    have s: "s \<noteq> []" "\<forall>t \<in> set rest. hasData t \<and> hd s \<le> hd t" "by_head rest" "\<not> mra_isFirst a'"
      using n(2) Cons by (auto simp: array_settled_def hasData_def)
    have "array_pull a = Inr (Some (hd s), ?b)" using n(1) Cons by (simp add: array_pull_def)
    moreover have "array_inv ?b" using s by (simp add: array_inv_def)
    moreover have "\<forall>t \<in> set (mra_streams ?b). sorted t" using sorted Cons sorted_tl by auto
    moreover have "array_pending a = add_mset (hd s) (array_pending ?b)"
      using p Cons s(1) by (cases s) (simp_all add: array_pending_def)
    moreover have "hd s \<le> y" if "y \<in># array_pending ?b" for y
    proof -
      have "y \<in> set (tl s) \<or> (\<exists>t \<in> set rest. y \<in> set t)" using that by (auto simp: array_pending_def)
      then show ?thesis
      proof (elim disjE bexE)
        assume "y \<in> set (tl s)"
        then show ?thesis using sorted Cons sorted_hd [of s y] s(1) by (cases s) simp_all
      next
        fix t assume t: "t \<in> set rest" "y \<in> set t"
        then have "hd t \<le> y" using sorted Cons sorted_hd [of t y] by simp
        then show ?thesis using s(2) t(1) by (auto intro: order_trans)
      qed
    qed
    ultimately show ?thesis by auto
  qed
qed

end
