(* ===== verification/Bit_Memory.thy ===== *)
theory Bit_Memory
  imports Velox_Prelude
begin

text \<open>
  Memory as the bit utilities of \<open>velox/common/base/BitUtil.h\<close> see it: a list of bytes that is read and
  written in units of one, two, four and eight bytes, the lowest byte first. An access that is not
  inside the memory is the error \<^const>\<open>OutOfRange\<close>. The view that the proofs use is \<open>mem_bit\<close>, the bit at
  a position counted from the start of the memory.
\<close>

unbundle bit_operations_syntax

named_theorems bit_view \<open>the bits of a value\<close>

section \<open>Loads and stores\<close>

type_synonym byte = "8 word"

primrec word_of_bytes :: "byte list \<Rightarrow> 64 word" where
  "word_of_bytes [] = 0"
| "word_of_bytes (b # bs) = ucast b OR push_bit 8 (word_of_bytes bs)"

definition byte_of_word :: "64 word \<Rightarrow> nat \<Rightarrow> byte" where
  "byte_of_word w k = ucast (drop_bit (8 * k) w)"

definition load :: "nat \<Rightarrow> byte list \<Rightarrow> nat \<Rightarrow> 64 word res" where
  "load n mem a = (if a + n \<le> length mem then Inr (word_of_bytes (take n (drop a mem))) else Inl OutOfRange)"

definition store_bytes :: "nat \<Rightarrow> byte list \<Rightarrow> nat \<Rightarrow> 64 word \<Rightarrow> byte list res" where
  "store_bytes n mem a w =
     (if a + n \<le> length mem then Inr (take a mem @ map (byte_of_word w) [0..<n] @ drop (a + n) mem)
      else Inl OutOfRange)"

definition mem_bit :: "byte list \<Rightarrow> nat \<Rightarrow> bool" where
  "mem_bit mem i = bit (mem ! (i div 8)) (i mod 8)"

lemma div8_less: "i div 8 < n \<longleftrightarrow> i < 8 * n" for i n :: nat
  by (simp add: div_less_iff_less_mult mult.commute)

lemma le_div8: "n \<le> i div 8 \<longleftrightarrow> 8 * n \<le> i" for i n :: nat
  by (simp add: less_eq_div_iff_mult_less_eq mult.commute)

lemma bit_word_of_bytes:
  "length bs \<le> 8 \<Longrightarrow> bit (word_of_bytes bs) k \<longleftrightarrow> k < 8 * length bs \<and> mem_bit bs k"
proof (induction bs arbitrary: k)
  case (Cons b bs)
  have "bit (ucast b :: 64 word) k \<longleftrightarrow> k < 8 \<and> bit b k"
    by (auto simp: bit_simps dest: bit_imp_le_length)
  moreover have "bit (push_bit 8 (word_of_bytes bs)) k \<longleftrightarrow> 8 \<le> k \<and> k < 8 * length (b # bs) \<and> mem_bit bs (k - 8)"
    using Cons.IH [of "k - 8"] Cons.prems by (auto simp: bit_push_bit_iff)
  moreover have "8 \<le> k \<Longrightarrow> mem_bit (b # bs) k = mem_bit bs (k - 8)"
    by (simp add: mem_bit_def le_div_geq le_mod_geq)
  moreover have "k < 8 \<Longrightarrow> mem_bit (b # bs) k = bit b k" by (simp add: mem_bit_def)
  ultimately show ?case by (cases "k < 8") (auto simp: bit_or_iff)
qed simp

lemma bit_byte_of_word: "k < 8 \<Longrightarrow> bit (byte_of_word w j) k \<longleftrightarrow> bit w (8 * j + k)"
  by (simp add: byte_of_word_def bit_simps)

lemma mem_bit_drop: "a \<le> length mem \<Longrightarrow> mem_bit (drop a mem) k = mem_bit mem (8 * a + k)"
  by (simp add: mem_bit_def add.commute)

lemma mem_bit_take: "k < 8 * n \<Longrightarrow> mem_bit (take n mem) k = mem_bit mem k"
  by (simp add: mem_bit_def less_mult_imp_div_less mult.commute)

lemma load_Inr [simp]: "a + n \<le> length mem \<Longrightarrow> load n mem a = Inr (word_of_bytes (take n (drop a mem)))"
  by (simp add: load_def)

lemma bit_load:
  assumes "load n mem a = Inr w" "n \<le> 8"
  shows "bit w k \<longleftrightarrow> k < 8 * n \<and> mem_bit mem (8 * a + k)"
proof -
  have le: "a + n \<le> length mem" and w: "w = word_of_bytes (take n (drop a mem))"
    using assms(1) by (auto simp: load_def split: if_splits)
  have "length (take n (drop a mem)) = n" using le by simp
  then show ?thesis using bit_word_of_bytes [of "take n (drop a mem)" k] le w assms(2)
    by (auto simp: mem_bit_take mem_bit_drop)
qed

lemma store_Inr: "a + n \<le> length mem \<Longrightarrow> \<exists>mem'. store_bytes n mem a w = Inr mem'"
  by (simp add: store_bytes_def)

lemma store_length: "store_bytes n mem a w = Inr mem' \<Longrightarrow> length mem' = length mem"
  by (auto simp: store_bytes_def split: if_splits)

lemma mem_bit_store:
  assumes "store_bytes n mem a w = Inr mem'"
  shows "mem_bit mem' i = (if 8 * a \<le> i \<and> i < 8 * (a + n) then bit w (i - 8 * a) else mem_bit mem i)"
proof -
  have le: "a + n \<le> length mem" and m: "mem' = take a mem @ map (byte_of_word w) [0..<n] @ drop (a + n) mem"
    using assms by (auto simp: store_bytes_def split: if_splits)
  let ?j = "i div 8"
  consider "?j < a" | "a \<le> ?j" "?j < a + n" | "a + n \<le> ?j" by linarith
  then show ?thesis
  proof cases
    case 1
    then show ?thesis using m le by (auto simp: mem_bit_def nth_append)
  next
    case 2
    then have "mem' ! ?j = byte_of_word w (?j - a)" using m le by (auto simp: nth_append)
    moreover have "8 * (?j - a) + i mod 8 = i - 8 * a" using 2 by (simp add: diff_mult_distrib2)
    ultimately have "mem_bit mem' i = bit w (i - 8 * a)" by (simp add: mem_bit_def bit_byte_of_word)
    moreover have "8 * a \<le> i" "i < 8 * (a + n)" using 2 le_div8 div8_less by blast+
    ultimately show ?thesis by simp
  next
    case 3
    then have "\<not> ?j < a" "\<not> ?j - a < n" "?j - a - n + (a + n) = ?j" by linarith+
    then have "mem' ! ?j = mem ! ?j" using m le by (simp add: nth_append add.commute)
    moreover have "\<not> i < 8 * (a + n)" using 3 le_div8 [of "a + n" i] by simp
    ultimately show ?thesis by (simp add: mem_bit_def)
  qed
qed

lemma mem_eqI:
  assumes "length m = length m'" "\<And>i. i < 8 * length m \<Longrightarrow> mem_bit m i = mem_bit m' i"
  shows "m = m'"
proof (rule nth_equalityI)
  fix j assume j: "j < length m"
  show "m ! j = m' ! j"
  proof (rule bit_word_eqI)
    fix k assume "k < LENGTH(8)"
    then show "bit (m ! j) k = bit (m' ! j) k" using assms(2) [of "8 * j + k"] j by (simp add: mem_bit_def)
  qed
qed (use assms in simp)

end
