(* ===== verification/Bit_Words_Visits.thy ===== *)
theory Bit_Words_Visits
  imports Bit_Words
begin

text \<open>
  The words and masks that the walks over a range of bits visit. The locale \<open>word_visitor\<close> is what a walk
  relies on, that the callback for a full word does what the callback for a partial word does with all
  bits in the mask; in it, and in \<open>word_updater\<close> for callbacks without a flag, each walk is shown to be a run
  over the list \<open>visits\<close>, whose positions are exactly the positions of the range.
\<close>

unbundle bit_operations_syntax

section \<open>The words and masks of a range\<close>

lemma div64_mult: "64 * (b div 64) + b mod 64 = b" "0 \<le> b mod 64" "b mod 64 < 64" for b :: int
  by simp_all

lemma div64_eq: "a = 64 * q + r \<Longrightarrow> 0 \<le> r \<Longrightarrow> r < 64 \<Longrightarrow> a div 64 = q" for a q r :: int
  by (rule int_div_pos_eq)

lemma div64_up: "(b + 63) div 64 = (if b mod 64 = 0 then b div 64 else b div 64 + 1)" for b :: int
proof -
  obtain q r where b: "b = 64 * q + r" "0 \<le> r" "r < 64" "b div 64 = q" "b mod 64 = r" using div64_mult [of b] by metis
  show ?thesis
  proof (cases "r = 0")
    case True
    have "(b + 63) div 64 = q" by (rule div64_eq [of _ _ 63]) (use b(1) True in simp_all)
    then show ?thesis using b(4,5) True by simp
  next
    case False
    have "(b + 63) div 64 = q + 1" by (rule div64_eq [of _ _ "r - 1"]) (use b(1-3) False in simp_all)
    then show ?thesis using b(4,5) False by simp
  qed
qed

lemma div64_down: "(b - 1) div 64 = (if b mod 64 = 0 then b div 64 - 1 else b div 64)" for b :: int
proof -
  obtain q r where b: "b = 64 * q + r" "0 \<le> r" "r < 64" "b div 64 = q" "b mod 64 = r" using div64_mult [of b] by metis
  show ?thesis
  proof (cases "r = 0")
    case True
    have "(b - 1) div 64 = q - 1" by (rule div64_eq [of _ _ 63]) (use b(1) True in simp_all)
    then show ?thesis using b(4,5) True by simp
  next
    case False
    have "(b - 1) div 64 = q" by (rule div64_eq [of _ _ "r - 1"]) (use b(1-3) False in simp_all)
    then show ?thesis using b(4,5) False by simp
  qed
qed

definition range_mask :: "int \<Rightarrow> int \<Rightarrow> int \<Rightarrow> 64 word" where
  "range_mask b e i = NOT (mask (nat (b - 64 * i))) AND mask (nat (e - 64 * i))"

definition visits :: "int \<Rightarrow> int \<Rightarrow> (int \<times> 64 word) list" where
  "visits b e = (if b < e then map (\<lambda>i. (i, range_mask b e i)) [b div 64..(e - 1) div 64] else [])"

lemma bit_range_mask: "bit (range_mask b e i) k \<longleftrightarrow> k < 64 \<and> b \<le> 64 * i + int k \<and> 64 * i + int k < e"
  by (auto simp: range_mask_def bit_simps)

lemma bit_mask_64: "bit (mask n :: 64 word) k \<longleftrightarrow> k < 64 \<and> k < n"
  by (auto simp: bit_simps)

lemma lowMask_eq: "0 \<le> n \<Longrightarrow> n < 64 \<Longrightarrow> lowMask n = Inr (mask (nat n))"
  by (simp add: lowMask_def mask_eq_decr_exp)

lemma highMask_eq: "0 < n \<Longrightarrow> n < 64 \<Longrightarrow> highMask n = Inr (push_bit (nat (64 - n)) (mask (nat n)))"
  by (simp add: highMask_def lowMask_eq)

lemma bit_high: "0 < n \<Longrightarrow> n < 64 \<Longrightarrow>
    bit (push_bit (nat (64 - n)) (mask (nat n)) :: 64 word) k \<longleftrightarrow> k < 64 \<and> 64 - n \<le> int k"
  by (auto simp: bit_simps)

lemma roundUp_eq:
  assumes "0 \<le> b" "b + 63 \<le> INT32_MAX"
  shows "roundUp b 64 = Inr ((b + 63) div 64 * 64)"
  using assms by (simp add: roundUp_def i32_res_def i32_def cdiv_def)

fun run_words :: "(int \<Rightarrow> 64 word \<Rightarrow> 's \<Rightarrow> (bool \<times> 's) res) \<Rightarrow> (int \<times> 64 word) list \<Rightarrow> 's \<Rightarrow> (bool \<times> 's) res" where
  "run_words f [] s = Inr (True, s)"
| "run_words f ((i, m) # vs) s = and_then (f i m s) (run_words f vs)"

lemma run_words_append: "run_words f (us @ vs) s = and_then (run_words f us s) (run_words f vs)"
proof (induction us arbitrary: s)
  case (Cons u us)
  then have "run_words f (us @ vs) = (\<lambda>s. and_then (run_words f us s) (run_words f vs))" by (intro ext)
  then show ?case by (cases u) (simp add: and_then_assoc)
qed simp

lemma run_words_Nil: "run_words f [] = (\<lambda>s. Inr (True, s))"
  by (intro ext) simp

lemma run_words_single: "run_words f [(i, m)] s = f i m s"
  by (simp add: run_words_Nil)

text \<open>The full words lie between the partial ones at the two ends.\<close>

lemma visits_within:
  assumes "b < e" "e div 64 < (b + 63) div 64"
  shows "visits b e = [(e div 64, range_mask b e (e div 64))]" "b div 64 = e div 64" "e mod 64 \<noteq> 0" "b mod 64 \<noteq> 0"
proof -
  have "b div 64 \<le> e div 64" using assms(1) by (intro zdiv_mono1) auto
  then show bd: "b div 64 = e div 64" and nb: "b mod 64 \<noteq> 0" using assms(2) by (auto simp: div64_up split: if_splits)
  show ne: "e mod 64 \<noteq> 0" using div64_mult [of b] div64_mult [of e] bd nb assms(1) by linarith
  then show "visits b e = [(e div 64, range_mask b e (e div 64))]"
    using bd assms(1) div64_down [of e] by (simp add: visits_def)
qed

lemma range_mask_full:
  assumes "b \<le> 64 * i" "64 * (i + 1) \<le> e"
  shows "range_mask b e i = - 1"
  using assms by (intro bit_word_eqI) (auto simp: bit_range_mask)

lemma visits_across:
  assumes "b < e" "(b + 63) div 64 \<le> e div 64"
  shows "visits b e =
    (if b mod 64 \<noteq> 0 then [(b div 64, range_mask b e (b div 64))] else []) @
    map (\<lambda>i. (i, - 1)) [(b + 63) div 64..e div 64 - 1] @
    (if e mod 64 \<noteq> 0 then [(e div 64, range_mask b e (e div 64))] else [])"
proof -
  let ?F = "(b + 63) div 64" and ?L = "e div 64"
  have first: "b mod 64 \<noteq> 0 \<Longrightarrow> b div 64 = ?F - 1" "b mod 64 = 0 \<Longrightarrow> b div 64 = ?F" by (simp_all add: div64_up)
  have last: "e mod 64 \<noteq> 0 \<Longrightarrow> (e - 1) div 64 = ?L" "e mod 64 = 0 \<Longrightarrow> (e - 1) div 64 = ?L - 1" by (simp_all add: div64_down)
  have "[b div 64..(e - 1) div 64] =
      (if b mod 64 \<noteq> 0 then [b div 64] else []) @ [?F..(e - 1) div 64]"
  proof (cases "b mod 64 = 0")
    case False
    have "b div 64 \<le> (e - 1) div 64" using assms(1) by (intro zdiv_mono1) auto
    then show ?thesis using first(1) [OF False] upto_rec1 [of "b div 64" "(e - 1) div 64"] False by simp
  qed (use first in simp)
  moreover have "[?F..(e - 1) div 64] = [?F..?L - 1] @ (if e mod 64 \<noteq> 0 then [?L] else [])"
  proof (cases "e mod 64 = 0")
    case False
    then show ?thesis using last(1) upto_rec2 [OF assms(2)] by simp
  qed (use last in simp)
  moreover have "map (\<lambda>i. (i, range_mask b e i)) [?F..?L - 1] = map (\<lambda>i. (i, - 1)) [?F..?L - 1]"
  proof (intro map_cong refl)
    fix i assume "i \<in> set [?F..?L - 1]"
    then have i: "?F \<le> i" "i + 1 \<le> ?L" by auto
    have "b \<le> 64 * ?F" "64 * ?L \<le> e" using div64_mult [of b] div64_mult [of e] by (auto simp: div64_up)
    then have "b \<le> 64 * i" "64 * (i + 1) \<le> e"
      using mult_left_mono [OF i(1), of 64] mult_left_mono [OF i(2), of 64] by (auto intro: order_trans)
    then show "(i, range_mask b e i) = (i, - 1)" by (simp add: range_mask_full)
  qed
  ultimately show ?thesis using assms(1) by (simp add: visits_def)
qed

lemma full_words_run:
  assumes "\<And>i s. ff i s = pf i (- 1) s" "0 \<le> f" "64 * l + 64 \<le> INT32_MAX" "f \<le> l"
  shows "full_words ff (64 * f) (64 * l) s = run_words pf (map (\<lambda>i. (i, - 1)) [f..l - 1]) s"
  using assms(2,4)
proof (induction "nat (l - f)" arbitrary: f s)
  case 0
  then have "f = l" by simp
  then show ?case using 0 assms(3) by (subst full_words.simps) (simp add: i32_res_def i32_def)
next
  case (Suc n)
  then have fl: "f < l" by simp
  have next': "64 * f + 64 = 64 * (f + 1)" by simp
  have ih: "full_words ff (64 * (f + 1)) (64 * l) s' = run_words pf (map (\<lambda>i. (i, - 1)) [f + 1..l - 1]) s'" for s'
    using Suc(2,3) fl by (intro Suc(1)) auto
  have "full_words ff (64 * f) (64 * l) s =
      and_then (pf f (- 1) s) (full_words ff (64 * f + 64) (64 * l))"
    using Suc.prems fl assms(1,3)
    by (subst full_words.simps) (simp add: i32_res_def i32_def cdiv_def)
  also have "\<dots> = and_then (pf f (- 1) s) (run_words pf (map (\<lambda>i. (i, - 1)) [f + 1..l - 1]))"
    unfolding next' ih ..
  also have "\<dots> = run_words pf (map (\<lambda>i. (i, - 1)) [f..l - 1]) s" using fl upto_rec1 [of f "l - 1"] by simp
  finally show ?case .
qed

lemma bit_decompose:
  fixes b :: int
  obtains q r where "b = 64 * q + r" "0 \<le> r" "r < 64" "b div 64 = q" "b mod 64 = r"
  using div64_mult [of b] by metis

lemma lowMask_range:
  assumes "e mod 64 \<noteq> 0" "b \<le> 64 * (e div 64)"
  shows "lowMask (e - e div 64 * 64) = Inr (range_mask b e (e div 64))"
proof -
  obtain q r where e: "e = 64 * q + r" "0 \<le> r" "r < 64" "e div 64 = q" "e mod 64 = r" by (rule bit_decompose)
  have "mask (nat r) = range_mask b e q"
    using e assms(2) by (intro bit_word_eqI) (auto simp: bit_mask_64 bit_range_mask)
  then show ?thesis using e by (simp add: lowMask_eq)
qed

lemma highMask_range:
  assumes "b mod 64 \<noteq> 0" "64 * (b div 64 + 1) \<le> e"
  shows "highMask ((b + 63) div 64 * 64 - b) = Inr (range_mask b e (b div 64))"
proof -
  obtain q r where b: "b = 64 * q + r" "0 \<le> r" "r < 64" "b div 64 = q" "b mod 64 = r" by (rule bit_decompose)
  have r: "0 < 64 - r" "64 - r < 64" using b assms(1) by auto
  have "push_bit (nat (64 - (64 - r))) (mask (nat (64 - r))) = range_mask b e q"
    using b assms(2) by (intro bit_word_eqI, subst bit_high [OF r]) (auto simp: bit_range_mask)
  then show ?thesis using b assms(1) highMask_eq [OF r] by (simp add: div64_up)
qed

lemma bothMask_range:
  assumes "b < e" "e div 64 < (b + 63) div 64"
  shows "rbind (lowMask (e - e div 64 * 64)) (\<lambda>low. rbind (highMask ((b + 63) div 64 * 64 - b)) (\<lambda>high. f (low AND high))) =
    f (range_mask b e (e div 64))"
proof -
  note within = visits_within [OF assms]
  have low: "lowMask (e - e div 64 * 64) = Inr (range_mask (64 * (e div 64)) e (e div 64))"
    using within(3) by (intro lowMask_range) auto
  have high: "highMask ((b + 63) div 64 * 64 - b) = Inr (range_mask b (64 * (b div 64 + 1)) (b div 64))"
    using within(4) by (intro highMask_range) auto
  have "range_mask (64 * (e div 64)) e (e div 64) AND range_mask b (64 * (b div 64 + 1)) (b div 64) =
      range_mask b e (e div 64)"
    unfolding within(2) by (intro bit_word_eqI) (auto simp: bit_and_iff bit_range_mask)
  then show ?thesis using low high by simp
qed

lemma cdiv_mult: "0 \<le> q \<Longrightarrow> cdiv (q * 64) 64 = q"
  by (simp add: cdiv_def)

lemma cdiv_pos: "0 \<le> a \<Longrightarrow> cdiv a b = a div b"
  by (simp add: cdiv_def)

lemma last_word_reach: "b < e \<Longrightarrow> (b + 63) div 64 \<le> e div 64 \<Longrightarrow> b \<le> 64 * (e div 64)" for b e :: int
proof -
  assume a: "b < e" "(b + 63) div 64 \<le> e div 64"
  obtain q r where b: "b = 64 * q + r" "0 \<le> r" "r < 64" "b div 64 = q" "b mod 64 = r" by (rule bit_decompose)
  have "b \<le> 64 * ((b + 63) div 64)" using b by (auto simp: div64_up)
  also have "\<dots> \<le> 64 * (e div 64)" using a(2) by simp
  finally show ?thesis .
qed

lemma first_word_reach: "b mod 64 \<noteq> 0 \<Longrightarrow> (b + 63) div 64 \<le> e div 64 \<Longrightarrow> 64 * (b div 64 + 1) \<le> e" for b e :: int
proof -
  assume a: "b mod 64 \<noteq> 0" "(b + 63) div 64 \<le> e div 64"
  obtain q r where e: "e = 64 * q + r" "0 \<le> r" "r < 64" "e div 64 = q" "e mod 64 = r" by (rule bit_decompose)
  have "64 * (b div 64 + 1) \<le> 64 * (e div 64)" using a by (simp add: div64_up)
  also have "\<dots> \<le> e" using e by simp
  finally show ?thesis .
qed

lemma first_word_eq: "b \<noteq> (b + 63) div 64 * 64 \<longleftrightarrow> b mod 64 \<noteq> 0" for b :: int
proof -
  obtain q r where b: "b = 64 * q + r" "0 \<le> r" "r < 64" "b div 64 = q" "b mod 64 = r" by (rule bit_decompose)
  then show ?thesis by (auto simp: div64_up)
qed

lemma last_word_eq: "e \<noteq> e div 64 * 64 \<longleftrightarrow> e mod 64 \<noteq> 0" for e :: int
  using div64_mult(1) [of e] by (metis add_cancel_left_right mult.commute)

locale word_visitor =
  fixes pf :: "int \<Rightarrow> 64 word \<Rightarrow> 's \<Rightarrow> (bool \<times> 's) res" and ff :: "int \<Rightarrow> 's \<Rightarrow> (bool \<times> 's) res"
  assumes full_word: "ff i s = pf i (- 1) s"
begin

text \<open>\<open>testWords\<close> calls back on every word of the range once, in order, with the mask of the range.\<close>

lemma testWords_visits:
  assumes "0 \<le> b" "e + 64 \<le> INT32_MAX"
  shows "testWords b e pf ff s = run_words pf (visits b e) s"
proof (cases "b < e")
  case True
  let ?F = "(b + 63) div 64" and ?L = "e div 64"
  have up: "roundUp b 64 = Inr (?F * 64)" using roundUp_eq assms True by simp
  have pos: "0 \<le> ?L" "0 \<le> ?F" using assms(1) True by (simp_all add: pos_imp_zdiv_nonneg_iff)
  show ?thesis
  proof (cases "?L < ?F")
    case within: True
    then show ?thesis
      using True up bothMask_range [OF True within, of "\<lambda>m. pf ?L m s"] visits_within(1) [OF True within] pos
      by (simp add: testWords_def run_words_single cdiv_mult del: run_words.simps)
  next
    case False
    then have across: "?F \<le> ?L" by simp
    have len: "64 * ?L + 64 \<le> INT32_MAX" using div64_mult [of e] assms(2) by (simp add: algebra_simps)
    define s1 where "s1 = (if b mod 64 \<noteq> 0 then [(b div 64, range_mask b e (b div 64))] else [])"
    define s3 where "s3 = (if e mod 64 \<noteq> 0 then [(?L, range_mask b e ?L)] else [])"
    have 1: "(if b \<noteq> ?F * 64 then rbind (highMask (?F * 64 - b)) (\<lambda>high. pf (cdiv b 64) high s) else Inr (True, s)) =
        run_words pf s1 s"
      using highMask_range [of b e] first_word_reach [of b e] across assms(1) first_word_eq [of b]
      by (auto simp: s1_def run_words_single cdiv_pos simp del: run_words.simps(2))
    have 2: "full_words ff (?F * 64) (?L * 64) t = run_words pf (map (\<lambda>i. (i, - 1)) [?F..?L - 1]) t" for t
      using full_words_run [of ff pf, OF full_word pos(2) len across, of t] by (simp add: mult.commute)
    have 3: "(if e \<noteq> ?L * 64 then rbind (lowMask (e - ?L * 64)) (\<lambda>low. pf (cdiv (?L * 64) 64) low t) else Inr (True, t)) =
        run_words pf s3 t" for t
      using lowMask_range [of e b] last_word_reach [OF True across] pos(1) last_word_eq [of e]
      by (auto simp: s3_def run_words_single cdiv_mult simp del: run_words.simps(2))
    have v: "visits b e = s1 @ map (\<lambda>i. (i, - 1)) [?F..?L - 1] @ s3"
      using visits_across [OF True across] by (simp add: s1_def s3_def)
    show ?thesis
      unfolding testWords_def v run_words_append
      using True False up by (simp add: Let_def 1 2 3)
  qed
qed (simp add: testWords_def visits_def)

text \<open>\<open>testWordsReverse\<close> calls back on the same words in the opposite order.\<close>

lemma full_words_down_run:
  assumes "0 \<le> f" "64 * l \<le> INT32_MAX" "f \<le> l"
  shows "full_words_down ff (64 * l - 64) (64 * f) s = run_words pf (map (\<lambda>i. (i, - 1)) (rev [f..l - 1])) s"
  using assms(2,3)
proof (induction "nat (l - f)" arbitrary: l s)
  case 0
  then have "f = l" by simp
  then show ?case by (subst full_words_down.simps) simp
next
  case (Suc n)
  then have fl: "f < l" by simp
  have prev: "64 * l - 64 = 64 * (l - 1)" by simp
  have ih: "full_words_down ff (64 * (l - 1) - 64) (64 * f) s' = run_words pf (map (\<lambda>i. (i, - 1)) (rev [f..l - 1 - 1])) s'" for s'
    using Suc(2,3) fl by (intro Suc(1)) auto
  have "full_words_down ff (64 * (l - 1)) (64 * f) s =
      and_then (pf (l - 1) (- 1) s) (full_words_down ff (64 * (l - 1) - 64) (64 * f))"
    using Suc.prems fl full_word assms(1) by (subst full_words_down.simps) (simp add: i32_res_def i32_def cdiv_def)
  also have "\<dots> = and_then (pf (l - 1) (- 1) s) (run_words pf (map (\<lambda>i. (i, - 1)) (rev [f..l - 1 - 1])))"
    unfolding ih ..
  also have "\<dots> = run_words pf (map (\<lambda>i. (i, - 1)) (rev [f..l - 1])) s" using fl upto_rec2 [of f "l - 1"] by simp
  finally show ?case unfolding prev .
qed

lemma testWordsReverse_visits:
  assumes "0 \<le> b" "e + 64 \<le> INT32_MAX"
  shows "testWordsReverse b e pf ff s = run_words pf (rev (visits b e)) s"
proof (cases "b < e")
  case True
  let ?F = "(b + 63) div 64" and ?L = "e div 64"
  have up: "roundUp b 64 = Inr (?F * 64)" using roundUp_eq assms True by simp
  have pos: "0 \<le> ?L" "0 \<le> ?F" using assms(1) True by (simp_all add: pos_imp_zdiv_nonneg_iff)
  show ?thesis
  proof (cases "?L < ?F")
    case within: True
    then show ?thesis
      using True up bothMask_range [OF True within, of "\<lambda>m. pf ?L m s"] visits_within(1) [OF True within] pos
      by (simp add: testWordsReverse_def run_words_single cdiv_mult del: run_words.simps)
  next
    case False
    then have across: "?F \<le> ?L" by simp
    have len: "64 * ?L \<le> INT32_MAX" using div64_mult [of e] assms(2) by (simp add: algebra_simps)
    define s1 where "s1 = (if b mod 64 \<noteq> 0 then [(b div 64, range_mask b e (b div 64))] else [])"
    define s3 where "s3 = (if e mod 64 \<noteq> 0 then [(?L, range_mask b e ?L)] else [])"
    have 1: "(if b \<noteq> ?F * 64 then rbind (highMask (?F * 64 - b)) (\<lambda>high. pf (cdiv b 64) high t) else Inr (True, t)) =
        run_words pf s1 t" for t
      using highMask_range [of b e] first_word_reach [of b e] across assms(1) first_word_eq [of b]
      by (auto simp: s1_def run_words_single cdiv_pos simp del: run_words.simps(2))
    have 2: "rbind (i32_res (?L * 64 - 64)) (\<lambda>i. full_words_down ff i (?F * 64) t) =
        run_words pf (map (\<lambda>i. (i, - 1)) (rev [?F..?L - 1])) t" for t
      using full_words_down_run [OF pos(2) len across, of t] pos(1) len
      by (simp add: mult.commute i32_res_def i32_def)
    have 3: "(if e \<noteq> ?L * 64 then rbind (lowMask (e - ?L * 64)) (\<lambda>low. pf (cdiv (?L * 64) 64) low s) else Inr (True, s)) =
        run_words pf s3 s"
      using lowMask_range [of e b] last_word_reach [OF True across] pos(1) last_word_eq [of e]
      by (auto simp: s3_def run_words_single cdiv_mult simp del: run_words.simps(2))
    have v: "rev (visits b e) = s3 @ map (\<lambda>i. (i, - 1)) (rev [?F..?L - 1]) @ s1"
      using visits_across [OF True across] by (simp add: s1_def s3_def rev_map)
    show ?thesis
      unfolding testWordsReverse_def v run_words_append
      using True False up by (simp add: Let_def 1 2 3)
  qed
qed (simp add: testWordsReverse_def visits_def)

end

text \<open>Callbacks that never end the loop.\<close>

fun fold_words :: "(int \<Rightarrow> 64 word \<Rightarrow> 's \<Rightarrow> 's res) \<Rightarrow> (int \<times> 64 word) list \<Rightarrow> 's \<Rightarrow> 's res" where
  "fold_words f [] s = Inr s"
| "fold_words f ((i, m) # vs) s = rbind (f i m s) (fold_words f vs)"

definition always :: "'s res \<Rightarrow> (bool \<times> 's) res" where
  "always r = rbind r (\<lambda>s. Inr (True, s))"

lemma run_always: "run_words (\<lambda>i m s. always (f i m s)) vs s = always (fold_words f vs s)"
proof (induction vs arbitrary: s)
  case (Cons v vs)
  then show ?case by (cases v; cases "f (fst v) (snd v) s") (auto simp: always_def)
qed (simp add: always_def)

lemma always_inject: "always r = always r' \<Longrightarrow> r = r'"
  by (cases r; cases r') (auto simp: always_def)

lemma always_rbind: "and_then (always r) (\<lambda>s. always (f s)) = always (rbind r f)"
  by (cases r) (auto simp: always_def)

lemma full_words_always: "full_words (\<lambda>i s. always (f i s)) i l s = always (each_full_word f i l s)"
proof (induction f i l s rule: each_full_word.induct)
  case (1 f i l s)
  show ?case
  proof (cases "i32_res (i + 64)")
    case (Inr n)
    show ?thesis
    proof (cases "n \<le> l")
      case True
      note ih = 1 [OF Inr True]
      have "full_words (\<lambda>i s. always (f i s)) i l s =
          and_then (always (f (cdiv i 64) s)) (full_words (\<lambda>i s. always (f i s)) n l)"
        using Inr True by (subst full_words.simps) simp
      moreover have "each_full_word f i l s = rbind (f (cdiv i 64) s) (each_full_word f n l)"
        using Inr True by (subst each_full_word.simps) simp
      ultimately show ?thesis using ih by (cases "f (cdiv i 64) s") (auto simp: always_def)
    next
      case False
      then show ?thesis using Inr by (subst full_words.simps, subst each_full_word.simps) (simp add: always_def)
    qed
  qed (subst full_words.simps, subst each_full_word.simps, simp add: always_def)
qed

lemma always_if: "(if c then always r else Inr (True, s)) = always (if c then r else Inr s)"
  by (simp add: always_def)

lemma rbind_always: "rbind m (\<lambda>x. always (f x)) = always (rbind m f)"
  by (cases m) (simp_all add: always_def)

lemma rbind_Inr_right: "rbind m Inr = m"
  by (cases m) simp_all

lemma testWords_always:
  "testWords b e (\<lambda>i m s. always (pf i m s)) (\<lambda>i s. always (ff i s)) s = always (forEachWord b e pf ff s)"
proof (cases "b < e")
  case True
  show ?thesis
  proof (cases "roundUp b 64")
    case (Inr f)
    then show ?thesis using True
      by (cases "e = e div 64 * 64"; cases "b = f") (simp_all add: testWords_def forEachWord_def Let_def full_words_always rbind_always always_if always_rbind rbind_Inr_right)
  qed (use True in \<open>simp add: testWords_def forEachWord_def always_def\<close>)
qed (simp add: testWords_def forEachWord_def always_def)

locale word_updater =
  fixes pf :: "int \<Rightarrow> 64 word \<Rightarrow> 's \<Rightarrow> 's res" and ff :: "int \<Rightarrow> 's \<Rightarrow> 's res"
  assumes full_word_update: "ff i s = pf i (- 1) s"

sublocale word_updater \<subseteq> lifted: word_visitor "\<lambda>i m s. always (pf i m s)" "\<lambda>i s. always (ff i s)"
  by unfold_locales (simp add: full_word_update)

context word_updater
begin

lemma forEachWord_visits:
  assumes "0 \<le> b" "e + 64 \<le> INT32_MAX"
  shows "forEachWord b e pf ff s = fold_words pf (visits b e) s"
  using lifted.testWords_visits [OF assms, of s] always_inject by (simp add: testWords_always run_always)

end

text \<open>The variant with a single callable visits the same words with the same masks.\<close>

lemma index_mask_range:
  assumes "0 \<le> b" "b < e" "b div 64 \<le> i" "i \<le> (e - 1) div 64"
  shows "index_mask b e (b div 64) ((e - 1) div 64) i = Inr (range_mask b e i)"
proof -
  obtain q r where b: "b = 64 * q + r" "0 \<le> r" "r < 64" "b div 64 = q" "b mod 64 = r" by (rule bit_decompose)
  obtain p t where e: "e = 64 * p + t" "0 \<le> t" "t < 64" "e div 64 = p" "e mod 64 = t" by (rule bit_decompose)
  define l where "l = (e - 1) div 64"
  have l: "l = (if t = 0 then p - 1 else p)" using e(4,5) by (simp add: l_def div64_down)
  have q: "q \<le> i" "i \<le> l" using assms(3,4) b(4) l_def by auto
  define hi where "hi = (if i = q \<and> r \<noteq> 0 then range_mask b (64 * (q + 1)) q else - 1)"
  define lo where "lo = (if i = l \<and> t \<noteq> 0 then range_mask (64 * p) e p else - 1)"
  have "(if i = q \<and> b \<noteq> q * 64 then highMask ((q + 1) * 64 - b) else Inr (- 1)) = Inr hi"
    using highMask_range [of b "64 * (q + 1)"] b by (auto simp: hi_def div64_up mult.commute)
  moreover have "(if i = l \<and> l * 64 + 64 \<noteq> e then rbind (lowMask (e - l * 64)) (\<lambda>low. Inr (hi AND low)) else Inr hi) =
      Inr (hi AND lo)"
  proof (cases "t = 0")
    case True
    then have "l * 64 + 64 = e" using l e(1) by simp
    then show ?thesis using True by (simp add: lo_def)
  next
    case False
    then have "lowMask (e - l * 64) = Inr (range_mask (64 * p) e p)" "l * 64 + 64 \<noteq> e"
      using lowMask_range [of e "64 * p"] e l by auto
    then show ?thesis using False by (simp add: lo_def)
  qed
  moreover have "hi AND lo = range_mask b e i"
    using q b(1-3) e(1-3) l
    by (intro bit_word_eqI) (auto simp: hi_def lo_def bit_and_iff bit_range_mask)
  ultimately show ?thesis unfolding index_mask_def b(4) l_def [symmetric] by (simp only: rbind.simps)
qed

lemma index_loop_fold:
  assumes "\<And>i. f \<le> i \<Longrightarrow> i \<le> l \<Longrightarrow> mask_of i = Inr (m i)"
  shows "index_loop mask_of pf f l s = fold_words pf (map (\<lambda>i. (i, m i)) [f..l]) s"
  using assms
proof (induction "nat (l + 1 - f)" arbitrary: f s)
  case 0
  then show ?case by (subst index_loop.simps) simp
next
  case (Suc n)
  then have fl: "f \<le> l" by simp
  have ih: "index_loop mask_of pf (f + 1) l = fold_words pf (map (\<lambda>i. (i, m i)) [f + 1..l])"
    using Suc(2,3) fl by (intro ext Suc(1)) auto
  show ?case using fl Suc.prems [of f] ih upto_rec1 [OF fl] by (subst index_loop.simps) simp
qed

lemma forEachWord_single_visits:
  assumes "0 \<le> b" "e + 63 \<le> INT32_MAX"
  shows "forEachWord_single b e pf s = fold_words pf (visits b e) s"
proof (cases "b < e")
  case True
  have up: "roundUp e 64 = Inr ((e + 63) div 64 * 64)" using roundUp_eq assms True by simp
  have last: "(e + 63) div 64 * 64 - 64 = (e - 1) div 64 * 64" by (simp add: div64_up div64_down)
  have "0 \<le> (e - 1) div 64" using assms(1) True by (simp add: pos_imp_zdiv_nonneg_iff)
  then have "cdiv ((e + 63) div 64 * 64 - 64) 64 = (e - 1) div 64" unfolding last by (rule cdiv_mult)
  then show ?thesis
    using True up assms(1) index_loop_fold [OF index_mask_range [OF assms(1) True]]
    by (simp add: forEachWord_single_def visits_def Let_def cdiv_pos)
qed (simp add: forEachWord_single_def visits_def)

section \<open>The bits of a range\<close>

definition word_bits :: "64 word \<Rightarrow> nat list" where
  "word_bits w = filter (bit w) [0..<64]"

definition positions :: "int \<times> 64 word \<Rightarrow> nat list" where
  "positions v = map (\<lambda>k. 64 * nat (fst v) + k) (word_bits (snd v))"

lemma filter_upt_interval: "filter (\<lambda>k. a \<le> k \<and> k < c) [0..<n] = [a..<min c n]"
proof (induction n)
  case (Suc n)
  have "min c (Suc n) = (if n < c then Suc n else min c n)" by (auto simp: min_def)
  with Suc show ?case by (auto simp: min_def)
qed simp

lemma map_plus_upt: "map ((+) n) [a..<b] = [n + a..<n + b]"
  by (induction b) auto

lemma positions_range:
  assumes "0 \<le> b" "0 \<le> i"
  shows "positions (i, range_mask b e i) = [max (nat b) (64 * nat i)..<min (nat e) (64 * nat i + 64)]"
proof -
  have "bit (range_mask b e i) k \<longleftrightarrow> nat b - 64 * nat i \<le> k \<and> k < nat e - 64 * nat i" if "k < 64" for k
    using that assms by (auto simp: bit_range_mask)
  then have "word_bits (range_mask b e i) = filter (\<lambda>k. nat b - 64 * nat i \<le> k \<and> k < nat e - 64 * nat i) [0..<64]"
    unfolding word_bits_def by (intro filter_cong) auto
  also have "\<dots> = [nat b - 64 * nat i..<min (nat e - 64 * nat i) 64]" by (rule filter_upt_interval)
  finally have "positions (i, range_mask b e i) = map ((+) (64 * nat i)) [nat b - 64 * nat i..<min (nat e - 64 * nat i) 64]"
    by (simp add: positions_def)
  also have "\<dots> = [64 * nat i + (nat b - 64 * nat i)..<64 * nat i + min (nat e - 64 * nat i) 64]"
    by (rule map_plus_upt)
  also have "\<dots> = [max (nat b) (64 * nat i)..<min (nat e) (64 * nat i + 64)]"
    by (cases "nat e \<le> 64 * nat i") (auto simp: max_def min_def)
  finally show ?thesis .
qed

lemma chunks_append:
  assumes "64 * f \<le> b" "f \<le> l"
  shows "concat (map (\<lambda>i. [max b (64 * i)..<min e (64 * i + 64)]) [f..<l]) = [b..<min e (64 * l)]"
  using assms(2)
proof (induction l rule: dec_induct)
  case base
  then show ?case using assms(1) by simp
next
  case (step l)
  have "[b..<min e (64 * l)] @ [max b (64 * l)..<min e (64 * l + 64)] = [b..<min e (64 * l + 64)]"
  proof (cases "b \<le> 64 * l \<and> 64 * l < e")
    case True
    then show ?thesis using upt_add_eq_append [of b "64 * l" "min e (64 * l + 64) - 64 * l"] by (simp add: max_def min_def)
  next
    case False
    then show ?thesis by (auto simp: max_def min_def)
  qed
  then show ?case using step by (simp add: add.commute)
qed

lemma map_upto_upt: "0 \<le> f \<Longrightarrow> map g [f..l] = map (\<lambda>i. g (int i)) [nat f..<nat (l + 1)]"
proof (induction "nat (l + 1 - f)" arbitrary: f)
  case 0
  then show ?case by simp
next
  case (Suc n)
  then have fl: "f \<le> l" by simp
  have "map g [f + 1..l] = map (\<lambda>i. g (int i)) [nat (f + 1)..<nat (l + 1)]" using Suc fl by auto
  moreover have "[nat f..<nat (l + 1)] = nat f # [nat (f + 1)..<nat (l + 1)]"
    using upt_conv_Cons [of "nat f" "nat (l + 1)"] fl Suc(3) by (simp add: nat_add_distrib)
  ultimately show ?case using upto_rec1 [OF fl] Suc(3) by simp
qed

text \<open>The words that are visited cover every bit of the range once, in order.\<close>

lemma visits_positions:
  assumes "0 \<le> b"
  shows "concat (map positions (visits b e)) = [nat b..<nat e]"
proof (cases "b < e")
  case True
  let ?f = "b div 64" and ?l = "(e - 1) div 64"
  have f: "0 \<le> ?f" "?f \<le> ?l" using assms True by (simp_all add: pos_imp_zdiv_nonneg_iff zdiv_mono1)
  have "map positions (visits b e) = map (\<lambda>i. positions (i, range_mask b e i)) [?f..?l]"
    using True by (simp add: visits_def)
  also have "\<dots> = map (\<lambda>i. positions (int i, range_mask b e (int i))) [nat ?f..<nat (?l + 1)]" using map_upto_upt [OF f(1)] .
  also have "\<dots> = map (\<lambda>i. [max (nat b) (64 * i)..<min (nat e) (64 * i + 64)]) [nat ?f..<nat (?l + 1)]"
    using positions_range [OF assms] by simp
  finally have "concat (map positions (visits b e)) = [nat b..<min (nat e) (64 * nat (?l + 1))]"
  proof -
    assume m: "map positions (visits b e) = map (\<lambda>i. [max (nat b) (64 * i)..<min (nat e) (64 * i + 64)]) [nat ?f..<nat (?l + 1)]"
    have "64 * nat ?f \<le> nat b" using div64_mult [of b] f(1) assms by (simp add: nat_le_iff)
    then show ?thesis unfolding m using f by (intro chunks_append) (auto simp: nat_le_iff)
  qed
  moreover have "nat e \<le> 64 * nat (?l + 1)"
  proof -
    obtain q r where "e - 1 = 64 * q + r" "0 \<le> r" "r < 64" "(e - 1) div 64 = q" "(e - 1) mod 64 = r" by (rule bit_decompose)
    then show ?thesis using f by (simp add: nat_le_iff)
  qed
  ultimately show ?thesis by (simp add: min_def)
qed (simp add: visits_def)

lemma visits_index: "(i, m) \<in> set (visits b e) \<Longrightarrow> 0 \<le> b \<Longrightarrow> 0 \<le> i \<and> 64 * i < e \<and> m = range_mask b e i"
proof -
  assume a: "(i, m) \<in> set (visits b e)" "0 \<le> b"
  then have "b < e" "b div 64 \<le> i" "i \<le> (e - 1) div 64" "m = range_mask b e i" by (auto simp: visits_def split: if_splits)
  moreover from this a(2) have "0 \<le> i" using pos_imp_zdiv_nonneg_iff [of 64 b] by simp
  moreover have "64 * i \<le> 64 * ((e - 1) div 64)" using calculation(3) by simp
  then have "64 * i < e" using div64_mult [of "e - 1"] by simp
  ultimately show ?thesis by simp
qed

end
