(* ===== verification/Bit_Util.thy ===== *)
theory Bit_Util
  imports Bit_Words_Visits
begin

text \<open>
  The operations of \<open>velox/common/base/BitUtil.h\<close> on a range of bits: filling, counting, searching,
  iterating, combining and comparing. The callbacks of the C++ functions are definitions of their own,
  one for a partial and one for a full word.
\<close>

unbundle bit_operations_syntax

section \<open>Single bits\<close>

text \<open>\<open>isBitSet\<close> on an array of elements of \<open>n\<close> bytes.\<close>

definition isBitSet :: "nat \<Rightarrow> byte list \<Rightarrow> int \<Rightarrow> bool res" where
  "isBitSet n bits idx =
     (if idx < 0 then Inl OutOfRange
      else rbind (load n bits (n * (nat idx div (8 * n)))) (\<lambda>w. Inr (bit w (nat idx mod (8 * n)))))"

definition setBit :: "byte list \<Rightarrow> nat \<Rightarrow> byte list res" where
  "setBit bits idx =
     (if idx div 8 < length bits then Inr (bits[idx div 8 := bits ! (idx div 8) OR push_bit (idx mod 8) 1])
      else Inl OutOfRange)"

definition kZeroBitmasks :: "byte list" where
  "kZeroBitmasks = map (\<lambda>k. NOT (push_bit k 1)) [0..<8]"

definition clearBit :: "byte list \<Rightarrow> nat \<Rightarrow> byte list res" where
  "clearBit bits idx =
     (if idx div 8 < length bits then Inr (bits[idx div 8 := bits ! (idx div 8) AND kZeroBitmasks ! (idx mod 8)])
      else Inl OutOfRange)"

definition setBit_to :: "byte list \<Rightarrow> nat \<Rightarrow> bool \<Rightarrow> byte list res" where
  "setBit_to bits idx v = (if v then setBit bits idx else clearBit bits idx)"

section \<open>Counting and finding zeros\<close>

text \<open>\<open>__builtin_ctzll\<close> and \<open>__builtin_clzll\<close> on a word that is not zero, and \<open>__builtin_popcountll\<close>.\<close>

definition ctz :: "64 word \<Rightarrow> nat" where
  "ctz w = length (takeWhile (\<lambda>k. \<not> bit w k) [0..<64])"

definition clz :: "64 word \<Rightarrow> nat" where
  "clz w = length (takeWhile (\<lambda>k. \<not> bit w k) (rev [0..<64]))"

definition popcount :: "64 word \<Rightarrow> nat" where
  "popcount w = length (word_bits w)"

section \<open>Filling and counting\<close>

definition fill_partial :: "bool \<Rightarrow> int \<Rightarrow> 64 word \<Rightarrow> byte list \<Rightarrow> byte list res" where
  "fill_partial v idx m bits =
     rbind (word_read bits idx) (\<lambda>w. word_write bits idx (if v then w OR (- 1 AND m) else w AND NOT m))"

definition fill_full :: "bool \<Rightarrow> int \<Rightarrow> byte list \<Rightarrow> byte list res" where
  "fill_full v idx bits = word_write bits idx (if v then - 1 else 0)"

definition fillBits :: "byte list \<Rightarrow> int \<Rightarrow> int \<Rightarrow> bool \<Rightarrow> byte list res" where
  "fillBits bits begin end' v = forEachWord begin end' (fill_partial v) (fill_full v) bits"

definition count_partial :: "byte list \<Rightarrow> int \<Rightarrow> 64 word \<Rightarrow> nat \<Rightarrow> nat res" where
  "count_partial bits idx m count = rbind (word_read bits idx) (\<lambda>w. Inr (count + popcount (w AND m)))"

definition count_full :: "byte list \<Rightarrow> int \<Rightarrow> nat \<Rightarrow> nat res" where
  "count_full bits idx count = rbind (word_read bits idx) (\<lambda>w. Inr (count + popcount w))"

definition countBits :: "byte list \<Rightarrow> int \<Rightarrow> int \<Rightarrow> nat res" where
  "countBits bits begin end' = forEachWord begin end' (count_partial bits) (count_full bits) 0"

section \<open>Testing and searching\<close>

definition all_set_partial :: "byte list \<Rightarrow> 64 word \<Rightarrow> int \<Rightarrow> 64 word \<Rightarrow> unit \<Rightarrow> (bool \<times> unit) res" where
  "all_set_partial bits word idx m u = rbind (word_read bits idx) (\<lambda>w. Inr (word AND m = w AND m, u))"

definition all_set_full :: "byte list \<Rightarrow> 64 word \<Rightarrow> int \<Rightarrow> unit \<Rightarrow> (bool \<times> unit) res" where
  "all_set_full bits word idx u = rbind (word_read bits idx) (\<lambda>w. Inr (word = w, u))"

definition isAllSet :: "byte list \<Rightarrow> int \<Rightarrow> int \<Rightarrow> bool \<Rightarrow> bool res" where
  "isAllSet bits begin end' v =
     (if begin \<ge> end' then Inr True
      else let word = (if v then - 1 else 0) in
        rbind (testWords begin end' (all_set_partial bits word) (all_set_full bits word) ()) (\<lambda>(r, _). Inr r))"

definition find_first_partial :: "byte list \<Rightarrow> int \<Rightarrow> 64 word \<Rightarrow> int \<Rightarrow> (bool \<times> int) res" where
  "find_first_partial bits idx m found =
     rbind (word_read bits idx) (\<lambda>w.
       let word = w AND m in if word \<noteq> 0 then Inr (False, idx * 64 + int (ctz word)) else Inr (True, found))"

definition find_first_full :: "byte list \<Rightarrow> int \<Rightarrow> int \<Rightarrow> (bool \<times> int) res" where
  "find_first_full bits idx found =
     rbind (word_read bits idx) (\<lambda>word.
       if word \<noteq> 0 then Inr (False, idx * 64 + int (ctz word)) else Inr (True, found))"

definition findFirstBit :: "byte list \<Rightarrow> int \<Rightarrow> int \<Rightarrow> int res" where
  "findFirstBit bits begin end' =
     rbind (testWords begin end' (find_first_partial bits) (find_first_full bits) (- 1)) (\<lambda>(_, found). Inr found)"

definition find_last_partial :: "byte list \<Rightarrow> bool \<Rightarrow> int \<Rightarrow> 64 word \<Rightarrow> int \<Rightarrow> (bool \<times> int) res" where
  "find_last_partial bits v idx m found =
     rbind (word_read bits idx) (\<lambda>w.
       let word = (if v then w else NOT w) AND m
       in if word \<noteq> 0 then Inr (False, idx * 64 + 63 - int (clz word)) else Inr (True, found))"

definition find_last_full :: "byte list \<Rightarrow> bool \<Rightarrow> int \<Rightarrow> int \<Rightarrow> (bool \<times> int) res" where
  "find_last_full bits v idx found =
     rbind (word_read bits idx) (\<lambda>w.
       let word = (if v then w else NOT w)
       in if word \<noteq> 0 then Inr (False, idx * 64 + 63 - int (clz word)) else Inr (True, found))"

definition findLastBit :: "byte list \<Rightarrow> int \<Rightarrow> int \<Rightarrow> bool \<Rightarrow> int res" where
  "findLastBit bits begin end' v =
     rbind (testWordsReverse begin end' (find_last_partial bits v) (find_last_full bits v) (- 1))
       (\<lambda>(_, found). Inr found)"

definition findLastUnsetBit :: "byte list \<Rightarrow> int \<Rightarrow> int \<Rightarrow> int res" where
  "findLastUnsetBit bits begin end' = findLastBit bits begin end' False"

section \<open>Iterating over bits\<close>

lemma word_clear_less: "w \<noteq> 0 \<Longrightarrow> w AND (w - 1) < w" for w :: "64 word"
proof -
  assume "w \<noteq> 0"
  then have "w - 1 < w" by (simp add: word_less_nat_alt unat_minus_one unat_gt_0)
  moreover have "w AND (w - 1) \<le> w - 1" by (simp add: word_and_le1)
  ultimately show ?thesis by (rule le_less_trans [rotated])
qed

text \<open>The loops over the set bits of a word; the second one ends when the function returns false.\<close>

function bit_loop :: "(int \<Rightarrow> 's \<Rightarrow> 's res) \<Rightarrow> int \<Rightarrow> 64 word \<Rightarrow> 's \<Rightarrow> 's res" where
  "bit_loop func idx word s =
     (if word = 0 then Inr s
      else rbind (func (idx * 64 + int (ctz word)) s) (\<lambda>s'. bit_loop func idx (word AND (word - 1)) s'))"
  by pat_completeness auto
termination by (relation "measure (\<lambda>(_, _, word, _). unat word)") (auto simp: unat_mono word_clear_less)

function test_bit_loop :: "(int \<Rightarrow> 's \<Rightarrow> (bool \<times> 's) res) \<Rightarrow> int \<Rightarrow> 64 word \<Rightarrow> 's \<Rightarrow> (bool \<times> 's) res" where
  "test_bit_loop func idx word s =
     (if word = 0 then Inr (True, s)
      else and_then (func (idx * 64 + int (ctz word)) s) (\<lambda>s'. test_bit_loop func idx (word AND (word - 1)) s'))"
  by pat_completeness auto
termination by (relation "measure (\<lambda>(_, _, word, _). unat word)") (auto simp: unat_mono word_clear_less)

declare bit_loop.simps [simp del] test_bit_loop.simps [simp del]

text \<open>Loops over consecutive rows, without and with an early end.\<close>

fun row_loop :: "(int \<Rightarrow> 's \<Rightarrow> 's res) \<Rightarrow> int list \<Rightarrow> 's \<Rightarrow> 's res" where
  "row_loop func [] s = Inr s"
| "row_loop func (row # rows) s = rbind (func row s) (row_loop func rows)"

fun test_row_loop :: "(int \<Rightarrow> 's \<Rightarrow> (bool \<times> 's) res) \<Rightarrow> int list \<Rightarrow> 's \<Rightarrow> (bool \<times> 's) res" where
  "test_row_loop func [] s = Inr (True, s)"
| "test_row_loop func (row # rows) s = and_then (func row s) (test_row_loop func rows)"

definition for_each_partial :: "byte list \<Rightarrow> bool \<Rightarrow> (int \<Rightarrow> 's \<Rightarrow> 's res) \<Rightarrow> int \<Rightarrow> 64 word \<Rightarrow> 's \<Rightarrow> 's res" where
  "for_each_partial bits isSet func idx m s =
     rbind (word_read bits idx) (\<lambda>w.
       let word = (if isSet then w else NOT w) AND m in if word = 0 then Inr s else bit_loop func idx word s)"

definition for_each_full :: "byte list \<Rightarrow> bool \<Rightarrow> (int \<Rightarrow> 's \<Rightarrow> 's res) \<Rightarrow> int \<Rightarrow> 's \<Rightarrow> 's res" where
  "for_each_full bits isSet func idx s =
     rbind (word_read bits idx) (\<lambda>w.
       let word = (if isSet then w else NOT w)
       in if word = - 1 then row_loop func [idx * 64..(idx + 1) * 64 - 1] s else bit_loop func idx word s)"

definition forEachBit :: "byte list \<Rightarrow> int \<Rightarrow> int \<Rightarrow> bool \<Rightarrow> (int \<Rightarrow> 's \<Rightarrow> 's res) \<Rightarrow> 's \<Rightarrow> 's res" where
  "forEachBit bits begin end' isSet func s =
     forEachWord begin end' (for_each_partial bits isSet func) (for_each_full bits isSet func) s"

definition test_bits_partial ::
    "byte list \<Rightarrow> bool \<Rightarrow> (int \<Rightarrow> 's \<Rightarrow> (bool \<times> 's) res) \<Rightarrow> int \<Rightarrow> 64 word \<Rightarrow> 's \<Rightarrow> (bool \<times> 's) res" where
  "test_bits_partial bits isSet func idx m s =
     rbind (word_read bits idx) (\<lambda>w.
       let word = (if isSet then w else NOT w) AND m in if word = 0 then Inr (True, s) else test_bit_loop func idx word s)"

definition test_bits_full ::
    "byte list \<Rightarrow> bool \<Rightarrow> (int \<Rightarrow> 's \<Rightarrow> (bool \<times> 's) res) \<Rightarrow> int \<Rightarrow> 's \<Rightarrow> (bool \<times> 's) res" where
  "test_bits_full bits isSet func idx s =
     rbind (word_read bits idx) (\<lambda>w.
       let word = (if isSet then w else NOT w) in if word = 0 then Inr (True, s) else test_bit_loop func idx word s)"

definition testBits ::
    "byte list \<Rightarrow> int \<Rightarrow> int \<Rightarrow> bool \<Rightarrow> (int \<Rightarrow> 's \<Rightarrow> (bool \<times> 's) res) \<Rightarrow> 's \<Rightarrow> (bool \<times> 's) res" where
  "testBits bits begin end' isSet func s =
     testWords begin end' (test_bits_partial bits isSet func) (test_bits_full bits isSet func) s"

definition forEachSetBit :: "byte list \<Rightarrow> int \<Rightarrow> int \<Rightarrow> (int \<Rightarrow> 's \<Rightarrow> 's res) \<Rightarrow> 's \<Rightarrow> 's res" where
  [simp]: "forEachSetBit bits begin end' func s = forEachBit bits begin end' True func s"

definition forEachUnsetBit :: "byte list \<Rightarrow> int \<Rightarrow> int \<Rightarrow> (int \<Rightarrow> 's \<Rightarrow> 's res) \<Rightarrow> 's \<Rightarrow> 's res" where
  [simp]: "forEachUnsetBit bits begin end' func s = forEachBit bits begin end' False func s"

definition testSetBits :: "byte list \<Rightarrow> int \<Rightarrow> int \<Rightarrow> (int \<Rightarrow> 's \<Rightarrow> (bool \<times> 's) res) \<Rightarrow> 's \<Rightarrow> (bool \<times> 's) res" where
  [simp]: "testSetBits bits begin end' func s = testBits bits begin end' True func s"

definition testUnsetBits :: "byte list \<Rightarrow> int \<Rightarrow> int \<Rightarrow> (int \<Rightarrow> 's \<Rightarrow> (bool \<times> 's) res) \<Rightarrow> 's \<Rightarrow> (bool \<times> 's) res" where
  [simp]: "testUnsetBits bits begin end' func s = testBits bits begin end' False func s"

section \<open>Combining bit arrays\<close>

text \<open>
  \<open>andRange\<close> and \<open>orRange\<close> write into \<open>target\<close>; \<^const>\<open>None\<close> for \<open>left\<close> stands for the calls in which \<open>left\<close> is
  \<open>target\<close> itself.
\<close>

definition left_word :: "byte list option \<Rightarrow> byte list \<Rightarrow> int \<Rightarrow> 64 word res" where
  "left_word left target idx = word_read (case left of None \<Rightarrow> target | Some l \<Rightarrow> l) idx"

definition range_partial ::
    "(64 word \<Rightarrow> 64 word \<Rightarrow> 64 word) \<Rightarrow> byte list option \<Rightarrow> byte list \<Rightarrow> int \<Rightarrow> 64 word \<Rightarrow> byte list \<Rightarrow> byte list res" where
  "range_partial f left right idx m target =
     rbind (word_read target idx) (\<lambda>t. rbind (left_word left target idx) (\<lambda>l. rbind (word_read right idx) (\<lambda>r.
       word_write target idx ((t AND NOT m) OR (m AND f l r)))))"

definition range_full ::
    "(64 word \<Rightarrow> 64 word \<Rightarrow> 64 word) \<Rightarrow> byte list option \<Rightarrow> byte list \<Rightarrow> int \<Rightarrow> byte list \<Rightarrow> byte list res" where
  "range_full f left right idx target =
     rbind (left_word left target idx) (\<lambda>l. rbind (word_read right idx) (\<lambda>r. word_write target idx (f l r)))"

definition andRange :: "bool \<Rightarrow> byte list \<Rightarrow> byte list option \<Rightarrow> byte list \<Rightarrow> int \<Rightarrow> int \<Rightarrow> byte list res" where
  "andRange negate target left right begin end' =
     (let f = (\<lambda>l r. l AND (if negate then NOT r else r))
      in forEachWord begin end' (range_partial f left right) (range_full f left right) target)"

definition orRange :: "bool \<Rightarrow> byte list \<Rightarrow> byte list option \<Rightarrow> byte list \<Rightarrow> int \<Rightarrow> int \<Rightarrow> byte list res" where
  "orRange negate target left right begin end' =
     (let f = (\<lambda>l r. l OR (if negate then NOT r else r))
      in forEachWord begin end' (range_partial f left right) (range_full f left right) target)"

definition andBits :: "byte list \<Rightarrow> byte list option \<Rightarrow> byte list \<Rightarrow> int \<Rightarrow> int \<Rightarrow> byte list res" where
  [simp]: "andBits target left right begin end' = andRange False target left right begin end'"

definition andWithNegatedBits :: "byte list \<Rightarrow> byte list option \<Rightarrow> byte list \<Rightarrow> int \<Rightarrow> int \<Rightarrow> byte list res" where
  [simp]: "andWithNegatedBits target left right begin end' = andRange True target left right begin end'"

definition orBits :: "byte list \<Rightarrow> byte list option \<Rightarrow> byte list \<Rightarrow> int \<Rightarrow> int \<Rightarrow> byte list res" where
  [simp]: "orBits target left right begin end' = orRange False target left right begin end'"

definition orWithNegatedBits :: "byte list \<Rightarrow> byte list option \<Rightarrow> byte list \<Rightarrow> int \<Rightarrow> int \<Rightarrow> byte list res" where
  [simp]: "orWithNegatedBits target left right begin end' = orRange True target left right begin end'"

section \<open>Comparing bit arrays\<close>

definition compare_partial ::
    "(64 word \<Rightarrow> 64 word \<Rightarrow> bool) \<Rightarrow> byte list \<Rightarrow> byte list \<Rightarrow> int \<Rightarrow> 64 word \<Rightarrow> unit \<Rightarrow> (bool \<times> unit) res" where
  "compare_partial f left right idx m u =
     rbind (word_read left idx) (\<lambda>l. rbind (word_read right idx) (\<lambda>r. Inr (f (l AND m) r, u)))"

definition compare_full ::
    "(64 word \<Rightarrow> 64 word \<Rightarrow> bool) \<Rightarrow> byte list \<Rightarrow> byte list \<Rightarrow> int \<Rightarrow> unit \<Rightarrow> (bool \<times> unit) res" where
  "compare_full f left right idx u =
     rbind (word_read left idx) (\<lambda>l. rbind (word_read right idx) (\<lambda>r. Inr (f l r, u)))"

definition isSubset :: "byte list \<Rightarrow> byte list \<Rightarrow> int \<Rightarrow> int \<Rightarrow> bool res" where
  "isSubset sub super begin end' =
     (let f = (\<lambda>subWord w. w AND subWord = subWord)
      in rbind (testWords begin end' (compare_partial f sub super) (compare_full f sub super) ()) (\<lambda>(r, _). Inr r))"

definition hasIntersection :: "byte list \<Rightarrow> byte list \<Rightarrow> int \<Rightarrow> int \<Rightarrow> bool res" where
  "hasIntersection left right begin end' =
     (if begin \<ge> end' then Inr False
      else let f = (\<lambda>leftWord w. w AND leftWord = 0)
        in rbind (testWords begin end' (compare_partial f left right) (compare_full f left right) ()) (\<lambda>(r, _). Inr (\<not> r)))"

end
