(* ===== verification/Bit_Util_Queries.thy ===== *)
theory Bit_Util_Queries
  imports Bit_Util
begin

text \<open>
  What the functions that read a range of bits return: the loops over the set bits of a word are loops over
  the rows \<open>rows_with\<close>, and so are \<open>forEachBit\<close>, \<open>testBits\<close>, the searches, \<open>countBits\<close>, \<open>isAllSet\<close> and the comparisons.
\<close>

unbundle bit_operations_syntax

section \<open>Words\<close>

lemma word_bits_set [simp]: "k \<in> set (word_bits w) \<longleftrightarrow> bit w k"
  by (auto simp: word_bits_def dest: bit_imp_le_length)

lemma word_bits_and: "word_bits (w AND m) = filter (bit w) (word_bits m)"
  unfolding word_bits_def filter_filter by (intro filter_cong) (auto simp: bit_and_iff)

lemma word_bits_Nil: "word_bits w = [] \<longleftrightarrow> w = 0"
proof
  assume "word_bits w = []"
  then have "\<not> bit w k" for k using word_bits_set [of k w] by simp
  then show "w = 0" by (intro bit_word_eqI) simp
qed (simp add: word_bits_def)

lemma word_bits_0 [simp]: "word_bits 0 = []"
  by (simp add: word_bits_Nil)

lemma word_bits_full: "word_bits (- 1) = [0..<64]"
  by (simp add: word_bits_def)

lemma takeWhile_upt: "n < length (takeWhile P [0..<m]) \<Longrightarrow> P n"
proof -
  assume a: "n < length (takeWhile P [0..<m])"
  then have "takeWhile P [0..<m] ! n \<in> set (takeWhile P [0..<m])" by simp
  moreover have "takeWhile P [0..<m] ! n = n"
    using a length_takeWhile_le [of P "[0..<m]"] takeWhile_nth [OF a] by simp
  ultimately show "P n" using set_takeWhileD by fastforce
qed

lemma ctz_least:
  assumes "w \<noteq> 0"
  shows "bit w (ctz w)" "\<And>k. k < ctz w \<Longrightarrow> \<not> bit w k"
proof -
  obtain k where "bit w k" using assms word_bits_Nil [of w] word_bits_set [of _ w] by (metis list.set_intros(1) neq_Nil_conv)
  then have k: "k < 64" using bit_imp_le_length by fastforce
  have "ctz w < length [0..<64]"
  proof (rule ccontr)
    assume "\<not> ctz w < length [0..<64]"
    then have "k < ctz w" using k by simp
    then show False using takeWhile_upt [of k "\<lambda>k. \<not> bit w k" 64] \<open>bit w k\<close> by (simp add: ctz_def)
  qed
  then show "bit w (ctz w)" using nth_length_takeWhile [of "\<lambda>k. \<not> bit w k" "[0..<64]"] by (simp add: ctz_def)
  show "\<not> bit w k" if "k < ctz w" for k using takeWhile_upt [of k "\<lambda>k. \<not> bit w k" 64] that by (simp add: ctz_def)
qed

text \<open>\<open>word & (word - 1)\<close> clears the lowest set bit.\<close>

lemma bit_clear_lowest:
  fixes w :: "64 word"
  assumes "w \<noteq> 0"
  shows "bit (w AND (w - 1)) k \<longleftrightarrow> bit w k \<and> k \<noteq> ctz w"
proof -
  let ?c = "ctz w"
  define u where "u = w AND NOT (mask (Suc ?c))"
  note low = ctz_least [OF assms]
  have c: "?c < 64" using bit_imp_le_length [OF low(1)] by simp
  have bu: "bit u j \<longleftrightarrow> bit w j \<and> ?c < j" for j
    by (auto simp: u_def bit_simps dest: bit_imp_le_length)
  have bc: "bit (2 ^ ?c :: 64 word) j \<longleftrightarrow> j = ?c" for j using c by (auto simp: bit_exp_iff)
  have ge: "?c \<le> j" if "bit w j" for j using low(2) that by (metis not_le)
  have "w = u OR 2 ^ ?c"
    using low(1) ge by (intro bit_word_eqI) (auto simp: bit_or_iff bu bc le_less)
  also have "\<dots> = u + 2 ^ ?c" by (rule disjunctive_add [symmetric]) (auto simp: bu bc)
  finally have "w - 1 = u + (2 ^ ?c - 1)" by simp
  also have "\<dots> = u + mask ?c" by (simp add: mask_eq_decr_exp)
  also have "\<dots> = u OR mask ?c" by (rule disjunctive_add) (auto simp: bu bit_mask_64)
  finally have "bit (w - 1) k \<longleftrightarrow> bit w k \<and> ?c < k \<or> k < 64 \<and> k < ?c" by (simp add: bit_or_iff bu bit_mask_64)
  then show ?thesis using low(2) [of k] by (auto simp: bit_and_iff)
qed

lemma word_bits_step:
  assumes "w \<noteq> 0"
  shows "word_bits w = ctz w # word_bits (w AND (w - 1))"
proof -
  let ?c = "ctz w"
  note low = ctz_least [OF assms]
  have c: "?c < 64" using bit_imp_le_length [OF low(1)] by simp
  have split: "[0..<64] = [0..<?c] @ ?c # [Suc ?c..<64]"
    using upt_add_eq_append [of 0 ?c "64 - ?c"] upt_conv_Cons [OF c] c by simp
  have "filter (bit w) [0..<?c] = []" "filter (bit (w AND (w - 1))) [0..<?c] = []"
    using low(2) by (simp_all add: bit_clear_lowest [OF assms])
  moreover have "filter (bit (w AND (w - 1))) [Suc ?c..<64] = filter (bit w) [Suc ?c..<64]"
    by (intro filter_cong) (auto simp: bit_clear_lowest [OF assms])
  ultimately show ?thesis
    using low(1) by (simp add: word_bits_def split bit_clear_lowest [OF assms])
qed

lemma takeWhile_shorter: "dropWhile P xs \<noteq> [] \<Longrightarrow> length (takeWhile P xs) < length xs"
  by (induction xs) auto

lemma clz_greatest:
  assumes "w \<noteq> 0"
  shows "clz w < 64" "word_bits w \<noteq> []" "63 - clz w = last (word_bits w)"
proof -
  let ?P = "\<lambda>k. \<not> bit w k"
  show ne: "word_bits w \<noteq> []" using assms word_bits_Nil by blast
  have rev: "rev (word_bits w) = filter (bit w) (rev [0..<64])" by (simp add: word_bits_def rev_filter)
  have ex: "\<exists>k \<in> set (rev [0..<64]). \<not> ?P k" using ne by (auto simp: word_bits_def filter_empty_conv)
  then have "dropWhile ?P (rev [0..<64]) \<noteq> []" by (auto simp: dropWhile_eq_Nil_conv)
  then show lt: "clz w < 64"
    using takeWhile_shorter [of ?P "rev [0..<64]"] by (simp add: clz_def)
  have "filter (bit w) (rev [0..<64]) = filter (bit w) (takeWhile ?P (rev [0..<64]) @ dropWhile ?P (rev [0..<64]))" by simp
  also have "\<dots> = filter (bit w) (dropWhile ?P (rev [0..<64]))"
    unfolding filter_append by (auto simp: filter_empty_conv dest: set_takeWhileD)
  finally have f: "filter (bit w) (rev [0..<64]) = filter (bit w) (dropWhile ?P (rev [0..<64]))" .
  have "dropWhile ?P (rev [0..<64]) \<noteq> []" using ex by (auto simp: dropWhile_eq_Nil_conv)
  then obtain y ys where y: "dropWhile ?P (rev [0..<64]) = y # ys" by (cases "dropWhile ?P (rev [0..<64])") auto
  then have "bit w y" using hd_dropWhile [of ?P "rev [0..<64]"] by auto
  then have "hd (rev (word_bits w)) = y" using rev f y by simp
  moreover have "y = rev [0..<64] ! clz w"
    using y dropWhile_eq_drop [of ?P "rev [0..<64]"] lt by (simp add: clz_def hd_drop_conv_nth [symmetric])
  moreover have "rev [0..<64] ! clz w = 63 - clz w" using lt by (simp add: rev_nth)
  ultimately show "63 - clz w = last (word_bits w)" using ne by (simp add: hd_rev)
qed

section \<open>Reading and writing the words of an array\<close>

text \<open>The arrays consist of whole words and contain all bits below \<open>e\<close>.\<close>

definition bits_ok :: "byte list \<Rightarrow> int \<Rightarrow> bool" where
  "bits_ok mem e \<longleftrightarrow> 8 dvd length mem \<and> e \<le> 8 * int (length mem)"

lemma word_inside:
  assumes "bits_ok mem e" "0 \<le> i" "64 * i < e"
  shows "8 * nat i + 8 \<le> length mem"
proof -
  obtain n where n: "length mem = 8 * n" using assms(1) by (auto simp: bits_ok_def)
  then have "64 * i < 64 * int n" using assms by (auto simp: bits_ok_def)
  then have "nat i < n" using assms(2) by (simp add: nat_less_iff)
  then show ?thesis using n by simp
qed

lemma word_read_ok:
  assumes "bits_ok mem e" "0 \<le> i" "64 * i < e"
  obtains w where "word_read mem i = Inr w" "\<And>k. bit w k \<longleftrightarrow> k < 64 \<and> mem_bit mem (64 * nat i + k)"
proof -
  obtain w where w: "load 8 mem (8 * nat i) = Inr w" using word_inside [OF assms] by simp
  have "word_read mem i = Inr w" using w assms(2) by (simp add: word_read_def)
  moreover have "bit w k \<longleftrightarrow> k < 64 \<and> mem_bit mem (64 * nat i + k)" for k using bit_load [OF w] by (simp add: mult.assoc [symmetric])
  ultimately show ?thesis by (rule that)
qed

lemma word_write_ok:
  assumes "bits_ok mem e" "0 \<le> i" "64 * i < e"
  obtains mem' where "word_write mem i w = Inr mem'" "length mem' = length mem"
    "\<And>p. mem_bit mem' p = (if p div 64 = nat i then bit w (p mod 64) else mem_bit mem p)"
proof -
  obtain mem' where s: "store_bytes 8 mem (8 * nat i) w = Inr mem'" using store_Inr [OF word_inside [OF assms]] by blast
  have "word_write mem i w = Inr mem'" using s assms(2) by (simp add: word_write_def)
  moreover have "mem_bit mem' p = (if p div 64 = nat i then bit w (p mod 64) else mem_bit mem p)" for p
  proof -
    have "8 * (8 * nat i) \<le> p \<and> p < 8 * (8 * nat i + 8) \<longleftrightarrow> p div 64 = nat i"
      using div_nat_eqI [of 64 "nat i" p] div_mult_mod_eq [of p 64] mod_less_divisor [of 64 p] by auto
    moreover have "p - 8 * (8 * nat i) = p mod 64" if "p div 64 = nat i"
      using that minus_div_mult_eq_mod [of p 64] by (simp add: mult.commute)
    ultimately show ?thesis using mem_bit_store [OF s, of p] by auto
  qed
  ultimately show ?thesis using that store_length [OF s] by blast
qed

section \<open>From words to rows\<close>

text \<open>The rows of a range whose bit has a given value, in order.\<close>

definition rows_with :: "byte list \<Rightarrow> bool \<Rightarrow> int \<Rightarrow> int \<Rightarrow> int list" where
  "rows_with mem v b e = map int (filter (\<lambda>p. mem_bit mem p = v) [nat b..<nat e])"

lemma rows_with_set: "0 \<le> b \<Longrightarrow> p \<in> set (rows_with mem v b e) \<longleftrightarrow> b \<le> p \<and> p < e \<and> mem_bit mem (nat p) = v"
  by (force simp: rows_with_def image_iff intro: exI [of _ "nat p"])

lemma rows_with_upto: "0 \<le> b \<Longrightarrow> rows_with mem v b e = filter (\<lambda>p. mem_bit mem (nat p) = v) [b..e - 1]"
proof -
  assume b: "0 \<le> b"
  have "map int [nat b..<n] = [b..int n - 1]" for n
  proof (induction n)
    case (Suc n)
    then show ?case using b upto_rec2 [of b "int n"] by (cases "nat b \<le> n") (auto simp: nat_le_iff)
  qed (use b in simp)
  from this [of "nat e"] have "map int [nat b..<nat e] = [b..e - 1]" using b by (cases "0 \<le> e") auto
  then have "filter (\<lambda>p. mem_bit mem (nat p) = v) [b..e - 1] = filter (\<lambda>p. mem_bit mem (nat p) = v) (map int [nat b..<nat e])" by simp
  then show ?thesis by (simp add: rows_with_def filter_map o_def)
qed

lemma row_loop_append: "row_loop func (xs @ ys) s = rbind (row_loop func xs s) (row_loop func ys)"
proof (induction xs arbitrary: s)
  case (Cons x xs)
  then have "row_loop func (xs @ ys) = (\<lambda>s. rbind (row_loop func xs s) (row_loop func ys))" by (intro ext)
  then show ?case by (simp add: rbind_assoc)
qed simp

lemma test_row_loop_append: "test_row_loop func (xs @ ys) s = and_then (test_row_loop func xs s) (test_row_loop func ys)"
proof (induction xs arbitrary: s)
  case (Cons x xs)
  then have "test_row_loop func (xs @ ys) = (\<lambda>s. and_then (test_row_loop func xs s) (test_row_loop func ys))" by (intro ext)
  then show ?case by (simp add: and_then_assoc)
qed simp

lemma bit_loop_rows: "bit_loop func i w s = row_loop func (map (\<lambda>k. i * 64 + int k) (word_bits w)) s"
proof (induction func i w s rule: bit_loop.induct)
  case (1 func i w s)
  show ?case
  proof (cases "w = 0")
    case True
    then show ?thesis by (subst bit_loop.simps) simp
  next
    case False
    have "bit_loop func i w s = rbind (func (i * 64 + int (ctz w)) s) (bit_loop func i (w AND (w - 1)))"
      using False by (subst bit_loop.simps) simp
    also have "\<dots> = rbind (func (i * 64 + int (ctz w)) s) (row_loop func (map (\<lambda>k. i * 64 + int k) (word_bits (w AND (w - 1)))))"
      using 1 False by (intro rbind_cong) auto
    finally show ?thesis using word_bits_step [OF False] by simp
  qed
qed

lemma test_bit_loop_rows: "test_bit_loop func i w s = test_row_loop func (map (\<lambda>k. i * 64 + int k) (word_bits w)) s"
proof (induction func i w s rule: test_bit_loop.induct)
  case (1 func i w s)
  show ?case
  proof (cases "w = 0")
    case True
    then show ?thesis by (subst test_bit_loop.simps) simp
  next
    case False
    have "test_bit_loop func i w s = and_then (func (i * 64 + int (ctz w)) s) (test_bit_loop func i (w AND (w - 1)))"
      using False by (subst test_bit_loop.simps) simp
    also have "\<dots> = and_then (func (i * 64 + int (ctz w)) s) (test_row_loop func (map (\<lambda>k. i * 64 + int k) (word_bits (w AND (w - 1)))))"
      using 1 False by (intro and_then_cong) auto
    finally show ?thesis using word_bits_step [OF False] by simp
  qed
qed

text \<open>A callback that looks at the rows of a word one after the other gives a walk over all rows.\<close>

lemma run_words_rows:
  assumes "\<And>i m s. (i, m) \<in> set vs \<Longrightarrow> pf i m s = test_row_loop func (rows (i, m)) s"
  shows "run_words pf vs s = test_row_loop func (concat (map rows vs)) s"
  using assms
proof (induction vs arbitrary: s)
  case (Cons v vs)
  have "run_words pf vs = test_row_loop func (concat (map rows vs))" using Cons by (intro ext) simp
  then show ?case using Cons.prems [of "fst v" "snd v"] by (cases v) (simp add: test_row_loop_append)
qed simp

lemma fold_words_rows:
  assumes "\<And>i m s. (i, m) \<in> set vs \<Longrightarrow> pf i m s = row_loop func (rows (i, m)) s"
  shows "fold_words pf vs s = row_loop func (concat (map rows vs)) s"
  using assms
proof (induction vs arbitrary: s)
  case (Cons v vs)
  have "fold_words pf vs = row_loop func (concat (map rows vs))" using Cons by (intro ext) simp
  then show ?case using Cons.prems [of "fst v" "snd v"] by (cases v) (simp add: row_loop_append)
qed simp

definition word_rows :: "byte list \<Rightarrow> bool \<Rightarrow> int \<times> 64 word \<Rightarrow> int list" where
  "word_rows mem v x = map int (filter (\<lambda>p. mem_bit mem p = v) (positions x))"

lemma visits_rows: "0 \<le> b \<Longrightarrow> concat (map (word_rows mem v) (visits b e)) = rows_with mem v b e"
proof -
  assume b: "0 \<le> b"
  have "concat (map (word_rows mem v) vs) = map int (filter (\<lambda>p. mem_bit mem p = v) (concat (map positions vs)))" for vs
    by (induction vs) (simp_all add: word_rows_def)
  then show ?thesis using visits_positions [OF b] by (simp add: rows_with_def)
qed

text \<open>The rows of a word that was read and masked.\<close>

lemma masked_word_rows:
  assumes "0 \<le> i" "\<And>k. bit w k \<longleftrightarrow> k < 64 \<and> mem_bit mem (64 * nat i + k)"
  shows "map (\<lambda>k. i * 64 + int k) (word_bits ((if v then w else NOT w) AND m)) = word_rows mem v (i, m)"
proof -
  have k: "k < 64" if "k \<in> set (word_bits m)" for k using that by (auto simp: word_bits_def)
  have "filter (bit (if v then w else NOT w)) (word_bits m) = filter (\<lambda>k. mem_bit mem (64 * nat i + k) = v) (word_bits m)"
    using assms(2) k by (intro filter_cong) (auto simp: bit_not_iff)
  moreover have "i * 64 + int k = int (64 * nat i + k)" for k using assms(1) by simp
  ultimately show ?thesis by (simp add: word_rows_def positions_def word_bits_and filter_map comp_def)
qed

lemma word_rows_read:
  assumes "bits_ok mem e" "(i, m) \<in> set (visits b e)" "0 \<le> b"
  obtains w where "word_read mem i = Inr w"
    "\<And>v. map (\<lambda>k. i * 64 + int k) (word_bits ((if v then w else NOT w) AND m)) = word_rows mem v (i, m)"
proof -
  have i: "0 \<le> i" "64 * i < e" using visits_index [OF assms(2,3)] by auto
  from word_read_ok [OF assms(1) i] obtain w where
    w: "word_read mem i = Inr w" "\<And>k. bit w k \<longleftrightarrow> k < 64 \<and> mem_bit mem (64 * nat i + k)" by blast
  show ?thesis using that [OF w(1) masked_word_rows [OF i(1) w(2)]] .
qed

section \<open>Iteration\<close>

lemma and_minus_one [simp]: "w AND - 1 = w" "- 1 AND w = w" for w :: "64 word"
  by simp_all

interpretation test_bits: word_visitor "test_bits_partial bits isSet func" "test_bits_full bits isSet func"
  for bits isSet func
  by unfold_locales (simp add: test_bits_partial_def test_bits_full_def)

lemma upto_word: "map (\<lambda>k. i * 64 + int k) [0..<64] = [i * 64..(i + 1) * 64 - 1]" for i :: int
proof -
  have "map (\<lambda>k. i * 64 + int k) [0..<n] = [i * 64..i * 64 + int n - 1]" for n
  proof (induction n)
    case (Suc n)
    then show ?case using upto_rec2 [of "i * 64" "i * 64 + int n"] by simp
  qed simp
  from this [of 64] show ?thesis by (simp add: algebra_simps)
qed

interpretation for_each: word_updater "for_each_partial bits isSet func" "for_each_full bits isSet func"
  for bits isSet func
proof
  fix i :: int and s :: 'a
  have "row_loop func [i * 64..(i + 1) * 64 - 1] s = bit_loop func i (- 1) s"
    using upto_word [of i] word_bits_full by (simp add: bit_loop_rows)
  then show "for_each_full bits isSet func i s = for_each_partial bits isSet func i (- 1) s"
    by (auto simp: for_each_partial_def for_each_full_def bit_loop.simps [of _ _ 0] Let_def intro!: rbind_cong)
qed

lemma testBits_spec:
  assumes "0 \<le> b" "e + 64 \<le> INT32_MAX" "bits_ok mem e"
  shows "testBits mem b e v func s = test_row_loop func (rows_with mem v b e) s"
proof -
  have "test_bits_partial mem v func i m s = test_row_loop func (word_rows mem v (i, m)) s"
    if im: "(i, m) \<in> set (visits b e)" for i m s
  proof -
    obtain w where w: "word_read mem i = Inr w"
      and rows: "map (\<lambda>k. i * 64 + int k) (word_bits ((if v then w else NOT w) AND m)) = word_rows mem v (i, m)"
      using word_rows_read [OF assms(3) im assms(1)] by blast
    show ?thesis unfolding rows [symmetric] test_bit_loop_rows [symmetric]
      using w by (simp add: test_bits_partial_def Let_def test_bit_loop.simps [of _ _ 0])
  qed
  from run_words_rows [where pf = "test_bits_partial mem v func" and rows = "word_rows mem v", OF this] show ?thesis
    by (simp add: testBits_def test_bits.testWords_visits [OF assms(1,2)] visits_rows [OF assms(1)])
qed

lemma forEachBit_spec:
  assumes "0 \<le> b" "e + 64 \<le> INT32_MAX" "bits_ok mem e"
  shows "forEachBit mem b e v func s = row_loop func (rows_with mem v b e) s"
proof -
  have "for_each_partial mem v func i m s = row_loop func (word_rows mem v (i, m)) s"
    if im: "(i, m) \<in> set (visits b e)" for i m s
  proof -
    obtain w where w: "word_read mem i = Inr w"
      and rows: "map (\<lambda>k. i * 64 + int k) (word_bits ((if v then w else NOT w) AND m)) = word_rows mem v (i, m)"
      using word_rows_read [OF assms(3) im assms(1)] by blast
    show ?thesis unfolding rows [symmetric] bit_loop_rows [symmetric]
      using w by (simp add: for_each_partial_def Let_def bit_loop.simps [of _ _ 0])
  qed
  from fold_words_rows [where pf = "for_each_partial mem v func" and rows = "word_rows mem v", OF this] show ?thesis
    by (simp add: forEachBit_def for_each.forEachWord_visits [OF assms(1,2)] visits_rows [OF assms(1)])
qed

section \<open>Searching\<close>

lemma test_row_loop_first: "test_row_loop (\<lambda>p _. Inr (False, p)) rows s = (case rows of [] \<Rightarrow> Inr (True, s) | p # _ \<Rightarrow> Inr (False, p))"
  by (cases rows) simp_all

interpretation find_first: word_visitor "find_first_partial bits" "find_first_full bits" for bits
  by unfold_locales (simp add: find_first_partial_def find_first_full_def)

interpretation find_last: word_visitor "find_last_partial bits v" "find_last_full bits v" for bits v
  by unfold_locales (simp add: find_last_partial_def find_last_full_def)

lemma findFirstBit_spec:
  assumes "0 \<le> b" "e + 64 \<le> INT32_MAX" "bits_ok mem e"
  shows "findFirstBit mem b e = Inr (case rows_with mem True b e of [] \<Rightarrow> - 1 | p # _ \<Rightarrow> p)"
proof -
  have "find_first_partial mem i m s = test_row_loop (\<lambda>p _. Inr (False, p)) (word_rows mem True (i, m)) s"
    if im: "(i, m) \<in> set (visits b e)" for i m s
  proof -
    obtain w where w: "word_read mem i = Inr w"
      and rows: "map (\<lambda>k. i * 64 + int k) (word_bits ((if True then w else NOT w) AND m)) = word_rows mem True (i, m)"
      using word_rows_read [OF assms(3) im assms(1)] by blast
    show ?thesis
      using w word_bits_step [of "w AND m"] rows [symmetric]
      by (cases "w AND m = 0") (auto simp: find_first_partial_def Let_def test_row_loop_first)
  qed
  from run_words_rows [where pf = "find_first_partial mem" and rows = "word_rows mem True", OF this] show ?thesis
    by (auto simp: findFirstBit_def find_first.testWords_visits [OF assms(1,2)] visits_rows [OF assms(1)]
      test_row_loop_first split: list.split)
qed

lemma findLastBit_spec:
  assumes "0 \<le> b" "e + 64 \<le> INT32_MAX" "bits_ok mem e"
  shows "findLastBit mem b e v = Inr (case rev (rows_with mem v b e) of [] \<Rightarrow> - 1 | p # _ \<Rightarrow> p)"
proof -
  have "find_last_partial mem v i m s = test_row_loop (\<lambda>p _. Inr (False, p)) (rev (word_rows mem v (i, m))) s"
    if im: "(i, m) \<in> set (rev (visits b e))" for i m s
  proof -
    obtain w where w: "word_read mem i = Inr w"
      and rows: "map (\<lambda>k. i * 64 + int k) (word_bits ((if v then w else NOT w) AND m)) = word_rows mem v (i, m)"
      using word_rows_read [OF assms(3) _ assms(1), of i m] im by auto
    define x where "x = (if v then w else NOT w) AND m"
    show ?thesis
    proof (cases "x = 0")
      case True
      then show ?thesis using w rows [symmetric] by (simp add: find_last_partial_def Let_def x_def [symmetric])
    next
      case False
      note c = clz_greatest [OF False]
      have "rev (word_bits x) = (63 - clz x) # tl (rev (word_bits x))"
        using c by (cases "rev (word_bits x)") (auto simp: hd_rev [symmetric])
      then have "rev (word_rows mem v (i, m)) =
          (i * 64 + int (63 - clz x)) # map (\<lambda>k. i * 64 + int k) (tl (rev (word_bits x)))"
        by (metis list.map(2) rev_map rows x_def)
      moreover have "i * 64 + int (63 - clz x) = i * 64 + 63 - int (clz x)" using c(1) by simp
      ultimately show ?thesis using w False by (simp add: find_last_partial_def Let_def x_def [symmetric])
    qed
  qed
  then have "run_words (find_last_partial mem v) (rev (visits b e)) s =
      test_row_loop (\<lambda>p _. Inr (False, p)) (concat (map (\<lambda>x. rev (word_rows mem v x)) (rev (visits b e)))) s" for s
    by (rule run_words_rows [where rows = "\<lambda>x. rev (word_rows mem v x)"])
  moreover have "concat (map (\<lambda>x. rev (word_rows mem v x)) (rev (visits b e))) = rev (rows_with mem v b e)"
    unfolding visits_rows [OF assms(1), symmetric] by (simp add: rev_concat rev_map comp_def)
  ultimately show ?thesis
    using find_last.testWordsReverse_visits [OF assms(1,2)]
    by (auto simp: findLastBit_def test_row_loop_first split: list.split)
qed

section \<open>Counting\<close>

interpretation count: word_updater "count_partial bits" "count_full bits" for bits
  by unfold_locales (simp add: count_partial_def count_full_def)

lemma row_loop_count: "row_loop (\<lambda>_ c. Inr (Suc c)) rows n = Inr (n + length rows)"
  by (induction rows arbitrary: n) simp_all

lemma countBits_spec:
  assumes "0 \<le> b" "e + 64 \<le> INT32_MAX" "bits_ok mem e"
  shows "countBits mem b e = Inr (length (rows_with mem True b e))"
proof -
  have "count_partial mem i m s = row_loop (\<lambda>_ c. Inr (Suc c)) (word_rows mem True (i, m)) s"
    if im: "(i, m) \<in> set (visits b e)" for i m s
  proof -
    obtain w where w: "word_read mem i = Inr w"
      and rows: "map (\<lambda>k. i * 64 + int k) (word_bits ((if True then w else NOT w) AND m)) = word_rows mem True (i, m)"
      using word_rows_read [OF assms(3) im assms(1)] by blast
    have "length (word_rows mem True (i, m)) = popcount (w AND m)" unfolding rows [symmetric] by (simp add: popcount_def)
    then show ?thesis using w by (simp add: count_partial_def row_loop_count)
  qed
  from fold_words_rows [where pf = "count_partial mem" and rows = "word_rows mem True", OF this] show ?thesis
    by (simp add: countBits_def count.forEachWord_visits [OF assms(1,2)] visits_rows [OF assms(1)] row_loop_count)
qed

section \<open>Comparing\<close>

lemma test_row_loop_pure: "test_row_loop (\<lambda>p _. Inr (P p, ())) rows () = Inr (\<forall>p \<in> set rows. P p, ())"
proof (induction rows)
  case (Cons p rows)
  then show ?case by (cases "P p") simp_all
qed simp

text \<open>A callback that tests all bits of a word that are in the mask.\<close>

lemma run_words_all:
  assumes "\<And>i m. (i, m) \<in> set (visits b e) \<Longrightarrow> pf i m () = Inr (\<forall>p \<in> set (positions (i, m)). P p, ())" "0 \<le> b"
  shows "run_words pf (visits b e) () = Inr (\<forall>p. b \<le> int p \<and> int p < e \<longrightarrow> P p, ())"
proof -
  let ?f = "\<lambda>p _. Inr (P (nat p), ())"
  have "pf i m u = test_row_loop ?f (map int (positions (i, m))) u" if "(i, m) \<in> set (visits b e)" for i m u
    using assms(1) [OF that] by (cases u) (simp add: test_row_loop_pure)
  then have "run_words pf (visits b e) () = test_row_loop ?f (concat (map (\<lambda>x. map int (positions x)) (visits b e))) ()"
    by (rule run_words_rows [where rows = "\<lambda>x. map int (positions x)"])
  also have "concat (map (\<lambda>x. map int (positions x)) (visits b e)) = map int [nat b..<nat e]"
    unfolding visits_positions [OF assms(2), symmetric] by (simp add: map_concat comp_def)
  finally show ?thesis
    by (auto simp: test_row_loop_pure nat_le_iff zless_nat_eq_int_zless)
qed

lemma positions_all:
  assumes "0 \<le> i"
  shows "(\<forall>p \<in> set (positions (i, m)). P p) \<longleftrightarrow> (\<forall>k. bit m k \<longrightarrow> P (64 * nat i + k))"
  by (auto simp: positions_def)

interpretation all_set: word_visitor "all_set_partial bits word" "all_set_full bits word" for bits word
  by unfold_locales (simp add: all_set_partial_def all_set_full_def)

lemma word_eq_bits: "a = b \<longleftrightarrow> (\<forall>k. bit a k = bit b k)" for a b :: "64 word"
  by (auto intro: bit_word_eqI)

lemma masked_eq: "a AND m = b AND m \<longleftrightarrow> (\<forall>k. bit m k \<longrightarrow> bit a k = bit b k)" for a b m :: "64 word"
  by (auto simp: word_eq_bits bit_and_iff)

lemma isAllSet_spec:
  assumes "0 \<le> b" "e + 64 \<le> INT32_MAX" "bits_ok mem e"
  shows "isAllSet mem b e v = Inr (\<forall>p. b \<le> int p \<and> int p < e \<longrightarrow> mem_bit mem p = v)"
proof (cases "b < e")
  case True
  let ?word = "if v then - 1 else 0"
  have "all_set_partial mem ?word i m () = Inr (\<forall>p \<in> set (positions (i, m)). mem_bit mem p = v, ())"
    if im: "(i, m) \<in> set (visits b e)" for i m
  proof -
    have i: "0 \<le> i" "64 * i < e" using visits_index [OF im assms(1)] by auto
    from word_read_ok [OF assms(3) i] obtain w where
      w: "word_read mem i = Inr w" "\<And>k. bit w k \<longleftrightarrow> k < 64 \<and> mem_bit mem (64 * nat i + k)" by blast
    have "bit m k \<Longrightarrow> k < 64" for k using bit_imp_le_length [of m k] by simp
    then have "?word AND m = w AND m \<longleftrightarrow> (\<forall>k. bit m k \<longrightarrow> mem_bit mem (64 * nat i + k) = v)"
      using w(2) by (auto simp: masked_eq)
    then show ?thesis using w(1) i(1) by (simp add: all_set_partial_def positions_all)
  qed
  from run_words_all [where pf = "all_set_partial mem ?word" and P = "\<lambda>p. mem_bit mem p = v", OF this assms(1)]
    all_set.testWords_visits [OF assms(1,2), of mem ?word "()"] show ?thesis
    using True by (simp add: isAllSet_def Let_def)
qed (auto simp: isAllSet_def)

interpretation compare_words: word_visitor "compare_partial f left right" "compare_full f left right" for f left right
  by unfold_locales (simp add: compare_partial_def compare_full_def)

text \<open>The comparisons look at every bit of both arrays.\<close>

lemma compare_words_spec:
  assumes "0 \<le> b" "e + 64 \<le> INT32_MAX" "bits_ok left e" "bits_ok right e"
    and "\<And>l r m. f (l AND m) r \<longleftrightarrow> (\<forall>k. bit m k \<longrightarrow> P (bit l k) (bit r k))"
  shows "testWords b e (compare_partial f left right) (compare_full f left right) () =
    Inr (\<forall>p. b \<le> int p \<and> int p < e \<longrightarrow> P (mem_bit left p) (mem_bit right p), ())"
proof -
  have "compare_partial f left right i m () = Inr (\<forall>p \<in> set (positions (i, m)). P (mem_bit left p) (mem_bit right p), ())"
    if im: "(i, m) \<in> set (visits b e)" for i m
  proof -
    have i: "0 \<le> i" "64 * i < e" using visits_index [OF im assms(1)] by auto
    from word_read_ok [OF assms(3) i] obtain l where
      l: "word_read left i = Inr l" "\<And>k. bit l k \<longleftrightarrow> k < 64 \<and> mem_bit left (64 * nat i + k)" by blast
    from word_read_ok [OF assms(4) i] obtain r where
      r: "word_read right i = Inr r" "\<And>k. bit r k \<longleftrightarrow> k < 64 \<and> mem_bit right (64 * nat i + k)" by blast
    have "bit m k \<Longrightarrow> k < 64" for k using bit_imp_le_length [of m k] by simp
    then have "f (l AND m) r \<longleftrightarrow> (\<forall>k. bit m k \<longrightarrow> P (mem_bit left (64 * nat i + k)) (mem_bit right (64 * nat i + k)))"
      using l(2) r(2) assms(5) by auto
    then show ?thesis using l(1) r(1) i(1) by (simp add: compare_partial_def positions_all)
  qed
  from run_words_all [where pf = "compare_partial f left right" and P = "\<lambda>p. P (mem_bit left p) (mem_bit right p)",
      OF this assms(1)] show ?thesis
    using compare_words.testWords_visits [OF assms(1,2)] by simp
qed

lemma isSubset_spec:
  assumes "0 \<le> b" "e + 64 \<le> INT32_MAX" "bits_ok sub e" "bits_ok super e"
  shows "isSubset sub super b e = Inr (\<forall>p. b \<le> int p \<and> int p < e \<longrightarrow> mem_bit sub p \<longrightarrow> mem_bit super p)"
proof -
  have "r AND (l AND m) = l AND m \<longleftrightarrow> (\<forall>k. bit m k \<longrightarrow> bit l k \<longrightarrow> bit r k)" for l r m :: "64 word"
    by (auto simp: word_eq_bits bit_and_iff)
  from compare_words_spec [OF assms, of "\<lambda>subWord w. w AND subWord = subWord", OF this] show ?thesis
    by (simp add: isSubset_def)
qed

lemma hasIntersection_spec:
  assumes "0 \<le> b" "e + 64 \<le> INT32_MAX" "bits_ok left e" "bits_ok right e"
  shows "hasIntersection left right b e = Inr (\<exists>p. b \<le> int p \<and> int p < e \<and> mem_bit left p \<and> mem_bit right p)"
proof (cases "b < e")
  case True
  have "r AND (l AND m) = 0 \<longleftrightarrow> (\<forall>k. bit m k \<longrightarrow> \<not> (bit l k \<and> bit r k))" for l r m :: "64 word"
    by (auto simp: word_eq_bits bit_and_iff)
  from compare_words_spec [OF assms, of "\<lambda>leftWord w. w AND leftWord = 0", OF this] show ?thesis
    using True by (auto simp: hasIntersection_def)
qed (auto simp: hasIntersection_def)

end
