(* ===== verification/Bit_Util_Updates.thy ===== *)
theory Bit_Util_Updates
  imports Bit_Util_Queries
begin

text \<open>
  What the functions that write a range of bits change: \<open>fillBits\<close>, \<open>andRange\<close>, \<open>orRange\<close> and \<open>setBit\<close> update exactly the
  bits of their range (\<open>bits_updated\<close>).
\<close>

unbundle bit_operations_syntax

section \<open>Updating\<close>

definition bits_updated :: "byte list \<Rightarrow> (nat \<Rightarrow> bool) \<Rightarrow> (nat \<Rightarrow> bool \<Rightarrow> bool) \<Rightarrow> byte list \<Rightarrow> bool" where
  "bits_updated mem D g mem' \<longleftrightarrow>
     length mem' = length mem \<and> (\<forall>p. mem_bit mem' p = (if D p then g p (mem_bit mem p) else mem_bit mem p))"

text \<open>Callbacks that update the masked bits of their word update all bits of the range.\<close>

lemma fold_words_update:
  assumes "\<And>i m mem. (i, m) \<in> set vs \<Longrightarrow> length mem = n \<Longrightarrow>
      \<exists>mem'. pf i m mem = Inr mem' \<and> bits_updated mem (\<lambda>p. p \<in> set (positions (i, m))) g mem'"
    and "distinct (concat (map positions vs))" "length mem = n"
  shows "\<exists>mem'. fold_words pf vs mem = Inr mem' \<and> bits_updated mem (\<lambda>p. p \<in> set (concat (map positions vs))) g mem'"
  using assms
proof (induction vs arbitrary: mem)
  case Nil
  then show ?case by (simp add: bits_updated_def)
next
  case (Cons v vs)
  obtain i m where v: "v = (i, m)" by (cases v)
  from Cons.prems(1) [of i m mem] v Cons.prems(3) obtain mem1 where
    m1: "pf i m mem = Inr mem1" "bits_updated mem (\<lambda>p. p \<in> set (positions v)) g mem1" by auto
  have "length mem1 = n" using m1(2) Cons.prems(3) by (simp add: bits_updated_def)
  moreover have "distinct (concat (map positions vs))" using Cons.prems(2) by simp
  ultimately obtain mem2 where m2: "fold_words pf vs mem1 = Inr mem2"
    "bits_updated mem1 (\<lambda>p. p \<in> set (concat (map positions vs))) g mem2"
    using Cons.IH Cons.prems(1) by (metis list.set_intros(2))
  have "set (positions v) \<inter> set (concat (map positions vs)) = {}" using Cons.prems(2) by simp
  then have "bits_updated mem (\<lambda>p. p \<in> set (concat (map positions (v # vs)))) g mem2"
    using m1(2) m2(2) unfolding bits_updated_def by auto
  then show ?case using m1(1) m2(1) v by simp
qed

lemma forEachWord_update:
  assumes "0 \<le> b" "bits_ok mem e"
    and "\<And>i m mem'. 0 \<le> i \<Longrightarrow> 64 * i < e \<Longrightarrow> bits_ok mem' e \<Longrightarrow> length mem' = length mem \<Longrightarrow>
      \<exists>mem''. pf i m mem' = Inr mem'' \<and>
        bits_updated mem' (\<lambda>p. p div 64 = nat i \<and> bit m (p mod 64)) g mem''"
  shows "\<exists>mem'. fold_words pf (visits b e) mem = Inr mem' \<and> bits_updated mem (\<lambda>p. b \<le> int p \<and> int p < e) g mem'"
proof -
  have pos: "p \<in> set (positions (i, m)) \<longleftrightarrow> p div 64 = nat i \<and> bit m (p mod 64)" for p i m
  proof
    assume "p div 64 = nat i \<and> bit m (p mod 64)"
    then have "p = 64 * nat i + p mod 64" "p mod 64 \<in> set (word_bits m)" using mult_div_mod_eq [of 64 p] by auto
    then show "p \<in> set (positions (i, m))" by (auto simp: positions_def)
  next
    assume "p \<in> set (positions (i, m))"
    then obtain k where k: "p = 64 * nat i + k" "bit m k" by (auto simp: positions_def)
    then have "k < 64" using bit_imp_le_length [of m k] by simp
    then show "p div 64 = nat i \<and> bit m (p mod 64)" using k by simp
  qed
  have "\<exists>mem''. pf i m mem' = Inr mem'' \<and> bits_updated mem' (\<lambda>p. p \<in> set (positions (i, m))) g mem''"
    if "(i, m) \<in> set (visits b e)" "length mem' = length mem" for i m mem'
    using assms(3) [of i mem' m] visits_index [OF that(1) assms(1)] that(2) assms(2) by (simp add: pos bits_ok_def)
  moreover have "distinct (concat (map positions (visits b e)))" unfolding visits_positions [OF assms(1)] by simp
  ultimately have "\<exists>mem'. fold_words pf (visits b e) mem = Inr mem' \<and>
      bits_updated mem (\<lambda>p. p \<in> set (concat (map positions (visits b e)))) g mem'"
    using fold_words_update [of "visits b e" "length mem" pf g mem] by blast
  then show ?thesis unfolding visits_positions [OF assms(1)] by (simp add: nat_le_iff zless_nat_eq_int_zless)
qed

lemma masked_write:
  assumes "bits_ok mem e" "0 \<le> i" "64 * i < e"
    and "\<And>k. k < 64 \<Longrightarrow> bit w k = (if bit m k then g (64 * nat i + k) (mem_bit mem (64 * nat i + k)) else mem_bit mem (64 * nat i + k))"
  shows "\<exists>mem'. word_write mem i w = Inr mem' \<and> bits_updated mem (\<lambda>p. p div 64 = nat i \<and> bit m (p mod 64)) g mem'"
proof -
  obtain mem' where m: "word_write mem i w = Inr mem'" "length mem' = length mem"
    "\<And>p. mem_bit mem' p = (if p div 64 = nat i then bit w (p mod 64) else mem_bit mem p)"
    using word_write_ok [OF assms(1-3), of w] by blast
  have "mem_bit mem' p = (if p div 64 = nat i \<and> bit m (p mod 64) then g p (mem_bit mem p) else mem_bit mem p)" for p
  proof (cases "p div 64 = nat i")
    case True
    then have "64 * nat i + p mod 64 = p" using mult_div_mod_eq [of 64 p] by simp
    then show ?thesis using m(3) [of p] assms(4) [of "p mod 64"] True by simp
  qed (use m(3) in simp)
  then show ?thesis using m(1,2) by (auto simp: bits_updated_def)
qed

interpretation fill: word_updater "fill_partial v" "fill_full v" for v
proof
  fix i :: int and mem :: "byte list"
  show "fill_full v i mem = fill_partial v i (- 1) mem"
  proof (cases "word_read mem i")
    case (Inl e)
    then show ?thesis
      by (auto simp: fill_full_def fill_partial_def word_read_def word_write_def load_def store_bytes_def split: if_splits)
  next
    case (Inr w)
    then show ?thesis by (simp add: fill_full_def fill_partial_def)
  qed
qed

lemma fillBits_spec:
  assumes "0 \<le> b" "e + 64 \<le> INT32_MAX" "bits_ok mem e"
  shows "\<exists>mem'. fillBits mem b e v = Inr mem' \<and> bits_updated mem (\<lambda>p. b \<le> int p \<and> int p < e) (\<lambda>_ _. v) mem'"
proof -
  have "\<exists>mem''. fill_partial v i m mem' = Inr mem'' \<and> bits_updated mem' (\<lambda>p. p div 64 = nat i \<and> bit m (p mod 64)) (\<lambda>_ _. v) mem''"
    if a: "0 \<le> i" "64 * i < e" "bits_ok mem' e" for i m mem'
  proof -
    from word_read_ok [OF a(3,1,2)] obtain w where
      w: "word_read mem' i = Inr w" "\<And>k. bit w k \<longleftrightarrow> k < 64 \<and> mem_bit mem' (64 * nat i + k)" by blast
    show ?thesis
      using masked_write [OF a(3,1,2), of "if v then w OR (- 1 AND m) else w AND NOT m" m "\<lambda>_ _. v"] w
      by (auto simp: fill_partial_def bit_simps)
  qed
  from forEachWord_update [OF assms(1,3) this] show ?thesis
    using fill.forEachWord_visits [OF assms(1,2)] by (simp add: fillBits_def)
qed

interpretation range_words: word_updater "range_partial f left right" "range_full f left right" for f left right
proof
  fix i :: int and target :: "byte list"
  show "range_full f left right i target = range_partial f left right i (- 1) target"
  proof (cases "word_read target i")
    case (Inl e)
    then have "word_write target i w = Inl e" for w
      by (auto simp: word_read_def word_write_def load_def store_bytes_def split: if_splits)
    moreover have err: "word_read mem j = Inl x \<Longrightarrow> x = OutOfRange" for mem j x
      by (auto simp: word_read_def load_def split: if_splits)
    ultimately show ?thesis using Inl err [OF Inl]
      by (cases "left_word left target i"; cases "word_read right i") (auto simp: range_full_def range_partial_def left_word_def dest!: err)
  next
    case (Inr w)
    then show ?thesis by (simp add: range_full_def range_partial_def)
  qed
qed

text \<open>The left operand is another array or the target itself.\<close>

definition left_bit :: "byte list option \<Rightarrow> nat \<Rightarrow> bool \<Rightarrow> bool" where
  "left_bit left p x = (case left of None \<Rightarrow> x | Some l \<Rightarrow> mem_bit l p)"

lemma range_words_spec:
  assumes "0 \<le> b" "e + 64 \<le> INT32_MAX" "bits_ok target e" "bits_ok right e" "\<And>l. left = Some l \<Longrightarrow> bits_ok l e"
    and "\<And>l r k. bit (f l r) k \<longleftrightarrow> k < 64 \<and> P (bit l k) (bit r k)"
  shows "\<exists>mem'. forEachWord b e (range_partial f left right) (range_full f left right) target = Inr mem' \<and>
    bits_updated target (\<lambda>p. b \<le> int p \<and> int p < e) (\<lambda>p x. P (left_bit left p x) (mem_bit right p)) mem'"
proof -
  have "\<exists>mem''. range_partial f left right i m mem' = Inr mem'' \<and>
      bits_updated mem' (\<lambda>p. p div 64 = nat i \<and> bit m (p mod 64)) (\<lambda>p x. P (left_bit left p x) (mem_bit right p)) mem''"
    if a: "0 \<le> i" "64 * i < e" "bits_ok mem' e" for i m mem'
  proof -
    from word_read_ok [OF a(3,1,2)] obtain t where
      t: "word_read mem' i = Inr t" "\<And>k. bit t k \<longleftrightarrow> k < 64 \<and> mem_bit mem' (64 * nat i + k)" by blast
    have "bits_ok (case left of None \<Rightarrow> mem' | Some l \<Rightarrow> l) e" using a(3) assms(5) by (simp split: option.split)
    from word_read_ok [OF this a(1,2)] obtain l where l: "left_word left mem' i = Inr l"
      "\<And>k. bit l k \<longleftrightarrow> k < 64 \<and> mem_bit (case left of None \<Rightarrow> mem' | Some l \<Rightarrow> l) (64 * nat i + k)"
      unfolding left_word_def by blast
    from word_read_ok [OF assms(4) a(1,2)] obtain r where
      r: "word_read right i = Inr r" "\<And>k. bit r k \<longleftrightarrow> k < 64 \<and> mem_bit right (64 * nat i + k)" by blast
    have "bit ((t AND NOT m) OR (m AND f l r)) k =
        (if bit m k then P (left_bit left (64 * nat i + k) (mem_bit mem' (64 * nat i + k))) (mem_bit right (64 * nat i + k))
         else mem_bit mem' (64 * nat i + k))" if "k < 64" for k
      using that t(2) l(2) r(2) assms(6) by (auto simp: bit_simps left_bit_def split: option.splits)
    from masked_write [OF a(3,1,2), of "(t AND NOT m) OR (m AND f l r)" m "\<lambda>p x. P (left_bit left p x) (mem_bit right p)", OF this]
    show ?thesis using t(1) l(1) r(1) by (simp add: range_partial_def)
  qed
  from forEachWord_update [OF assms(1,3) this] show ?thesis
    using range_words.forEachWord_visits [OF assms(1,2)] by simp
qed

lemma andRange_spec:
  assumes "0 \<le> b" "e + 64 \<le> INT32_MAX" "bits_ok target e" "bits_ok right e" "\<And>l. left = Some l \<Longrightarrow> bits_ok l e"
  shows "\<exists>mem'. andRange negate target left right b e = Inr mem' \<and>
    bits_updated target (\<lambda>p. b \<le> int p \<and> int p < e) (\<lambda>p x. left_bit left p x \<and> mem_bit right p \<noteq> negate) mem'"
  unfolding andRange_def Let_def
  by (rule range_words_spec [OF assms]) (auto simp: bit_simps dest: bit_imp_le_length)

lemma orRange_spec:
  assumes "0 \<le> b" "e + 64 \<le> INT32_MAX" "bits_ok target e" "bits_ok right e" "\<And>l. left = Some l \<Longrightarrow> bits_ok l e"
  shows "\<exists>mem'. orRange negate target left right b e = Inr mem' \<and>
    bits_updated target (\<lambda>p. b \<le> int p \<and> int p < e) (\<lambda>p x. left_bit left p x \<or> mem_bit right p \<noteq> negate) mem'"
  unfolding orRange_def Let_def
  by (rule range_words_spec [OF assms]) (auto simp: bit_simps dest: bit_imp_le_length)

section \<open>Single bits\<close>

lemma isBitSet_spec:
  assumes "0 \<le> idx" "0 < n" "n \<le> 8" "n dvd length mem" "idx < 8 * int (length mem)"
  shows "isBitSet n mem idx = Inr (mem_bit mem (nat idx))"
proof -
  obtain c where c: "length mem = n * c" using assms(4) by auto
  let ?q = "nat idx div (8 * n)" and ?r = "nat idx mod (8 * n)"
  have "nat idx < (8 * n) * c" using assms(1,5) c by (simp add: nat_less_iff mult.assoc)
  then have "?q < c" by (simp add: less_mult_imp_div_less mult.commute)
  then have "n * ?q + n \<le> length mem" using c mult_le_mono2 [of "Suc ?q" c n] by simp
  then obtain w where w: "load n mem (n * ?q) = Inr w" by simp
  have "bit w ?r \<longleftrightarrow> mem_bit mem (8 * (n * ?q) + ?r)" using bit_load [OF w assms(3)] assms(2) by simp
  moreover have "8 * (n * ?q) + ?r = nat idx" by (simp add: mult.assoc [symmetric])
  ultimately show ?thesis using w assms(1) by (simp add: isBitSet_def)
qed

lemma mem_bit_update:
  assumes "i div 8 < length mem" "\<And>k. k < 8 \<Longrightarrow> bit b k = (if k = i mod 8 then v else bit (mem ! (i div 8)) k)"
  shows "mem_bit (mem[i div 8 := b]) p = (if p = i then v else mem_bit mem p)"
proof (cases "p div 8 = i div 8")
  case True
  then have "p = i \<longleftrightarrow> p mod 8 = i mod 8" using div_mult_mod_eq [of p 8] div_mult_mod_eq [of i 8] by metis
  then show ?thesis using True assms by (auto simp: mem_bit_def)
next
  case False
  then show ?thesis by (auto simp: mem_bit_def)
qed

lemma setBit_to_spec:
  assumes "i < 8 * length mem"
  shows "\<exists>mem'. setBit_to mem i v = Inr mem' \<and> bits_updated mem (\<lambda>p. p = i) (\<lambda>_ _. v) mem'"
proof -
  have i: "i div 8 < length mem" using assms by (simp add: div8_less)
  have "bit (mem ! (i div 8) OR push_bit (i mod 8) 1) k = (if k = i mod 8 then True else bit (mem ! (i div 8)) k)" if "k < 8" for k
    using that by (auto simp: bit_simps)
  moreover have "bit (mem ! (i div 8) AND kZeroBitmasks ! (i mod 8)) k = (if k = i mod 8 then False else bit (mem ! (i div 8)) k)" if "k < 8" for k
    using that by (auto simp: kZeroBitmasks_def bit_simps)
  ultimately show ?thesis
    using i mem_bit_update [OF i] by (cases v) (auto simp: setBit_to_def setBit_def clearBit_def bits_updated_def)
qed

end
