(* ===== verification/Selectivity_Vector.thy ===== *)
theory Selectivity_Vector
  imports Bit_Util_Updates
begin

text \<open>
  The set of selected rows of \<open>velox/vector/SelectivityVector.h\<close>: a bit array with a number of rows, the
  bounds of the selected rows, and a cached answer to the question whether all rows are selected. An
  operation that changes the vector returns the changed vector; one that is \<open>const\<close> and only updates the
  cache returns it too.
\<close>

unbundle bit_operations_syntax

record SelectivityVector =
  sv_bits :: "byte list"
  sv_size :: int
  sv_begin :: int
  sv_end :: int
  sv_allSelected :: "bool option"

text \<open>\<open>std::vector<uint64_t>::resize\<close>; the number of words is an \<open>uint64_t\<close>, so that a negative one is too large.\<close>

definition resize_words :: "byte list \<Rightarrow> int \<Rightarrow> bool \<Rightarrow> byte list res" where
  "resize_words bits n v =
     (if n < 0 then Inl LengthError
      else Inr (take (8 * nat n) bits @ replicate (8 * nat n - length bits) (if v then - 1 else 0)))"

definition SelectivityVector_new :: "int \<Rightarrow> bool \<Rightarrow> SelectivityVector res" where
  "SelectivityVector_new n allSelected =
     rbind (nwords n) (\<lambda>numWords. rbind (resize_words [] numWords allSelected) (\<lambda>bits.
       Inr \<lparr>sv_bits = bits, sv_size = n, sv_begin = 0, sv_end = (if allSelected then n else 0),
            sv_allSelected = Some allSelected\<rparr>))"

definition SelectivityVector_empty :: "int \<Rightarrow> SelectivityVector res" where
  "SelectivityVector_empty n = SelectivityVector_new n False"

definition updateBounds :: "SelectivityVector \<Rightarrow> SelectivityVector res" where
  "updateBounds sv =
     rbind (findFirstBit (sv_bits sv) 0 (sv_size sv)) (\<lambda>b.
       if b = - 1 then Inr (sv\<lparr>sv_begin := 0, sv_end := 0, sv_allSelected := Some False\<rparr>)
       else rbind (findLastBit (sv_bits sv) b (sv_size sv) True) (\<lambda>l.
         Inr (sv\<lparr>sv_begin := b, sv_end := l + 1, sv_allSelected := None\<rparr>)))"

text \<open>\<open>fillBits(&bits_.back(), start, 64, value)\<close>\<close>

definition fill_back :: "byte list \<Rightarrow> int \<Rightarrow> bool \<Rightarrow> byte list res" where
  "fill_back bits start v =
     (let k = length bits - 8
      in rbind (fillBits (drop k bits) start 64 v) (\<lambda>lastWord. Inr (take k bits @ lastWord)))"

definition resize :: "SelectivityVector \<Rightarrow> int \<Rightarrow> bool \<Rightarrow> SelectivityVector res" where
  "resize sv n v =
     rbind (nwords n) (\<lambda>numWords.
     rbind (if n > sv_size sv \<and> sv_bits sv \<noteq> [] \<and> cmod (sv_size sv) 64 \<noteq> 0
            then fill_back (sv_bits sv) (cmod (sv_size sv) 64) v else Inr (sv_bits sv)) (\<lambda>bits.
     rbind (resize_words bits numWords v) (\<lambda>bits'.
       updateBounds (sv\<lparr>sv_bits := bits', sv_size := n\<rparr>))))"

definition resizeFill :: "SelectivityVector \<Rightarrow> int \<Rightarrow> bool \<Rightarrow> SelectivityVector res" where
  "resizeFill sv n v =
     rbind (nwords n) (\<lambda>numWords. rbind (resize_words (sv_bits sv) numWords False) (\<lambda>bits.
       Inr (sv\<lparr>sv_bits := replicate (length bits) (if v then - 1 else 0), sv_size := n, sv_begin := 0,
               sv_end := (if v then n else 0), sv_allSelected := Some v\<rparr>)))"

definition setValid :: "SelectivityVector \<Rightarrow> int \<Rightarrow> bool \<Rightarrow> SelectivityVector res" where
  "setValid sv idx valid =
     rbind (setBit_to (sv_bits sv) (nat (idx mod 2 ^ 32)) valid) (\<lambda>bits.
       Inr (sv\<lparr>sv_bits := bits, sv_allSelected := None\<rparr>))"

definition setValidRange :: "SelectivityVector \<Rightarrow> int \<Rightarrow> int \<Rightarrow> bool \<Rightarrow> SelectivityVector res" where
  "setValidRange sv begin end' valid =
     (if begin = end' then Inr sv
      else rbind (fillBits (sv_bits sv) begin end' valid) (\<lambda>bits.
        Inr (sv\<lparr>sv_bits := bits, sv_allSelected := None\<rparr>)))"

definition isValid :: "SelectivityVector \<Rightarrow> int \<Rightarrow> bool res" where
  "isValid sv idx = isBitSet 8 (sv_bits sv) idx"

definition hasSelections :: "SelectivityVector \<Rightarrow> bool" where
  "hasSelections sv \<longleftrightarrow> sv_begin sv < sv_end sv"

definition clearAll :: "SelectivityVector \<Rightarrow> SelectivityVector res" where
  "clearAll sv =
     rbind (fillBits (sv_bits sv) 0 (sv_size sv) False) (\<lambda>bits.
       Inr (sv\<lparr>sv_bits := bits, sv_begin := 0, sv_end := 0, sv_allSelected := Some False\<rparr>))"

definition setAll :: "SelectivityVector \<Rightarrow> SelectivityVector res" where
  "setAll sv =
     rbind (fillBits (sv_bits sv) 0 (sv_size sv) True) (\<lambda>bits.
       Inr (sv\<lparr>sv_bits := bits, sv_begin := 0, sv_end := sv_size sv, sv_allSelected := Some True\<rparr>))"

definition setFromBits :: "SelectivityVector \<Rightarrow> byte list \<Rightarrow> int \<Rightarrow> SelectivityVector res" where
  "setFromBits sv bits n =
     rbind (nwords n) (\<lambda>numWords.
     rbind (if 8 * numWords > int (length (sv_bits sv)) then resize_words (sv_bits sv) numWords False
            else Inr (sv_bits sv)) (\<lambda>own.
     if numWords < 0 \<or> int (length bits) < 8 * numWords then Inl OutOfRange
     else updateBounds (sv\<lparr>sv_bits := take (8 * nat numWords) bits @ drop (8 * nat numWords) own,
                           sv_size := n, sv_begin := 0, sv_end := n\<rparr>)))"

definition intersect :: "SelectivityVector \<Rightarrow> SelectivityVector \<Rightarrow> SelectivityVector res" where
  "intersect sv other =
     rbind (andBits (sv_bits sv) None (sv_bits other) (sv_begin sv) (min (sv_end sv) (sv_size other)))
       (\<lambda>bits. updateBounds (sv\<lparr>sv_bits := bits\<rparr>))"

definition deselect :: "SelectivityVector \<Rightarrow> SelectivityVector \<Rightarrow> SelectivityVector res" where
  "deselect sv other =
     rbind (andWithNegatedBits (sv_bits sv) None (sv_bits other) (sv_begin sv) (min (sv_end sv) (sv_size other)))
       (\<lambda>bits. updateBounds (sv\<lparr>sv_bits := bits\<rparr>))"

definition deselect_bits :: "SelectivityVector \<Rightarrow> byte list \<Rightarrow> int \<Rightarrow> int \<Rightarrow> SelectivityVector res" where
  "deselect_bits sv bits begin end' =
     rbind (andWithNegatedBits (sv_bits sv) None bits (max (sv_begin sv) begin) (min (sv_end sv) end'))
       (\<lambda>bits. updateBounds (sv\<lparr>sv_bits := bits\<rparr>))"

definition deselectNulls :: "SelectivityVector \<Rightarrow> byte list \<Rightarrow> int \<Rightarrow> int \<Rightarrow> SelectivityVector res" where
  "deselectNulls sv bits begin end' =
     rbind (andBits (sv_bits sv) None bits (max (sv_begin sv) begin) (min (sv_end sv) end'))
       (\<lambda>bits. updateBounds (sv\<lparr>sv_bits := bits\<rparr>))"

definition deselectNonNulls :: "SelectivityVector \<Rightarrow> byte list \<Rightarrow> int \<Rightarrow> int \<Rightarrow> SelectivityVector res" where
  "deselectNonNulls sv bits begin end' =
     rbind (andWithNegatedBits (sv_bits sv) None bits (max (sv_begin sv) begin) (min (sv_end sv) end'))
       (\<lambda>bits. updateBounds (sv\<lparr>sv_bits := bits\<rparr>))"

text \<open>Null bits are set for values that are not null; a null pointer is \<^const>\<open>None\<close>.\<close>

definition clearNulls :: "SelectivityVector \<Rightarrow> byte list option \<Rightarrow> byte list option res" where
  "clearNulls sv nulls =
     (case nulls of
        None \<Rightarrow> Inr None
      | Some bits \<Rightarrow> rbind (orBits bits None (sv_bits sv) (sv_begin sv) (sv_end sv)) (\<lambda>b. Inr (Some b)))"

definition setNulls :: "SelectivityVector \<Rightarrow> byte list option \<Rightarrow> byte list res" where
  "setNulls sv nulls =
     (case nulls of
        None \<Rightarrow> Inl CheckFailed
      | Some bits \<Rightarrow> andWithNegatedBits bits None (sv_bits sv) (sv_begin sv) (sv_end sv))"

definition select :: "SelectivityVector \<Rightarrow> SelectivityVector \<Rightarrow> SelectivityVector res" where
  "select sv other =
     rbind (if sv_size sv < sv_size other then resize sv (sv_size other) False else Inr sv) (\<lambda>sv.
     rbind (orBits (sv_bits sv) None (sv_bits other) 0 (min (sv_size sv) (sv_size other))) (\<lambda>bits.
       updateBounds (sv\<lparr>sv_bits := bits\<rparr>)))"

definition sv_isSubset :: "SelectivityVector \<Rightarrow> SelectivityVector \<Rightarrow> bool res" where
  "sv_isSubset sv other =
     (if sv_begin sv \<ge> sv_begin other \<and> sv_end sv \<le> sv_end other then
        isSubset (sv_bits sv) (sv_bits other) (sv_begin sv) (sv_end sv)
      else Inr False)"

definition isAllSelected :: "SelectivityVector \<Rightarrow> (bool \<times> SelectivityVector) res" where
  "isAllSelected sv =
     (case sv_allSelected sv of
        Some a \<Rightarrow> Inr (a, sv)
      | None \<Rightarrow>
          rbind (if sv_begin sv = 0 \<and> sv_end sv = sv_size sv then isAllSet (sv_bits sv) 0 (sv_size sv) True
                 else Inr False) (\<lambda>a. Inr (a, sv\<lparr>sv_allSelected := Some a\<rparr>)))"

definition countSelected :: "SelectivityVector \<Rightarrow> (int \<times> SelectivityVector) res" where
  "countSelected sv =
     (if sv_allSelected sv = Some True then Inr (sv_size sv, sv)
      else rbind (countBits (sv_bits sv) (sv_begin sv) (sv_end sv)) (\<lambda>count.
        Inr (int count, sv\<lparr>sv_allSelected := Some (int count = sv_size sv)\<rparr>)))"

definition equal_partial :: "byte list \<Rightarrow> byte list \<Rightarrow> int \<Rightarrow> 64 word \<Rightarrow> unit \<Rightarrow> (bool \<times> unit) res" where
  "equal_partial left right idx m u =
     rbind (word_read left idx) (\<lambda>l. rbind (word_read right idx) (\<lambda>r. Inr (l AND m = r AND m, u)))"

definition equal_full :: "byte list \<Rightarrow> byte list \<Rightarrow> int \<Rightarrow> unit \<Rightarrow> (bool \<times> unit) res" where
  "equal_full left right idx u =
     rbind (word_read left idx) (\<lambda>l. rbind (word_read right idx) (\<lambda>r. Inr (l = r, u)))"

definition sv_equal :: "SelectivityVector \<Rightarrow> SelectivityVector \<Rightarrow> bool res" where
  "sv_equal sv other =
     (if sv_begin sv = sv_begin other \<and> sv_end sv = sv_end other then
        rbind (testWords (sv_begin sv) (sv_end sv)
            (equal_partial (sv_bits sv) (sv_bits other)) (equal_full (sv_bits sv) (sv_bits other)) ())
          (\<lambda>(r, _). Inr r)
      else Inr False)"

text \<open>The rows are visited by a plain loop when all of them are selected.\<close>

definition applyToSelected ::
    "SelectivityVector \<Rightarrow> (int \<Rightarrow> 's \<Rightarrow> 's res) \<Rightarrow> 's \<Rightarrow> ('s \<times> SelectivityVector) res" where
  "applyToSelected sv func s =
     rbind (isAllSelected sv) (\<lambda>(a, sv').
     rbind (if a then row_loop func [sv_begin sv'..sv_end sv' - 1] s
            else forEachSetBit (sv_bits sv') (sv_begin sv') (sv_end sv') func s) (\<lambda>s'.
       Inr (s', sv')))"

definition testSelected ::
    "SelectivityVector \<Rightarrow> (int \<Rightarrow> 's \<Rightarrow> (bool \<times> 's) res) \<Rightarrow> 's \<Rightarrow> ((bool \<times> 's) \<times> SelectivityVector) res" where
  "testSelected sv func s =
     rbind (isAllSelected sv) (\<lambda>(a, sv').
     rbind (if a then test_row_loop func [sv_begin sv'..sv_end sv' - 1] s
            else testSetBits (sv_bits sv') (sv_begin sv') (sv_end sv') func s) (\<lambda>r.
       Inr (r, sv')))"

section \<open>Iterator\<close>

record SelectivityIterator =
  si_bits :: "byte list option"
  si_current :: "64 word"
  si_index :: int
  si_end :: int

definition SelectivityIterator_new :: "SelectivityVector \<Rightarrow> SelectivityIterator res" where
  "SelectivityIterator_new rows =
     (if sv_begin rows = sv_end rows then
        Inr \<lparr>si_bits = None, si_current = 0, si_index = 0, si_end = sv_end rows\<rparr>
      else
        rbind (word_read (sv_bits rows) (cdiv (sv_begin rows) 64)) (\<lambda>w.
        rbind (lowMask (sv_begin rows mod 64)) (\<lambda>low.
        rbind (if cdiv (sv_end rows) 64 = cdiv (sv_begin rows) 64 then
                 rbind (lowMask (sv_end rows mod 64)) (\<lambda>high. Inr (w AND NOT low AND high))
               else Inr (w AND NOT low)) (\<lambda>current.
          Inr \<lparr>si_bits = Some (sv_bits rows), si_current = current, si_index = cdiv (sv_begin rows) 64,
               si_end = sv_end rows\<rparr>))))"

text \<open>The loop over the words without a set bit; the flag is false at the end.\<close>

function skip_words :: "SelectivityIterator \<Rightarrow> (bool \<times> SelectivityIterator) res" where
  "skip_words it =
     (if si_current it = 0 then
        if (si_index it + 1) * 64 \<ge> si_end it then Inr (False, it)
        else
          rbind (deref (si_bits it)) (\<lambda>bits.
          rbind (word_read bits (si_index it + 1)) (\<lambda>w.
          rbind (if (si_index it + 2) * 64 > si_end it then
                   rbind (lowMask (si_end it mod 64)) (\<lambda>m. Inr (w AND m))
                 else Inr w) (\<lambda>current.
            skip_words (it\<lparr>si_index := si_index it + 1, si_current := current\<rparr>))))
      else Inr (True, it))"
  by pat_completeness auto
termination by (relation "measure (\<lambda>it. nat (si_end it - si_index it * 64))") auto

declare skip_words.simps [simp del]

definition iterator_next :: "SelectivityIterator \<Rightarrow> (int option \<times> SelectivityIterator) res" where
  "iterator_next it =
     rbind (skip_words it) (\<lambda>(found, it').
       if found then
         Inr (Some (si_index it' * 64 + int (ctz (si_current it'))),
              it'\<lparr>si_current := si_current it' AND (si_current it' - 1)\<rparr>)
       else Inr (None, it'))"

definition isBitNull :: "byte list \<Rightarrow> int \<Rightarrow> bool res" where
  "isBitNull bits idx = rbind (isBitSet 8 bits idx) (\<lambda>b. Inr (\<not> b))"

text \<open>\<open>indices\<close> and \<open>nulls\<close> describe the rows of a dictionary; a bit that is not set is a null.\<close>

definition translate_row :: "int list \<Rightarrow> byte list option \<Rightarrow> int \<Rightarrow> SelectivityVector \<Rightarrow> SelectivityVector res" where
  "translate_row indices nulls row innerRows =
     rbind (case nulls of None \<Rightarrow> Inr False | Some bits \<Rightarrow> isBitNull bits row) (\<lambda>isNull.
       if isNull then Inr innerRows
       else if 0 \<le> row \<and> nat row < length indices then setValid innerRows (indices ! nat row) True
       else Inl OutOfRange)"

definition translateToInnerRows ::
    "SelectivityVector \<Rightarrow> int list \<Rightarrow> byte list option \<Rightarrow> SelectivityVector \<Rightarrow> SelectivityVector res" where
  "translateToInnerRows outerRows indices nulls innerRows =
     rbind (applyToSelected outerRows (translate_row indices nulls) innerRows) (\<lambda>(inner, _). updateBounds inner)"

end
