(* ===== verification/Selectivity_Updates.thy ===== *)
theory Selectivity_Updates
  imports Selectivity_Vector
begin

text \<open>
  The set of rows that a vector selects, its invariant \<open>sv_ok\<close> (room for the rows, tight bounds, a correct
  cached answer), and what each operation does to the set.
\<close>

unbundle bit_operations_syntax

section \<open>The selected rows\<close>

definition selected :: "SelectivityVector \<Rightarrow> nat set" where
  "selected sv = {p. int p < sv_size sv \<and> mem_bit (sv_bits sv) p}"

definition selected_rows :: "SelectivityVector \<Rightarrow> int list" where
  "selected_rows sv = rows_with (sv_bits sv) True 0 (sv_size sv)"

text \<open>The bit array has room for the rows.\<close>

definition sv_shape :: "SelectivityVector \<Rightarrow> bool" where
  "sv_shape sv \<longleftrightarrow> 0 \<le> sv_size sv \<and> sv_size sv + 64 \<le> INT32_MAX \<and> bits_ok (sv_bits sv) (sv_size sv)"

definition bounds_ok :: "SelectivityVector \<Rightarrow> bool" where
  "bounds_ok sv \<longleftrightarrow>
     (if selected sv = {} then sv_begin sv = 0 \<and> sv_end sv = 0
      else sv_begin sv = int (Min (selected sv)) \<and> sv_end sv = int (Max (selected sv)) + 1)"

text \<open>The cache may hold either value when there are no rows.\<close>

definition cache_ok :: "SelectivityVector \<Rightarrow> bool" where
  "cache_ok sv \<longleftrightarrow>
     (\<forall>a. sv_allSelected sv = Some a \<longrightarrow> 0 < sv_size sv \<longrightarrow> a = (\<forall>p. int p < sv_size sv \<longrightarrow> p \<in> selected sv))"

definition sv_ok :: "SelectivityVector \<Rightarrow> bool" where
  "sv_ok sv \<longleftrightarrow> sv_shape sv \<and> bounds_ok sv \<and> cache_ok sv"

text \<open>The array has no word more than the rows need.\<close>

definition sv_tight :: "SelectivityVector \<Rightarrow> bool" where
  "sv_tight sv \<longleftrightarrow> int (length (sv_bits sv)) = 8 * ((sv_size sv + 63) div 64)"

lemma selected_finite [simp]: "finite (selected sv)"
  by (rule finite_subset [of _ "{..<nat (sv_size sv)}"]) (auto simp: selected_def)

lemma rows_sorted: "sorted (rows_with mem v b e)" "distinct (rows_with mem v b e)"
  by (auto simp: rows_with_def sorted_map distinct_map intro!: sorted_wrt_filter inj_onI)

lemma sorted_hd_Min: "sorted xs \<Longrightarrow> xs \<noteq> [] \<Longrightarrow> hd xs = Min (set xs)"
  by (cases xs) (auto intro!: Min_eqI [symmetric])

lemma sorted_last_Max: "sorted xs \<Longrightarrow> xs \<noteq> [] \<Longrightarrow> last xs = Max (set xs)"
proof -
  assume s: "sorted xs" "xs \<noteq> []"
  have "y \<le> last xs" if "y \<in> set xs" for y
    using s that by (auto simp: sorted_iff_nth_mono last_conv_nth in_set_conv_nth)
  then show ?thesis using s(2) by (intro Max_eqI [symmetric]) auto
qed

lemma selected_rows_set: "set (selected_rows sv) = int ` selected sv"
  by (auto simp: selected_rows_def rows_with_def selected_def image_iff zless_nat_eq_int_zless)

lemma selected_rows_Nil: "selected_rows sv = [] \<longleftrightarrow> selected sv = {}"
  using selected_rows_set [of sv] by (metis empty_is_image set_empty)

lemma Min_int: "finite S \<Longrightarrow> S \<noteq> {} \<Longrightarrow> Min (int ` S) = int (Min S)"
  by (rule Min_eqI) auto

lemma Max_int: "finite S \<Longrightarrow> S \<noteq> {} \<Longrightarrow> Max (int ` S) = int (Max S)"
  by (rule Max_eqI) auto

lemma rows_with_from:
  assumes "0 \<le> b" "b \<le> e" "\<And>p. int p < b \<Longrightarrow> mem_bit mem p \<noteq> v"
  shows "rows_with mem v b e = rows_with mem v 0 e"
proof -
  have "[0..<nat e] = [0..<nat b] @ [nat b..<nat e]" using assms(1,2) upt_add_eq_append [of 0 "nat b" "nat e - nat b"] by simp
  moreover have "filter (\<lambda>p. mem_bit mem p = v) [0..<nat b] = []"
    using assms(3) by (auto simp: filter_empty_conv zless_nat_eq_int_zless)
  ultimately show ?thesis by (simp add: rows_with_def)
qed

lemma rows_with_until:
  assumes "0 \<le> e" "e \<le> e'" "\<And>p. e \<le> int p \<Longrightarrow> int p < e' \<Longrightarrow> mem_bit mem p \<noteq> v"
  shows "rows_with mem v 0 e = rows_with mem v 0 e'"
proof -
  have "[0..<nat e'] = [0..<nat e] @ [nat e..<nat e']" using assms(1,2) upt_add_eq_append [of 0 "nat e" "nat e' - nat e"] by simp
  moreover have "filter (\<lambda>p. mem_bit mem p = v) [nat e..<nat e'] = []"
    using assms(3) by (auto simp: filter_empty_conv zless_nat_eq_int_zless nat_le_iff)
  ultimately show ?thesis by (simp add: rows_with_def)
qed

section \<open>\<open>updateBounds\<close>\<close>

lemma updateBounds_spec:
  assumes "sv_shape sv"
  obtains sv' where "updateBounds sv = Inr sv'" "sv_ok sv'" "sv_bits sv' = sv_bits sv" "sv_size sv' = sv_size sv"
proof -
  let ?rows = "selected_rows sv" and ?n = "sv_size sv" and ?m = "sv_bits sv"
  have sh: "0 \<le> ?n" "?n + 64 \<le> INT32_MAX" "bits_ok ?m ?n" using assms by (auto simp: sv_shape_def)
  have first: "findFirstBit ?m 0 ?n = Inr (case ?rows of [] \<Rightarrow> - 1 | p # _ \<Rightarrow> p)"
    using findFirstBit_spec [OF _ sh(2,3), of 0] by (simp add: selected_rows_def)
  have sel: "selected (sv\<lparr>sv_begin := b, sv_end := e, sv_allSelected := a\<rparr>) = selected sv" for b e a
    by (simp add: selected_def)
  show ?thesis
  proof (cases "selected sv = {}")
    case True
    then have "?rows = []" by (simp add: selected_rows_Nil)
    let ?sv = "sv\<lparr>sv_begin := 0, sv_end := 0, sv_allSelected := Some False\<rparr>"
    have "updateBounds sv = Inr ?sv" using first \<open>?rows = []\<close> by (simp add: updateBounds_def)
    moreover have "sv_ok ?sv" using assms True by (auto simp: sv_ok_def sv_shape_def bounds_ok_def cache_ok_def sel intro: exI [of _ 0])
    ultimately show ?thesis using that by simp
  next
    case False
    then have ne: "?rows \<noteq> []" by (simp add: selected_rows_Nil)
    have sorted: "sorted ?rows" using rows_sorted by (simp add: selected_rows_def)
    let ?b = "int (Min (selected sv))" and ?l = "int (Max (selected sv))"
    have b: "hd ?rows = ?b" using sorted_hd_Min [OF sorted ne] False by (simp add: selected_rows_set Min_int)
    have l: "last ?rows = ?l" using sorted_last_Max [OF sorted ne] False by (simp add: selected_rows_set Max_int)
    have "Min (selected sv) \<in> selected sv" using False by simp
    then have bn: "?b < ?n" by (simp add: selected_def)
    have "mem_bit ?m p \<noteq> True" if "int p < ?b" for p
      using Min_le [OF selected_finite, of p sv] that bn by (auto simp: selected_def)
    then have "rows_with ?m True ?b ?n = ?rows"
      unfolding selected_rows_def using bn by (intro rows_with_from) auto
    then have "findLastBit ?m ?b ?n True = Inr (case rev ?rows of [] \<Rightarrow> - 1 | p # _ \<Rightarrow> p)"
      using findLastBit_spec [OF _ sh(2,3), of ?b True] by simp
    moreover obtain xs x where "?rows = xs @ [x]" using ne by (cases ?rows rule: rev_cases) auto
    ultimately have "findLastBit ?m ?b ?n True = Inr ?l" using l by simp
    moreover have "findFirstBit ?m 0 ?n = Inr ?b" using first b ne by (cases ?rows) auto
    ultimately have "updateBounds sv = Inr (sv\<lparr>sv_begin := ?b, sv_end := ?l + 1, sv_allSelected := None\<rparr>)" (is "_ = Inr ?sv")
      by (simp add: updateBounds_def)
    moreover have "sv_ok ?sv" using assms False by (simp add: sv_ok_def sv_shape_def bounds_ok_def cache_ok_def sel)
    ultimately show ?thesis using that by simp
  qed
qed

section \<open>Operations\<close>

lemma sv_bounds:
  assumes "sv_ok sv"
  shows "0 \<le> sv_begin sv" "sv_begin sv \<le> sv_end sv" "sv_end sv \<le> sv_size sv"
    "\<And>p. p \<in> selected sv \<Longrightarrow> sv_begin sv \<le> int p \<and> int p < sv_end sv"
proof -
  have b: "bounds_ok sv" "0 \<le> sv_size sv" using assms by (auto simp: sv_ok_def sv_shape_def)
  have mm: "selected sv \<noteq> {} \<Longrightarrow> Min (selected sv) \<le> Max (selected sv) \<and> int (Max (selected sv)) < sv_size sv"
    using Max_in [OF selected_finite, of sv] Min_le [OF selected_finite Max_in [OF selected_finite], of sv] by (auto simp: selected_def)
  show "0 \<le> sv_begin sv" using b by (simp add: bounds_ok_def split: if_splits)
  have "sv_begin sv \<le> sv_end sv \<and> sv_end sv \<le> sv_size sv"
  proof (cases "selected sv = {}")
    case True
    then show ?thesis using b by (simp add: bounds_ok_def)
  next
    case False
    then have "sv_begin sv = int (Min (selected sv))" "sv_end sv = int (Max (selected sv)) + 1"
      using b(1) by (simp_all add: bounds_ok_def)
    then show ?thesis using mm [OF False] by linarith
  qed
  then show "sv_begin sv \<le> sv_end sv" "sv_end sv \<le> sv_size sv" by auto
  show "sv_begin sv \<le> int p \<and> int p < sv_end sv" if "p \<in> selected sv" for p
    using b(1) that Min_le [OF selected_finite that] Max_ge [OF selected_finite that] by (auto simp: bounds_ok_def split: if_splits)
qed

lemma bits_ok_le: "bits_ok m e \<Longrightarrow> e' \<le> e \<Longrightarrow> bits_ok m e'"
  by (simp add: bits_ok_def)

lemma sv_ok_shape: "sv_ok sv \<Longrightarrow> sv_shape sv"
  by (simp add: sv_ok_def)

lemma shapeD: "sv_shape sv \<Longrightarrow> 0 \<le> sv_size sv \<and> sv_size sv + 64 \<le> INT32_MAX \<and> bits_ok (sv_bits sv) (sv_size sv)"
  by (simp add: sv_shape_def)

text \<open>A vector whose bits have been updated, with its bounds renewed.\<close>

lemma updated_bounds:
  assumes "sv_shape sv" "bits_updated (sv_bits sv) D g bits"
  shows "\<exists>sv'. updateBounds (sv\<lparr>sv_bits := bits\<rparr>) = Inr sv' \<and> sv_ok sv' \<and> sv_size sv' = sv_size sv \<and>
    length (sv_bits sv') = length (sv_bits sv) \<and>
    selected sv' = {p. int p < sv_size sv \<and> (if D p then g p (mem_bit (sv_bits sv) p) else mem_bit (sv_bits sv) p)}"
proof -
  have "sv_shape (sv\<lparr>sv_bits := bits\<rparr>)" using assms by (simp add: sv_shape_def bits_updated_def bits_ok_def)
  from updateBounds_spec [OF this] obtain sv' where
    "updateBounds (sv\<lparr>sv_bits := bits\<rparr>) = Inr sv'" "sv_ok sv'" "sv_bits sv' = bits" "sv_size sv' = sv_size sv" by auto
  then show ?thesis using assms(2) by (auto simp: selected_def bits_updated_def)
qed

lemma tight_length: "sv_tight sv \<Longrightarrow> sv_size sv' = sv_size sv \<Longrightarrow> length (sv_bits sv') = length (sv_bits sv) \<Longrightarrow> sv_tight sv'"
  by (simp add: sv_tight_def)

lemma setValid_spec:
  assumes "sv_shape sv" "0 \<le> idx" "idx < sv_size sv"
  shows "\<exists>sv'. setValid sv idx v = Inr sv' \<and> sv_shape sv' \<and> sv_size sv' = sv_size sv \<and>
    length (sv_bits sv') = length (sv_bits sv) \<and>
    selected sv' = (if v then insert (nat idx) (selected sv) else selected sv - {nat idx})"
proof -
  have len: "nat idx < 8 * length (sv_bits sv)" and small: "idx < 2 ^ 32"
    using assms by (auto simp: sv_shape_def bits_ok_def nat_less_iff)
  from setBit_to_spec [OF len, of v] obtain bits where
    b: "setBit_to (sv_bits sv) (nat idx) v = Inr bits" "bits_updated (sv_bits sv) (\<lambda>p. p = nat idx) (\<lambda>_ _. v) bits" by blast
  have "setValid sv idx v = Inr (sv\<lparr>sv_bits := bits, sv_allSelected := None\<rparr>)"
    using b(1) small assms(2) by (simp add: setValid_def)
  then show ?thesis using b(2) assms
    by (auto simp: sv_shape_def bits_updated_def bits_ok_def selected_def nat_less_iff)
qed

lemma setValidRange_spec:
  assumes "sv_shape sv" "0 \<le> b" "b \<le> e" "e \<le> sv_size sv"
  shows "\<exists>sv'. setValidRange sv b e v = Inr sv' \<and> sv_shape sv' \<and> sv_size sv' = sv_size sv \<and>
    length (sv_bits sv') = length (sv_bits sv) \<and>
    selected sv' = (if v then selected sv \<union> {nat b..<nat e} else selected sv - {nat b..<nat e})"
proof (cases "b = e")
  case True
  then show ?thesis using assms(1) by (simp add: setValidRange_def)
next
  case False
  have ok: "e + 64 \<le> INT32_MAX" "bits_ok (sv_bits sv) e" using shapeD [OF assms(1)] assms(4) bits_ok_le by auto
  from fillBits_spec [OF assms(2) ok, of v] obtain bits where
    f: "fillBits (sv_bits sv) b e v = Inr bits" "bits_updated (sv_bits sv) (\<lambda>p. b \<le> int p \<and> int p < e) (\<lambda>_ _. v) bits" by blast
  have "setValidRange sv b e v = Inr (sv\<lparr>sv_bits := bits, sv_allSelected := None\<rparr>)"
    using f(1) False by (simp add: setValidRange_def)
  then show ?thesis using f(2) assms
    by (auto simp: sv_shape_def bits_updated_def bits_ok_def selected_def nat_le_iff zless_nat_eq_int_zless)
qed

lemma isValid_spec:
  assumes "sv_shape sv" "0 \<le> idx" "idx < sv_size sv"
  shows "isValid sv idx = Inr (nat idx \<in> selected sv)"
  using isBitSet_spec [of idx 8 "sv_bits sv"] assms by (simp add: isValid_def sv_shape_def bits_ok_def selected_def)

lemma hasSelections_spec: "sv_ok sv \<Longrightarrow> hasSelections sv \<longleftrightarrow> selected sv \<noteq> {}"
  using sv_bounds [of sv] by (fastforce simp: hasSelections_def sv_ok_def bounds_ok_def split: if_splits)

lemma fill_all:
  assumes "sv_shape sv"
  obtains bits where "fillBits (sv_bits sv) 0 (sv_size sv) v = Inr bits" "length bits = length (sv_bits sv)"
    "\<And>p. int p < sv_size sv \<Longrightarrow> mem_bit bits p = v"
  using fillBits_spec [of 0 "sv_size sv" "sv_bits sv" v] shapeD [OF assms] by (auto simp: bits_updated_def)

lemma all_rows: "0 \<le> n \<Longrightarrow> {p. int p < n} = {..<nat n}"
  by (auto simp: zless_nat_eq_int_zless)

lemma bounds_all:
  assumes "0 \<le> sv_size sv" "selected sv = {..<nat (sv_size sv)}" "sv_begin sv = 0" "sv_end sv = sv_size sv"
  shows "bounds_ok sv"
proof (cases "sv_size sv = 0")
  case False
  then have "0 \<in> selected sv" "nat (sv_size sv) - 1 \<in> selected sv" using assms(1,2) by auto
  have "Min (selected sv) = 0" using \<open>0 \<in> selected sv\<close> by (intro Min_eqI) auto
  moreover have "Max (selected sv) = nat (sv_size sv) - 1"
    using \<open>nat (sv_size sv) - 1 \<in> selected sv\<close> assms(2) by (intro Max_eqI) auto
  ultimately show ?thesis using assms(1,3,4) False \<open>0 \<in> selected sv\<close> by (auto simp: bounds_ok_def)
qed (use assms in \<open>simp add: bounds_ok_def\<close>)

lemma clearAll_spec:
  assumes "sv_shape sv"
  shows "\<exists>sv'. clearAll sv = Inr sv' \<and> sv_ok sv' \<and> sv_size sv' = sv_size sv \<and>
    length (sv_bits sv') = length (sv_bits sv) \<and> selected sv' = {}"
proof -
  from fill_all [OF assms, of False] obtain bits where
    f: "fillBits (sv_bits sv) 0 (sv_size sv) False = Inr bits" "length bits = length (sv_bits sv)"
    "\<And>p. int p < sv_size sv \<Longrightarrow> mem_bit bits p = False" by blast
  let ?sv = "sv\<lparr>sv_bits := bits, sv_begin := 0, sv_end := 0, sv_allSelected := Some False\<rparr>"
  have "selected ?sv = {}" using f(3) by (auto simp: selected_def)
  moreover from this have "sv_ok ?sv"
    using assms f(2) by (auto simp: sv_ok_def sv_shape_def bits_ok_def bounds_ok_def cache_ok_def intro: exI [of _ 0])
  ultimately show ?thesis using f(1,2) by (simp add: clearAll_def)
qed

lemma setAll_spec:
  assumes "sv_shape sv"
  shows "\<exists>sv'. setAll sv = Inr sv' \<and> sv_ok sv' \<and> sv_size sv' = sv_size sv \<and>
    length (sv_bits sv') = length (sv_bits sv) \<and> selected sv' = {..<nat (sv_size sv)}"
proof -
  from fill_all [OF assms, of True] obtain bits where
    f: "fillBits (sv_bits sv) 0 (sv_size sv) True = Inr bits" "length bits = length (sv_bits sv)"
    "\<And>p. int p < sv_size sv \<Longrightarrow> mem_bit bits p = True" by blast
  let ?sv = "sv\<lparr>sv_bits := bits, sv_begin := 0, sv_end := sv_size sv, sv_allSelected := Some True\<rparr>"
  have n: "0 \<le> sv_size sv" using assms by (simp add: sv_shape_def)
  have s: "selected ?sv = {..<nat (sv_size sv)}" using f(3) all_rows [OF n] by (auto simp: selected_def)
  then have "bounds_ok ?sv" using bounds_all [of ?sv] n by simp
  then have "sv_ok ?sv" using assms f(2) s by (auto simp: sv_ok_def sv_shape_def bits_ok_def cache_ok_def zless_nat_eq_int_zless)
  then show ?thesis using f(1,2) s by (simp add: setAll_def)
qed

lemma masked_and:
  assumes "sv_ok sv" "bits_ok other (min (sv_end sv) e)" "b = max (sv_begin sv) b'"
  shows "\<exists>bits. andRange negate (sv_bits sv) None other b (min (sv_end sv) e) = Inr bits \<and>
    (\<exists>sv'. updateBounds (sv\<lparr>sv_bits := bits\<rparr>) = Inr sv' \<and> sv_ok sv' \<and> sv_size sv' = sv_size sv \<and>
      length (sv_bits sv') = length (sv_bits sv) \<and>
      selected sv' = {p \<in> selected sv. b' \<le> int p \<and> int p < e \<longrightarrow> mem_bit other p \<noteq> negate})"
proof -
  have b: "0 \<le> sv_begin sv" "sv_end sv \<le> sv_size sv" using sv_bounds [OF assms(1)] by auto
  have sh: "sv_size sv + 64 \<le> INT32_MAX" "bits_ok (sv_bits sv) (sv_size sv)" using shapeD [OF sv_ok_shape [OF assms(1)]] by auto
  have range: "0 \<le> b" "min (sv_end sv) e + 64 \<le> INT32_MAX" "bits_ok (sv_bits sv) (min (sv_end sv) e)"
    using assms(3) b sh bits_ok_le by auto
  from andRange_spec [OF range assms(2), of None negate] obtain bits where
    a: "andRange negate (sv_bits sv) None other b (min (sv_end sv) e) = Inr bits"
    "bits_updated (sv_bits sv) (\<lambda>p. b \<le> int p \<and> int p < min (sv_end sv) e)
      (\<lambda>p x. left_bit None p x \<and> mem_bit other p \<noteq> negate) bits" by auto
  from updated_bounds [OF sv_ok_shape [OF assms(1)] a(2)] obtain sv' where
    s: "updateBounds (sv\<lparr>sv_bits := bits\<rparr>) = Inr sv'" "sv_ok sv'" "sv_size sv' = sv_size sv"
    "length (sv_bits sv') = length (sv_bits sv)" and
    sel: "selected sv' = {p. int p < sv_size sv \<and> (if b \<le> int p \<and> int p < min (sv_end sv) e
      then left_bit None p (mem_bit (sv_bits sv) p) \<and> mem_bit other p \<noteq> negate else mem_bit (sv_bits sv) p)}" by blast
  have "selected sv' = {p \<in> selected sv. b' \<le> int p \<and> int p < e \<longrightarrow> mem_bit other p \<noteq> negate}"
    using sv_bounds(4) [OF assms(1)] unfolding sel assms(3) by (auto simp: selected_def left_bit_def split: if_splits)
  then show ?thesis using a(1) s by blast
qed

text \<open>Rows that the other vector does not have are kept by \<open>intersect\<close>.\<close>

lemma intersect_spec:
  assumes "sv_ok sv" "sv_shape other"
  shows "\<exists>sv'. intersect sv other = Inr sv' \<and> sv_ok sv' \<and> sv_size sv' = sv_size sv \<and>
    length (sv_bits sv') = length (sv_bits sv) \<and>
    selected sv' = {p \<in> selected sv. int p < sv_size other \<longrightarrow> p \<in> selected other}"
proof -
  have "bits_ok (sv_bits other) (min (sv_end sv) (sv_size other))" using shapeD [OF assms(2)] bits_ok_le by auto
  from masked_and [OF assms(1) this, of "sv_begin sv" 0 False] sv_bounds(1) [OF assms(1)]
  show ?thesis by (auto simp: intersect_def selected_def)
qed

lemma deselect_spec:
  assumes "sv_ok sv" "sv_shape other"
  shows "\<exists>sv'. deselect sv other = Inr sv' \<and> sv_ok sv' \<and> sv_size sv' = sv_size sv \<and>
    length (sv_bits sv') = length (sv_bits sv) \<and> selected sv' = selected sv - selected other"
proof -
  have "bits_ok (sv_bits other) (min (sv_end sv) (sv_size other))" using shapeD [OF assms(2)] bits_ok_le by auto
  from masked_and [OF assms(1) this, of "sv_begin sv" 0 True] sv_bounds(1) [OF assms(1)] obtain sv' where
    "deselect sv other = Inr sv'" "sv_ok sv'" "sv_size sv' = sv_size sv" "length (sv_bits sv') = length (sv_bits sv)"
    "selected sv' = {p \<in> selected sv. 0 \<le> int p \<and> int p < sv_size other \<longrightarrow> mem_bit (sv_bits other) p \<noteq> True}"
    by (auto simp: deselect_def)
  moreover have "{p \<in> selected sv. 0 \<le> int p \<and> int p < sv_size other \<longrightarrow> mem_bit (sv_bits other) p \<noteq> True} =
      selected sv - selected other" by (auto simp: selected_def)
  ultimately show ?thesis by auto
qed

lemma deselectNulls_spec:
  assumes "sv_ok sv" "bits_ok nulls (min (sv_end sv) e)"
  shows "\<exists>sv'. deselectNulls sv nulls b e = Inr sv' \<and> sv_ok sv' \<and> sv_size sv' = sv_size sv \<and>
    length (sv_bits sv') = length (sv_bits sv) \<and>
    selected sv' = {p \<in> selected sv. b \<le> int p \<and> int p < e \<longrightarrow> mem_bit nulls p}"
  using masked_and [OF assms refl, of False b] by (auto simp: deselectNulls_def)

lemma deselectNonNulls_spec:
  assumes "sv_ok sv" "bits_ok nulls (min (sv_end sv) e)"
  shows "\<exists>sv'. deselectNonNulls sv nulls b e = Inr sv' \<and> sv_ok sv' \<and> sv_size sv' = sv_size sv \<and>
    length (sv_bits sv') = length (sv_bits sv) \<and>
    selected sv' = {p \<in> selected sv. b \<le> int p \<and> int p < e \<longrightarrow> \<not> mem_bit nulls p}"
  using masked_and [OF assms refl, of True b] by (auto simp: deselectNonNulls_def)

section \<open>Resizing\<close>

lemma nwords_eq: "0 \<le> n \<Longrightarrow> n + 63 \<le> INT32_MAX \<Longrightarrow> nwords n = Inr ((n + 63) div 64)"
  by (simp add: nwords_def roundUp_eq cdiv_mult)

lemma words_pos: "0 \<le> n \<Longrightarrow> 0 \<le> (n + 63) div 64" for n :: int
  by (simp add: pos_imp_zdiv_nonneg_iff)

lemma words_cover: "n \<le> 64 * ((n + 63) div 64)" for n :: int
proof -
  obtain q r where "n = 64 * q + r" "0 \<le> r" "r < 64" "n div 64 = q" "n mod 64 = r" by (rule bit_decompose)
  then show ?thesis by (auto simp: div64_up)
qed

lemma mem_bit_append: "mem_bit (xs @ ys) p = (if p < 8 * length xs then mem_bit xs p else mem_bit ys (p - 8 * length xs))"
proof (cases "p < 8 * length xs")
  case True
  then show ?thesis by (simp add: mem_bit_def nth_append div8_less)
next
  case False
  then obtain j where j: "p = 8 * length xs + j" using le_Suc_ex not_less by blast
  then have "p div 8 = length xs + j div 8" "p mod 8 = j mod 8" by simp_all
  then show ?thesis using j by (simp add: mem_bit_def nth_append)
qed

lemma mem_bit_replicate: "p < 8 * n \<Longrightarrow> mem_bit (replicate n (if v then - 1 else 0)) p = v"
  by (simp add: mem_bit_def div8_less)

lemma resize_words_spec:
  assumes "0 \<le> n"
  obtains bits' where "resize_words bits n v = Inr bits'" "length bits' = 8 * nat n"
    "\<And>p. p < 64 * nat n \<Longrightarrow> mem_bit bits' p = (if p < 8 * length bits then mem_bit bits p else v)"
proof
  let ?bits = "take (8 * nat n) bits @ replicate (8 * nat n - length bits) (if v then - 1 else 0)"
  show "resize_words bits n v = Inr ?bits" using assms by (simp add: resize_words_def)
  show "length ?bits = 8 * nat n" by simp
  fix p assume "p < 64 * nat n"
  then show "mem_bit ?bits p = (if p < 8 * length bits then mem_bit bits p else v)"
    using mem_bit_take [of p "8 * nat n" bits] mem_bit_replicate [of "p - 8 * length bits" "8 * nat n - length bits" v]
    by (auto simp: mem_bit_append min_def)
qed

lemma bits_ok_words: "0 \<le> n \<Longrightarrow> length bits = 8 * nat ((n + 63) div 64) \<Longrightarrow> bits_ok bits n"
  using words_cover [of n] words_pos [of n] by (simp add: bits_ok_def)

lemma fill_back_spec:
  assumes "8 dvd length bits" "bits \<noteq> []" "0 \<le> start" "start \<le> 64"
  obtains bits' where "fill_back bits start v = Inr bits'" "length bits' = length bits"
    "\<And>p. mem_bit bits' p = (if 8 * (length bits - 8) + nat start \<le> p \<and> p < 8 * length bits then v else mem_bit bits p)"
proof -
  let ?k = "length bits - 8" and ?lastWord = "drop (length bits - 8) bits"
  have len: "8 \<le> length bits" using dvd_imp_le [OF assms(1)] assms(2) by simp
  then have "bits_ok ?lastWord 64" by (simp add: bits_ok_def)
  from fillBits_spec [OF assms(3) _ this, of v] obtain last8 where
    f: "fillBits ?lastWord start 64 v = Inr last8" "bits_updated ?lastWord (\<lambda>p. start \<le> int p \<and> int p < 64) (\<lambda>_ _. v) last8" by auto
  have "length last8 = 8" using f(2) len by (simp add: bits_updated_def)
  have "mem_bit (take ?k bits @ last8) p = (if 8 * ?k + nat start \<le> p \<and> p < 8 * length bits then v else mem_bit bits p)" for p
  proof (cases "p < 8 * ?k")
    case True
    then show ?thesis by (simp add: mem_bit_append mem_bit_take)
  next
    case False
    then obtain j where j: "p = 8 * ?k + j" using le_Suc_ex not_less by blast
    have "mem_bit (take ?k bits @ last8) p = mem_bit last8 j" using False j by (simp add: mem_bit_append)
    also have "\<dots> = (if start \<le> int j \<and> int j < 64 then v else mem_bit bits p)"
      using f(2) mem_bit_drop [of ?k bits j] j by (simp add: bits_updated_def)
    also have "start \<le> int j \<and> int j < 64 \<longleftrightarrow> 8 * ?k + nat start \<le> p \<and> p < 8 * length bits"
      using j len assms(3) by auto
    finally show ?thesis .
  qed
  then show ?thesis using that [of "take ?k bits @ last8"] f(1) \<open>length last8 = 8\<close> len by (simp add: fill_back_def)
qed

lemma resize_spec:
  assumes "sv_shape sv" "sv_size sv < n \<longrightarrow> sv_tight sv" "0 \<le> n" "n + 64 \<le> INT32_MAX"
  shows "\<exists>sv'. resize sv n v = Inr sv' \<and> sv_ok sv' \<and> sv_tight sv' \<and> sv_size sv' = n \<and>
    selected sv' = {p. int p < n \<and> (if int p < sv_size sv then p \<in> selected sv else v)}"
proof -
  let ?m = "sv_bits sv" and ?s = "sv_size sv"
  obtain q r where s: "?s = 64 * q + r" "0 \<le> r" "r < 64" "?s div 64 = q" "?s mod 64 = r" by (rule bit_decompose)
  have sh: "0 \<le> ?s" "bits_ok ?m ?s" using shapeD [OF assms(1)] by auto
  have q: "0 \<le> q" using sh(1) s(4) pos_imp_zdiv_nonneg_iff [of 64 ?s] by simp
  have cm: "cmod ?s 64 = r" using sh(1) s by (simp add: cmod_def cdiv_def)
  have len: "int (length ?m) = 8 * (if r = 0 then q else q + 1)" if "?s < n"
    using assms(2) that s(4,5) by (simp add: sv_tight_def div64_up)
  have "\<exists>bits. (if n > ?s \<and> ?m \<noteq> [] \<and> cmod ?s 64 \<noteq> 0 then fill_back ?m (cmod ?s 64) v else Inr ?m) = Inr bits \<and>
    length bits = length ?m \<and>
    (\<forall>p. p < 8 * length ?m \<longrightarrow> int p < n \<longrightarrow> mem_bit bits p = (if int p < ?s then mem_bit ?m p else v))"
  proof (cases "n > ?s \<and> ?m \<noteq> [] \<and> r \<noteq> 0")
    case True
    then obtain bits where b: "fill_back ?m r v = Inr bits" "length bits = length ?m"
      "\<And>p. mem_bit bits p = (if 8 * (length ?m - 8) + nat r \<le> p \<and> p < 8 * length ?m then v else mem_bit ?m p)"
      using fill_back_spec [of ?m r v] sh(2) s(2,3) by (auto simp: bits_ok_def)
    have "8 * (length ?m - 8) + nat r \<le> p \<longleftrightarrow> \<not> int p < ?s" for p
      using len True s(1,2) q by auto
    then show ?thesis using b True cm by auto
  next
    case False
    then have "int p < ?s" if "p < 8 * length ?m" "int p < n" for p using that len s(1,2) q by (cases "?s < n") auto
    then show ?thesis using False cm by auto
  qed
  then obtain bits where b: "(if n > ?s \<and> ?m \<noteq> [] \<and> cmod ?s 64 \<noteq> 0 then fill_back ?m (cmod ?s 64) v else Inr ?m) = Inr bits"
    "length bits = length ?m"
    "\<And>p. p < 8 * length ?m \<Longrightarrow> int p < n \<Longrightarrow> mem_bit bits p = (if int p < ?s then mem_bit ?m p else v)" by blast
  let ?w = "(n + 63) div 64"
  obtain bits' where b': "resize_words bits ?w v = Inr bits'" "length bits' = 8 * nat ?w"
    "\<And>p. p < 64 * nat ?w \<Longrightarrow> mem_bit bits' p = (if p < 8 * length bits then mem_bit bits p else v)"
    using resize_words_spec [OF words_pos [OF assms(3)]] by metis
  have ok: "bits_ok bits' n" using bits_ok_words [OF assms(3) b'(2)] .
  let ?sv = "sv\<lparr>sv_bits := bits', sv_size := n\<rparr>"
  have "sv_shape ?sv" using assms(3,4) ok by (simp add: sv_shape_def)
  from updateBounds_spec [OF this] obtain sv' where
    u: "updateBounds ?sv = Inr sv'" "sv_ok sv'" "sv_bits sv' = bits'" "sv_size sv' = n" by auto
  have "resize sv n v = Inr sv'" using b(1) b'(1) u(1) nwords_eq [OF assms(3)] assms(4) by (simp add: resize_def)
  moreover have "sv_tight sv'" using u(3,4) b'(2) words_pos [OF assms(3)] by (simp add: sv_tight_def)
  moreover have "mem_bit bits' p = (if int p < ?s then mem_bit ?m p else v)" if p: "int p < n" for p
  proof -
    have "p < 64 * nat ?w" using p words_cover [of n] words_pos [OF assms(3)] by linarith
    moreover have "\<not> int p < ?s" if "\<not> p < 8 * length ?m" using that sh(2) by (simp add: bits_ok_def)
    ultimately show ?thesis using b'(3) b(2,3) p by auto
  qed
  then have "selected sv' = {p. int p < n \<and> (if int p < ?s then p \<in> selected sv else v)}"
    unfolding selected_def u(3,4) by auto
  ultimately show ?thesis using u(2,4) by blast
qed

lemma select_spec:
  assumes "sv_ok sv" "sv_size sv < sv_size other \<longrightarrow> sv_tight sv" "sv_shape other"
  shows "\<exists>sv'. select sv other = Inr sv' \<and> sv_ok sv' \<and> sv_size sv' = max (sv_size sv) (sv_size other) \<and>
    int (length (sv_bits sv')) =
      (if sv_size sv < sv_size other then 8 * ((sv_size other + 63) div 64) else int (length (sv_bits sv))) \<and>
    selected sv' = selected sv \<union> selected other"
proof -
  have n: "0 \<le> sv_size other" "sv_size other + 64 \<le> INT32_MAX" "bits_ok (sv_bits other) (sv_size other)"
    using shapeD [OF assms(3)] by auto
  obtain s1 where s1: "(if sv_size sv < sv_size other then resize sv (sv_size other) False else Inr sv) = Inr s1"
    "sv_ok s1" "int (length (sv_bits s1)) =
      (if sv_size sv < sv_size other then 8 * ((sv_size other + 63) div 64) else int (length (sv_bits sv)))"
    "sv_size s1 = max (sv_size sv) (sv_size other)" "selected s1 = selected sv"
  proof (cases "sv_size sv < sv_size other")
    case True
    from resize_spec [OF sv_ok_shape [OF assms(1)] assms(2) n(1,2), of False] obtain s1 where
      "resize sv (sv_size other) False = Inr s1" "sv_ok s1" "sv_tight s1" "sv_size s1 = sv_size other"
      "selected s1 = {p. int p < sv_size other \<and> (if int p < sv_size sv then p \<in> selected sv else False)}" by blast
    moreover have "{p. int p < sv_size other \<and> (if int p < sv_size sv then p \<in> selected sv else False)} = selected sv"
      using True by (auto simp: selected_def)
    ultimately show ?thesis using that True by (simp add: sv_tight_def)
  next
    case False
    then show ?thesis using that [of sv] assms(1) by simp
  qed
  let ?e = "min (sv_size s1) (sv_size other)"
  have e: "?e = sv_size other" using s1(4) by simp
  have sh: "sv_shape s1" using s1(2) by (rule sv_ok_shape)
  have ok: "bits_ok (sv_bits s1) ?e" using shapeD [OF sh] bits_ok_le by auto
  have ok2: "?e + 64 \<le> INT32_MAX" "bits_ok (sv_bits other) ?e" using n(2,3) e by simp_all
  from orRange_spec [OF _ ok2(1) ok ok2(2), of 0 None False] obtain bits where
    o: "orRange False (sv_bits s1) None (sv_bits other) 0 ?e = Inr bits"
    "bits_updated (sv_bits s1) (\<lambda>p. 0 \<le> int p \<and> int p < ?e) (\<lambda>p x. left_bit None p x \<or> mem_bit (sv_bits other) p \<noteq> False) bits"
    by auto
  from updated_bounds [OF sh o(2)] obtain sv' where u: "updateBounds (s1\<lparr>sv_bits := bits\<rparr>) = Inr sv'" "sv_ok sv'"
    "sv_size sv' = sv_size s1" "length (sv_bits sv') = length (sv_bits s1)"
    "selected sv' = {p. int p < sv_size s1 \<and> (if 0 \<le> int p \<and> int p < ?e
      then left_bit None p (mem_bit (sv_bits s1) p) \<or> mem_bit (sv_bits other) p \<noteq> False else mem_bit (sv_bits s1) p)}" by blast
  have "selected sv' = selected s1 \<union> selected other" unfolding u(5) e using s1(4) by (auto simp: selected_def left_bit_def)
  moreover have "select sv other = Inr sv'" using s1(1) o(1) u(1) by (simp add: select_def)
  ultimately show ?thesis using u(2-4) s1(3-5) by auto
qed

lemma SelectivityVector_new_spec:
  assumes "0 \<le> n" "n + 64 \<le> INT32_MAX"
  shows "\<exists>sv. SelectivityVector_new n v = Inr sv \<and> sv_ok sv \<and> sv_tight sv \<and> sv_size sv = n \<and>
    selected sv = (if v then {..<nat n} else {})"
proof -
  let ?w = "(n + 63) div 64"
  obtain bits where b: "resize_words [] ?w v = Inr bits" "length bits = 8 * nat ?w" "\<And>p. p < 64 * nat ?w \<Longrightarrow> mem_bit bits p = v"
    using resize_words_spec [OF words_pos [OF assms(1)], of "[]" v] by auto
  let ?sv = "\<lparr>sv_bits = bits, sv_size = n, sv_begin = 0, sv_end = (if v then n else 0), sv_allSelected = Some v\<rparr>"
  have new: "SelectivityVector_new n v = Inr ?sv" using nwords_eq assms b(1) by (simp add: SelectivityVector_new_def)
  have bit: "mem_bit bits p = v" if "int p < n" for p
    using b(3) that words_cover [of n] words_pos [OF assms(1)] by auto
  then have s: "selected ?sv = (if v then {..<nat n} else {})"
    by (auto simp: selected_def zless_nat_eq_int_zless)
  have "bounds_ok ?sv" using bounds_all [of ?sv] s assms(1) by (cases v) (auto simp: bounds_ok_def)
  moreover have "cache_ok ?sv" using s by (auto simp: cache_ok_def zless_nat_eq_int_zless intro: exI [of _ 0])
  moreover have "sv_shape ?sv" using assms bits_ok_words [OF assms(1) b(2)] by (simp add: sv_shape_def)
  moreover have "sv_tight ?sv" using b(2) words_pos [OF assms(1)] by (simp add: sv_tight_def)
  ultimately show ?thesis using new s by (simp add: sv_ok_def)
qed

lemma resizeFill_spec:
  assumes "0 \<le> n" "n + 64 \<le> INT32_MAX"
  shows "\<exists>sv'. resizeFill sv n v = Inr sv' \<and> sv_ok sv' \<and> sv_tight sv' \<and> sv_size sv' = n \<and>
    selected sv' = (if v then {..<nat n} else {})"
proof -
  let ?w = "(n + 63) div 64"
  obtain own where o: "resize_words (sv_bits sv) ?w False = Inr own" "length own = 8 * nat ?w"
    using resize_words_spec [OF words_pos [OF assms(1)], of "sv_bits sv" False] by metis
  let ?bits = "replicate (length own) (if v then - 1 else 0)"
  let ?sv = "sv\<lparr>sv_bits := ?bits, sv_size := n, sv_begin := 0, sv_end := (if v then n else 0), sv_allSelected := Some v\<rparr>"
  have new: "resizeFill sv n v = Inr ?sv" using nwords_eq assms o(1) by (simp add: resizeFill_def)
  have bit: "mem_bit ?bits p = v" if "int p < n" for p
    using that words_cover [of n] words_pos [OF assms(1)] o(2) by (intro mem_bit_replicate) auto
  then have s: "selected ?sv = (if v then {..<nat n} else {})"
    by (auto simp: selected_def zless_nat_eq_int_zless)
  have "bounds_ok ?sv" using bounds_all [of ?sv] s assms(1) by (cases v) (auto simp: bounds_ok_def)
  moreover have "cache_ok ?sv" using s by (auto simp: cache_ok_def zless_nat_eq_int_zless intro: exI [of _ 0])
  moreover have "sv_shape ?sv" using assms bits_ok_words [OF assms(1), of ?bits] o(2) by (simp add: sv_shape_def)
  moreover have "sv_tight ?sv" using o(2) words_pos [OF assms(1)] by (simp add: sv_tight_def)
  ultimately show ?thesis using new s by (simp add: sv_ok_def)
qed

lemma setFromBits_spec:
  assumes "0 \<le> n" "n + 64 \<le> INT32_MAX" "8 dvd length (sv_bits sv)" "8 * ((n + 63) div 64) \<le> int (length bits)"
  shows "\<exists>sv'. setFromBits sv bits n = Inr sv' \<and> sv_ok sv' \<and> sv_size sv' = n \<and>
    length (sv_bits sv') = max (length (sv_bits sv)) (8 * nat ((n + 63) div 64)) \<and>
    selected sv' = {p. int p < n \<and> mem_bit bits p}"
proof -
  let ?w = "(n + 63) div 64" and ?m = "sv_bits sv"
  have w: "0 \<le> ?w" using words_pos [OF assms(1)] .
  obtain own where o: "(if 8 * ?w > int (length ?m) then resize_words ?m ?w False else Inr ?m) = Inr own"
    "length own = max (length ?m) (8 * nat ?w)"
  proof (cases "8 * ?w > int (length ?m)")
    case True
    then have "max (length ?m) (8 * nat ?w) = 8 * nat ?w" using w by (intro max_absorb2) linarith
    moreover obtain own where "resize_words ?m ?w False = Inr own" "length own = 8 * nat ?w"
      using resize_words_spec [OF w, of ?m False] by metis
    ultimately show ?thesis using that True by simp
  next
    case False
    then have "max (length ?m) (8 * nat ?w) = length ?m" using w by (intro max_absorb1) linarith
    then show ?thesis using that False by simp
  qed
  let ?bits = "take (8 * nat ?w) bits @ drop (8 * nat ?w) own"
  have bl: "8 * nat ?w \<le> length bits" using assms(4) w by linarith
  have len: "length ?bits = max (length ?m) (8 * nat ?w)" using o(2) bl by (auto simp: max_def)
  have "8 dvd length ?bits" unfolding len using assms(3) by (simp add: max_def)
  moreover have "n \<le> 8 * int (length ?bits)" 
  proof -
    have "8 * nat ?w \<le> length ?bits" unfolding len by simp
    then show ?thesis using words_cover [of n] w by linarith
  qed
  ultimately have ok: "bits_ok ?bits n" by (simp add: bits_ok_def)
  let ?sv = "sv\<lparr>sv_bits := ?bits, sv_size := n, sv_begin := 0, sv_end := n\<rparr>"
  have "sv_shape ?sv" using assms(1,2) ok by (simp add: sv_shape_def)
  from updateBounds_spec [OF this] obtain sv' where
    u: "updateBounds ?sv = Inr sv'" "sv_ok sv'" "sv_bits sv' = ?bits" "sv_size sv' = n" by auto
  have "setFromBits sv bits n = Inr sv'"
    using nwords_eq [OF assms(1)] assms(2,4) o(1) u(1) w by (simp add: setFromBits_def)
  moreover have "mem_bit ?bits p = mem_bit bits p" if "int p < n" for p
  proof -
    have "p < 8 * (8 * nat ?w)" using that words_cover [of n] w by linarith
    moreover have "length (take (8 * nat ?w) bits) = 8 * nat ?w" using bl by simp
    ultimately show ?thesis by (simp add: mem_bit_append mem_bit_take)
  qed
  ultimately show ?thesis using u(2-4) len by (auto simp: selected_def)
qed

text \<open>
  With more words than the rows need, as after \<open>setFromBits\<close> with fewer rows, \<open>resize\<close> fills the last word of the
  array and not the one in which the new rows begin.
\<close>

lemma resize_slack:
  assumes "sv_shape sv" "sv_size sv < n" "n + 64 \<le> INT32_MAX" "8 * ((n + 63) div 64) < int (length (sv_bits sv))"
  shows "\<exists>sv'. resize sv n v = Inr sv' \<and> sv_ok sv' \<and> sv_size sv' = n \<and> selected sv' = {p. int p < n \<and> mem_bit (sv_bits sv) p}"
proof -
  let ?m = "sv_bits sv" and ?w = "(n + 63) div 64" and ?s = "sv_size sv"
  have s: "0 \<le> ?s" "8 dvd length ?m" using assms(1) by (auto simp: sv_shape_def bits_ok_def)
  then have n: "0 \<le> n" using assms(2) by simp
  have w: "0 \<le> ?w" "?m \<noteq> []" using words_pos [OF n] assms(4) by auto
  have room: "8 * nat ?w \<le> length ?m - 8"
  proof -
    obtain c where c: "length ?m = 8 * c" using s(2) by auto
    then have "nat ?w < c" using assms(4) w(1) by linarith
    then show ?thesis using c by simp
  qed
  obtain own where o: "(if n > ?s \<and> ?m \<noteq> [] \<and> cmod ?s 64 \<noteq> 0 then fill_back ?m (cmod ?s 64) v else Inr ?m) = Inr own"
    "length own = length ?m" "\<And>p. p < 64 * nat ?w \<Longrightarrow> mem_bit own p = mem_bit ?m p"
  proof (cases "cmod ?s 64 = 0")
    case True
    then show ?thesis using that by simp
  next
    case False
    have "0 \<le> cmod ?s 64" "cmod ?s 64 \<le> 64" using s(1) pos_mod_bound [of 64 ?s] by (simp_all add: cmod_def cdiv_def mod_div_mult_eq minus_div_mult_eq_mod minus_mult_div_eq_mod)
    from fill_back_spec [OF s(2) w(2) this, of v] obtain own where
      f: "fill_back ?m (cmod ?s 64) v = Inr own" "length own = length ?m"
      "\<And>p. mem_bit own p = (if 8 * (length ?m - 8) + nat (cmod ?s 64) \<le> p \<and> p < 8 * length ?m then v else mem_bit ?m p)" by blast
    have "mem_bit own p = mem_bit ?m p" if "p < 64 * nat ?w" for p using f(3) [of p] that room by simp
    then show ?thesis using that f False assms(2) w(2) by simp
  qed
  from resize_words_spec [OF w(1), of own v] obtain bits where
    b: "resize_words own ?w v = Inr bits" "length bits = 8 * nat ?w"
    "\<And>p. p < 64 * nat ?w \<Longrightarrow> mem_bit bits p = (if p < 8 * length own then mem_bit own p else v)" by blast
  let ?sv = "sv\<lparr>sv_bits := bits, sv_size := n\<rparr>"
  have "sv_shape ?sv" using n assms(3) bits_ok_words [OF n b(2)] by (simp add: sv_shape_def)
  from updateBounds_spec [OF this] obtain sv' where
    u: "updateBounds ?sv = Inr sv'" "sv_ok sv'" "sv_bits sv' = bits" "sv_size sv' = n" by auto
  have "resize sv n v = Inr sv'" using nwords_eq [OF n] assms(3) o(1) b(1) u(1) by (simp add: resize_def)
  moreover have "mem_bit bits p = mem_bit ?m p" if "int p < n" for p
  proof -
    have "p < 64 * nat ?w" using that words_cover [of n] w(1) by linarith
    moreover from this have "p < 8 * length ?m" using room by linarith
    ultimately show ?thesis using b(3) [of p] o(2,3) by simp
  qed
  ultimately show ?thesis using u by (auto simp: selected_def)
qed

end
