(* ===== verification/Selectivity_Queries.thy ===== *)
theory Selectivity_Queries
  imports Selectivity_Updates
begin

text \<open>
  The questions about a vector and the ways to visit its rows: \<open>isAllSelected\<close>, \<open>countSelected\<close>, \<open>applyToSelected\<close>,
  \<open>testSelected\<close>, the comparisons, the masks of nulls, the iterator and \<open>translateToInnerRows\<close>.
\<close>

unbundle bit_operations_syntax

section \<open>Questions about the selected rows\<close>

lemma sv_range:
  assumes "sv_ok sv"
  shows "sv_end sv + 64 \<le> INT32_MAX" "bits_ok (sv_bits sv) (sv_end sv)"
  using shapeD [OF sv_ok_shape [OF assms]] sv_bounds(3) [OF assms] bits_ok_le by auto

lemma bounded_rows: "sv_ok sv \<Longrightarrow> rows_with (sv_bits sv) True (sv_begin sv) (sv_end sv) = selected_rows sv"
proof -
  assume ok: "sv_ok sv"
  note b = sv_bounds [OF ok]
  have "rows_with (sv_bits sv) True (sv_begin sv) (sv_end sv) = rows_with (sv_bits sv) True 0 (sv_end sv)"
    using b by (intro rows_with_from) (force simp: selected_def)+
  also have "\<dots> = selected_rows sv"
    unfolding selected_rows_def using b by (intro rows_with_until) (force simp: selected_def)+
  finally show ?thesis .
qed

lemma all_selected_rows:
  assumes "0 \<le> sv_size sv" "\<And>p. int p < sv_size sv \<Longrightarrow> p \<in> selected sv"
  shows "selected_rows sv = [0..sv_size sv - 1]"
proof -
  have "filter (\<lambda>p. mem_bit (sv_bits sv) p = True) [0..<nat (sv_size sv)] = [0..<nat (sv_size sv)]"
    using assms(2) by (auto simp: selected_def zless_nat_eq_int_zless intro: filter_True)
  moreover have "map int [0..<n] = [0..int n - 1]" for n
    by (induction n) (use upto_rec2 in auto)
  ultimately show ?thesis using assms(1) by (simp add: selected_rows_def rows_with_def)
qed

lemma selected_rows_sorted: "selected_rows sv = map int (sorted_list_of_set (selected sv))"
proof -
  let ?rows = "filter (mem_bit (sv_bits sv)) [0..<nat (sv_size sv)]"
  have "set ?rows = selected sv" by (auto simp: selected_def zless_nat_eq_int_zless)
  moreover have "sorted_list_of_set (set ?rows) = ?rows" by (intro sorted_list_of_set.idem_if_sorted_distinct) (simp_all add: sorted_wrt_filter)
  ultimately show ?thesis by (simp add: selected_rows_def rows_with_def)
qed

lemma rows_count: "length (selected_rows sv) = card (selected sv)"
proof -
  have "card (set (selected_rows sv)) = length (selected_rows sv)"
    unfolding selected_rows_def by (rule distinct_card [OF rows_sorted(2)])
  then show ?thesis by (simp add: selected_rows_set card_image)
qed

lemma full_bounds:
  assumes "sv_ok sv" "0 < sv_size sv" "\<forall>p. int p < sv_size sv \<longrightarrow> p \<in> selected sv"
  shows "sv_begin sv = 0 \<and> sv_end sv = sv_size sv"
proof -
  have "0 \<in> selected sv" "nat (sv_size sv - 1) \<in> selected sv" using assms(2,3) by auto
  from this [THEN sv_bounds(4) [OF assms(1)]] show ?thesis using sv_bounds(1-3) [OF assms(1)] assms(2) by simp
qed

lemma isAllSelected_spec:
  assumes "sv_ok sv"
  obtains a where "isAllSelected sv = Inr (a, sv\<lparr>sv_allSelected := Some a\<rparr>)"
    "sv_size sv > 0 \<Longrightarrow> a \<longleftrightarrow> (\<forall>p. int p < sv_size sv \<longrightarrow> p \<in> selected sv)"
proof (cases "sv_allSelected sv")
  case None
  let ?all = "\<forall>p. int p < sv_size sv \<longrightarrow> p \<in> selected sv"
  let ?a = "sv_begin sv = 0 \<and> sv_end sv = sv_size sv \<and> ?all"
  have s: "0 \<le> sv_size sv" "sv_size sv + 64 \<le> INT32_MAX" "bits_ok (sv_bits sv) (sv_size sv)"
    using shapeD [OF sv_ok_shape [OF assms]] by auto
  have "isAllSet (sv_bits sv) 0 (sv_size sv) True = Inr ?all"
    using isAllSet_spec [OF _ s(2,3), of 0 True] by (simp add: selected_def)
  then have "isAllSelected sv = Inr (?a, sv\<lparr>sv_allSelected := Some ?a\<rparr>)"
    using None by (cases "sv_begin sv = 0 \<and> sv_end sv = sv_size sv") (auto simp: isAllSelected_def)
  moreover have "?a \<longleftrightarrow> ?all" if "sv_size sv > 0" using full_bounds [OF assms that] by metis
  ultimately show ?thesis using that by blast
next
  case (Some a)
  then have "isAllSelected sv = Inr (a, sv\<lparr>sv_allSelected := Some a\<rparr>)" by (cases sv) (simp add: isAllSelected_def)
  then show ?thesis using that Some assms by (simp add: sv_ok_def cache_ok_def)
qed

lemma all_selected_bounds:
  assumes "sv_ok sv" "sv_size sv > 0 \<longrightarrow> (\<forall>p. int p < sv_size sv \<longrightarrow> p \<in> selected sv)"
  shows "[sv_begin sv..sv_end sv - 1] = selected_rows sv"
proof (cases "sv_size sv > 0")
  case True
  then have all: "\<forall>p. int p < sv_size sv \<longrightarrow> p \<in> selected sv" using assms(2) by blast
  from full_bounds [OF assms(1) True this]
  show ?thesis using all_selected_rows [of sv] all True by simp
next
  case False
  then have "sv_size sv = 0" using shapeD [OF sv_ok_shape [OF assms(1)]] by simp
  then show ?thesis using sv_bounds [OF assms(1)] by (simp add: selected_rows_def rows_with_def)
qed

text \<open>Only the cached answer of a vector changes in a question about it.\<close>

lemma applyToSelected_spec:
  assumes "sv_ok sv"
  shows "\<exists>a. applyToSelected sv func s =
    rbind (row_loop func (selected_rows sv) s) (\<lambda>s'. Inr (s', sv\<lparr>sv_allSelected := Some a\<rparr>))"
proof -
  from isAllSelected_spec [OF assms] obtain a where
    a: "isAllSelected sv = Inr (a, sv\<lparr>sv_allSelected := Some a\<rparr>)"
    "sv_size sv > 0 \<Longrightarrow> a \<longleftrightarrow> (\<forall>p. int p < sv_size sv \<longrightarrow> p \<in> selected sv)" by blast
  have "(if a then row_loop func [sv_begin sv..sv_end sv - 1] s else forEachBit (sv_bits sv) (sv_begin sv) (sv_end sv) True func s) =
      row_loop func (selected_rows sv) s"
    using all_selected_bounds [OF assms] a(2) bounded_rows [OF assms]
      forEachBit_spec [OF sv_bounds(1) [OF assms] sv_range [OF assms], of True func s] by (cases a) auto
  then show ?thesis using a(1) by (auto simp: applyToSelected_def)
qed

lemma testSelected_spec:
  assumes "sv_ok sv"
  shows "\<exists>a. testSelected sv func s =
    rbind (test_row_loop func (selected_rows sv) s) (\<lambda>r. Inr (r, sv\<lparr>sv_allSelected := Some a\<rparr>))"
proof -
  from isAllSelected_spec [OF assms] obtain a where
    a: "isAllSelected sv = Inr (a, sv\<lparr>sv_allSelected := Some a\<rparr>)"
    "sv_size sv > 0 \<Longrightarrow> a \<longleftrightarrow> (\<forall>p. int p < sv_size sv \<longrightarrow> p \<in> selected sv)" by blast
  have "(if a then test_row_loop func [sv_begin sv..sv_end sv - 1] s else testBits (sv_bits sv) (sv_begin sv) (sv_end sv) True func s) =
      test_row_loop func (selected_rows sv) s"
    using all_selected_bounds [OF assms] a(2) bounded_rows [OF assms]
      testBits_spec [OF sv_bounds(1) [OF assms] sv_range [OF assms], of True func s] by (cases a) auto
  then show ?thesis using a(1) by (auto simp: testSelected_def)
qed

lemma card_all_rows:
  assumes "0 \<le> sv_size sv"
  shows "int (card (selected sv)) = sv_size sv \<longleftrightarrow> (\<forall>p. int p < sv_size sv \<longrightarrow> p \<in> selected sv)"
proof -
  have sub: "selected sv \<subseteq> {..<nat (sv_size sv)}" by (auto simp: selected_def zless_nat_eq_int_zless)
  have "int (card (selected sv)) = sv_size sv \<longleftrightarrow> card (selected sv) = card {..<nat (sv_size sv)}"
    using assms by auto
  also have "\<dots> \<longleftrightarrow> selected sv = {..<nat (sv_size sv)}" using card_subset_eq [OF _ sub] by fastforce
  also have "\<dots> \<longleftrightarrow> (\<forall>p. int p < sv_size sv \<longrightarrow> p \<in> selected sv)"
    using sub by (metis lessThan_iff subsetI subset_antisym zless_nat_eq_int_zless)
  finally show ?thesis .
qed

lemma sv_ok_cache:
  assumes "sv_ok sv" "0 < sv_size sv \<Longrightarrow> a \<longleftrightarrow> (\<forall>p. int p < sv_size sv \<longrightarrow> p \<in> selected sv)"
  shows "sv_ok (sv\<lparr>sv_allSelected := Some a\<rparr>)"
  using assms by (auto simp: sv_ok_def sv_shape_def bounds_ok_def cache_ok_def selected_def)

lemma countSelected_spec:
  assumes "sv_ok sv"
  shows "\<exists>a. countSelected sv = Inr (int (card (selected sv)), sv\<lparr>sv_allSelected := a\<rparr>) \<and> sv_ok (sv\<lparr>sv_allSelected := a\<rparr>)"
proof (cases "sv_allSelected sv = Some True")
  case True
  have "0 \<le> sv_size sv" using shapeD [OF sv_ok_shape [OF assms]] by simp
  then have "int (card (selected sv)) = sv_size sv"
    using assms True card_all_rows [of sv] by (auto simp: sv_ok_def cache_ok_def)
  then have "countSelected sv = Inr (int (card (selected sv)), sv\<lparr>sv_allSelected := sv_allSelected sv\<rparr>)"
    using True by (cases sv) (simp add: countSelected_def)
  then show ?thesis using assms by (intro exI [of _ "sv_allSelected sv"]) simp
next
  case False
  have "countBits (sv_bits sv) (sv_begin sv) (sv_end sv) = Inr (card (selected sv))"
    using countBits_spec [OF sv_bounds(1) [OF assms] sv_range [OF assms]] bounded_rows [OF assms] by (simp add: rows_count)
  then show ?thesis using False assms card_all_rows [of sv] shapeD [OF sv_ok_shape [OF assms]]
    by (auto simp: countSelected_def intro!: sv_ok_cache)
qed

section \<open>Comparison\<close>

interpretation equal_words: word_visitor "equal_partial left right" "equal_full left right" for left right
  by unfold_locales (simp add: equal_partial_def equal_full_def)

lemma equal_words_spec:
  assumes "0 \<le> b" "e + 64 \<le> INT32_MAX" "bits_ok left e" "bits_ok right e"
  shows "testWords b e (equal_partial left right) (equal_full left right) () =
    Inr (\<forall>p. b \<le> int p \<and> int p < e \<longrightarrow> mem_bit left p = mem_bit right p, ())"
proof -
  have "equal_partial left right i m () = Inr (\<forall>p \<in> set (positions (i, m)). mem_bit left p = mem_bit right p, ())"
    if im: "(i, m) \<in> set (visits b e)" for i m
  proof -
    have i: "0 \<le> i" "64 * i < e" using visits_index [OF im assms(1)] by auto
    from word_read_ok [OF assms(3) i] obtain l where
      l: "word_read left i = Inr l" "\<And>k. bit l k \<longleftrightarrow> k < 64 \<and> mem_bit left (64 * nat i + k)" by blast
    from word_read_ok [OF assms(4) i] obtain r where
      r: "word_read right i = Inr r" "\<And>k. bit r k \<longleftrightarrow> k < 64 \<and> mem_bit right (64 * nat i + k)" by blast
    have "bit m k \<Longrightarrow> k < 64" for k using bit_imp_le_length [of m k] by simp
    then have "l AND m = r AND m \<longleftrightarrow> (\<forall>k. bit m k \<longrightarrow> mem_bit left (64 * nat i + k) = mem_bit right (64 * nat i + k))"
      using l(2) r(2) by (auto simp: masked_eq)
    then show ?thesis using l(1) r(1) i(1) by (simp add: equal_partial_def positions_all)
  qed
  from run_words_all [where pf = "equal_partial left right" and P = "\<lambda>p. mem_bit left p = mem_bit right p",
      OF this assms(1)] show ?thesis
    using equal_words.testWords_visits [OF assms(1,2)] by simp
qed

lemma selected_bounds_eq:
  assumes "sv_ok sv" "sv_ok other" "selected sv = selected other"
  shows "sv_begin sv = sv_begin other" "sv_end sv = sv_end other"
  using assms by (auto simp: sv_ok_def bounds_ok_def split: if_splits)

lemma selected_in: "sv_ok sv \<Longrightarrow> sv_begin sv \<le> int p \<Longrightarrow> int p < sv_end sv \<Longrightarrow> mem_bit (sv_bits sv) p \<longleftrightarrow> p \<in> selected sv"
  using sv_bounds(3) [of sv] by (simp add: selected_def)

lemma sv_equal_spec:
  assumes "sv_ok sv" "sv_ok other"
  shows "sv_equal sv other = Inr (selected sv = selected other)"
proof (cases "sv_begin sv = sv_begin other \<and> sv_end sv = sv_end other")
  case True
  then have "bits_ok (sv_bits other) (sv_end sv)" using sv_range(2) [OF assms(2)] by simp
  from equal_words_spec [OF sv_bounds(1) [OF assms(1)] sv_range [OF assms(1)] this]
  have "sv_equal sv other =
      Inr (\<forall>p. sv_begin sv \<le> int p \<and> int p < sv_end sv \<longrightarrow> mem_bit (sv_bits sv) p = mem_bit (sv_bits other) p)"
    using True by (simp add: sv_equal_def)
  also have "(\<forall>p. sv_begin sv \<le> int p \<and> int p < sv_end sv \<longrightarrow> mem_bit (sv_bits sv) p = mem_bit (sv_bits other) p) \<longleftrightarrow>
      (\<forall>p. sv_begin sv \<le> int p \<and> int p < sv_end sv \<longrightarrow> (p \<in> selected sv) = (p \<in> selected other))"
    using selected_in [OF assms(1)] selected_in [OF assms(2)] True by simp
  also have "\<dots> \<longleftrightarrow> selected sv = selected other"
    using sv_bounds(4) [OF assms(1)] sv_bounds(4) [OF assms(2)] True by auto
  finally show ?thesis .
next
  case False
  then show ?thesis using selected_bounds_eq [OF assms] by (auto simp: sv_equal_def)
qed

text \<open>The bounds are compared first, and the bounds of a vector without selected rows are both zero.\<close>

lemma sv_isSubset_spec:
  assumes "sv_ok sv" "sv_ok other"
  shows "sv_isSubset sv other = Inr (selected sv \<subseteq> selected other \<and> (selected sv = {} \<longrightarrow> sv_begin other = 0))"
proof (cases "sv_begin sv \<ge> sv_begin other \<and> sv_end sv \<le> sv_end other")
  case True
  have "bits_ok (sv_bits other) (sv_end sv)" using sv_range(2) [OF assms(2)] True bits_ok_le by blast
  from isSubset_spec [OF sv_bounds(1) [OF assms(1)] sv_range [OF assms(1)] this]
  have "sv_isSubset sv other =
      Inr (\<forall>p. sv_begin sv \<le> int p \<and> int p < sv_end sv \<longrightarrow> mem_bit (sv_bits sv) p \<longrightarrow> mem_bit (sv_bits other) p)"
    using True by (simp add: sv_isSubset_def)
  also have "(\<forall>p. sv_begin sv \<le> int p \<and> int p < sv_end sv \<longrightarrow> mem_bit (sv_bits sv) p \<longrightarrow> mem_bit (sv_bits other) p) \<longleftrightarrow>
      (\<forall>p. sv_begin sv \<le> int p \<and> int p < sv_end sv \<longrightarrow> p \<in> selected sv \<longrightarrow> p \<in> selected other)"
    using selected_in [OF assms(1)] selected_in [OF assms(2)] True by auto
  also have "\<dots> \<longleftrightarrow> selected sv \<subseteq> selected other" using sv_bounds(4) [OF assms(1)] by auto
  also have "\<dots> \<longleftrightarrow> selected sv \<subseteq> selected other \<and> (selected sv = {} \<longrightarrow> sv_begin other = 0)"
    using True sv_bounds(1) [OF assms(2)] assms(1) by (auto simp: sv_ok_def bounds_ok_def)
  finally show ?thesis .
next
  case False
  have "\<not> selected sv \<subseteq> selected other \<or> selected sv = {} \<and> sv_begin other \<noteq> 0"
  proof (cases "selected sv = {}")
    case True
    then have "sv_begin sv = 0" "sv_end sv = 0" using assms(1) by (auto simp: sv_ok_def bounds_ok_def)
    then show ?thesis using False True sv_bounds(1,2) [OF assms(2)] by auto
  next
    case ne: False
    have m: "Min (selected sv) \<in> selected sv" "Max (selected sv) \<in> selected sv" using ne by simp_all
    have "sv_begin sv = int (Min (selected sv))" "sv_end sv = int (Max (selected sv)) + 1"
      using assms(1) ne by (auto simp: sv_ok_def bounds_ok_def)
    then show ?thesis using False m sv_bounds(4) [OF assms(2), of "Min (selected sv)"] sv_bounds(4) [OF assms(2), of "Max (selected sv)"]
      by (metis le_less_linear linorder_not_le subsetD zle_add1_eq_le zless_imp_add1_zle)
  qed
  then show ?thesis using False by (auto simp: sv_isSubset_def)
qed

section \<open>Nulls\<close>

lemma setNulls_spec:
  assumes "sv_ok sv" "bits_ok nulls (sv_end sv)"
  shows "\<exists>nulls'. setNulls sv (Some nulls) = Inr nulls' \<and> bits_updated nulls (\<lambda>p. p \<in> selected sv) (\<lambda>_ _. False) nulls'"
proof -
  from andRange_spec [OF sv_bounds(1) [OF assms(1)] sv_range(1) [OF assms(1)] assms(2) sv_range(2) [OF assms(1)], of None True]
  obtain nulls' where n: "andRange True nulls None (sv_bits sv) (sv_begin sv) (sv_end sv) = Inr nulls'"
    "bits_updated nulls (\<lambda>p. sv_begin sv \<le> int p \<and> int p < sv_end sv) (\<lambda>p x. x \<and> \<not> mem_bit (sv_bits sv) p) nulls'"
    by (auto simp: left_bit_def)
  from n(2) have "bits_updated nulls (\<lambda>p. p \<in> selected sv) (\<lambda>_ _. False) nulls'"
    using selected_in [OF assms(1)] sv_bounds(4) [OF assms(1)] by (auto simp: bits_updated_def)
  then show ?thesis using n(1) by (simp add: setNulls_def)
qed

lemma clearNulls_spec:
  assumes "sv_ok sv" "bits_ok nulls (sv_end sv)"
  shows "\<exists>nulls'. clearNulls sv (Some nulls) = Inr (Some nulls') \<and> bits_updated nulls (\<lambda>p. p \<in> selected sv) (\<lambda>_ _. True) nulls'"
proof -
  from orRange_spec [OF sv_bounds(1) [OF assms(1)] sv_range(1) [OF assms(1)] assms(2) sv_range(2) [OF assms(1)], of None False]
  obtain nulls' where n: "orRange False nulls None (sv_bits sv) (sv_begin sv) (sv_end sv) = Inr nulls'"
    "bits_updated nulls (\<lambda>p. sv_begin sv \<le> int p \<and> int p < sv_end sv) (\<lambda>p x. x \<or> mem_bit (sv_bits sv) p) nulls'"
    by (auto simp: left_bit_def)
  from n(2) have "bits_updated nulls (\<lambda>p. p \<in> selected sv) (\<lambda>_ _. True) nulls'"
    using selected_in [OF assms(1)] sv_bounds(4) [OF assms(1)] by (auto simp: bits_updated_def)
  then show ?thesis using n(1) by (simp add: clearNulls_def)
qed

section \<open>The iterator\<close>

text \<open>The rows that an iterator has still to return.\<close>

definition iter_rows :: "SelectivityIterator \<Rightarrow> int list" where
  "iter_rows it =
     map (\<lambda>k. si_index it * 64 + int k) (word_bits (si_current it)) @
     (case si_bits it of None \<Rightarrow> [] | Some bits \<Rightarrow> rows_with bits True (64 * si_index it + 64) (si_end it))"

definition iter_ok :: "SelectivityIterator \<Rightarrow> bool" where
  "iter_ok it \<longleftrightarrow> 0 \<le> si_index it \<and>
     (case si_bits it of None \<Rightarrow> si_end it \<le> 64 * si_index it + 64 | Some bits \<Rightarrow> bits_ok bits (si_end it))"

lemma word_part_rows:
  assumes "0 \<le> b" "0 \<le> i"
    and "\<And>k. bit cur k \<longleftrightarrow> k < 64 \<and> mem_bit mem (64 * nat i + k) \<and> b \<le> 64 * i + int k \<and> 64 * i + int k < e"
  shows "map (\<lambda>k. i * 64 + int k) (word_bits cur) = rows_with mem True (max b (64 * i)) (min e (64 * i + 64))"
proof -
  have "word_bits cur = filter (\<lambda>k. mem_bit mem (64 * nat i + k)) (word_bits (range_mask b e i))"
    unfolding word_bits_def filter_filter using assms by (intro filter_cong) (auto simp: bit_range_mask)
  then have "map (\<lambda>k. i * 64 + int k) (word_bits cur) = map int (filter (mem_bit mem) (positions (i, range_mask b e i)))"
    using assms(2) by (simp add: positions_def filter_map o_def)
  also have "positions (i, range_mask b e i) = [nat (max b (64 * i))..<nat (min e (64 * i + 64))]"
    using positions_range [OF assms(1,2)] assms(2) by (simp add: max_def min_def nat_mult_distrib nat_add_distrib nat_le_eq_zle nat_le_iff)
  finally show ?thesis by (simp add: rows_with_def)
qed

lemma rows_with_split: "0 \<le> b \<Longrightarrow> b \<le> c \<Longrightarrow> c \<le> e \<Longrightarrow> rows_with mem v b e = rows_with mem v b c @ rows_with mem v c e"
  using upt_add_eq_append [of "nat b" "nat c" "nat e - nat c"] by (simp add: rows_with_def)

lemma rows_with_none: "e \<le> b \<Longrightarrow> rows_with mem v b e = []"
  by (simp add: rows_with_def)

lemma rows_with_word:
  assumes "0 \<le> b" "b \<le> e" "b \<le> c"
  shows "rows_with mem v b e = rows_with mem v b (min e c) @ rows_with mem v c e"
proof (cases "c \<le> e")
  case True
  then show ?thesis using rows_with_split [of b c e mem v] assms by (simp add: min_def)
next
  case False
  then show ?thesis by (simp add: rows_with_none)
qed

text \<open>The word that the iterator moves to, with the bits after the end cleared.\<close>

lemma next_word:
  assumes "bits_ok bits e" "0 \<le> i" "64 * i < e"
  obtains cur where
    "rbind (word_read bits i) (\<lambda>w. rbind (if (i + 1) * 64 > e then rbind (lowMask (e mod 64)) (\<lambda>m. Inr (w AND m)) else Inr w) f) = f cur"
    "map (\<lambda>k. i * 64 + int k) (word_bits cur) = rows_with bits True (64 * i) (min e (64 * i + 64))"
proof -
  from word_read_ok [OF assms] obtain w where
    w: "word_read bits i = Inr w" "\<And>k. bit w k \<longleftrightarrow> k < 64 \<and> mem_bit bits (64 * nat i + k)" by blast
  obtain q r where e: "e = 64 * q + r" "0 \<le> r" "r < 64" "e div 64 = q" "e mod 64 = r" by (rule bit_decompose)
  let ?cur = "if (i + 1) * 64 > e then w AND mask (nat r) else w"
  have "bit ?cur k \<longleftrightarrow> k < 64 \<and> mem_bit bits (64 * nat i + k) \<and> 64 * i \<le> 64 * i + int k \<and> 64 * i + int k < e" for k
  proof (cases "(i + 1) * 64 > e")
    case True
    then have "q = i" using e(1-3) assms(3) by auto
    then show ?thesis using True w(2) e by (auto simp: bit_simps zless_nat_eq_int_zless)
  next
    case False
    then have "64 * i + int k < e" if "k < 64" using that by (simp add: distrib_right)
    then show ?thesis using w(2) [of k] False by auto
  qed
  from word_part_rows [OF _ assms(2) this] assms(2)
  have "map (\<lambda>k. i * 64 + int k) (word_bits ?cur) = rows_with bits True (64 * i) (min e (64 * i + 64))" by simp
  moreover have "rbind (word_read bits i) (\<lambda>w. rbind (if (i + 1) * 64 > e then rbind (lowMask (e mod 64)) (\<lambda>m. Inr (w AND m)) else Inr w) f) = f ?cur"
    using w(1) e by (simp add: lowMask_eq)
  ultimately show ?thesis using that by blast
qed

lemma skip_words_spec:
  assumes "iter_ok it"
  shows "\<exists>it'. skip_words it = Inr (si_current it' \<noteq> 0, it') \<and> iter_ok it' \<and> iter_rows it' = iter_rows it \<and>
    (si_current it' = 0 \<longrightarrow> iter_rows it = [])"
  using assms
proof (induction "nat (si_end it - si_index it * 64)" arbitrary: it rule: less_induct)
  case less
  let ?i = "si_index it" and ?e = "si_end it"
  show ?case
  proof (cases "si_current it = 0 \<and> (?i + 1) * 64 < ?e")
    case True
    then obtain bits where b: "si_bits it = Some bits" "bits_ok bits ?e" "0 \<le> ?i"
      using less.prems by (auto simp: iter_ok_def split: option.splits)
    define f where "f = (\<lambda>current. skip_words (it\<lparr>si_index := ?i + 1, si_current := current\<rparr>))"
    from next_word [OF b(2), of "?i + 1" f] b(3) True obtain cur where
      c: "rbind (word_read bits (?i + 1)) (\<lambda>w. rbind (if (?i + 1 + 1) * 64 > ?e then rbind (lowMask (?e mod 64)) (\<lambda>m. Inr (w AND m)) else Inr w) f) = f cur"
      "map (\<lambda>k. (?i + 1) * 64 + int k) (word_bits cur) = rows_with bits True (64 * (?i + 1)) (min ?e (64 * (?i + 1) + 64))"
      by auto
    let ?it = "it\<lparr>si_index := ?i + 1, si_current := cur\<rparr>"
    have "skip_words it = skip_words ?it"
      using c(1) True b(1) by (subst skip_words.simps) (simp add: f_def add.assoc)
    moreover have "iter_ok ?it" using b by (simp add: iter_ok_def)
    moreover have "iter_rows ?it = iter_rows it"
      using c(2) True b rows_with_word [of "64 * ?i + 64" ?e "64 * (?i + 1) + 64" bits True]
      by (simp add: iter_rows_def algebra_simps)
    moreover have "nat (si_end ?it - si_index ?it * 64) < nat (?e - ?i * 64)" using True by simp
    ultimately show ?thesis using less.hyps [of ?it] by metis
  next
    case False
    then have "skip_words it = Inr (si_current it \<noteq> 0, it)" by (subst skip_words.simps) auto
    moreover have "iter_rows it = []" if "si_current it = 0"
      using False that by (auto simp: iter_rows_def rows_with_none split: option.split)
    ultimately show ?thesis using less.prems by blast
  qed
qed

lemma iterator_next_spec:
  assumes "iter_ok it"
  shows "\<exists>it'. iterator_next it = Inr (case iter_rows it of [] \<Rightarrow> None | row # _ \<Rightarrow> Some row, it') \<and> iter_ok it' \<and>
    iter_rows it' = tl (iter_rows it)"
proof -
  from skip_words_spec [OF assms] obtain it' where
    s: "skip_words it = Inr (si_current it' \<noteq> 0, it')" "iter_ok it'" "iter_rows it' = iter_rows it"
    "si_current it' = 0 \<longrightarrow> iter_rows it = []" by blast
  show ?thesis
  proof (cases "si_current it' = 0")
    case True
    then show ?thesis using s by (simp add: iterator_next_def)
  next
    case False
    let ?next = "it'\<lparr>si_current := si_current it' AND (si_current it' - 1)\<rparr>"
    let ?row = "si_index it' * 64 + int (ctz (si_current it'))"
    have "iter_rows it' = ?row # iter_rows ?next"
      using word_bits_step [OF False] by (simp add: iter_rows_def cong: option.case_cong)
    then have "iter_rows it = ?row # iter_rows ?next" using s(3) by simp
    moreover have "iter_ok ?next" using s(2) by (cases "si_bits it'") (simp_all add: iter_ok_def)
    ultimately show ?thesis using s(1) False by (simp add: iterator_next_def)
  qed
qed

lemma first_word:
  assumes "bits_ok bits e" "0 \<le> b" "b < e"
  obtains cur where
    "rbind (word_read bits (b div 64)) (\<lambda>w. rbind (lowMask (b mod 64)) (\<lambda>low.
       rbind (if e div 64 = b div 64 then rbind (lowMask (e mod 64)) (\<lambda>high. Inr (w AND NOT low AND high)) else Inr (w AND NOT low)) f)) = f cur"
    "map (\<lambda>k. b div 64 * 64 + int k) (word_bits cur) = rows_with bits True b (min e (64 * (b div 64) + 64))"
proof -
  obtain i a where b: "b = 64 * i + a" "0 \<le> a" "a < 64" "b div 64 = i" "b mod 64 = a" by (rule bit_decompose)
  obtain q r where e: "e = 64 * q + r" "0 \<le> r" "r < 64" "e div 64 = q" "e mod 64 = r" by (rule bit_decompose)
  have i: "0 \<le> i" "64 * i < e" using assms b(1-3) by auto
  from word_read_ok [OF assms(1) i] obtain w where
    w: "word_read bits i = Inr w" "\<And>k. bit w k \<longleftrightarrow> k < 64 \<and> mem_bit bits (64 * nat i + k)" by blast
  let ?cur = "if q = i then w AND NOT (mask (nat a)) AND mask (nat r) else w AND NOT (mask (nat a))"
  have "bit ?cur k \<longleftrightarrow> k < 64 \<and> mem_bit bits (64 * nat i + k) \<and> b \<le> 64 * i + int k \<and> 64 * i + int k < e" for k
  proof (cases "q = i")
    case True
    then show ?thesis using w(2) [of k] b e by (auto simp: bit_simps zless_nat_eq_int_zless)
  next
    case False
    then have "64 * i + 64 \<le> e" using e(1-3) i(2) by auto
    then show ?thesis using False w(2) [of k] b(1,2) by (auto simp: bit_simps zless_nat_eq_int_zless)
  qed
  from word_part_rows [OF assms(2) i(1) this] b(1,2)
  have "map (\<lambda>k. i * 64 + int k) (word_bits ?cur) = rows_with bits True b (min e (64 * i + 64))" by (simp add: max_def)
  moreover have "rbind (word_read bits i) (\<lambda>w. rbind (lowMask a) (\<lambda>low.
       rbind (if q = i then rbind (lowMask r) (\<lambda>high. Inr (w AND NOT low AND high)) else Inr (w AND NOT low)) f)) = f ?cur"
    using w(1) b(2,3) e(2,3) by (simp add: lowMask_eq)
  ultimately show ?thesis using that b(4,5) e(4,5) by metis
qed

lemma SelectivityIterator_new_spec:
  assumes "sv_ok sv"
  obtains it where "SelectivityIterator_new sv = Inr it" "iter_ok it" "iter_rows it = selected_rows sv"
proof (cases "sv_begin sv = sv_end sv")
  case True
  then have none: "selected sv = {}" using sv_bounds(4) [OF assms] by fastforce
  then have "sv_end sv = 0" using assms by (simp add: sv_ok_def bounds_ok_def)
  then show ?thesis using that True none selected_rows_Nil [of sv]
    by (simp add: SelectivityIterator_new_def iter_ok_def iter_rows_def)
next
  case False
  let ?b = "sv_begin sv" and ?e = "sv_end sv"
  have be: "0 \<le> ?b" "?b < ?e" using sv_bounds(1,2) [OF assms] False by auto
  define f :: "64 word \<Rightarrow> SelectivityIterator res" where
    "f = (\<lambda>cur. Inr \<lparr>si_bits = Some (sv_bits sv), si_current = cur, si_index = cdiv ?b 64, si_end = ?e\<rparr>)"
  from first_word [OF sv_range(2) [OF assms] be, of f] obtain cur where
    c: "rbind (word_read (sv_bits sv) (?b div 64)) (\<lambda>w. rbind (lowMask (?b mod 64)) (\<lambda>low.
       rbind (if ?e div 64 = ?b div 64 then rbind (lowMask (?e mod 64)) (\<lambda>high. Inr (w AND NOT low AND high)) else Inr (w AND NOT low)) f)) = f cur"
    "map (\<lambda>k. ?b div 64 * 64 + int k) (word_bits cur) = rows_with (sv_bits sv) True ?b (min ?e (64 * (?b div 64) + 64))" by blast
  let ?it = "\<lparr>si_bits = Some (sv_bits sv), si_current = cur, si_index = ?b div 64, si_end = ?e\<rparr>"
  have "SelectivityIterator_new sv = Inr ?it"
    using c(1) False be by (simp add: SelectivityIterator_new_def f_def cdiv_pos)
  moreover have "iter_ok ?it" using sv_range(2) [OF assms] be by (simp add: iter_ok_def pos_imp_zdiv_nonneg_iff)
  moreover have "iter_rows ?it = selected_rows sv"
    using c(2) be bounded_rows [OF assms] rows_with_word [OF be(1) less_imp_le [OF be(2)], of "64 * (?b div 64) + 64" "sv_bits sv" True]
      div64_mult [of ?b] by (simp add: iter_rows_def)
  ultimately show ?thesis using that by blast
qed

text \<open>The loop of a client, \<open>while (iterator.next(row)) func(row)\<close>.\<close>

partial_function (option) iterate :: "(int \<Rightarrow> 's \<Rightarrow> 's res) \<Rightarrow> SelectivityIterator \<Rightarrow> 's \<Rightarrow> 's res option" where
  "iterate func it s =
     (case iterator_next it of
        Inl e \<Rightarrow> Some (Inl e)
      | Inr (None, _) \<Rightarrow> Some (Inr s)
      | Inr (Some row, it') \<Rightarrow>
          (case func row s of Inl e \<Rightarrow> Some (Inl e) | Inr s' \<Rightarrow> iterate func it' s'))"

lemma iterate_spec: "iter_ok it \<Longrightarrow> iterate func it s = Some (row_loop func (iter_rows it) s)"
proof (induction "iter_rows it" arbitrary: it s)
  case Nil
  then obtain it' where "iterator_next it = Inr (None, it')" using iterator_next_spec [OF Nil.prems] by auto
  then show ?case using Nil.hyps by (subst iterate.simps) simp
next
  case (Cons row rows)
  from iterator_next_spec [OF Cons.prems] Cons.hyps(2) [symmetric] obtain it' where
    "iterator_next it = Inr (Some row, it')" "iter_ok it'" "iter_rows it' = rows" by auto
  then show ?case using Cons.hyps(1) [of it'] Cons.hyps(2) [symmetric]
    by (subst iterate.simps) (auto split: sum.split)
qed

section \<open>Dictionary rows\<close>

definition null_bit :: "byte list option \<Rightarrow> nat \<Rightarrow> bool" where
  "null_bit nulls p = (case nulls of None \<Rightarrow> False | Some bits \<Rightarrow> \<not> mem_bit bits p)"

lemma translate_loop:
  assumes "\<And>row. row \<in> set rows \<Longrightarrow> 0 \<le> row \<and> nat row < length indices"
    and "\<And>row. row \<in> set rows \<Longrightarrow> \<not> null_bit nulls (nat row) \<Longrightarrow> 0 \<le> indices ! nat row \<and> indices ! nat row < sv_size inner"
    and "\<And>bits row. nulls = Some bits \<Longrightarrow> row \<in> set rows \<Longrightarrow> isBitSet 8 bits row = Inr (mem_bit bits (nat row))"
    and "sv_shape inner"
  shows "\<exists>inner'. row_loop (translate_row indices nulls) rows inner = Inr inner' \<and> sv_shape inner' \<and> sv_size inner' = sv_size inner \<and> length (sv_bits inner') = length (sv_bits inner) \<and>
     selected inner' = selected inner \<union> {nat (indices ! nat row) |row. row \<in> set rows \<and> \<not> null_bit nulls (nat row)}"
  using assms
proof (induction rows arbitrary: inner)
  case (Cons row rows)
  have n: "translate_row indices nulls row inner =
      (if null_bit nulls (nat row) then Inr inner else setValid inner (indices ! nat row) True)"
    using Cons.prems(1,3) by (cases nulls) (simp_all add: null_bit_def translate_row_def isBitNull_def)
  obtain next' where s: "(if null_bit nulls (nat row) then Inr inner else setValid inner (indices ! nat row) True) = Inr next'"
    "sv_shape next'" "sv_size next' = sv_size inner \<and> length (sv_bits next') = length (sv_bits inner)"
    "selected next' = selected inner \<union> (if null_bit nulls (nat row) then {} else {nat (indices ! nat row)})"
    using setValid_spec [OF Cons.prems(4), of "indices ! nat row" True] Cons.prems(2) [of row] Cons.prems(4)
    by (cases "null_bit nulls (nat row)") auto
  from Cons.IH [of next'] Cons.prems s(2,3) obtain inner' where
    i: "row_loop (translate_row indices nulls) rows next' = Inr inner'" "sv_shape inner'" "sv_size inner' = sv_size inner \<and> length (sv_bits inner') = length (sv_bits inner)"
     "selected inner' = selected next' \<union> {nat (indices ! nat row) |row. row \<in> set rows \<and> \<not> null_bit nulls (nat row)}" by auto
  have "selected inner' = selected inner \<union> {nat (indices ! nat r) |r. r \<in> set (row # rows) \<and> \<not> null_bit nulls (nat r)}"
    using i(4) s(4) by auto
  moreover have "row_loop (translate_row indices nulls) (row # rows) inner = Inr inner'"
    using n s(1) i(1) by simp
  ultimately show ?case using i(2,3) by blast
qed simp

lemma translateToInnerRows_spec:
  assumes "sv_ok outer" "sv_shape inner"
    and "\<And>p. p \<in> selected outer \<Longrightarrow> p < length indices"
    and "\<And>p. p \<in> selected outer \<Longrightarrow> \<not> null_bit nulls p \<Longrightarrow> 0 \<le> indices ! p \<and> indices ! p < sv_size inner"
    and "\<And>bits. nulls = Some bits \<Longrightarrow> bits_ok bits (sv_end outer)"
  shows "\<exists>inner'. translateToInnerRows outer indices nulls inner = Inr inner' \<and> sv_ok inner' \<and> sv_size inner' = sv_size inner \<and> length (sv_bits inner') = length (sv_bits inner) \<and>
    selected inner' = selected inner \<union> {nat (indices ! p) |p. p \<in> selected outer \<and> \<not> null_bit nulls p}"
proof -
  have rows: "row \<in> set (selected_rows outer) \<longleftrightarrow> (\<exists>p \<in> selected outer. row = int p)" for row
    using selected_rows_set [of outer] by auto
  have bit: "isBitSet 8 bits row = Inr (mem_bit bits (nat row))"
    if b: "nulls = Some bits" "row \<in> set (selected_rows outer)" for bits row
  proof -
    obtain p where p: "row = int p" "p \<in> selected outer" using b(2) rows by auto
    have "8 dvd length bits" "sv_end outer \<le> 8 * int (length bits)" using assms(5) [OF b(1)] by (auto simp: bits_ok_def)
    then show ?thesis using p sv_bounds(4) [OF assms(1) p(2)] by (intro isBitSet_spec) auto
  qed
  have "\<exists>inner'. row_loop (translate_row indices nulls) (selected_rows outer) inner = Inr inner' \<and> sv_shape inner' \<and>
      sv_size inner' = sv_size inner \<and> length (sv_bits inner') = length (sv_bits inner) \<and> selected inner' =
      selected inner \<union> {nat (indices ! nat row) |row. row \<in> set (selected_rows outer) \<and> \<not> null_bit nulls (nat row)}"
    using assms(2-4) bit rows by (intro translate_loop) auto
  moreover have "{nat (indices ! nat row) |row. row \<in> set (selected_rows outer) \<and> \<not> null_bit nulls (nat row)} =
      {nat (indices ! p) |p. p \<in> selected outer \<and> \<not> null_bit nulls p}"
    unfolding rows by force
  ultimately obtain inner' where i: "row_loop (translate_row indices nulls) (selected_rows outer) inner = Inr inner'" "sv_shape inner'"
    "sv_size inner' = sv_size inner" "length (sv_bits inner') = length (sv_bits inner)" "selected inner' = selected inner \<union> {nat (indices ! p) |p. p \<in> selected outer \<and> \<not> null_bit nulls p}"
    by auto
  from updateBounds_spec [OF i(2)] obtain final where
    f: "updateBounds inner' = Inr final" "sv_ok final" "sv_bits final = sv_bits inner'" "sv_size final = sv_size inner'" by blast
  have "translateToInnerRows outer indices nulls inner = Inr final"
    using applyToSelected_spec [OF assms(1), of "translate_row indices nulls" inner] i(1) f(1)
    by (auto simp: translateToInnerRows_def)
  moreover have "selected final = selected inner'" using f(3,4) by (simp add: selected_def)
  ultimately show ?thesis using f i by auto
qed

end
