(* ===== verification/Refinement.thy ===== *)
theory Refinement
  imports Velox_Prelude
begin

text \<open>
  Sequences of operations that may fail, and their refinement of operations on an abstract state: an
  invariant of the detailed state, the abstraction of a state, and the abstract states in which an operation
  may be called.
\<close>

fun run_ops :: "('op \<Rightarrow> 's \<Rightarrow> 's res) \<Rightarrow> 'op list \<Rightarrow> 's \<Rightarrow> 's res" where
  "run_ops step [] s = Inr s"
| "run_ops step (op # ops) s = rbind (step op s) (run_ops step ops)"

lemma run_ops_append: "run_ops step (xs @ ys) s = rbind (run_ops step xs s) (run_ops step ys)"
  by (induction xs arbitrary: s) (auto simp: rbind_assoc intro: rbind_cong)

fun enabled_run :: "('op \<Rightarrow> 'a \<Rightarrow> bool) \<Rightarrow> ('op \<Rightarrow> 'a \<Rightarrow> 'a) \<Rightarrow> 'op list \<Rightarrow> 'a \<Rightarrow> bool" where
  "enabled_run enabled astep [] a \<longleftrightarrow> True"
| "enabled_run enabled astep (op # ops) a \<longleftrightarrow> enabled op a \<and> enabled_run enabled astep ops (astep op a)"

locale step_refinement =
  fixes step :: "'op \<Rightarrow> 's \<Rightarrow> 's res"
    and astep :: "'op \<Rightarrow> 'a \<Rightarrow> 'a"
    and enabled :: "'op \<Rightarrow> 'a \<Rightarrow> bool"
    and inv :: "'s \<Rightarrow> bool"
    and abs_of :: "'s \<Rightarrow> 'a"
  assumes step_refines:
    "inv s \<Longrightarrow> enabled op (abs_of s) \<Longrightarrow> \<exists>s'. step op s = Inr s' \<and> inv s' \<and> abs_of s' = astep op (abs_of s)"
begin

lemma run_refines:
  assumes "inv s" "enabled_run enabled astep ops (abs_of s)"
  shows "\<exists>s'. run_ops step ops s = Inr s' \<and> inv s' \<and> abs_of s' = fold astep ops (abs_of s)"
  using assms
proof (induction ops arbitrary: s)
  case (Cons op ops)
  then obtain s' where "step op s = Inr s'" "inv s'" "abs_of s' = astep op (abs_of s)"
    using step_refines [of s op] by auto
  then show ?case using Cons.IH [of s'] Cons.prems by simp
qed simp

end

end
