(* ===== verification/Selectivity_Sets.thy ===== *)
theory Selectivity_Sets
  imports Selectivity_Queries Refinement
begin

text \<open>
  Sequences of operations on a vector refine operations on a set of rows: the interpretation \<open>row_set\<close> of the
  locale \<open>step_refinement\<close>.
\<close>

unbundle bit_operations_syntax

section \<open>Refinement of sets of rows\<close>

text \<open>
  The operations that change a vector, as a client calls them: \<open>updateBounds\<close> follows \<open>setValid\<close> and
  \<open>setValidRange\<close>.
\<close>

datatype sv_op =
    Resize int bool
  | ResizeFill int bool
  | SetValid int bool
  | SetValidRange int int bool
  | ClearAll
  | SetAll
  | SetFromBits "byte list" int
  | Intersect SelectivityVector
  | Deselect SelectivityVector
  | DeselectNulls "byte list" int int
  | DeselectNonNulls "byte list" int int
  | Select SelectivityVector
  | TranslateFrom SelectivityVector "int list" "byte list option"

fun sv_step :: "sv_op \<Rightarrow> SelectivityVector \<Rightarrow> SelectivityVector res" where
  "sv_step (Resize n v) sv = resize sv n v"
| "sv_step (ResizeFill n v) sv = resizeFill sv n v"
| "sv_step (SetValid i v) sv = rbind (setValid sv i v) updateBounds"
| "sv_step (SetValidRange b e v) sv = rbind (setValidRange sv b e v) updateBounds"
| "sv_step ClearAll sv = clearAll sv"
| "sv_step SetAll sv = setAll sv"
| "sv_step (SetFromBits bits n) sv = setFromBits sv bits n"
| "sv_step (Intersect other) sv = intersect sv other"
| "sv_step (Deselect other) sv = deselect sv other"
| "sv_step (DeselectNulls nulls b e) sv = deselectNulls sv nulls b e"
| "sv_step (DeselectNonNulls nulls b e) sv = deselectNonNulls sv nulls b e"
| "sv_step (Select other) sv = select sv other"
| "sv_step (TranslateFrom outer indices nulls) sv = translateToInnerRows outer indices nulls sv"

text \<open>
  The abstract state is the number of rows, the number of words of the array and the set of selected rows.
  \<open>setFromBits\<close> never shortens the array, so that it may be left with more words than the rows need; \<open>resize\<close>,
  \<open>resizeFill\<close> and a \<open>select\<close> that adds rows set the number of words to what the rows need. \<open>intersect\<close> works on the
  rows below \<open>other.size()\<close> only: rows at and above it stay selected, although its comment says that rows that
  are not present in the other vector are removed.
\<close>

definition words_for :: "int \<Rightarrow> nat" where
  "words_for n = nat ((n + 63) div 64)"

fun set_step :: "sv_op \<Rightarrow> int \<times> nat \<times> nat set \<Rightarrow> int \<times> nat \<times> nat set" where
  "set_step (Resize n v) (rows, w, S) = (n, words_for n, {p. int p < n \<and> (if int p < rows then p \<in> S else v)})"
| "set_step (ResizeFill n v) (rows, w, S) = (n, words_for n, if v then {..<nat n} else {})"
| "set_step (SetValid i v) (rows, w, S) = (rows, w, if v then insert (nat i) S else S - {nat i})"
| "set_step (SetValidRange b e v) (rows, w, S) = (rows, w, if v then S \<union> {nat b..<nat e} else S - {nat b..<nat e})"
| "set_step ClearAll (rows, w, S) = (rows, w, {})"
| "set_step SetAll (rows, w, S) = (rows, w, {..<nat rows})"
| "set_step (SetFromBits bits n) (rows, w, S) = (n, max w (words_for n), {p. int p < n \<and> mem_bit bits p})"
| "set_step (Intersect other) (rows, w, S) = (rows, w, {p \<in> S. int p < sv_size other \<longrightarrow> p \<in> selected other})"
| "set_step (Deselect other) (rows, w, S) = (rows, w, S - selected other)"
| "set_step (DeselectNulls nulls b e) (rows, w, S) = (rows, w, {p \<in> S. b \<le> int p \<and> int p < e \<longrightarrow> mem_bit nulls p})"
| "set_step (DeselectNonNulls nulls b e) (rows, w, S) = (rows, w, {p \<in> S. b \<le> int p \<and> int p < e \<longrightarrow> \<not> mem_bit nulls p})"
| "set_step (Select other) (rows, w, S) =
     (max rows (sv_size other), if rows < sv_size other then words_for (sv_size other) else w, S \<union> selected other)"
| "set_step (TranslateFrom outer indices nulls) (rows, w, S) =
     (rows, w, S \<union> {nat (indices ! p) |p. p \<in> selected outer \<and> \<not> null_bit nulls p})"

definition rows_fit :: "int \<Rightarrow> bool" where
  "rows_fit n \<longleftrightarrow> 0 \<le> n \<and> n + 64 \<le> INT32_MAX"

text \<open>
  The calls that are covered: row numbers are in range, bit arrays and other vectors are large enough, and
  rows are added, by \<open>resize\<close> or \<open>select\<close>, only while the array has no more words than the rows need.
\<close>

fun sv_enabled :: "sv_op \<Rightarrow> int \<times> nat \<times> nat set \<Rightarrow> bool" where
  "sv_enabled (Resize n v) (rows, w, S) \<longleftrightarrow> rows_fit n \<and> (rows < n \<longrightarrow> w = words_for rows)"
| "sv_enabled (ResizeFill n v) (rows, w, S) \<longleftrightarrow> rows_fit n"
| "sv_enabled (SetValid i v) (rows, w, S) \<longleftrightarrow> 0 \<le> i \<and> i < rows"
| "sv_enabled (SetValidRange b e v) (rows, w, S) \<longleftrightarrow> 0 \<le> b \<and> b \<le> e \<and> e \<le> rows"
| "sv_enabled ClearAll (rows, w, S) \<longleftrightarrow> True"
| "sv_enabled SetAll (rows, w, S) \<longleftrightarrow> True"
| "sv_enabled (SetFromBits bits n) (rows, w, S) \<longleftrightarrow> rows_fit n \<and> 8 * words_for n \<le> length bits"
| "sv_enabled (Intersect other) (rows, w, S) \<longleftrightarrow> sv_shape other"
| "sv_enabled (Deselect other) (rows, w, S) \<longleftrightarrow> sv_shape other"
| "sv_enabled (DeselectNulls nulls b e) (rows, w, S) \<longleftrightarrow> bits_ok nulls (min rows e)"
| "sv_enabled (DeselectNonNulls nulls b e) (rows, w, S) \<longleftrightarrow> bits_ok nulls (min rows e)"
| "sv_enabled (Select other) (rows, w, S) \<longleftrightarrow> sv_shape other \<and> (rows < sv_size other \<longrightarrow> w = words_for rows)"
| "sv_enabled (TranslateFrom outer indices nulls) (rows, w, S) \<longleftrightarrow>
     sv_ok outer \<and> (\<forall>p \<in> selected outer. p < length indices \<and> (\<not> null_bit nulls p \<longrightarrow> 0 \<le> indices ! p \<and> indices ! p < rows)) \<and>
     (\<forall>bits. nulls = Some bits \<longrightarrow> bits_ok bits (sv_end outer))"

definition sv_abs :: "SelectivityVector \<Rightarrow> int \<times> nat \<times> nat set" where
  "sv_abs sv = (sv_size sv, length (sv_bits sv) div 8, selected sv)"

lemma with_bounds:
  assumes "\<exists>sv'. r = Inr sv' \<and> sv_shape sv' \<and> sv_size sv' = n \<and> length (sv_bits sv') = l \<and> selected sv' = S"
  shows "\<exists>sv'. rbind r updateBounds = Inr sv' \<and> sv_ok sv' \<and> sv_size sv' = n \<and> length (sv_bits sv') = l \<and> selected sv' = S"
proof -
  obtain sv' where r: "r = Inr sv'" "sv_shape sv'" "sv_size sv' = n" "length (sv_bits sv') = l" "selected sv' = S"
    using assms by blast
  from updateBounds_spec [OF r(2)] obtain sv'' where
    "updateBounds sv' = Inr sv''" "sv_ok sv''" "sv_bits sv'' = sv_bits sv'" "sv_size sv'' = sv_size sv'" .
  then show ?thesis using r by (auto simp: selected_def)
qed

lemma sv_tight_words: "sv_ok sv \<Longrightarrow> sv_tight sv \<longleftrightarrow> length (sv_bits sv) div 8 = words_for (sv_size sv)"
  using words_pos [of "sv_size sv"] by (auto simp: sv_tight_def words_for_def sv_ok_def sv_shape_def bits_ok_def)

text \<open>The operations that leave the number of rows as it is keep the number of words too.\<close>

lemma same_size:
  assumes "\<exists>sv'. r = Inr sv' \<and> sv_ok sv' \<and> sv_size sv' = sv_size sv \<and> length (sv_bits sv') = length (sv_bits sv) \<and> selected sv' = S"
  shows "\<exists>sv'. r = Inr sv' \<and> sv_ok sv' \<and> sv_abs sv' = (sv_size sv, length (sv_bits sv) div 8, S)"
  using assms by (auto simp: sv_abs_def)

lemma new_size:
  assumes "\<exists>sv'. r = Inr sv' \<and> sv_ok sv' \<and> sv_tight sv' \<and> sv_size sv' = n \<and> selected sv' = S"
  shows "\<exists>sv'. r = Inr sv' \<and> sv_ok sv' \<and> sv_abs sv' = (n, words_for n, S)"
  using assms by (auto simp: sv_abs_def sv_tight_words)

lemma nulls_cover: "sv_ok sv \<Longrightarrow> bits_ok nulls (min (sv_size sv) e) \<Longrightarrow> bits_ok nulls (min (sv_end sv) e)"
  using sv_bounds(3) [of sv] by (auto intro: bits_ok_le)

lemma setFromBits_words:
  assumes "sv_ok sv" "rows_fit n" "8 * words_for n \<le> length bits"
  shows "\<exists>sv'. setFromBits sv bits n = Inr sv' \<and> sv_ok sv' \<and>
    sv_abs sv' = (n, max (length (sv_bits sv) div 8) (words_for n), {p. int p < n \<and> mem_bit bits p})"
proof -
  have l: "8 dvd length (sv_bits sv)" "0 \<le> n" "n + 64 \<le> INT32_MAX"
    using assms(1,2) by (auto simp: sv_ok_def sv_shape_def bits_ok_def rows_fit_def)
  have "8 * ((n + 63) div 64) \<le> int (length bits)" using assms(3) by (simp add: words_for_def)
  from setFromBits_spec [OF l(2,3,1) this] obtain sv' where
    s: "setFromBits sv bits n = Inr sv'" "sv_ok sv'" "sv_size sv' = n"
    "length (sv_bits sv') = max (length (sv_bits sv)) (8 * nat ((n + 63) div 64))" "selected sv' = {p. int p < n \<and> mem_bit bits p}" by blast
  moreover have "length (sv_bits sv') div 8 = max (length (sv_bits sv) div 8) (words_for n)"
    using s(4) l(1) by (auto simp: words_for_def max_def)
  ultimately show ?thesis by (auto simp: sv_abs_def)
qed

lemma select_words:
  assumes "sv_ok sv" "sv_shape other" "sv_size sv < sv_size other \<longrightarrow> length (sv_bits sv) div 8 = words_for (sv_size sv)"
  shows "\<exists>sv'. select sv other = Inr sv' \<and> sv_ok sv' \<and> sv_abs sv' = set_step (Select other) (sv_abs sv)"
proof -
  have "sv_size sv < sv_size other \<longrightarrow> sv_tight sv" using assms(3) sv_tight_words [OF assms(1)] by blast
  from select_spec [OF assms(1) this assms(2)] obtain sv' where
    s: "select sv other = Inr sv'" "sv_ok sv'" "sv_size sv' = max (sv_size sv) (sv_size other)"
    "int (length (sv_bits sv')) = (if sv_size sv < sv_size other then 8 * ((sv_size other + 63) div 64) else int (length (sv_bits sv)))"
    "selected sv' = selected sv \<union> selected other" by blast
  have "length (sv_bits sv') div 8 = (if sv_size sv < sv_size other then words_for (sv_size other) else length (sv_bits sv) div 8)"
    using s(4) by (auto simp: words_for_def split: if_splits)
  then show ?thesis using s by (auto simp: sv_abs_def)
qed

lemma translate_enabled:
  assumes "sv_ok sv" "sv_enabled (TranslateFrom outer indices nulls) (sv_abs sv)"
  shows "\<exists>sv'. translateToInnerRows outer indices nulls sv = Inr sv' \<and> sv_ok sv' \<and>
    sv_abs sv' = set_step (TranslateFrom outer indices nulls) (sv_abs sv)"
proof -
  have "\<exists>sv'. translateToInnerRows outer indices nulls sv = Inr sv' \<and> sv_ok sv' \<and> sv_size sv' = sv_size sv \<and>
      length (sv_bits sv') = length (sv_bits sv) \<and>
      selected sv' = selected sv \<union> {nat (indices ! p) |p. p \<in> selected outer \<and> \<not> null_bit nulls p}"
    using assms by (intro translateToInnerRows_spec) (auto simp: sv_ok_def sv_abs_def)
  from same_size [OF this] show ?thesis by (simp add: sv_abs_def)
qed

lemma sv_step_refines:
  assumes "sv_ok sv" "sv_enabled op (sv_abs sv)"
  shows "\<exists>sv'. sv_step op sv = Inr sv' \<and> sv_ok sv' \<and> sv_abs sv' = set_step op (sv_abs sv)"
proof -
  have ok: "sv_ok sv" "sv_shape sv" using assms(1) by (auto simp: sv_ok_def)
  note step = same_size [of _ sv]
  show ?thesis
  proof (cases op)
    case (Resize n v)
    then show ?thesis using new_size [OF resize_spec [OF ok(2)], of n v] sv_tight_words [OF ok(1)] assms(2)
      by (simp add: sv_abs_def rows_fit_def)
  next
    case (ResizeFill n v)
    then show ?thesis using new_size [OF resizeFill_spec, of n sv v] assms(2) by (simp add: sv_abs_def rows_fit_def)
  next
    case (SetValid i v)
    then show ?thesis using step [OF with_bounds [OF setValid_spec [OF ok(2), of i v]]] assms(2) by (simp add: sv_abs_def)
  next
    case (SetValidRange b e v)
    then show ?thesis using step [OF with_bounds [OF setValidRange_spec [OF ok(2), of b e v]]] assms(2) by (simp add: sv_abs_def)
  next
    case ClearAll
    then show ?thesis using step [OF clearAll_spec [OF ok(2)]] by (simp add: sv_abs_def)
  next
    case SetAll
    then show ?thesis using step [OF setAll_spec [OF ok(2)]] by (simp add: sv_abs_def)
  next
    case (SetFromBits bits n)
    then show ?thesis using setFromBits_words [OF assms(1)] assms(2) by (simp add: sv_abs_def)
  next
    case (Intersect other)
    then show ?thesis using step [OF intersect_spec [OF ok(1)], of other] assms(2) by (simp add: sv_abs_def)
  next
    case (Deselect other)
    then show ?thesis using step [OF deselect_spec [OF ok(1)], of other] assms(2) by (simp add: sv_abs_def)
  next
    case (DeselectNulls nulls b e)
    then show ?thesis using step [OF deselectNulls_spec [OF ok(1) nulls_cover [OF ok(1)]], of nulls e b] assms(2) by (simp add: sv_abs_def)
  next
    case (DeselectNonNulls nulls b e)
    then show ?thesis using step [OF deselectNonNulls_spec [OF ok(1) nulls_cover [OF ok(1)]], of nulls e b] assms(2) by (simp add: sv_abs_def)
  next
    case (Select other)
    then show ?thesis using select_words [OF ok(1), of other] assms(2) by (simp add: sv_abs_def)
  next
    case (TranslateFrom outer indices nulls)
    then show ?thesis using translate_enabled [OF assms(1)] assms(2) by simp
  qed
qed

interpretation row_set: step_refinement sv_step set_step sv_enabled sv_ok sv_abs
  by unfold_locales (rule sv_step_refines)

end
