(* ===== verification/Bit_Copy.thy ===== *)
theory Bit_Copy
  imports Bit_Util_Updates
begin

text \<open>
  The functions of \<open>velox/common/base/BitUtil.h\<close> and \<open>BitUtil.cpp\<close> that move bits between positions that are not
  aligned to words: \<open>loadBits\<close> and \<open>storeBits\<close> at the four widths, \<open>copyBits\<close> between two arrays,
  \<open>copyBitsBackward\<close> inside one array with overlapping ranges, \<open>negate\<close>, \<open>reverseBits\<close> and \<open>scatterBitsSimple\<close>. A
  width is the number \<open>n\<close> of bytes of the type \<open>T\<close>.
\<close>

unbundle bit_operations_syntax

section \<open>Bits at any position\<close>

definition loadBits :: "nat \<Rightarrow> byte list \<Rightarrow> nat \<Rightarrow> nat \<Rightarrow> 64 word res" where
  "loadBits n source bitOffset numBits =
     rbind (load n source (bitOffset div 8)) (\<lambda>word.
       let bit = bitOffset mod 8
       in if bit = 0 then Inr word
          else if numBits + bit \<le> 8 * n then Inr (drop_bit bit word)
          else rbind (load 1 source (bitOffset div 8 + n)) (\<lambda>lastByte.
            Inr (take_bit (8 * n) (drop_bit bit word OR push_bit (8 * n - bit) lastByte))))"

definition storeBits :: "nat \<Rightarrow> byte list \<Rightarrow> nat \<Rightarrow> 64 word \<Rightarrow> nat \<Rightarrow> byte list res" where
  "storeBits n target offset word numBits =
     (let address = offset div 8; bitOffset = offset mod 8;
          m = push_bit bitOffset (if numBits = 64 then - 1 else push_bit numBits 1 - 1)
      in rbind (load n target address) (\<lambda>old.
         rbind (store_bytes n target address ((old AND NOT m) OR (m AND push_bit bitOffset word))) (\<lambda>target'.
           if numBits + bitOffset > 8 * n then
             let lastByteMask = push_bit (bitOffset + numBits - 8 * n) 1 - 1
             in rbind (load 1 target' (address + n)) (\<lambda>lastByte.
                  store_bytes 1 target' (address + n)
                    ((lastByte AND NOT lastByteMask) OR (lastByteMask AND drop_bit (8 * n - bitOffset) word)))
           else Inr target')))"

definition moveBits :: "nat \<Rightarrow> byte list \<Rightarrow> nat \<Rightarrow> byte list \<Rightarrow> nat \<Rightarrow> nat \<Rightarrow> byte list res" where
  "moveBits n source sourceOffset target targetOffset numBits =
     rbind (loadBits n source sourceOffset numBits) (\<lambda>word. storeBits n target targetOffset word numBits)"

section \<open>Copying between arrays\<close>

function copy_words :: "byte list \<Rightarrow> nat \<Rightarrow> nat \<Rightarrow> nat \<Rightarrow> nat \<Rightarrow> byte list \<Rightarrow> (nat \<times> byte list) res" where
  "copy_words source sourceOffset targetOffset numBits i target =
     (if i + 64 \<le> numBits then
        rbind (moveBits 8 source (i + sourceOffset) target (targetOffset + i) 64)
          (copy_words source sourceOffset targetOffset numBits (i + 64))
      else Inr (i, target))"
  by pat_completeness auto
termination by (relation "measure (\<lambda>(_, _, _, numBits, i, _). numBits - i)") auto

function copy_bytes :: "byte list \<Rightarrow> nat \<Rightarrow> nat \<Rightarrow> nat \<Rightarrow> nat \<Rightarrow> byte list \<Rightarrow> byte list res" where
  "copy_bytes source sourceOffset targetOffset numBits i target =
     (if i < numBits then
        rbind (moveBits 1 source (sourceOffset + i) target (targetOffset + i) (min (numBits - i) 8))
          (copy_bytes source sourceOffset targetOffset numBits (i + 8))
      else Inr target)"
  by pat_completeness auto
termination by (relation "measure (\<lambda>(_, _, _, numBits, i, _). numBits - i)") auto

declare copy_words.simps [simp del] copy_bytes.simps [simp del]

definition copyBits :: "byte list \<Rightarrow> nat \<Rightarrow> byte list \<Rightarrow> nat \<Rightarrow> nat \<Rightarrow> byte list res" where
  "copyBits source sourceOffset target targetOffset numBits =
     rbind (copy_words source sourceOffset targetOffset numBits 0 target) (\<lambda>(i, target).
     rbind (if i + 32 \<le> numBits then
              rbind (moveBits 4 source (sourceOffset + i) target (targetOffset + i) 32) (\<lambda>target. Inr (i + 32, target))
            else Inr (i, target)) (\<lambda>(i, target).
     rbind (if i + 16 \<le> numBits then
              rbind (moveBits 2 source (sourceOffset + i) target (targetOffset + i) 16) (\<lambda>target. Inr (i + 16, target))
            else Inr (i, target)) (\<lambda>(i, target).
     copy_bytes source sourceOffset targetOffset numBits i target)))"

section \<open>Copying inside an array\<close>

text \<open>\<open>copyBitsBackwardImpl\<close> returns the number of bits that remain.\<close>

function copyBitsBackwardImpl :: "nat \<Rightarrow> nat \<Rightarrow> nat \<Rightarrow> nat \<times> byte list \<Rightarrow> (nat \<times> byte list) res" where
  "copyBitsBackwardImpl n sourceOffset targetOffset (remaining, bits) =
     (if 0 < n \<and> 8 * n \<le> remaining then
        rbind (moveBits n bits (sourceOffset + remaining - 8 * n) bits (targetOffset + remaining - 8 * n) (8 * n))
          (\<lambda>bits'. copyBitsBackwardImpl n sourceOffset targetOffset (remaining - 8 * n, bits'))
      else Inr (remaining, bits))"
  by pat_completeness auto
termination by (relation "measure (\<lambda>(_, _, _, remaining, _). remaining)") auto

declare copyBitsBackwardImpl.simps [simp del]

definition copyBitsBackward :: "byte list \<Rightarrow> nat \<Rightarrow> nat \<Rightarrow> nat \<Rightarrow> byte list res" where
  "copyBitsBackward bits sourceOffset targetOffset numBits =
     rbind (copyBitsBackwardImpl 8 sourceOffset targetOffset (numBits, bits)) (\<lambda>s.
     rbind (copyBitsBackwardImpl 4 sourceOffset targetOffset s) (\<lambda>s.
     rbind (copyBitsBackwardImpl 2 sourceOffset targetOffset s) (\<lambda>s.
     rbind (copyBitsBackwardImpl 1 sourceOffset targetOffset s) (\<lambda>(remaining, bits).
       if remaining > 0 then moveBits 1 bits sourceOffset bits targetOffset remaining
       else Inr bits))))"

section \<open>Other operations\<close>

text \<open>The loops of \<open>negate\<close> over words and bytes, and over the bits that are left.\<close>

function negate_units :: "nat \<Rightarrow> int \<Rightarrow> int \<Rightarrow> byte list \<Rightarrow> (int \<times> byte list) res" where
  "negate_units n count i bits =
     rbind (i32_res (i + 8 * int n)) (\<lambda>j.
       if 0 < n \<and> j \<le> count then
         rbind (load n bits (nat (i div 8))) (\<lambda>w.
         rbind (store_bytes n bits (nat (i div 8)) (NOT w)) (\<lambda>bits'. negate_units n count j bits'))
       else Inr (i, bits))"
  by pat_completeness auto
termination
  by (relation "measure (\<lambda>(_, count, i, _). nat (count - i))") (auto simp: i32_res_def split: if_splits)

function negate_bits :: "int \<Rightarrow> int \<Rightarrow> byte list \<Rightarrow> byte list res" where
  "negate_bits count i bits =
     (if i < count then
        rbind (isBitSet 1 bits i) (\<lambda>b. rbind (setBit_to bits (nat i) (\<not> b)) (negate_bits count (i + 1)))
      else Inr bits)"
  by pat_completeness auto
termination by (relation "measure (\<lambda>(count, i, _). nat (count - i))") auto

declare negate_units.simps [simp del] negate_bits.simps [simp del]

definition negate_array :: "byte list \<Rightarrow> int \<Rightarrow> byte list res" where
  "negate_array bits count =
     rbind (negate_units 8 count 0 bits) (\<lambda>(i, bits).
     rbind (negate_units 1 count i bits) (\<lambda>(i, bits). negate_bits count i bits))"

definition reverse_byte :: "byte \<Rightarrow> byte" where
  "reverse_byte b =
     push_bit 7 (b AND 0x01) OR push_bit 5 (b AND 0x02) OR push_bit 3 (b AND 0x04) OR push_bit 1 (b AND 0x08) OR
     drop_bit 1 (b AND 0x10) OR drop_bit 3 (b AND 0x20) OR drop_bit 5 (b AND 0x40) OR drop_bit 7 (b AND 0x80)"

definition reverseBits :: "byte list \<Rightarrow> int \<Rightarrow> byte list res" where
  "reverseBits bytes numBytes =
     (if nat numBytes \<le> length bytes then Inr (map reverse_byte (take (nat numBytes) bytes) @ drop (nat numBytes) bytes)
      else Inl OutOfRange)"

text \<open>
  The loop of \<open>scatterBitsSimple\<close>, from the last position of the target down; \<^const>\<open>None\<close> for \<open>source\<close> stands for the
  calls in which the source is the target itself.
\<close>

fun scatter_loop :: "byte list option \<Rightarrow> byte list \<Rightarrow> nat \<Rightarrow> int \<Rightarrow> byte list \<Rightarrow> byte list res" where
  "scatter_loop source targetMask 0 from' target = Inr target"
| "scatter_loop source targetMask (Suc to) from' target =
     rbind (isBitSet 8 targetMask (int to)) (\<lambda>maskIsSet.
     rbind (if maskIsSet then isBitSet 1 (case source of None \<Rightarrow> target | Some s \<Rightarrow> s) from' else Inr False) (\<lambda>b.
     rbind (setBit_to target to b)
       (scatter_loop source targetMask to (if maskIsSet then from' - 1 else from'))))"

definition scatterBitsSimple :: "int \<Rightarrow> int \<Rightarrow> byte list option \<Rightarrow> byte list \<Rightarrow> byte list \<Rightarrow> byte list res" where
  "scatterBitsSimple numSource numTarget source targetMask target =
     scatter_loop source targetMask (nat numTarget) (numSource - 1) target"

end
