(* ===== verification/Bit_Copy_Correct.thy ===== *)
theory Bit_Copy_Correct
  imports Bit_Copy
begin

text \<open>
  What the copying functions change: \<open>loadBits\<close> and \<open>storeBits\<close> move exactly their bits at any offset, \<open>copyBits\<close> and
  \<open>copyBitsBackward\<close> exactly the bits of the range, the latter also when the ranges overlap; \<open>negate\<close>, \<open>reverseBits\<close>
  and \<open>scatterBitsSimple\<close>.
\<close>

unbundle bit_operations_syntax

section \<open>Bits at any position\<close>

text \<open>A width and a number of bits that needs all bytes of that width.\<close>

definition width_ok :: "nat \<Rightarrow> nat \<Rightarrow> bool" where
  "width_ok n numBits \<longleftrightarrow> 0 < n \<and> n \<le> 8 \<and> 8 * (n - 1) < numBits \<and> numBits \<le> 8 * n"

lemma width_inside:
  assumes "width_ok n numBits" "offset + numBits \<le> 8 * len"
  shows "offset div 8 + n \<le> len" "numBits + offset mod 8 > 8 * n \<Longrightarrow> offset div 8 + n + 1 \<le> len"
proof -
  have o: "8 * (offset div 8) + offset mod 8 = offset" by simp
  have "8 * (offset div 8 + (n - 1)) < 8 * len"
    using assms o unfolding width_ok_def distrib_left by linarith
  then show "offset div 8 + n \<le> len" using assms(1) by (simp add: width_ok_def)
  assume "numBits + offset mod 8 > 8 * n"
  then have "8 * (offset div 8 + n) < 8 * len" using assms(2) o unfolding distrib_left by linarith
  then show "offset div 8 + n + 1 \<le> len" by simp
qed

lemma loadBits_spec:
  assumes "width_ok n numBits" "offset + numBits \<le> 8 * length source"
  obtains w where "loadBits n source offset numBits = Inr w" "\<And>k. k < numBits \<Longrightarrow> bit w k = mem_bit source (offset + k)"
proof -
  note inside = width_inside [OF assms]
  let ?a = "offset div 8" and ?b = "offset mod 8"
  have n: "n \<le> 8" "numBits \<le> 8 * n" "0 < n" using assms(1) by (auto simp: width_ok_def)
  have o: "8 * ?a + ?b = offset" "?b < 8" by simp_all
  obtain word where w: "load n source ?a = Inr word" using inside(1) by simp
  note bits = bit_load [OF w n(1)]
  consider "?b = 0" | "?b \<noteq> 0" "numBits + ?b \<le> 8 * n" | "?b \<noteq> 0" "numBits + ?b > 8 * n" by linarith
  then show ?thesis
  proof cases
    case 1
    then show ?thesis using that [of word] w bits n o(1) by (simp add: loadBits_def)
  next
    case 2
    have "bit (drop_bit ?b word) k = mem_bit source (offset + k)" if "k < numBits" for k
      using that 2 bits [of "?b + k"] o(1) by (simp add: bit_drop_bit_eq flip: add.assoc)
    then show ?thesis using that [of "drop_bit ?b word"] w 2 by (simp add: loadBits_def)
  next
    case 3
    obtain last where l: "load 1 source (?a + n) = Inr last" using inside(2) 3 by simp
    note lbits = bit_load [OF l]
    let ?w = "take_bit (8 * n) (drop_bit ?b word OR push_bit (8 * n - ?b) last)"
    have "bit ?w k = mem_bit source (offset + k)" if k: "k < numBits" for k
    proof (cases "?b + k < 8 * n")
      case True
      then have "\<not> 8 * n - ?b \<le> k" by linarith
      then show ?thesis using True k n bits [of "?b + k"] o(1) by (simp add: bit_simps flip: add.assoc)
    next
      case False
      have e: "8 * (?a + n) + (k - (8 * n - ?b)) = offset + k" using False n(2,3) k o unfolding distrib_left by linarith
      have "k - (8 * n - ?b) < 8" "8 * n - ?b \<le> k" using False n(2) k o by linarith+
      then have "bit last (k - (8 * n - ?b)) = mem_bit source (offset + k)" "8 * n - ?b \<le> k"
        using lbits [of "k - (8 * n - ?b)", unfolded e] by simp_all
      moreover have "\<not> bit word (?b + k)" using bits [of "?b + k"] False by simp
      ultimately show ?thesis using k n by (simp add: bit_simps del: diff_diff_right)
    qed
    then show ?thesis using that [of ?w] w l 3 by (simp add: loadBits_def Let_def)
  qed
qed

lemma bit_ones: "bit (2 ^ k - 1 :: 64 word) i \<longleftrightarrow> i < 64 \<and> i < k"
  using bit_mask_64 [of k i] by (simp add: mask_eq_decr_exp)

lemma storeBits_spec:
  assumes "width_ok n numBits" "offset + numBits \<le> 8 * length target"
  shows "\<exists>target'. storeBits n target offset word numBits = Inr target' \<and>
    bits_updated target (\<lambda>p. offset \<le> p \<and> p < offset + numBits) (\<lambda>p _. bit word (p - offset)) target'"
proof -
  note inside = width_inside [OF assms]
  let ?a = "offset div 8" and ?b = "offset mod 8"
  have n: "n \<le> 8" "numBits \<le> 8 * n" "numBits \<le> 64" "0 < n" using assms(1) by (auto simp: width_ok_def)
  have o: "8 * ?a + ?b = offset" "?b < 8" by simp_all
  define m :: "64 word" where "m = push_bit ?b (if numBits = 64 then - 1 else push_bit numBits 1 - 1)"
  have m: "bit m i \<longleftrightarrow> i < 64 \<and> ?b \<le> i \<and> i < ?b + numBits" for i
    using n(3) by (auto simp: m_def bit_push_bit_iff bit_ones)
  obtain old where old: "load n target ?a = Inr old" using inside(1) by simp
  note obits = bit_load [OF old n(1)]
  let ?new = "(old AND NOT m) OR (m AND push_bit ?b word)"
  have new: "bit ?new i = (if ?b \<le> i \<and> i < ?b + numBits then bit word (i - ?b) else mem_bit target (8 * ?a + i))" if "i < 8 * n" for i
    using that n(1) obits [of i] m [of i] by (auto simp: bit_simps)
  obtain t1 where t1: "store_bytes n target ?a ?new = Inr t1" using store_Inr [OF inside(1)] by blast
  have l1: "length t1 = length target" by (rule store_length [OF t1])
  have b1: "mem_bit t1 p = (if offset \<le> p \<and> p < offset + numBits \<and> p < 8 * (?a + n) then bit word (p - offset) else mem_bit target p)" for p
  proof (cases "8 * ?a \<le> p \<and> p < 8 * (?a + n)")
    case True
    then obtain i where i: "p = 8 * ?a + i" "i < 8 * n" by (metis add_less_cancel_left distrib_left le_Suc_ex)
    then have "offset \<le> p \<longleftrightarrow> ?b \<le> i" "p < offset + numBits \<longleftrightarrow> i < ?b + numBits" "p - offset = i - ?b" using o(1) by linarith+
    then show ?thesis using mem_bit_store [OF t1, of p] new [OF i(2)] True i(1) by simp
  next
    case False
    then show ?thesis using mem_bit_store [OF t1, of p] o(1) by auto
  qed
  show ?thesis
  proof (cases "numBits + ?b > 8 * n")
    case False
    then have "p < 8 * (?a + n)" if "p < offset + numBits" for p using that o(1) unfolding distrib_left by linarith
    then have "bits_updated target (\<lambda>p. offset \<le> p \<and> p < offset + numBits) (\<lambda>p _. bit word (p - offset)) t1"
      using b1 l1 by (auto simp: bits_updated_def)
    moreover have "storeBits n target offset word numBits = Inr t1"
      using False old t1 by (simp add: storeBits_def Let_def m_def [symmetric])
    ultimately show ?thesis by blast
  next
    case True
    have in1: "?a + n + 1 \<le> length t1" using inside(2) [OF True] l1 by simp
    obtain last where l: "load 1 t1 (?a + n) = Inr last" using in1 by simp
    note lbits = bit_load [OF l, simplified]
    let ?lm = "push_bit (?b + numBits - 8 * n) 1 - 1 :: 64 word"
    let ?lnew = "(last AND NOT ?lm) OR (?lm AND drop_bit (8 * n - ?b) word)"
    obtain t2 where t2: "store_bytes 1 t1 (?a + n) ?lnew = Inr t2" using store_Inr [OF in1] by blast
    have b2: "mem_bit t2 p = (if offset \<le> p \<and> p < offset + numBits then bit word (p - offset) else mem_bit target p)" for p
    proof (cases "8 * (?a + n) \<le> p \<and> p < 8 * (?a + n) + 8")
      case inside: True
      then obtain i where i: "p = 8 * (?a + n) + i" "i < 8" by (metis add_less_cancel_left le_Suc_ex)
      have e: "p < offset + numBits \<longleftrightarrow> i < ?b + numBits - 8 * n" "offset \<le> p" "8 * n - ?b + i = p - offset"
        using i o True n unfolding distrib_left by linarith+
      have "mem_bit t2 p = bit ?lnew i" using mem_bit_store [OF t2, of p] inside i(1) by simp
      also have "\<dots> = (if i < ?b + numBits - 8 * n then bit word (p - offset) else mem_bit target p)"
        using i lbits [of i] b1 [of p] e by (auto simp: bit_simps bit_ones)
      finally show ?thesis using e by simp
    next
      case False
      have "mem_bit t2 p = mem_bit t1 p" using mem_bit_store [OF t2, of p] False by auto
      moreover have "p < 8 * (?a + n)" if "p < offset + numBits"
        using False that o n unfolding distrib_left by linarith
      ultimately show ?thesis using b1 [of p] by auto
    qed
    have "storeBits n target offset word numBits = Inr t2"
      using True old t1 l t2 by (simp add: storeBits_def Let_def m_def [symmetric])
    moreover have "bits_updated target (\<lambda>p. offset \<le> p \<and> p < offset + numBits) (\<lambda>p _. bit word (p - offset)) t2"
      using b2 l1 store_length [OF t2] by (simp add: bits_updated_def)
    ultimately show ?thesis by blast
  qed
qed

lemma moveBits_spec:
  assumes "width_ok n numBits" "sourceOffset + numBits \<le> 8 * length source" "targetOffset + numBits \<le> 8 * length target"
  shows "\<exists>target'. moveBits n source sourceOffset target targetOffset numBits = Inr target' \<and>
    bits_updated target (\<lambda>p. targetOffset \<le> p \<and> p < targetOffset + numBits)
      (\<lambda>p _. mem_bit source (sourceOffset + (p - targetOffset))) target'"
proof -
  from loadBits_spec [OF assms(1,2)] obtain w where
    w: "loadBits n source sourceOffset numBits = Inr w" "\<And>k. k < numBits \<Longrightarrow> bit w k = mem_bit source (sourceOffset + k)" by blast
  from storeBits_spec [OF assms(1,3), of w] obtain target' where
    "storeBits n target targetOffset w numBits = Inr target'"
    "bits_updated target (\<lambda>p. targetOffset \<le> p \<and> p < targetOffset + numBits) (\<lambda>p _. bit w (p - targetOffset)) target'" by blast
  then show ?thesis using w by (auto simp: moveBits_def bits_updated_def)
qed

section \<open>Copying between arrays\<close>

text \<open>The first \<open>i\<close> bits have been copied.\<close>

definition copied :: "byte list \<Rightarrow> nat \<Rightarrow> nat \<Rightarrow> byte list \<Rightarrow> nat \<Rightarrow> byte list \<Rightarrow> bool" where
  "copied source sourceOffset targetOffset target i target' \<longleftrightarrow>
     bits_updated target (\<lambda>p. targetOffset \<le> p \<and> p < targetOffset + i)
       (\<lambda>p _. mem_bit source (sourceOffset + (p - targetOffset))) target'"

lemma copied_0: "copied source so to target 0 target' \<longleftrightarrow> length target' = length target \<and> (\<forall>p. mem_bit target' p = mem_bit target p)"
  by (auto simp: copied_def bits_updated_def)

lemma copied_step:
  assumes "copied source so to target i t" "i + k \<le> numBits" "width_ok n k"
    "so + numBits \<le> 8 * length source" "to + numBits \<le> 8 * length target"
  shows "\<exists>t'. moveBits n source (so + i) t (to + i) k = Inr t' \<and> copied source so to target (i + k) t'"
proof -
  have l: "length t = length target" using assms(1) by (simp add: copied_def bits_updated_def)
  have "so + i + k \<le> 8 * length source" "to + i + k \<le> 8 * length t" using assms(2,4,5) l by linarith+
  from moveBits_spec [OF assms(3) this] obtain t' where
    t: "moveBits n source (so + i) t (to + i) k = Inr t'"
    "bits_updated t (\<lambda>p. to + i \<le> p \<and> p < to + i + k) (\<lambda>p _. mem_bit source (so + i + (p - (to + i)))) t'" by blast
  have "copied source so to target (i + k) t'"
    using t(2) assms(1) by (auto simp: copied_def bits_updated_def add.assoc)
  then show ?thesis using t(1) by blast
qed

lemma copy_words_spec:
  assumes "copied source so to target i t" "i \<le> numBits" "so + numBits \<le> 8 * length source" "to + numBits \<le> 8 * length target"
  shows "\<exists>i' t'. copy_words source so to numBits i t = Inr (i', t') \<and> copied source so to target i' t' \<and> i' \<le> numBits \<and> numBits < i' + 64"
  using assms
proof (induction "numBits - i" arbitrary: i t rule: less_induct)
  case less
  show ?case
  proof (cases "i + 64 \<le> numBits")
    case True
    from copied_step [OF less.prems(1) True _ less.prems(3,4), of 8] obtain t' where
      t: "moveBits 8 source (so + i) t (to + i) 64 = Inr t'" "copied source so to target (i + 64) t'"
      by (auto simp: width_ok_def)
    have "copy_words source so to numBits i t = copy_words source so to numBits (i + 64) t'"
      using True t(1) by (subst copy_words.simps) (simp add: add.commute)
    then show ?thesis using less.hyps [of "i + 64" t'] t(2) True less.prems(3,4) by simp
  next
    case False
    then show ?thesis using less.prems by (subst copy_words.simps) auto
  qed
qed

lemma copy_bytes_spec:
  assumes "copied source so to target i t" "i \<le> numBits" "so + numBits \<le> 8 * length source" "to + numBits \<le> 8 * length target"
  shows "\<exists>t'. copy_bytes source so to numBits i t = Inr t' \<and> copied source so to target numBits t'"
  using assms
proof (induction "numBits - i" arbitrary: i t rule: less_induct)
  case less
  show ?case
  proof (cases "i < numBits")
    case True
    let ?k = "min (numBits - i) 8"
    have "i + ?k \<le> numBits" "width_ok 1 ?k" using True by (auto simp: width_ok_def)
    from copied_step [OF less.prems(1) this less.prems(3,4)] obtain t' where
      t: "moveBits 1 source (so + i) t (to + i) ?k = Inr t'" "copied source so to target (i + ?k) t'"
      by blast
    have eq: "copy_bytes source so to numBits i t = copy_bytes source so to numBits (i + 8) t'"
      using True t(1) by (subst copy_bytes.simps) simp
    show ?thesis
    proof (cases "i + 8 \<le> numBits")
      case more: True
      then have "?k = 8" by simp
      then show ?thesis using less.hyps [of "i + 8" t'] more eq t(2) less.prems(3,4) by simp
    next
      case False
      then have "i + ?k = numBits" "\<not> i + 8 < numBits" using True by (simp_all add: min_def)
      moreover from this have "copy_bytes source so to numBits (i + 8) t' = Inr t'" by (subst copy_bytes.simps) simp
      ultimately show ?thesis using eq t(2) by simp
    qed
  next
    case False
    then show ?thesis using less.prems by (subst copy_bytes.simps) auto
  qed
qed

lemma copy_tail:
  assumes "copied source so to target i t" "i \<le> numBits" "width_ok n k"
    "so + numBits \<le> 8 * length source" "to + numBits \<le> 8 * length target"
  shows "\<exists>i' t'. (if i + k \<le> numBits then rbind (moveBits n source (so + i) t (to + i) (k)) (\<lambda>t. Inr (i + k, t)) else Inr (i, t)) =
    Inr (i', t') \<and> copied source so to target i' t' \<and> i' \<le> numBits"
proof (cases "i + k \<le> numBits")
  case True
  then show ?thesis using copied_step [OF assms(1) True assms(3-5)] by auto
next
  case False
  then show ?thesis using assms(1,2) by simp
qed

lemma copyBits_spec:
  assumes "so + numBits \<le> 8 * length source" "to + numBits \<le> 8 * length target"
  shows "\<exists>target'. copyBits source so target to numBits = Inr target' \<and> copied source so to target numBits target'"
proof -
  have "copied source so to target 0 target" by (simp add: copied_0)
  from copy_words_spec [OF this _ assms] obtain i1 t1 where
    1: "copy_words source so to numBits 0 target = Inr (i1, t1)" "copied source so to target i1 t1" "i1 \<le> numBits" by auto
  from copy_tail [OF 1(2,3) _ assms, of 4 32] obtain i2 t2 where
    2: "(if i1 + 32 \<le> numBits then rbind (moveBits 4 source (so + i1) t1 (to + i1) 32) (\<lambda>t. Inr (i1 + 32, t)) else Inr (i1, t1)) = Inr (i2, t2)"
    "copied source so to target i2 t2" "i2 \<le> numBits" by (auto simp: width_ok_def)
  from copy_tail [OF 2(2,3) _ assms, of 2 16] obtain i3 t3 where
    3: "(if i2 + 16 \<le> numBits then rbind (moveBits 2 source (so + i2) t2 (to + i2) 16) (\<lambda>t. Inr (i2 + 16, t)) else Inr (i2, t2)) = Inr (i3, t3)"
    "copied source so to target i3 t3" "i3 \<le> numBits" by (auto simp: width_ok_def)
  show ?thesis using copy_bytes_spec [OF 3(2,3) assms] 1(1) 2(1) 3(1) by (simp add: copyBits_def)
qed

section \<open>Copying inside an array\<close>

text \<open>All but the first \<open>r\<close> bits have been copied; the source bits that are left are still the original ones.\<close>

definition copied_back :: "nat \<Rightarrow> nat \<Rightarrow> nat \<Rightarrow> byte list \<Rightarrow> nat \<Rightarrow> byte list \<Rightarrow> bool" where
  "copied_back so to numBits bits r bits' \<longleftrightarrow> r \<le> numBits \<and>
     bits_updated bits (\<lambda>p. to + r \<le> p \<and> p < to + numBits) (\<lambda>p _. mem_bit bits (so + (p - to))) bits'"

lemma copied_back_step:
  assumes "copied_back so to numBits bits r t" "k \<le> r" "width_ok n k" "so \<le> to" "to + numBits \<le> 8 * length bits"
  shows "\<exists>t'. moveBits n t (so + r - k) t (to + r - k) k = Inr t' \<and> copied_back so to numBits bits (r - k) t'"
proof -
  have l: "length t = length bits" "r \<le> numBits" using assms(1) by (auto simp: copied_back_def bits_updated_def)
  have e: "so + r - k = so + (r - k)" "to + r - k = to + (r - k)" using assms(2) by simp_all
  have "so + (r - k) + k \<le> 8 * length t" "to + (r - k) + k \<le> 8 * length t" using assms(2,4,5) l by linarith+
  from moveBits_spec [OF assms(3) this] obtain t' where
    t: "moveBits n t (so + (r - k)) t (to + (r - k)) k = Inr t'"
    "bits_updated t (\<lambda>p. to + (r - k) \<le> p \<and> p < to + (r - k) + k) (\<lambda>p _. mem_bit t (so + (r - k) + (p - (to + (r - k))))) t'" by blast
  have old: "mem_bit t (so + (r - k) + (p - (to + (r - k)))) = mem_bit bits (so + (p - to))"
    if "to + (r - k) \<le> p" "p < to + (r - k) + k" for p
  proof -
    have e: "so + (r - k) + (p - (to + (r - k))) = so + (p - to)" using that(1) by linarith
    have "so + (p - to) < to + r" using that assms(2,4) by linarith
    then show ?thesis unfolding e using assms(1) by (simp add: copied_back_def bits_updated_def)
  qed
  have "bits_updated bits (\<lambda>p. to + (r - k) \<le> p \<and> p < to + numBits) (\<lambda>p _. mem_bit bits (so + (p - to))) t'"
    unfolding bits_updated_def
  proof (intro conjI allI)
    fix p
    have "mem_bit t' p = (if to + (r - k) \<le> p \<and> p < to + (r - k) + k then mem_bit bits (so + (p - to)) else mem_bit t p)"
      using t(2) old by (simp add: bits_updated_def)
    moreover have "mem_bit t p = (if to + r \<le> p \<and> p < to + numBits then mem_bit bits (so + (p - to)) else mem_bit bits p)"
      using assms(1) by (simp add: copied_back_def bits_updated_def)
    ultimately show "mem_bit t' p = (if to + (r - k) \<le> p \<and> p < to + numBits then mem_bit bits (so + (p - to)) else mem_bit bits p)"
      using assms(2) l(2) by auto
  qed (use t(2) l(1) in \<open>simp add: bits_updated_def\<close>)
  then show ?thesis using t(1) l(2) e by (auto simp: copied_back_def)
qed

lemma copyBitsBackwardImpl_spec:
  assumes "copied_back so to numBits bits r t" "width_ok n (8 * n)" "so \<le> to" "to + numBits \<le> 8 * length bits"
  shows "\<exists>r' t'. copyBitsBackwardImpl n so to (r, t) = Inr (r', t') \<and> copied_back so to numBits bits r' t' \<and> r' < 8 * n"
  using assms
proof (induction r arbitrary: t rule: less_induct)
  case (less r)
  have n: "0 < n" using less.prems(2) by (simp add: width_ok_def)
  show ?case
  proof (cases "8 * n \<le> r")
    case True
    from copied_back_step [OF less.prems(1) True less.prems(2-4)] obtain t' where
      t: "moveBits n t (so + r - 8 * n) t (to + r - 8 * n) (8 * n) = Inr t'" "copied_back so to numBits bits (r - 8 * n) t'" by blast
    have "copyBitsBackwardImpl n so to (r, t) = copyBitsBackwardImpl n so to (r - 8 * n, t')"
      using True n t(1) by (subst copyBitsBackwardImpl.simps) simp
    then show ?thesis using less.IH [OF _ t(2) less.prems(2-4)] True n by simp
  next
    case False
    then show ?thesis using less.prems(1) by (subst copyBitsBackwardImpl.simps) auto
  qed
qed

lemma copyBitsBackward_spec:
  assumes "so \<le> to" "to + numBits \<le> 8 * length bits"
  shows "\<exists>bits'. copyBitsBackward bits so to numBits = Inr bits' \<and>
    bits_updated bits (\<lambda>p. to \<le> p \<and> p < to + numBits) (\<lambda>p _. mem_bit bits (so + (p - to))) bits'"
proof -
  have w: "width_ok 8 (8 * 8)" "width_ok 4 (8 * 4)" "width_ok 2 (8 * 2)" "width_ok 1 (8 * 1)" by (auto simp: width_ok_def)
  note impl = copyBitsBackwardImpl_spec [OF _ _ assms]
  have 0: "copied_back so to numBits bits numBits bits" by (auto simp: copied_back_def bits_updated_def)
  from impl [OF 0 w(1)] obtain r1 t1 where 1: "copyBitsBackwardImpl 8 so to (numBits, bits) = Inr (r1, t1)" "copied_back so to numBits bits r1 t1" by blast
  from impl [OF 1(2) w(2)] obtain r2 t2 where 2: "copyBitsBackwardImpl 4 so to (r1, t1) = Inr (r2, t2)" "copied_back so to numBits bits r2 t2" by blast
  from impl [OF 2(2) w(3)] obtain r3 t3 where 3: "copyBitsBackwardImpl 2 so to (r2, t2) = Inr (r3, t3)" "copied_back so to numBits bits r3 t3" by blast
  from impl [OF 3(2) w(4)] obtain r4 t4 where
    4: "copyBitsBackwardImpl 1 so to (r3, t3) = Inr (r4, t4)" "copied_back so to numBits bits r4 t4" "r4 < 8" by auto
  show ?thesis
  proof (cases "r4 = 0")
    case True
    then show ?thesis using 1(1) 2(1) 3(1) 4(1,2) by (simp add: copyBitsBackward_def copied_back_def)
  next
    case False
    then have "width_ok 1 r4" using 4(3) by (simp add: width_ok_def)
    from copied_back_step [OF 4(2) le_refl this assms] obtain t5 where
      "moveBits 1 t4 so t4 to r4 = Inr t5" "copied_back so to numBits bits 0 t5" by auto
    then show ?thesis using 1(1) 2(1) 3(1) 4(1) False by (simp add: copyBitsBackward_def copied_back_def)
  qed
qed

section \<open>Negation\<close>

definition negated :: "byte list \<Rightarrow> int \<Rightarrow> byte list \<Rightarrow> bool" where
  "negated bits i bits' \<longleftrightarrow> bits_updated bits (\<lambda>p. int p < i) (\<lambda>_ x. \<not> x) bits'"

lemma negate_units_spec:
  assumes "negated bits i t" "8 dvd i" "0 \<le> i" "i \<le> count" "0 < n" "n \<le> 8" "count + 64 \<le> INT32_MAX" "count \<le> 8 * int (length bits)"
  shows "\<exists>i' t'. negate_units n count i t = Inr (i', t') \<and> negated bits i' t' \<and> 8 dvd i' \<and> 0 \<le> i' \<and> i' \<le> count"
  using assms
proof (induction "nat (count - i)" arbitrary: i t rule: less_induct)
  case less
  let ?j = "i + 8 * int n"
  have fits: "i32_res ?j = Inr ?j" using less.prems by (simp add: i32_res_def i32_def)
  show ?case
  proof (cases "?j \<le> count")
    case True
    obtain q where q: "i = 8 * q" using less.prems(2) by (auto elim: dvdE)
    define a where "a = nat q"
    have a: "i = 8 * int a" using q less.prems(3) by (simp add: a_def)
    have l: "length t = length bits" using less.prems(1) by (simp add: negated_def bits_updated_def)
    have in': "a + n \<le> length t" using True less.prems(8) a l by linarith
    obtain w where w: "load n t a = Inr w" using in' by simp
    obtain t' where t: "store_bytes n t a (NOT w) = Inr t'" using store_Inr [OF in'] by blast
    have step: "negate_units n count i t = negate_units n count ?j t'"
      using fits True less.prems(5) w t a by (subst negate_units.simps) simp
    have "mem_bit t' p = (if int p < ?j then \<not> mem_bit bits p else mem_bit bits p)" for p
    proof (cases "8 * a \<le> p \<and> p < 8 * (a + n)")
      case inside: True
      then obtain k where k: "p = 8 * a + k" "k < 8 * n" by (metis add_less_cancel_left distrib_left le_Suc_ex)
      have "mem_bit t' p = bit (NOT w) k" using mem_bit_store [OF t, of p] inside k by simp
      also have "\<dots> = (\<not> mem_bit t p)" using k less.prems(6) bit_load [OF w less.prems(6), of k] by (simp add: bit_not_iff)
      also have "mem_bit t p = mem_bit bits p" using less.prems(1) k a by (simp add: negated_def bits_updated_def)
      finally show ?thesis using inside a by simp
    next
      case False
      then have "mem_bit t' p = mem_bit t p" using mem_bit_store [OF t, of p] by auto
      then show ?thesis using False less.prems(1) a by (auto simp: negated_def bits_updated_def)
    qed
    then have "negated bits ?j t'" using store_length [OF t] l by (simp add: negated_def bits_updated_def)
    moreover have "8 dvd ?j" using less.prems(2) by simp
    ultimately show ?thesis using less.hyps [of ?j t'] step True less.prems by simp
  next
    case False
    then show ?thesis using less.prems fits by (subst negate_units.simps) auto
  qed
qed

lemma negate_bits_spec:
  assumes "negated bits i t" "0 \<le> i" "i \<le> count" "count \<le> 8 * int (length bits)"
  shows "\<exists>t'. negate_bits count i t = Inr t' \<and> negated bits count t'"
  using assms
proof (induction "nat (count - i)" arbitrary: i t rule: less_induct)
  case less
  show ?case
  proof (cases "i < count")
    case True
    have l: "length t = length bits" using less.prems(1) by (simp add: negated_def bits_updated_def)
    have b: "isBitSet 1 t i = Inr (mem_bit t (nat i))" using less.prems True l by (intro isBitSet_spec) auto
    have "nat i < 8 * length t" using less.prems True l by (simp add: nat_less_iff)
    from setBit_to_spec [OF this, of "\<not> mem_bit t (nat i)"] obtain t' where
      t: "setBit_to t (nat i) (\<not> mem_bit t (nat i)) = Inr t'" "bits_updated t (\<lambda>p. p = nat i) (\<lambda>_ _. \<not> mem_bit t (nat i)) t'" by blast
    have "negated bits (i + 1) t'"
      using t(2) less.prems(1,2) by (auto simp: negated_def bits_updated_def)
    moreover have "negate_bits count i t = negate_bits count (i + 1) t'"
      using True b t(1) by (subst negate_bits.simps) simp
    ultimately show ?thesis using less.hyps [of "i + 1" t'] True less.prems by simp
  next
    case False
    then show ?thesis using less.prems by (subst negate_bits.simps) auto
  qed
qed

lemma negate_array_spec:
  assumes "0 \<le> count" "count + 64 \<le> INT32_MAX" "count \<le> 8 * int (length bits)"
  shows "\<exists>bits'. negate_array bits count = Inr bits' \<and> bits_updated bits (\<lambda>p. int p < count) (\<lambda>_ x. \<not> x) bits'"
proof -
  have 0: "negated bits 0 bits" by (simp add: negated_def bits_updated_def)
  from negate_units_spec [OF 0 _ _ assms(1) _ _ assms(2,3), of 8] obtain i t where
    1: "negate_units 8 count 0 bits = Inr (i, t)" "negated bits i t" "8 dvd i" "0 \<le> i" "i \<le> count" by auto
  from negate_units_spec [OF 1(2-5) _ _ assms(2,3), of 1] obtain i' t' where
    2: "negate_units 1 count i t = Inr (i', t')" "negated bits i' t'" "0 \<le> i'" "i' \<le> count" by auto
  show ?thesis using negate_bits_spec [OF 2(2-4) assms(3)] 1(1) 2(1) by (simp add: negate_array_def negated_def)
qed

section \<open>Reversal\<close>

lemma bit_moved:
  fixes b :: byte
  shows "bit (push_bit i (b AND 2 ^ j)) k \<longleftrightarrow> k < 8 \<and> k = i + j \<and> bit b j"
    and "bit (drop_bit i (b AND 2 ^ j)) k \<longleftrightarrow> k + i = j \<and> bit b j"
  by (auto simp: bit_push_bit_iff bit_drop_bit_eq bit_and_iff bit_exp_iff add.commute dest: bit_imp_le_length)

lemma reverse_byte_powers:
  "reverse_byte b =
     push_bit 7 (b AND 2 ^ 0) OR push_bit 5 (b AND 2 ^ 1) OR push_bit 3 (b AND 2 ^ 2) OR push_bit 1 (b AND 2 ^ 3) OR
     drop_bit 1 (b AND 2 ^ 4) OR drop_bit 3 (b AND 2 ^ 5) OR drop_bit 5 (b AND 2 ^ 6) OR drop_bit 7 (b AND 2 ^ 7)"
proof -
  have "(0x01 :: byte) = 2 ^ 0" "(0x02 :: byte) = 2 ^ 1" "(0x04 :: byte) = 2 ^ 2" "(0x08 :: byte) = 2 ^ 3"
    "(0x10 :: byte) = 2 ^ 4" "(0x20 :: byte) = 2 ^ 5" "(0x40 :: byte) = 2 ^ 6" "(0x80 :: byte) = 2 ^ 7" by simp_all
  then show ?thesis unfolding reverse_byte_def by (simp only:)
qed

lemma bit_reverse_byte: "k < 8 \<Longrightarrow> bit (reverse_byte b) k \<longleftrightarrow> bit b (7 - k)"
proof -
  assume "k < 8"
  then consider "k = 0" | "k = 1" | "k = 2" | "k = 3" | "k = 4" | "k = 5" | "k = 6" | "k = 7" by linarith
  then show ?thesis unfolding reverse_byte_powers bit_or_iff bit_moved by cases simp_all
qed

lemma reverse_byte_twice [simp]: "reverse_byte (reverse_byte b) = b"
  by (rule bit_word_eqI) (simp add: bit_reverse_byte)

lemma reverseBits_twice:
  assumes "reverseBits bytes n = Inr bytes'"
  shows "reverseBits bytes' n = Inr bytes"
proof -
  have "nat n \<le> length bytes" "bytes' = map reverse_byte (take (nat n) bytes) @ drop (nat n) bytes"
    using assms by (auto simp: reverseBits_def split: if_splits)
  moreover from this have "map reverse_byte (take (nat n) bytes') = take (nat n) bytes" by (simp add: o_def)
  ultimately show ?thesis by (simp add: reverseBits_def)
qed

section \<open>Scattering\<close>

text \<open>The number of set bits of the mask below a position.\<close>

definition mask_rank :: "byte list \<Rightarrow> nat \<Rightarrow> nat" where
  "mask_rank targetMask p = length (filter (mem_bit targetMask) [0..<p])"

lemma mask_rank_Suc: "mask_rank targetMask (Suc p) = mask_rank targetMask p + (if mem_bit targetMask p then 1 else 0)"
  by (simp add: mask_rank_def)

lemma mask_rank_le: "mask_rank targetMask p \<le> p"
  unfolding mask_rank_def by (rule order.trans [OF length_filter_le]) simp

lemma scatter_loop_spec:
  assumes "\<And>p. mem_bit t p = (if to \<le> p \<and> p < n then mem_bit targetMask p \<and> mem_bit src (mask_rank targetMask p) else mem_bit target p)"
    and "length t = length target" "to \<le> n" "n \<le> 8 * length target" "8 dvd length targetMask" "n \<le> 8 * length targetMask"
    and "case source of None \<Rightarrow> src = target | Some s \<Rightarrow> s = src \<and> mask_rank targetMask n \<le> 8 * length s"
    and "mask_rank targetMask to \<le> mask_rank targetMask n"
  shows "\<exists>t'. scatter_loop source targetMask to (int (mask_rank targetMask to) - 1) t = Inr t' \<and>
    bits_updated target (\<lambda>p. p < n) (\<lambda>p _. mem_bit targetMask p \<and> mem_bit src (mask_rank targetMask p)) t'"
  using assms
proof (induction to arbitrary: t)
  case 0
  then show ?case by (auto simp: bits_updated_def)
next
  case (Suc to)
  let ?m = "mem_bit targetMask to" and ?r = "mask_rank targetMask"
  have m: "isBitSet 8 targetMask (int to) = Inr ?m" using Suc.prems by (subst isBitSet_spec) auto
  have b: "(if ?m then isBitSet 1 (case source of None \<Rightarrow> t | Some s \<Rightarrow> s) (int (?r (Suc to)) - 1) else Inr False) =
      Inr (?m \<and> mem_bit src (?r to))"
  proof (cases ?m)
    case True
    have r: "int (?r (Suc to)) - 1 = int (?r to)" "?r to \<le> to" using True mask_rank_le by (simp_all add: mask_rank_Suc)
    show ?thesis
    proof (cases source)
      case None
      have "isBitSet 1 t (int (?r to)) = Inr (mem_bit t (?r to))"
        using r Suc.prems(2-4) by (subst isBitSet_spec) auto
      then show ?thesis using True None r Suc.prems(1) [of "?r to"] Suc.prems(7) by simp
    next
      case (Some s)
      have "isBitSet 1 s (int (?r to)) = Inr (mem_bit s (?r to))"
        using Some Suc.prems(7,8) True by (subst isBitSet_spec) (auto simp: mask_rank_Suc)
      then show ?thesis using True Some r Suc.prems(7) by simp
    qed
  qed simp
  have "to < 8 * length t" using Suc.prems(2-4) by simp
  from setBit_to_spec [OF this, of "?m \<and> mem_bit src (?r to)"] obtain t1 where
    t1: "setBit_to t to (?m \<and> mem_bit src (?r to)) = Inr t1" "bits_updated t (\<lambda>p. p = to) (\<lambda>_ _. ?m \<and> mem_bit src (?r to)) t1" by blast
  have "mem_bit t1 p = (if to \<le> p \<and> p < n then mem_bit targetMask p \<and> mem_bit src (?r p) else mem_bit target p)" for p
    using t1(2) Suc.prems(1,3) by (auto simp: bits_updated_def)
  moreover have "length t1 = length target" using t1(2) Suc.prems(2) by (simp add: bits_updated_def)
  moreover have "?r to \<le> ?r n" using Suc.prems(8) by (simp add: mask_rank_Suc split: if_splits)
  ultimately have "\<exists>t'. scatter_loop source targetMask to (int (?r to) - 1) t1 = Inr t' \<and>
      bits_updated target (\<lambda>p. p < n) (\<lambda>p _. mem_bit targetMask p \<and> mem_bit src (?r p)) t'"
    using Suc.IH Suc.prems(3-7) by simp
  moreover have "(if ?m then int (?r (Suc to)) - 1 - 1 else int (?r (Suc to)) - 1) = int (?r to) - 1"
    by (simp add: mask_rank_Suc)
  ultimately show ?case using m b t1(1) by simp
qed

lemma scatterBitsSimple_spec:
  assumes "numTarget \<le> 8 * length target" "8 dvd length targetMask" "numTarget \<le> 8 * length targetMask"
    and "case source of None \<Rightarrow> src = target | Some s \<Rightarrow> s = src \<and> mask_rank targetMask numTarget \<le> 8 * length s"
  shows "\<exists>target'. scatterBitsSimple (int (mask_rank targetMask numTarget)) (int numTarget) source targetMask target = Inr target' \<and>
    bits_updated target (\<lambda>p. p < numTarget) (\<lambda>p _. mem_bit targetMask p \<and> mem_bit src (mask_rank targetMask p)) target'"
  unfolding scatterBitsSimple_def nat_int by (rule scatter_loop_spec) (use assms in auto)

end
