(* ===== verification/Std_String.thy ===== *)
theory Std_String
  imports Floating_Point
begin

text \<open>
  The operations of \<open>std::string\<close> and the conversions of \<open><string>\<close> that the readers of model files use. A position
  that \<open>find\<close> returns is an \<open>int\<close>, as in the code that stores it, with \<open>-1\<close> for \<open>npos\<close>; a length that is computed
  in \<open>int\<close> and negative becomes a very large \<open>size_t\<close>.
\<close>

section \<open>Searching and cutting\<close>

primrec find_from :: "int \<Rightarrow> string \<Rightarrow> string \<Rightarrow> int" where
  "find_from p pat [] = (if pat = [] then p else - 1)"
| "find_from p pat (c # cs) = (if take (length pat) (c # cs) = pat then p else find_from (p + 1) pat cs)"

definition str_find :: "string \<Rightarrow> string \<Rightarrow> int" where
  "str_find s pat = find_from 0 pat s"

definition substr :: "string \<Rightarrow> int \<Rightarrow> int \<Rightarrow> string res" where
  "substr s pos n =
     (if pos < 0 \<or> int (length s) < pos then Inl OutOfRangeError
      else Inr (if n < 0 then drop (nat pos) s else take (nat n) (drop (nat pos) s)))"

section \<open>Numbers\<close>

definition is_space :: "char \<Rightarrow> bool" where
  "is_space c \<longleftrightarrow> c \<in> {CHR '' '', CHR 0x09, CHR 0x0A, CHR 0x0B, CHR 0x0C, CHR 0x0D}"

text \<open>The value of a character as a digit; at least 16 if it is not one.\<close>

definition digit_value :: "char \<Rightarrow> int" where
  "digit_value c =
     (let n = of_char c
      in if 48 \<le> n \<and> n \<le> 57 then n - 48
         else if 97 \<le> n \<and> n \<le> 102 then n - 87
         else if 65 \<le> n \<and> n \<le> 70 then n - 55
         else 16)"

definition is_digit :: "int \<Rightarrow> char \<Rightarrow> bool" where
  "is_digit base c \<longleftrightarrow> digit_value c < base"

definition digits_value :: "int \<Rightarrow> string \<Rightarrow> int" where
  "digits_value base ds = foldl (\<lambda>n c. n * base + digit_value c) 0 ds"

text \<open>An optional sign.\<close>

definition split_sign :: "string \<Rightarrow> bool \<times> string" where
  "split_sign s =
     (case s of
        [] \<Rightarrow> (False, [])
      | c # cs \<Rightarrow> if c = CHR ''-'' then (True, cs) else if c = CHR ''+'' then (False, cs) else (False, s))"

definition stoi :: "string \<Rightarrow> int res" where
  "stoi s =
     (case split_sign (dropWhile is_space s) of (negative, t) \<Rightarrow>
        let ds = takeWhile (is_digit 10) t;
            n = (if negative then - digits_value 10 ds else digits_value 10 ds)
        in if ds = [] then Inl InvalidArgument
           else if INT32_MIN \<le> n \<and> n \<le> INT32_MAX then Inr n
           else Inl OutOfRangeError)"

text \<open>
  What \<open>strtod\<close> reads: a finite number \<open>digits * base\<^sup>exponent\<close>, an infinity or a NaN. The exponent of a
  hexadecimal number is a power of two.
\<close>

datatype strtod_value = Number int int int | Infinity | NaN

definition read_exponent :: "string \<Rightarrow> char list \<Rightarrow> int" where
  "read_exponent s letters =
     (case s of
        [] \<Rightarrow> 0
      | c # cs \<Rightarrow>
          if c \<in> set letters then
            case split_sign cs of (negative, t) \<Rightarrow>
              let n = digits_value 10 (takeWhile (is_digit 10) t) in if negative then - n else n
          else 0)"

definition read_number :: "int \<Rightarrow> string \<Rightarrow> strtod_value option" where
  "read_number base s =
     (let whole = takeWhile (is_digit base) s;
          rest = dropWhile (is_digit base) s;
          fraction = (case rest of [] \<Rightarrow> [] | c # cs \<Rightarrow> if c = CHR ''.'' then takeWhile (is_digit base) cs else []);
          tail = (case rest of [] \<Rightarrow> [] | c # cs \<Rightarrow> if c = CHR ''.'' then dropWhile (is_digit base) cs else rest)
      in if whole = [] \<and> fraction = [] then None
         else if base = 10 then
           Some (Number (digits_value 10 (whole @ fraction)) 10 (read_exponent tail ''eE'' - int (length fraction)))
         else
           Some (Number (digits_value 16 (whole @ fraction)) 2 (read_exponent tail ''pP'' - 4 * int (length fraction))))"

definition lower_char :: "char \<Rightarrow> char" where
  "lower_char c = (let n = of_char c :: int in if 65 \<le> n \<and> n \<le> 90 then char_of (n + 32) else c)"

definition strtod_magnitude :: "string \<Rightarrow> strtod_value option" where
  "strtod_magnitude s =
     (let l = map lower_char (take 3 s)
      in if l = ''inf'' then Some Infinity
         else if l = ''nan'' then Some NaN
         else if take 2 l = ''0x'' \<and> read_number 16 (drop 2 s) \<noteq> None then read_number 16 (drop 2 s)
         else read_number 10 s)"

definition double_of_parts :: "bool \<Rightarrow> int \<Rightarrow> 64 word" where
  "double_of_parts negative magnitude = word_of_int ((if negative then 0x8000000000000000 else 0) + magnitude)"

text \<open>
  \<open>stod\<close>: a number too large for a \<open>double\<close>, and one that is below the normal numbers and not exact, sets \<open>ERANGE\<close>.
\<close>

definition stod :: "string \<Rightarrow> 64 word res" where
  "stod s =
     (case split_sign (dropWhile is_space s) of (negative, t) \<Rightarrow>
        case strtod_magnitude t of
          None \<Rightarrow> Inl InvalidArgument
        | Some Infinity \<Rightarrow> Inr (double_of_parts negative 0x7FF0000000000000)
        | Some NaN \<Rightarrow> Inr (double_of_parts negative 0x7FF8000000000000)
        | Some (Number n base e) \<Rightarrow>
            if n = 0 then Inr (double_of_parts negative 0)
            else
              let (m, exact) =
                (if e < 0 then double_of_ratio n (base ^ nat (- e)) else double_of_ratio (n * base ^ nat e) 1)
              in if 0x7FF0000000000000 \<le> m \<or> (m < 0x10000000000000 \<and> \<not> exact) then Inl OutOfRangeError
                 else Inr (double_of_parts negative m))"

end
