(* ===== verification/Decision_Tree.thy ===== *)
theory Decision_Tree
  imports Std_String Refinement
begin

text \<open>
  Decision trees of \<open>velox/ml_functions/DecisionTree.h\<close>: a tree is an array of 512 nodes, read from the text that
  XGBoost dumps for a tree, and evaluated by a walk from node 0 to a leaf. The files are an argument, a
  function from a path to the lines of the file; so are the nodes that the array holds before it is filled.
\<close>

section \<open>Nodes\<close>

definition MAX_NUM_NODES_PER_TREE :: nat where
  "MAX_NUM_NODES_PER_TREE = 512"

text \<open>\<open>threshold\<close> and \<open>leafValue\<close> are members of a union.\<close>

record Node =
  nd_value :: "32 word"
  nd_indexID :: int
  nd_leftChild :: int
  nd_rightChild :: int
  nd_isLeaf :: bool
  nd_isMissTrackLeft :: bool

definition get_node :: "Node list \<Rightarrow> int \<Rightarrow> Node res" where
  "get_node tree i = (if 0 \<le> i \<and> nat i < length tree then Inr (tree ! nat i) else Inl OutOfRange)"

definition set_node :: "Node list \<Rightarrow> int \<Rightarrow> Node \<Rightarrow> Node list res" where
  "set_node tree i nd = (if 0 \<le> i \<and> nat i < length tree then Inr (tree[nat i := nd]) else Inl OutOfRange)"

section \<open>Reading a tree\<close>

definition contains :: "string \<Rightarrow> string \<Rightarrow> bool" where
  "contains line pat \<longleftrightarrow> str_find line pat \<noteq> - 1"

text \<open>The lines with edges, inner nodes and leaves, each in the order of the file.\<close>

definition skipped_line :: "string \<Rightarrow> bool" where
  "skipped_line line \<longleftrightarrow> length line = 0 \<or> contains line ''graph'' \<or> contains line ''}''"

definition relationship_line :: "string \<Rightarrow> bool" where
  "relationship_line line \<longleftrightarrow> \<not> skipped_line line \<and> contains line ''->''"

definition leaf_line :: "string \<Rightarrow> bool" where
  "leaf_line line \<longleftrightarrow> \<not> skipped_line line \<and> \<not> contains line ''->'' \<and> contains line ''leaf''"

definition inner_line :: "string \<Rightarrow> bool" where
  "inner_line line \<longleftrightarrow>
     \<not> skipped_line line \<and> \<not> contains line ''->'' \<and> \<not> contains line ''leaf'' \<and> contains line ''label''"

definition constructTreeFromPathHelper ::
    "(string \<Rightarrow> string list option) \<Rightarrow> string \<Rightarrow> (string list \<times> string list \<times> string list) res" where
  "constructTreeFromPathHelper files treePathIn =
     (case files treePathIn of
        None \<Rightarrow> Inl CheckFailed
      | Some ls \<Rightarrow> Inr (filter relationship_line ls, filter inner_line ls, filter leaf_line ls))"

definition processInnerNode :: "string \<Rightarrow> Node list \<Rightarrow> Node list res" where
  "processInnerNode currentLine tree =
     (let labelPos = str_find currentLine ''[ label'';
          f = str_find currentLine ''f''; less = str_find currentLine ''<'';
          quote = str_find currentLine [CHR 0x22, CHR '' '', CHR '']'']
      in rbind (if labelPos \<noteq> - 1 then rbind (substr currentLine 4 (labelPos - 1 - 4)) stoi else Inl ProcessExit) (\<lambda>nodeID.
         rbind (if f \<noteq> - 1 \<and> less \<noteq> - 1 then rbind (substr currentLine (f + 1) (less - f - 1)) stoi else Inl ProcessExit) (\<lambda>indexID.
         rbind (if less \<noteq> - 1 \<and> quote \<noteq> - 1 then rbind (substr currentLine (less + 1) (quote - less - 1)) stod else Inl ProcessExit) (\<lambda>threshold.
           set_node tree nodeID
             \<lparr>nd_value = double_to_float threshold, nd_indexID = indexID, nd_leftChild = - 1, nd_rightChild = - 1,
              nd_isLeaf = False, nd_isMissTrackLeft = False\<rparr>))))"

definition processInnerNodes :: "string list \<Rightarrow> Node list \<Rightarrow> Node list res" where
  "processInnerNodes innerNodes tree = run_ops processInnerNode innerNodes tree"

definition processLeafNode :: "string \<Rightarrow> Node list \<Rightarrow> Node list res" where
  "processLeafNode currentLine tree =
     (let bracket = str_find currentLine ''['';
          leaf = str_find currentLine ''leaf='';
          quote = str_find currentLine [CHR 0x22, CHR '' '', CHR '']'']
      in rbind (if bracket \<noteq> - 1 then rbind (substr currentLine 4 (bracket - 1 - 4)) stoi else Inl ProcessExit) (\<lambda>nodeID.
         rbind (if leaf \<noteq> - 1 \<and> quote \<noteq> - 1 then rbind (substr currentLine (leaf + 5) (quote - 3 - leaf - 5)) stod else Inl ProcessExit) (\<lambda>leafValue.
           set_node tree nodeID
             \<lparr>nd_value = double_to_float leafValue, nd_indexID = - 1, nd_leftChild = - 1, nd_rightChild = - 1,
              nd_isLeaf = True, nd_isMissTrackLeft = True\<rparr>)))"

definition processLeafNodes :: "string list \<Rightarrow> Node list \<Rightarrow> Node list res" where
  "processLeafNodes leafNodes tree = run_ops processLeafNode leafNodes tree"

text \<open>A third edge of a node is reported on the standard output and otherwise ignored.\<close>

definition add_child :: "Node \<Rightarrow> int \<Rightarrow> Node" where
  "add_child nd child =
     (if nd_leftChild nd = - 1 then nd\<lparr>nd_leftChild := child\<rparr>
      else if nd_rightChild nd = - 1 then nd\<lparr>nd_rightChild := child\<rparr>
      else nd)"

definition processRelationship :: "string \<Rightarrow> Node list \<Rightarrow> Node list res" where
  "processRelationship currentLine tree =
     (let mid = str_find currentLine ''->''; bracket = str_find currentLine ''[''
      in rbind (if mid \<noteq> - 1 then rbind (substr currentLine 4 (mid - 1 - 4)) stoi else Inl ProcessExit) (\<lambda>parentNodeID.
         rbind (if bracket \<noteq> - 1 then rbind (substr currentLine (mid + 3) (bracket - 1 - mid - 3)) stoi else Inl ProcessExit) (\<lambda>childNodeID.
         rbind (get_node tree parentNodeID) (\<lambda>nd.
           set_node tree parentNodeID
             (add_child (if contains currentLine ''yes, missing'' then nd\<lparr>nd_isMissTrackLeft := True\<rparr> else nd) childNodeID)))))"

definition processRelationships :: "string list \<Rightarrow> Node list \<Rightarrow> Node list res" where
  "processRelationships relationships tree = run_ops processRelationship relationships tree"

definition constructTreeFromPath :: "(string \<Rightarrow> string list option) \<Rightarrow> string \<Rightarrow> Node list \<Rightarrow> Node list res" where
  "constructTreeFromPath files treePathIn tree =
     rbind (constructTreeFromPathHelper files treePathIn) (\<lambda>(relationships, innerNodes, leafNodes).
     rbind (processInnerNodes innerNodes tree) (\<lambda>tree.
     rbind (processLeafNodes leafNodes tree) (\<lambda>tree.
       processRelationships relationships tree)))"

record Tree =
  tr_tree :: "Node list"
  tr_treeId :: int

definition Tree_new :: "(string \<Rightarrow> string list option) \<Rightarrow> Node list \<Rightarrow> int \<Rightarrow> string \<Rightarrow> Tree res" where
  "Tree_new files raw id' treePath =
     rbind (constructTreeFromPath files treePath (take MAX_NUM_NODES_PER_TREE raw)) (\<lambda>tree.
       Inr \<lparr>tr_tree = tree, tr_treeId = id'\<rparr>)"

section \<open>Prediction\<close>

text \<open>The feature at an index that is a sum of two \<open>int\<close>s.\<close>

definition feature :: "32 word list \<Rightarrow> int \<Rightarrow> int \<Rightarrow> 32 word res" where
  "feature input base i =
     rbind (i32_res (base + i)) (\<lambda>j. if 0 \<le> j \<and> nat j < length input then Inr (input ! nat j) else Inl OutOfRange)"

definition next_index :: "Node \<Rightarrow> 32 word \<Rightarrow> int" where
  "next_index nd featureValue = (if fp_less featureValue (nd_value nd) then nd_leftChild nd else nd_rightChild nd)"

definition next_index_missing :: "Node \<Rightarrow> 32 word \<Rightarrow> int" where
  "next_index_missing nd featureValue =
     (if isnan featureValue then (if nd_isMissTrackLeft nd then nd_leftChild nd else nd_rightChild nd)
      else next_index nd featureValue)"

text \<open>The loop down the tree, with the choice of the next node as an argument.\<close>

partial_function (option) tree_walk ::
    "(Node \<Rightarrow> 32 word \<Rightarrow> int) \<Rightarrow> Node list \<Rightarrow> 32 word list \<Rightarrow> int \<Rightarrow> int \<Rightarrow> 32 word res option" where
  "tree_walk nextIndex tree input base cur =
     (case get_node tree cur of
        Inl e \<Rightarrow> Some (Inl e)
      | Inr nd \<Rightarrow>
          if nd_isLeaf nd then Some (Inr (nd_value nd))
          else (case feature input base (nd_indexID nd) of
              Inl e \<Rightarrow> Some (Inl e)
            | Inr featureValue \<Rightarrow> tree_walk nextIndex tree input base (nextIndex nd featureValue)))"

declare tree_walk.simps [code]

definition returned :: "'a res option \<Rightarrow> 'a res" where
  "returned r = (case r of None \<Rightarrow> Inl Diverges | Some r' \<Rightarrow> r')"

definition predictSingle :: "Tree \<Rightarrow> 32 word list \<Rightarrow> int \<Rightarrow> 32 word res" where
  "predictSingle t input curBase = returned (tree_walk next_index (tr_tree t) input curBase 0)"

definition tree_predict :: "Tree \<Rightarrow> 32 word list \<Rightarrow> int \<Rightarrow> int \<Rightarrow> 32 word list res" where
  "tree_predict t input numInputs numFeatures =
     rmap (\<lambda>rowIndex. rbind (i32_res (rowIndex * numFeatures)) (\<lambda>curBase.
       returned (tree_walk next_index (tr_tree t) input curBase 0))) [0..numInputs - 1]"

definition predictMissing :: "Tree \<Rightarrow> 32 word list \<Rightarrow> int \<Rightarrow> int \<Rightarrow> 32 word list res" where
  "predictMissing t input numInputs numFeatures =
     rmap (\<lambda>rowIndex. rbind (i32_res (rowIndex * numFeatures)) (\<lambda>curBase.
       returned (tree_walk next_index_missing (tr_tree t) input curBase 0))) [0..numInputs - 1]"

section \<open>The function \<open>tree_predict\<close>\<close>

record TreePrediction =
  tp_tree :: Tree
  tp_numFeatures :: int
  tp_hasMissing :: bool

definition TreePrediction_new ::
    "(string \<Rightarrow> string list option) \<Rightarrow> Node list \<Rightarrow> int \<Rightarrow> string \<Rightarrow> int \<Rightarrow> bool \<Rightarrow> TreePrediction res" where
  "TreePrediction_new files raw treeId treePath numFeatures hasMissing =
     rbind (Tree_new files raw treeId treePath) (\<lambda>t.
       Inr \<lparr>tp_tree = t, tp_numFeatures = numFeatures, tp_hasMissing = hasMissing\<rparr>)"

text \<open>\<open>numInputs\<close> is the size of the rows, \<open>input\<close> the elements of the array argument.\<close>

definition TreePrediction_apply :: "TreePrediction \<Rightarrow> int \<Rightarrow> 32 word list \<Rightarrow> 32 word list res" where
  "TreePrediction_apply tp numInputs input =
     (if tp_hasMissing tp then predictMissing (tp_tree tp) input numInputs (tp_numFeatures tp)
      else tree_predict (tp_tree tp) input numInputs (tp_numFeatures tp))"

end
