(* ===== verification/Velox_Decision_Tree.thy ===== *)
theory Velox_Decision_Tree
  imports Decision_Tree Selectivity_Vector
begin

text \<open>
  The vector functions \<open>velox_tree_construct\<close> and \<open>velox_tree_predict\<close> of \<open>velox/ml_functions/VeloxDecisionTree.h\<close>,
  which put a tree for each selected row into a vector and evaluate the trees of the selected rows. An argument
  vector is the list of its values; a result vector is the list of its values with \<open>None\<close> for null, as
  \<open>ensureWritable\<close> leaves it.
\<close>

definition valueAt :: "'a list \<Rightarrow> int \<Rightarrow> 'a res" where
  "valueAt v row = (if 0 \<le> row \<and> nat row < length v then Inr (v ! nat row) else Inl OutOfRange)"

definition flat_set :: "'a option list \<Rightarrow> int \<Rightarrow> 'a \<Rightarrow> 'a option list res" where
  "flat_set v row x = (if 0 \<le> row \<and> nat row < length v then Inr (v[nat row := Some x]) else Inl OutOfRange)"

text \<open>\<open>raws row\<close> is what the array of the tree for \<open>row\<close> holds before it is filled.\<close>

definition VeloxTreeConstruction_apply ::
    "(string \<Rightarrow> string list option) \<Rightarrow> (int \<Rightarrow> Node list) \<Rightarrow> SelectivityVector \<Rightarrow> string list \<Rightarrow> Tree option list \<Rightarrow>
     (Tree option list \<times> SelectivityVector) res" where
  "VeloxTreeConstruction_apply files raws rows flatInput flatResult =
     applyToSelected rows (\<lambda>row flatResult.
       rbind (valueAt flatInput row) (\<lambda>path.
       rbind (Tree_new files (raws row) row path) (\<lambda>tree.
         flat_set flatResult row tree))) flatResult"

text \<open>A tree argument that is null is a null pointer.\<close>

definition VeloxTreePrediction_apply ::
    "int \<Rightarrow> SelectivityVector \<Rightarrow> 32 word list \<Rightarrow> Tree option list \<Rightarrow> 32 word option list \<Rightarrow>
     (32 word option list \<times> SelectivityVector) res" where
  "VeloxTreePrediction_apply numFeatures rows input1Values flatInput flatResult =
     applyToSelected rows (\<lambda>row flatResult.
       rbind (valueAt flatInput row) (\<lambda>p.
       rbind (deref p) (\<lambda>tree.
       rbind (i32_res (row * numFeatures)) (\<lambda>curBase.
       rbind (predictSingle tree input1Values curBase) (\<lambda>value.
         flat_set flatResult row value))))) flatResult"

end
