(* ===== verification/Decision_Texts.thy ===== *)
theory Decision_Texts
  imports Decision_Tree
begin

text \<open>
  The text of a tree as XGBoost dumps it (\<open>dump_file\<close>), and what the functions of \<open>Decision_Tree\<close> read from each kind
  of line: \<open>str_find\<close> and \<open>substr\<close> find the numbers of the nodes, the features, the thresholds and the leaf values.
\<close>

section \<open>Searching in lines\<close>

lemma find_from_ge: "0 \<le> p \<Longrightarrow> find_from p pat s = - 1 \<or> p \<le> find_from p pat s"
proof (induction s arbitrary: p)
  case (Cons c s)
  then have "find_from (p + 1) pat s = - 1 \<or> p + 1 \<le> find_from (p + 1) pat s" by simp
  then show ?case by (simp, linarith)
qed simp

lemma find_from_shift: "0 \<le> p \<Longrightarrow> find_from p pat s = (if find_from 0 pat s = - 1 then - 1 else p + find_from 0 pat s)"
proof (induction s arbitrary: p)
  case (Cons c s)
  have "find_from 1 pat s = - 1 \<or> 1 \<le> find_from 1 pat s" using find_from_ge [of 1 pat s] by simp
  then show ?case using find_from_ge [of 0 pat s] Cons.IH [of "p + 1"] Cons.IH [of 1] Cons.prems by (simp split: if_splits)
qed simp

lemma str_find_Nil: "str_find [] pat = (if pat = [] then 0 else - 1)"
  by (simp add: str_find_def)

lemma str_find_Cons:
  "str_find (c # s) pat =
     (if take (length pat) (c # s) = pat then 0 else if str_find s pat = - 1 then - 1 else 1 + str_find s pat)"
  unfolding str_find_def using find_from_shift [of 1 pat s] by simp

text \<open>No occurrence begins in a part without the first character.\<close>

lemma str_find_lower: "str_find s pat = - 1 \<or> 0 \<le> str_find s pat"
  unfolding str_find_def using find_from_ge [of 0] by simp

lemma str_find_skip:
  "p \<notin> set xs \<Longrightarrow> str_find (xs @ s) (p # pat) = (if str_find s (p # pat) = - 1 then - 1 else int (length xs) + str_find s (p # pat))"
proof (induction xs)
  case (Cons x xs)
  then show ?case using str_find_lower [of s "p # pat"] by (auto simp: str_find_Cons)
qed simp

lemma str_find_absent: "p \<notin> set s \<Longrightarrow> str_find s (p # pat) = - 1"
  using str_find_skip [of p s "[]" pat] by (simp add: str_find_Nil)

lemma find_from_skip: "p \<notin> set xs \<Longrightarrow> find_from q (p # pat) (xs @ s) = find_from (q + int (length xs)) (p # pat) s"
  by (induction xs arbitrary: q) (auto simp: algebra_simps)

section \<open>Decimal numbers\<close>

definition show_digit :: "nat \<Rightarrow> char" where
  "show_digit d = char_of (48 + int d)"

fun show_nat :: "nat \<Rightarrow> string" where
  "show_nat n = (if n < 10 then [show_digit n] else show_nat (n div 10) @ [show_digit (n mod 10)])"

declare show_nat.simps [simp del]

lemma digit_value_show: "d < 10 \<Longrightarrow> digit_value (show_digit d) = int d"
  by (simp add: digit_value_def show_digit_def Let_def)

lemma show_digit_facts:
  assumes "d < 10"
  shows "is_digit 10 (show_digit d)" "\<not> is_space (show_digit d)" "show_digit d \<noteq> CHR ''-''" "show_digit d \<noteq> CHR ''+''"
proof -
  show "is_digit 10 (show_digit d)" using assms by (simp add: is_digit_def digit_value_show)
  have "c \<noteq> show_digit d" if "digit_value c = 16" for c using that assms digit_value_show [of d] by auto
  moreover have "digit_value c = 16" if "is_space c \<or> c = CHR ''-'' \<or> c = CHR ''+''" for c
    using that by (auto simp: is_space_def digit_value_def)
  ultimately show "\<not> is_space (show_digit d)" "show_digit d \<noteq> CHR ''-''" "show_digit d \<noteq> CHR ''+''" by blast+
qed

definition is_digits :: "string \<Rightarrow> bool" where
  "is_digits s \<longleftrightarrow> s \<noteq> [] \<and> (\<forall>c \<in> set s. \<exists>d < 10. c = show_digit d)"

lemma show_nat_digits: "is_digits (show_nat n)"
proof (induction n rule: show_nat.induct)
  case (1 n)
  show ?case
  proof (cases "n < 10")
    case True
    then show ?thesis by (subst show_nat.simps) (auto simp: is_digits_def)
  next
    case False
    moreover have "\<exists>d < 10. show_digit (n mod 10) = show_digit d" by (intro exI [of _ "n mod 10"]) simp
    ultimately show ?thesis using 1 by (subst show_nat.simps) (auto simp: is_digits_def)
  qed
qed

lemma digits_value_snoc: "digits_value b (ds @ [c]) = digits_value b ds * b + digit_value c"
  by (simp add: digits_value_def)

lemma digits_value_show: "digits_value 10 (show_nat n) = int n"
proof (induction n rule: show_nat.induct)
  case (1 n)
  show ?case
  proof (cases "n < 10")
    case True
    then show ?thesis by (subst show_nat.simps) (simp add: digits_value_def digit_value_show)
  next
    case False
    have "int (n div 10) * 10 + int (n mod 10) = int n" by (simp add: zdiv_int zmod_int)
    then show ?thesis using False 1 by (subst show_nat.simps) (simp add: digits_value_snoc digit_value_show)
  qed
qed

lemma stoi_show: "int n \<le> INT32_MAX \<Longrightarrow> stoi (show_nat n) = Inr (int n)"
proof -
  assume n: "int n \<le> INT32_MAX"
  obtain c cs where s: "show_nat n = c # cs" using show_nat_digits [of n] by (cases "show_nat n") (auto simp: is_digits_def)
  then obtain d where d: "d < 10" "c = show_digit d" using show_nat_digits [of n] by (auto simp: is_digits_def)
  have "dropWhile is_space (show_nat n) = show_nat n" using s d show_digit_facts(2) by simp
  moreover have "split_sign (show_nat n) = (False, show_nat n)" using s d show_digit_facts(3,4) by (simp add: split_sign_def)
  moreover have tw: "takeWhile (is_digit 10) (show_nat n) = show_nat n"
    using show_nat_digits [of n] show_digit_facts(1) by (auto simp: is_digits_def takeWhile_eq_all_conv)
  ultimately show ?thesis using n digits_value_show [of n] show_nat_digits [of n]
    by (simp add: stoi_def is_digits_def Let_def tw)
qed

text \<open>A character that is not a digit does not occur in a decimal number.\<close>

lemma digits_without: "digit_value c \<ge> 10 \<Longrightarrow> c \<notin> set (show_nat n)"
proof
  assume c: "digit_value c \<ge> 10" "c \<in> set (show_nat n)"
  then obtain d where "d < 10" "c = show_digit d" using show_nat_digits [of n] by (auto simp: is_digits_def)
  then show False using c(1) digit_value_show [of d] by simp
qed

section \<open>The text of a tree\<close>

text \<open>
  A tree as XGBoost dumps it: nodes have numbers, an inner node compares a feature with a threshold and says to
  which side rows without the feature go. The first subtree is for features below the threshold.
\<close>

datatype xtree = XLeaf (xid: nat) string | XNode (xid: nat) nat string bool xtree xtree

definition quote :: string where
  "quote = [CHR 0x22]"

definition inner_text :: "nat \<Rightarrow> nat \<Rightarrow> string \<Rightarrow> string" where
  "inner_text i f thr = ''    '' @ show_nat i @ '' [ label='' @ quote @ ''f'' @ show_nat f @ ''<'' @ thr @ quote @ '' ]''"

definition leaf_text :: "nat \<Rightarrow> string \<Rightarrow> string" where
  "leaf_text i v = ''    '' @ show_nat i @ '' [ label='' @ quote @ ''leaf='' @ v @ quote @ '' ]''"

definition edge_text :: "nat \<Rightarrow> nat \<Rightarrow> bool \<Rightarrow> bool \<Rightarrow> string" where
  "edge_text i j yes missing =
     ''    '' @ show_nat i @ '' -> '' @ show_nat j @ '' [label='' @ quote @ (if yes then ''yes'' else ''no'') @
     (if missing then '', missing'' else []) @ quote @ '' color='' @ quote @
     (if missing then ''#0000FF'' else ''#FF0000'') @ quote @ '']''"

fun xdump :: "xtree \<Rightarrow> string list" where
  "xdump (XLeaf i v) = [leaf_text i v]"
| "xdump (XNode i f thr missLeft yes no) =
     [inner_text i f thr, edge_text i (xid yes) True missLeft, edge_text i (xid no) False (\<not> missLeft), []] @
     xdump yes @ [[]] @ xdump no"

definition dump_file :: "xtree \<Rightarrow> string list" where
  "dump_file t = [''digraph {'', ''    graph [ rankdir=TB ]'', []] @ xdump t @ [''}'']"

text \<open>The characters of a number that XGBoost prints.\<close>

definition number_text :: "string \<Rightarrow> bool" where
  "number_text v \<longleftrightarrow> (\<forall>c \<in> set v. digit_value c < 10 \<or> c \<in> set ''+-.e'')"

lemma number_without: "number_text v \<Longrightarrow> digit_value c \<ge> 10 \<Longrightarrow> c \<notin> set ''+-.e'' \<Longrightarrow> c \<notin> set v"
  by (auto simp: number_text_def)

section \<open>Reading the lines\<close>

lemma take_prefix_char: "q \<in> set pat \<Longrightarrow> q \<notin> set s \<Longrightarrow> take n s \<noteq> pat"
  by (metis in_set_takeD)

lemma str_find_missing: "q \<in> set pat \<Longrightarrow> q \<notin> set s \<Longrightarrow> str_find s pat = - 1"
proof (induction s)
  case (Cons c s)
  then show ?case using take_prefix_char [of q pat "c # s" "length pat"] by (simp add: str_find_Cons)
qed (auto simp: str_find_Nil)

lemma inner_positions:
  assumes "number_text thr"
  shows "str_find (inner_text i f thr) ''[ label'' = int (length (show_nat i)) + 5"
    and "str_find (inner_text i f thr) ''f'' = int (length (show_nat i)) + 14"
    and "str_find (inner_text i f thr) ''<'' = int (length (show_nat i)) + int (length (show_nat f)) + 15"
    and "str_find (inner_text i f thr) [CHR 0x22, CHR '' '', CHR '']''] =
      int (length (show_nat i)) + int (length (show_nat f)) + int (length thr) + 16"
proof -
  have d: "CHR ''['' \<notin> set (show_nat k)" "CHR ''f'' \<notin> set (show_nat k)" "CHR ''<'' \<notin> set (show_nat k)" "CHR 0x22 \<notin> set (show_nat k)" for k
    by (auto intro!: digits_without simp: digit_value_def)
  have t: "CHR 0x22 \<notin> set thr" by (rule number_without [OF assms]) (auto simp: digit_value_def)
  show "str_find (inner_text i f thr) ''[ label'' = int (length (show_nat i)) + 5"
    using d by (simp add: inner_text_def quote_def str_find_def find_from_skip)
  show "str_find (inner_text i f thr) ''f'' = int (length (show_nat i)) + 14"
    using d by (simp add: inner_text_def quote_def str_find_def find_from_skip)
  show "str_find (inner_text i f thr) ''<'' = int (length (show_nat i)) + int (length (show_nat f)) + 15"
    using d by (simp add: inner_text_def quote_def str_find_def find_from_skip)
  show "str_find (inner_text i f thr) [CHR 0x22, CHR '' '', CHR '']''] =
      int (length (show_nat i)) + int (length (show_nat f)) + int (length thr) + 16"
    using d t by (simp add: inner_text_def quote_def str_find_def find_from_skip)
qed

lemma substr_mid: "substr (xs @ ys @ zs) (int (length xs)) (int (length ys)) = Inr ys"
  by (simp add: substr_def)

lemma substr_at:
  assumes "s = xs @ ys @ zs" "p = int (length xs)" "n = int (length ys)"
  shows "substr s p n = Inr ys"
  using assms substr_mid [of xs ys zs] by simp

lemma text_without:
  assumes "digit_value c \<ge> 10" "c \<notin> set ''+-.e''" "number_text v"
  shows "c \<in> set (inner_text i f v) \<longleftrightarrow> c \<in> set '' [label=f<]'' \<union> set quote"
    and "c \<in> set (leaf_text i v) \<longleftrightarrow> c \<in> set '' [label=f]'' \<union> set quote"
proof -
  have d: "c \<notin> set (show_nat k)" "c \<notin> set v" for k using digits_without number_without assms by auto
  show "c \<in> set (inner_text i f v) \<longleftrightarrow> c \<in> set '' [label=f<]'' \<union> set quote"
    using d by (auto simp: inner_text_def)
  show "c \<in> set (leaf_text i v) \<longleftrightarrow> c \<in> set '' [label=f]'' \<union> set quote"
    using d assms(2) by (auto simp: leaf_text_def)
qed

lemma inner_text_line:
  assumes "number_text thr"
  shows "inner_line (inner_text i f thr)" "\<not> leaf_line (inner_text i f thr)" "\<not> relationship_line (inner_text i f thr)"
proof -
  let ?s = "inner_text i f thr"
  have n: "CHR ''g'' \<notin> set ?s" "CHR ''}'' \<notin> set ?s" "CHR ''>'' \<notin> set ?s"
    using assms by (simp_all add: text_without digit_value_def quote_def)
  have l: "CHR ''l'' \<notin> set (show_nat k)" "CHR ''l'' \<notin> set thr" for k
    using assms by (auto intro!: digits_without dest!: number_without [of thr "CHR ''l''"] simp: digit_value_def)
  have "str_find ?s ''graph'' = - 1" "str_find ?s ''}'' = - 1" "str_find ?s ''->'' = - 1"
    using n by (auto intro: str_find_missing)
  moreover have "str_find ?s ''leaf'' = - 1" "str_find ?s ''label'' \<noteq> - 1"
    using l by (simp_all add: inner_text_def quote_def str_find_def find_from_skip)
  moreover have "length ?s \<noteq> 0" by (simp add: inner_text_def)
  ultimately show "inner_line ?s" "\<not> leaf_line ?s" "\<not> relationship_line ?s"
    by (simp_all add: inner_line_def leaf_line_def relationship_line_def skipped_line_def contains_def)
qed

lemma processInnerNode_text:
  assumes "number_text thr" "int i \<le> INT32_MAX" "int f \<le> INT32_MAX" "stod thr = Inr x"
  shows "processInnerNode (inner_text i f thr) tree = set_node tree (int i)
    \<lparr>nd_value = double_to_float x, nd_indexID = int f, nd_leftChild = - 1, nd_rightChild = - 1,
     nd_isLeaf = False, nd_isMissTrackLeft = False\<rparr>"
proof -
  let ?s = "inner_text i f thr" and ?li = "int (length (show_nat i))" and ?lf = "int (length (show_nat f))"
  have "substr ?s 4 ?li = Inr (show_nat i)"
    by (rule substr_at [of _ "''    ''"]) (simp_all add: inner_text_def)
  moreover have "substr ?s (?li + 15) ?lf = Inr (show_nat f)"
    by (rule substr_at [of _ "''    '' @ show_nat i @ '' [ label='' @ quote @ ''f''"]) (simp_all add: inner_text_def quote_def)
  moreover have "substr ?s (?li + ?lf + 16) (int (length thr)) = Inr thr"
    by (rule substr_at [of _ "''    '' @ show_nat i @ '' [ label='' @ quote @ ''f'' @ show_nat f @ ''<''"])
      (simp_all add: inner_text_def quote_def)
  ultimately show ?thesis
    using assms stoi_show [of i] stoi_show [of f] by (simp add: processInnerNode_def Let_def inner_positions algebra_simps)
qed

lemma leaf_text_line:
  assumes "number_text v"
  shows "leaf_line (leaf_text i v)" "\<not> inner_line (leaf_text i v)" "\<not> relationship_line (leaf_text i v)"
proof -
  let ?s = "leaf_text i v"
  have n: "CHR ''g'' \<notin> set ?s" "CHR ''}'' \<notin> set ?s" "CHR ''>'' \<notin> set ?s"
    using assms by (simp_all add: text_without digit_value_def quote_def)
  have l: "CHR ''l'' \<notin> set (show_nat k)" for k
    by (auto intro!: digits_without simp: digit_value_def)
  have "str_find ?s ''graph'' = - 1" "str_find ?s ''}'' = - 1" "str_find ?s ''->'' = - 1"
    using n by (auto intro: str_find_missing)
  moreover have "str_find ?s ''leaf'' \<noteq> - 1"
    using l by (simp add: leaf_text_def quote_def str_find_def find_from_skip)
  moreover have "length ?s \<noteq> 0" by (simp add: leaf_text_def)
  ultimately show "leaf_line ?s" "\<not> inner_line ?s" "\<not> relationship_line ?s"
    by (simp_all add: inner_line_def leaf_line_def relationship_line_def skipped_line_def contains_def)
qed

lemma leaf_positions:
  assumes "number_text v"
  shows "str_find (leaf_text i v) ''['' = int (length (show_nat i)) + 5"
    and "str_find (leaf_text i v) ''leaf='' = int (length (show_nat i)) + 14"
    and "str_find (leaf_text i v) [CHR 0x22, CHR '' '', CHR '']''] = int (length (show_nat i)) + int (length v) + 19"
proof -
  have d: "CHR ''['' \<notin> set (show_nat k)" "CHR ''l'' \<notin> set (show_nat k)" "CHR 0x22 \<notin> set (show_nat k)" for k
    by (auto intro!: digits_without simp: digit_value_def)
  have t: "CHR 0x22 \<notin> set v" by (rule number_without [OF assms]) (auto simp: digit_value_def)
  show "str_find (leaf_text i v) ''['' = int (length (show_nat i)) + 5"
    "str_find (leaf_text i v) ''leaf='' = int (length (show_nat i)) + 14"
    "str_find (leaf_text i v) [CHR 0x22, CHR '' '', CHR '']''] = int (length (show_nat i)) + int (length v) + 19"
    using d t by (simp_all add: leaf_text_def quote_def str_find_def find_from_skip)
qed

text \<open>
  The part of the text of a leaf value that is read: all but the last three characters, or with less than three
  characters the whole rest of the line.
\<close>

definition leaf_value_text :: "string \<Rightarrow> string" where
  "leaf_value_text v = (if length v < 3 then v @ quote @ '' ]'' else take (length v - 3) v)"

lemma processLeafNode_reads:
  assumes "number_text v" "int i \<le> INT32_MAX"
  shows "processLeafNode (leaf_text i v) tree = rbind (stod (leaf_value_text v)) (\<lambda>x. set_node tree (int i)
    \<lparr>nd_value = double_to_float x, nd_indexID = - 1, nd_leftChild = - 1, nd_rightChild = - 1,
     nd_isLeaf = True, nd_isMissTrackLeft = True\<rparr>)"
proof -
  let ?s = "leaf_text i v" and ?li = "int (length (show_nat i))"
  have "substr ?s 4 ?li = Inr (show_nat i)"
    by (rule substr_at [of _ "''    ''"]) (simp_all add: leaf_text_def)
  moreover have "substr ?s (?li + 19) (int (length v) - 3) = Inr (leaf_value_text v)"
  proof (cases "length v < 3")
    case True
    have "?s = (''    '' @ show_nat i @ '' [ label='' @ quote @ ''leaf='') @ v @ quote @ '' ]''" by (simp add: leaf_text_def)
    moreover have "length (''    '' @ show_nat i @ '' [ label='' @ quote @ ''leaf='') = length (show_nat i) + 19" by (simp add: quote_def)
    ultimately have "drop (length (show_nat i) + 19) ?s = v @ quote @ '' ]''" by (metis append_eq_conv_conj)
    then show ?thesis using True by (simp add: substr_def leaf_value_text_def nat_add_distrib leaf_text_def quote_def)
  next
    case False
    have "v = take (length v - 3) v @ drop (length v - 3) v" by simp
    then show ?thesis using False
      by (intro substr_at [of _ "''    '' @ show_nat i @ '' [ label='' @ quote @ ''leaf=''" _ "drop (length v - 3) v @ quote @ '' ]''"])
        (auto simp: leaf_text_def quote_def leaf_value_text_def)
  qed
  ultimately show ?thesis
    using assms stoi_show [of i] by (simp add: processLeafNode_def Let_def leaf_positions algebra_simps)
qed

lemma processLeafNode_text:
  assumes "number_text v" "int i \<le> INT32_MAX" "stod (leaf_value_text v) = Inr x"
  shows "processLeafNode (leaf_text i v) tree = set_node tree (int i)
    \<lparr>nd_value = double_to_float x, nd_indexID = - 1, nd_leftChild = - 1, nd_rightChild = - 1,
     nd_isLeaf = True, nd_isMissTrackLeft = True\<rparr>"
  using assms by (simp add: processLeafNode_reads)

end
