(* ===== verification/Decision_Tree_Correct.thy ===== *)
theory Decision_Tree_Correct
  imports Decision_Texts
begin

text \<open>
  Reading a whole tree: the three passes over the lines fill the array so that it is linked like the tree
  (\<open>construct_linked\<close>), and a walk through a linked array ends in the leaf that the tree prescribes
  (\<open>walk_linked\<close>).
\<close>

lemma edge_text_line:
  "relationship_line (edge_text i j yes missing)" "\<not> leaf_line (edge_text i j yes missing)" "\<not> inner_line (edge_text i j yes missing)"
proof -
  let ?s = "edge_text i j yes missing"
  have d: "CHR ''-'' \<notin> set (show_nat k)" "CHR ''}'' \<notin> set (show_nat k)" "CHR ''p'' \<notin> set (show_nat k)" for k
    by (auto intro!: digits_without simp: digit_value_def)
  have "CHR ''p'' \<notin> set ?s" "CHR ''}'' \<notin> set ?s" using d by (auto simp: edge_text_def quote_def)
  then have "str_find ?s ''graph'' = - 1" "str_find ?s ''}'' = - 1" by (auto intro: str_find_missing)
  moreover have "str_find ?s ''->'' \<noteq> - 1" using d by (simp add: edge_text_def str_find_def find_from_skip)
  moreover have "length ?s \<noteq> 0" by (simp add: edge_text_def)
  ultimately show "relationship_line ?s" "\<not> leaf_line ?s" "\<not> inner_line ?s"
    by (simp_all add: inner_line_def leaf_line_def relationship_line_def skipped_line_def contains_def)
qed

lemma edge_positions:
  "str_find (edge_text i j yes missing) ''->'' = int (length (show_nat i)) + 5"
  "str_find (edge_text i j yes missing) ''['' = int (length (show_nat i)) + int (length (show_nat j)) + 9"
  "contains (edge_text i j yes missing) ''yes, missing'' \<longleftrightarrow> yes \<and> missing"
proof -
  have d: "CHR ''-'' \<notin> set (show_nat k)" "CHR ''['' \<notin> set (show_nat k)" "CHR ''y'' \<notin> set (show_nat k)" for k
    by (auto intro!: digits_without simp: digit_value_def)
  show "str_find (edge_text i j yes missing) ''->'' = int (length (show_nat i)) + 5"
    "str_find (edge_text i j yes missing) ''['' = int (length (show_nat i)) + int (length (show_nat j)) + 9"
    using d by (simp_all add: edge_text_def str_find_def find_from_skip)
  show "contains (edge_text i j yes missing) ''yes, missing'' \<longleftrightarrow> yes \<and> missing"
    using d by (cases yes; cases missing) (simp_all add: contains_def edge_text_def quote_def str_find_def find_from_skip)
qed

lemma processRelationship_text:
  assumes "int i \<le> INT32_MAX" "int j \<le> INT32_MAX"
  shows "processRelationship (edge_text i j yes missing) tree =
    rbind (get_node tree (int i)) (\<lambda>nd.
      set_node tree (int i) (add_child (if yes \<and> missing then nd\<lparr>nd_isMissTrackLeft := True\<rparr> else nd) (int j)))"
proof -
  let ?s = "edge_text i j yes missing" and ?li = "int (length (show_nat i))"
  have "substr ?s 4 ?li = Inr (show_nat i)"
    by (rule substr_at [of _ "''    ''"]) (simp_all add: edge_text_def)
  moreover have "substr ?s (?li + 8) (int (length (show_nat j))) = Inr (show_nat j)"
    by (rule substr_at [of _ "''    '' @ show_nat i @ '' -> ''"]) (simp_all add: edge_text_def)
  ultimately show ?thesis
    using assms stoi_show [of i] stoi_show [of j]
    by (simp add: processRelationship_def Let_def edge_positions algebra_simps)
qed

section \<open>Reading a tree\<close>

fun xids :: "xtree \<Rightarrow> nat list" where
  "xids (XLeaf i v) = [i]"
| "xids (XNode i f thr missLeft yes no) = i # xids yes @ xids no"

text \<open>What a reader needs to know of the numbers and texts of a tree.\<close>

fun xtexts_ok :: "xtree \<Rightarrow> bool" where
  "xtexts_ok (XLeaf i v) \<longleftrightarrow> number_text v \<and> (\<exists>x. stod (leaf_value_text v) = Inr x)"
| "xtexts_ok (XNode i f thr missLeft yes no) \<longleftrightarrow>
     number_text thr \<and> int f \<le> INT32_MAX \<and> (\<exists>x. stod thr = Inr x) \<and> xtexts_ok yes \<and> xtexts_ok no"

definition float_text :: "string \<Rightarrow> 32 word" where
  "float_text s = (case stod s of Inl _ \<Rightarrow> 0 | Inr x \<Rightarrow> double_to_float x)"

definition inner_node :: "nat \<Rightarrow> string \<Rightarrow> Node" where
  "inner_node f thr = \<lparr>nd_value = float_text thr, nd_indexID = int f, nd_leftChild = - 1, nd_rightChild = - 1,
     nd_isLeaf = False, nd_isMissTrackLeft = False\<rparr>"

definition leaf_node :: "string \<Rightarrow> Node" where
  "leaf_node v = \<lparr>nd_value = float_text (leaf_value_text v), nd_indexID = - 1, nd_leftChild = - 1, nd_rightChild = - 1,
     nd_isLeaf = True, nd_isMissTrackLeft = True\<rparr>"

text \<open>The nodes of a tree before and after its edges have been read.\<close>

fun xnodes :: "xtree \<Rightarrow> (nat \<times> Node) list" where
  "xnodes (XLeaf i v) = [(i, leaf_node v)]"
| "xnodes (XNode i f thr missLeft yes no) = (i, inner_node f thr) # xnodes yes @ xnodes no"

fun linked :: "Node list \<Rightarrow> xtree \<Rightarrow> bool" where
  "linked arr (XLeaf i v) \<longleftrightarrow> i < length arr \<and> arr ! i = leaf_node v"
| "linked arr (XNode i f thr missLeft yes no) \<longleftrightarrow> i < length arr \<and>
     arr ! i = (inner_node f thr)\<lparr>nd_leftChild := int (xid yes), nd_rightChild := int (xid no), nd_isMissTrackLeft := missLeft\<rparr> \<and>
     linked arr yes \<and> linked arr no"

lemma xid_in: "xid t \<in> set (xids t)"
  by (cases t) auto

lemma map_xnodes: "map fst (xnodes t) = xids t"
  by (induction t) auto

text \<open>The three passes over the lines of a tree.\<close>

fun inner_lines :: "xtree \<Rightarrow> (nat \<times> Node) list" where
  "inner_lines (XLeaf i v) = []"
| "inner_lines (XNode i f thr missLeft yes no) = (i, inner_node f thr) # inner_lines yes @ inner_lines no"

fun leaf_lines :: "xtree \<Rightarrow> (nat \<times> Node) list" where
  "leaf_lines (XLeaf i v) = [(i, leaf_node v)]"
| "leaf_lines (XNode i f thr missLeft yes no) = leaf_lines yes @ leaf_lines no"

definition put_nodes :: "(nat \<times> Node) list \<Rightarrow> Node list \<Rightarrow> Node list" where
  "put_nodes ns arr = foldl (\<lambda>arr (i, nd). arr[i := nd]) arr ns"

lemma put_nodes_simps [simp]:
  "put_nodes [] arr = arr" "put_nodes ((i, nd) # ns) arr = put_nodes ns (arr[i := nd])"
  "put_nodes (ns @ ns') arr = put_nodes ns' (put_nodes ns arr)" "length (put_nodes ns arr) = length arr"
proof -
  show "length (put_nodes ns arr) = length arr"
    unfolding put_nodes_def by (induction ns arbitrary: arr) auto
qed (simp_all add: put_nodes_def)

lemma put_nodes_other: "i \<notin> fst ` set ns \<Longrightarrow> put_nodes ns arr ! i = arr ! i"
  by (induction ns arbitrary: arr) (auto simp: put_nodes_def)

lemma put_nodes_at: "distinct (map fst ns) \<Longrightarrow> (i, nd) \<in> set ns \<Longrightarrow> i < length arr \<Longrightarrow> put_nodes ns arr ! i = nd"
proof (induction ns arbitrary: arr)
  case (Cons n ns)
  obtain j nd' where n: "n = (j, nd')" by fastforce
  show ?case
  proof (cases "(i, nd) \<in> set ns")
    case True
    then show ?thesis using Cons n by simp
  next
    case False
    then have "n = (i, nd)" "i \<notin> fst ` set ns" using Cons.prems n by auto
    then show ?thesis using n Cons.prems(3) by (simp add: put_nodes_other)
  qed
qed simp

lemma passes:
  assumes "xtexts_ok t" "\<forall>i \<in> set (xids t). i < length arr \<and> int i \<le> INT32_MAX"
  shows "processInnerNodes (filter inner_line (xdump t)) arr = Inr (put_nodes (inner_lines t) arr) \<and>
    processLeafNodes (filter leaf_line (xdump t)) arr = Inr (put_nodes (leaf_lines t) arr)"
  using assms
proof (induction t arbitrary: arr)
  case (XLeaf i v)
  then obtain x where x: "stod (leaf_value_text v) = Inr x" and v: "number_text v" and i: "i < length arr" "int i \<le> INT32_MAX"
    by auto
  show ?case
    using i by (simp add: processInnerNodes_def processLeafNodes_def leaf_text_line [OF v] processLeafNode_text [OF v _ x]
      set_node_def leaf_node_def float_text_def x)
next
  case (XNode i f thr m yes no)
  have empty: "\<not> inner_line []" "\<not> leaf_line []" by (simp_all add: inner_line_def leaf_line_def skipped_line_def)
  obtain x where x: "stod thr = Inr x" "number_text thr" "int f \<le> INT32_MAX" using XNode.prems by auto
  have i: "i < length arr" "int i \<le> INT32_MAX" using XNode.prems by auto
  have "processInnerNode (inner_text i f thr) arr = Inr (arr[i := inner_node f thr])"
    using x i by (simp add: processInnerNode_text set_node_def inner_node_def float_text_def)
  then show ?case
    using XNode.IH(1) [of "arr[i := inner_node f thr]"] XNode.IH(2) [of "put_nodes (inner_lines yes) (arr[i := inner_node f thr])"]
      XNode.IH(1) [of arr] XNode.IH(2) [of "put_nodes (leaf_lines yes) arr"] XNode.prems x(2)
    by (simp add: processInnerNodes_def processLeafNodes_def inner_text_line edge_text_line empty run_ops_append)
qed

definition placed :: "Node list \<Rightarrow> xtree \<Rightarrow> bool" where
  "placed arr t \<longleftrightarrow> (\<forall>(i, nd) \<in> set (xnodes t). i < length arr \<and> arr ! i = nd)"

lemma placed_simps [simp]:
  "placed arr (XLeaf i v) \<longleftrightarrow> i < length arr \<and> arr ! i = leaf_node v"
  "placed arr (XNode i f thr m yes no) \<longleftrightarrow> i < length arr \<and> arr ! i = inner_node f thr \<and> placed arr yes \<and> placed arr no"
  by (auto simp: placed_def ball_Un)

lemma placed_cong: "length arr' = length arr \<Longrightarrow> (\<And>i. i \<in> set (xids t) \<Longrightarrow> arr' ! i = arr ! i) \<Longrightarrow> placed arr t \<Longrightarrow> placed arr' t"
  by (induction t) auto

lemma linked_cong: "length arr' = length arr \<Longrightarrow> (\<And>i. i \<in> set (xids t) \<Longrightarrow> arr' ! i = arr ! i) \<Longrightarrow> linked arr t \<Longrightarrow> linked arr' t"
  by (induction t) auto

lemma lines_nodes:
  "set (xnodes t) = set (inner_lines t) \<union> set (leaf_lines t)"
  "distinct (xids t) \<Longrightarrow> distinct (map fst (inner_lines t)) \<and> distinct (map fst (leaf_lines t)) \<and>
    fst ` set (inner_lines t) \<inter> fst ` set (leaf_lines t) = {}"
proof -
  show s: "set (xnodes t) = set (inner_lines t) \<union> set (leaf_lines t)" for t by (induction t) auto
  have ids: "set (xids t) = fst ` set (inner_lines t) \<union> fst ` set (leaf_lines t)" for t
    by (induction t) auto
  show "distinct (xids t) \<Longrightarrow> distinct (map fst (inner_lines t)) \<and> distinct (map fst (leaf_lines t)) \<and>
    fst ` set (inner_lines t) \<inter> fst ` set (leaf_lines t) = {}"
  proof (induction t)
    case (XNode i f thr m yes no)
    then have "i \<notin> set (xids yes)" "i \<notin> set (xids no)" "set (xids yes) \<inter> set (xids no) = {}" by auto
    moreover note ids [of yes] ids [of no]
    ultimately show ?case using XNode.IH XNode.prems by (simp add: Int_Un_distrib Int_Un_distrib2) (auto simp: disjoint_iff)
  qed simp
qed

lemma passes_placed:
  assumes "distinct (xids t)" "\<forall>i \<in> set (xids t). i < length arr"
  shows "placed (put_nodes (leaf_lines t) (put_nodes (inner_lines t) arr)) t"
  unfolding placed_def
proof safe
  fix i nd assume n: "(i, nd) \<in> set (xnodes t)"
  then have "i \<in> set (xids t)" unfolding map_xnodes [symmetric] by force
  then have i: "i < length arr" using assms by blast
  then show "i < length (put_nodes (leaf_lines t) (put_nodes (inner_lines t) arr))" by simp
  note d = lines_nodes(2) [OF assms(1)]
  show "put_nodes (leaf_lines t) (put_nodes (inner_lines t) arr) ! i = nd"
  proof (cases "(i, nd) \<in> set (leaf_lines t)")
    case True
    then show ?thesis using d i by (simp add: put_nodes_at)
  next
    case False
    then have m: "(i, nd) \<in> set (inner_lines t)" using n lines_nodes(1) by blast
    then have "i \<in> fst ` set (inner_lines t)" by force
    then have "i \<notin> fst ` set (leaf_lines t)" using d by blast
    then show ?thesis using d i m by (simp add: put_nodes_other put_nodes_at)
  qed
qed

lemma edges_linked:
  assumes "xtexts_ok t" "distinct (xids t)" "\<forall>i \<in> set (xids t). int i \<le> INT32_MAX" "placed arr t"
  shows "\<exists>arr'. processRelationships (filter relationship_line (xdump t)) arr = Inr arr' \<and> length arr' = length arr \<and>
    linked arr' t \<and> (\<forall>i. i \<notin> set (xids t) \<longrightarrow> arr' ! i = arr ! i)"
  using assms
proof (induction t arbitrary: arr)
  case (XLeaf i v)
  then show ?case by (auto simp: leaf_text_line processRelationships_def)
next
  case (XNode i f thr m yes no)
  let ?n1 = "(inner_node f thr)\<lparr>nd_leftChild := int (xid yes), nd_isMissTrackLeft := m\<rparr>"
  let ?n2 = "?n1\<lparr>nd_rightChild := int (xid no)\<rparr>"
  let ?arr = "arr[i := ?n2]"
  have i: "i < length arr" "arr ! i = inner_node f thr" "int i \<le> INT32_MAX" and thr: "number_text thr"
    using XNode.prems by auto
  have c: "int (xid yes) \<le> INT32_MAX" "int (xid no) \<le> INT32_MAX"
    using XNode.prems(3) xid_in [of yes] xid_in [of no] by auto
  have e1: "processRelationship (edge_text i (xid yes) True m) arr = Inr (arr[i := ?n1])"
    using i c by (simp add: processRelationship_text get_node_def set_node_def add_child_def inner_node_def)
  have e2: "processRelationship (edge_text i (xid no) False (\<not> m)) (arr[i := ?n1]) = Inr ?arr"
    using i c by (simp add: processRelationship_text get_node_def set_node_def add_child_def inner_node_def)
  have out: "i \<notin> set (xids yes)" "i \<notin> set (xids no)" "set (xids yes) \<inter> set (xids no) = {}"
    using XNode.prems(2) by auto
  have "placed ?arr yes" by (rule placed_cong [of _ arr]) (use out XNode.prems in \<open>auto simp: nth_list_update\<close>)
  then obtain a1 where a1: "processRelationships (filter relationship_line (xdump yes)) ?arr = Inr a1" "length a1 = length arr"
      "linked a1 yes" "\<forall>i. i \<notin> set (xids yes) \<longrightarrow> a1 ! i = ?arr ! i"
    using XNode.IH(1) [of ?arr] XNode.prems by auto
  have "placed a1 no" by (rule placed_cong [of _ arr]) (use out XNode.prems a1 in \<open>auto simp: nth_list_update\<close>)
  then obtain a2 where a2: "processRelationships (filter relationship_line (xdump no)) a1 = Inr a2" "length a2 = length arr"
      "linked a2 no" "\<forall>i. i \<notin> set (xids no) \<longrightarrow> a2 ! i = a1 ! i"
    using XNode.IH(2) [of a1] XNode.prems a1(2) by auto
  have "linked a2 yes" by (rule linked_cong [of _ a1]) (use out a1 a2 in auto)
  moreover have "a2 ! i = ?n2" using a1(4) a2(4) out i by simp
  moreover have "\<not> relationship_line []" by (simp add: relationship_line_def skipped_line_def)
  ultimately show ?case
    using a1 a2 e1 e2 i(1)
    by (auto simp: processRelationships_def inner_text_line [OF thr] edge_text_line run_ops_append intro!: exI [of _ a2])
qed

definition xtree_ok :: "xtree \<Rightarrow> bool" where
  "xtree_ok t \<longleftrightarrow> xid t = 0 \<and> distinct (xids t) \<and> (\<forall>i \<in> set (xids t). i < MAX_NUM_NODES_PER_TREE) \<and> xtexts_ok t"

lemma dump_lines:
  "filter relationship_line (dump_file t) = filter relationship_line (xdump t)"
  "filter inner_line (dump_file t) = filter inner_line (xdump t)"
  "filter leaf_line (dump_file t) = filter leaf_line (xdump t)"
proof -
  have "skipped_line ''digraph {''" "skipped_line ''    graph [ rankdir=TB ]''" "skipped_line []" "skipped_line ''}''"
    by (simp_all add: skipped_line_def contains_def str_find_def)
  then show "filter relationship_line (dump_file t) = filter relationship_line (xdump t)"
    "filter inner_line (dump_file t) = filter inner_line (xdump t)"
    "filter leaf_line (dump_file t) = filter leaf_line (xdump t)"
    by (simp_all add: dump_file_def relationship_line_def inner_line_def leaf_line_def)
qed

lemma construct_linked:
  assumes "xtree_ok t" "files p = Some (dump_file t)" "length raw = MAX_NUM_NODES_PER_TREE"
  shows "\<exists>tr. Tree_new files raw n p = Inr tr \<and> linked (tr_tree tr) t \<and> tr_treeId tr = n"
proof -
  let ?arr = "put_nodes (leaf_lines t) (put_nodes (inner_lines t) raw)"
  have ids: "\<forall>i \<in> set (xids t). i < length raw \<and> int i \<le> INT32_MAX" and t: "xtexts_ok t" "distinct (xids t)"
    using assms by (auto simp: xtree_ok_def MAX_NUM_NODES_PER_TREE_def)
  have "placed ?arr t" using passes_placed [of t raw] ids t by simp
  then obtain arr' where e: "processRelationships (filter relationship_line (xdump t)) ?arr = Inr arr'" "linked arr' t"
    using edges_linked [OF t] ids by blast
  have p: "processInnerNodes (filter inner_line (xdump t)) raw = Inr (put_nodes (inner_lines t) raw)"
    "processLeafNodes (filter leaf_line (xdump t)) (put_nodes (inner_lines t) raw) = Inr ?arr"
    using passes [OF t(1), of raw] passes [OF t(1), of "put_nodes (inner_lines t) raw"] ids by simp_all
  show ?thesis
    using e p assms by (simp add: Tree_new_def constructTreeFromPath_def constructTreeFromPathHelper_def dump_lines)
qed

section \<open>Evaluating a tree\<close>

text \<open>
  A row is a function from the features to their values. With \<open>track\<close>, missing values follow the default
  direction of a node. \<open>xleaf\<close> is the text of the leaf that the tree prescribes for a row and \<open>xeval\<close> its value, which is
  the prediction of the dumped tree. \<open>xread\<close> is the value that is left when the reader has dropped the last three
  characters of the text of the leaf; the two agree when no leaf depends on these characters.
\<close>

fun xleaf :: "bool \<Rightarrow> xtree \<Rightarrow> (nat \<Rightarrow> 32 word) \<Rightarrow> string" where
  "xleaf track (XLeaf i v) row = v"
| "xleaf track (XNode i f thr missLeft yes no) row =
     (if (if track \<and> isnan (row f) then missLeft else fp_less (row f) (float_text thr))
      then xleaf track yes row else xleaf track no row)"

definition xeval :: "bool \<Rightarrow> xtree \<Rightarrow> (nat \<Rightarrow> 32 word) \<Rightarrow> 32 word" where
  "xeval track t row = float_text (xleaf track t row)"

definition xread :: "bool \<Rightarrow> xtree \<Rightarrow> (nat \<Rightarrow> 32 word) \<Rightarrow> 32 word" where
  "xread track t row = float_text (leaf_value_text (xleaf track t row))"

fun xleaves :: "xtree \<Rightarrow> string set" where
  "xleaves (XLeaf i v) = {v}"
| "xleaves (XNode i f thr missLeft yes no) = xleaves yes \<union> xleaves no"

lemma xleaf_in: "xleaf track t row \<in> xleaves t"
  by (induction t) auto

lemma xread_eval: "\<forall>v \<in> xleaves t. float_text (leaf_value_text v) = float_text v \<Longrightarrow> xread track t row = xeval track t row"
  using xleaf_in [of track t row] by (auto simp: xread_def xeval_def)

lemma xread_simps [simp]:
  "xread track (XLeaf i v) row = float_text (leaf_value_text v)"
  "xread track (XNode i f thr missLeft yes no) row =
     (if (if track \<and> isnan (row f) then missLeft else fp_less (row f) (float_text thr))
      then xread track yes row else xread track no row)"
  by (simp_all add: xread_def)

fun xfeatures :: "xtree \<Rightarrow> nat set" where
  "xfeatures (XLeaf i v) = {}"
| "xfeatures (XNode i f thr missLeft yes no) = {f} \<union> xfeatures yes \<union> xfeatures no"

definition row_at :: "32 word list \<Rightarrow> int \<Rightarrow> nat \<Rightarrow> 32 word" where
  "row_at input base f = input ! nat (base + int f)"

lemma walk_linked:
  assumes "linked arr t" "0 \<le> base" "\<forall>f \<in> xfeatures t. base + int f < int (length input)" "int (length input) \<le> INT32_MAX"
  shows "tree_walk (if track then next_index_missing else next_index) arr input base (int (xid t)) =
    Some (Inr (xread track t (row_at input base)))"
  using assms
proof (induction t)
  case (XLeaf i v)
  then show ?case by (subst tree_walk.simps) (simp add: get_node_def leaf_node_def)
next
  case (XNode i f thr m yes no)
  then have "feature input base (int f) = Inr (row_at input base f)"
    by (auto simp: feature_def i32_res_def i32_def row_at_def)
  then show ?case using XNode
    by (subst tree_walk.simps) (auto simp: get_node_def inner_node_def next_index_missing_def next_index_def)
qed

lemma predict_linked:
  assumes "linked (tr_tree tr) t" "xid t = 0" "0 \<le> base" "\<forall>f \<in> xfeatures t. base + int f < int (length input)"
    "int (length input) \<le> INT32_MAX"
  shows "returned (tree_walk (if track then next_index_missing else next_index) (tr_tree tr) input base 0) =
    Inr (xread track t (row_at input base))"
  using walk_linked [OF assms(1,3-5)] assms(2) by (simp add: returned_def)

end
