(* ===== verification/Decision_Forest.thy ===== *)
theory Decision_Forest
  imports Decision_Tree
begin

text \<open>
  Decision forests of \<open>velox/ml_functions/DecisionForest.h\<close>: an array of trees that is read from the files of a folder;
  a prediction is the average of the predictions of the trees, or for a classification its sign. The entries
  of the folder are an argument, in the order in which \<open>readdir\<close> gives them.
\<close>

definition MAX_NUM_TREES :: nat where
  "MAX_NUM_TREES = 1600"

record Forest =
  fo_forest :: "Node list list"
  fo_numTrees :: int
  fo_isClassification :: bool

definition vectorizeForestFolder :: "(string \<Rightarrow> string list option) \<Rightarrow> string \<Rightarrow> string list res" where
  "vectorizeForestFolder folders pathToFolder =
     (if pathToFolder = [] then Inl OutOfRange
      else
        let folder = (if last pathToFolder \<noteq> CHR ''/'' then pathToFolder @ ''/'' else pathToFolder)
        in rbind (deref (folders folder)) (\<lambda>names.
             Inr (map (\<lambda>name. folder @ name) (filter (\<lambda>name. name \<noteq> ''.'' \<and> name \<noteq> ''..'') names))))"

text \<open>The loop over the paths, with the number of the next tree.\<close>

fun construct_trees ::
    "(string \<Rightarrow> string list option) \<Rightarrow> nat \<Rightarrow> string list \<Rightarrow> Node list list \<Rightarrow> Node list list res" where
  "construct_trees files n [] forest = Inr forest"
| "construct_trees files n (path # paths) forest =
     (if n < length forest then
        rbind (constructTreeFromPath files path (forest ! n)) (\<lambda>tree.
          construct_trees files (Suc n) paths (forest[n := tree]))
      else Inl OutOfRange)"

definition constructForestFromPaths ::
    "(string \<Rightarrow> string list option) \<Rightarrow> string list \<Rightarrow> Forest \<Rightarrow> Forest res" where
  "constructForestFromPaths files treesPathIn f =
     rbind (construct_trees files 0 treesPathIn (fo_forest f)) (\<lambda>forest.
       Inr (f\<lparr>fo_forest := forest, fo_numTrees := int (length treesPathIn)\<rparr>))"

definition constructForestFromFolder ::
    "(string \<Rightarrow> string list option) \<Rightarrow> (string \<Rightarrow> string list option) \<Rightarrow> string \<Rightarrow> Forest \<Rightarrow> Forest res" where
  "constructForestFromFolder folders files pathToFolder f =
     rbind (vectorizeForestFolder folders pathToFolder) (\<lambda>treePaths. constructForestFromPaths files treePaths f)"

text \<open>\<open>raw\<close> is what the array holds before it is filled: \<open>MAX_NUM_TREES\<close> arrays of \<open>MAX_NUM_NODES_PER_TREE\<close> nodes.\<close>

definition Forest_new ::
    "(string \<Rightarrow> string list option) \<Rightarrow> (string \<Rightarrow> string list option) \<Rightarrow> Node list list \<Rightarrow> string \<Rightarrow> bool \<Rightarrow> Forest res" where
  "Forest_new folders files raw pathToFolder isClassification =
     constructForestFromFolder folders files pathToFolder
       \<lparr>fo_forest = map (take MAX_NUM_NODES_PER_TREE) (take MAX_NUM_TREES raw), fo_numTrees = 0,
        fo_isClassification = isClassification\<rparr>"

text \<open>The loop over the trees for one row, the average, and the loop over the rows.\<close>

definition accumulate :: "Forest \<Rightarrow> 32 word list \<Rightarrow> int \<Rightarrow> 32 word res" where
  "accumulate f input curBase =
     run_ops (\<lambda>treeIndex accumulatedResult.
       if 0 \<le> treeIndex \<and> nat treeIndex < length (fo_forest f) then
         rbind (returned (tree_walk next_index (fo_forest f ! nat treeIndex) input curBase 0)) (\<lambda>leafValue.
           Inr (float_add accumulatedResult leafValue))
       else Inl OutOfRange) [0..fo_numTrees f - 1] 0"

definition finish :: "Forest \<Rightarrow> 32 word \<Rightarrow> 32 word" where
  "finish f accumulatedResult =
     (let mean = float_div accumulatedResult (float_of_int (fo_numTrees f))
      in if fo_isClassification f then (if fp_less 0 mean then 0x3F800000 else 0) else mean)"

definition forest_predict :: "Forest \<Rightarrow> 32 word list \<Rightarrow> int \<Rightarrow> int \<Rightarrow> 32 word list res" where
  "forest_predict f input numInputs numFeatures =
     rmap (\<lambda>rowIndex. rbind (i32_res (rowIndex * numFeatures)) (\<lambda>curBase.
       rbind (accumulate f input curBase) (\<lambda>accumulatedResult. Inr (finish f accumulatedResult))))
       [0..numInputs - 1]"

record ForestPrediction =
  fp_forest :: Forest
  fp_numFeatures :: int
  fp_forestPath :: string
  fp_isClassification :: bool

definition ForestPrediction_new ::
    "(string \<Rightarrow> string list option) \<Rightarrow> (string \<Rightarrow> string list option) \<Rightarrow> Node list list \<Rightarrow> string \<Rightarrow> int \<Rightarrow> bool \<Rightarrow> ForestPrediction res" where
  "ForestPrediction_new folders files raw forestPath numFeatures isClassification =
     (if folders forestPath = None \<and> files forestPath = None then Inl RuntimeError
      else rbind (Forest_new folders files raw forestPath isClassification) (\<lambda>f.
        Inr \<lparr>fp_forest = f, fp_numFeatures = numFeatures, fp_forestPath = forestPath,
             fp_isClassification = isClassification\<rparr>))"

definition ForestPrediction_apply :: "ForestPrediction \<Rightarrow> int \<Rightarrow> 32 word list \<Rightarrow> 32 word list res" where
  "ForestPrediction_apply fp numInputs input = forest_predict (fp_forest fp) input numInputs (fp_numFeatures fp)"

end
