(* ===== verification/Decision_Forest_Correct.thy ===== *)
theory Decision_Forest_Correct
  imports Decision_Tree_Correct Decision_Forest
begin

text \<open>
  Predictions for batches of rows: trees with and without tracking of missing values, and forests, whose
  results are the average or the class of the trees' results.
\<close>

text \<open>The rows of a batch lie one after another in the input.\<close>

definition batch_ok :: "nat set \<Rightarrow> 32 word list \<Rightarrow> int \<Rightarrow> int \<Rightarrow> bool" where
  "batch_ok fs input numInputs numFeatures \<longleftrightarrow>
     0 \<le> numFeatures \<and> (\<forall>f \<in> fs. int f < numFeatures) \<and> numInputs * numFeatures \<le> int (length input) \<and>
     int (length input) \<le> INT32_MAX"

lemma batch_row:
  assumes "batch_ok fs input numInputs numFeatures" "r \<in> set [0..numInputs - 1]"
  shows "i32_res (r * numFeatures) = Inr (r * numFeatures)" "0 \<le> r * numFeatures"
    "\<forall>f \<in> fs. r * numFeatures + int f < int (length input)" "int (length input) \<le> INT32_MAX"
proof -
  have r: "0 \<le> r" "r + 1 \<le> numInputs" and n: "0 \<le> numFeatures" using assms by (auto simp: batch_ok_def)
  then have p: "0 \<le> r * numFeatures" by simp
  have "(r + 1) * numFeatures \<le> numInputs * numFeatures" using r n by (intro mult_right_mono) auto
  then have q: "r * numFeatures + numFeatures \<le> int (length input)" using assms by (simp add: batch_ok_def algebra_simps)
  have "INT32_MIN \<le> r * numFeatures" "r * numFeatures \<le> INT32_MAX"
    using p q n assms unfolding batch_ok_def by linarith+
  then show "i32_res (r * numFeatures) = Inr (r * numFeatures)" by (simp add: i32_res_def i32_def)
  show "0 \<le> r * numFeatures" by (rule p)
  show "\<forall>f \<in> fs. r * numFeatures + int f < int (length input)" using q assms by (auto simp: batch_ok_def)
  show "int (length input) \<le> INT32_MAX" using assms by (simp add: batch_ok_def)
qed

lemma predict_rows:
  assumes "linked (tr_tree tr) t" "xid t = 0" "batch_ok (xfeatures t) input numInputs numFeatures"
  shows "TreePrediction_apply \<lparr>tp_tree = tr, tp_numFeatures = numFeatures, tp_hasMissing = hasMissing\<rparr> numInputs input =
    Inr (map (\<lambda>r. xread hasMissing t (row_at input (r * numFeatures))) [0..numInputs - 1])"
proof -
  have "rmap (\<lambda>r. rbind (i32_res (r * numFeatures)) (\<lambda>curBase. returned (tree_walk (if hasMissing then next_index_missing else next_index)
      (tr_tree tr) input curBase 0))) [0..numInputs - 1] =
    Inr (map (\<lambda>r. xread hasMissing t (row_at input (r * numFeatures))) [0..numInputs - 1])"
  proof (rule rmap_total)
    fix r assume "r \<in> set [0..numInputs - 1]"
    note b = batch_row [OF assms(3) this]
    show "rbind (i32_res (r * numFeatures)) (\<lambda>curBase. returned (tree_walk (if hasMissing then next_index_missing else next_index)
      (tr_tree tr) input curBase 0)) = Inr (xread hasMissing t (row_at input (r * numFeatures)))"
      using predict_linked [OF assms(1,2) b(2-4)] b(1) by simp
  qed
  then show ?thesis by (cases hasMissing) (simp_all add: TreePrediction_apply_def predictMissing_def tree_predict_def)
qed

section \<open>Missing values\<close>

lemma tree_walk_le:
  assumes "\<And>nd v. v \<in> set input \<Longrightarrow> g nd v = h nd v" "tree_walk g tree input base cur = Some r"
  shows "tree_walk h tree input base cur = Some r"
proof -
  let ?P = "\<lambda>g' tree' input' base cur r. g' = g \<longrightarrow> input' = input \<longrightarrow> tree_walk h tree' input' base cur = Some r"
  have "?P g tree input base cur r"
  proof (rule tree_walk.raw_induct [of ?P])
    fix walk g' tree' input' base cur r
    assume IH: "\<And>g' tree' input' base cur r. walk g' tree' input' base cur = Some r \<Longrightarrow> ?P g' tree' input' base cur r"
      and walk: "(case get_node tree' cur of Inl e \<Rightarrow> Some (Inl e)
        | Inr nd \<Rightarrow> if nd_isLeaf nd then Some (Inr (nd_value nd))
            else (case feature input' base (nd_indexID nd) of
                Inl e \<Rightarrow> Some (Inl e)
              | Inr featureValue \<Rightarrow> walk g' tree' input' base (g' nd featureValue))) = Some r"
    have "v \<in> set input'" if "feature input' base i = Inr v" for i v
      using that by (auto simp: feature_def split: if_splits)
    then show "?P g' tree' input' base cur r"
      using IH walk assms(1) by (subst tree_walk.simps) (auto split: sum.splits if_splits)
  qed (rule assms(2))
  then show ?thesis by simp
qed

lemma tree_walk_eq:
  assumes "\<And>nd v. v \<in> set input \<Longrightarrow> g nd v = h nd v"
  shows "tree_walk g tree input base cur = tree_walk h tree input base cur"
proof (cases "tree_walk g tree input base cur")
  case None
  then show ?thesis using tree_walk_le [of input h g tree base cur] assms by (cases "tree_walk h tree input base cur") auto
next
  case (Some r)
  then show ?thesis using tree_walk_le [of input g h tree base cur r] assms by simp
qed

text \<open>Without NaN the two ways to predict agree, for every array of nodes.\<close>

lemma predictMissing_predict:
  assumes "\<forall>v \<in> set input. \<not> isnan v"
  shows "predictMissing tr input numInputs numFeatures = tree_predict tr input numInputs numFeatures"
proof -
  have "tree_walk next_index_missing tree input base cur = tree_walk next_index tree input base cur" for tree base cur
    using assms by (intro tree_walk_eq) (simp add: next_index_missing_def)
  then show ?thesis by (simp add: predictMissing_def tree_predict_def)
qed

section \<open>Forests\<close>

text \<open>The trees of a forest, the sum of their values in the order of the trees, and the result for a row.\<close>

definition xsum :: "xtree list \<Rightarrow> (nat \<Rightarrow> 32 word) \<Rightarrow> 32 word" where
  "xsum ts row = foldl (\<lambda>acc t. float_add acc (xread False t row)) 0 ts"

definition xforest :: "bool \<Rightarrow> xtree list \<Rightarrow> (nat \<Rightarrow> 32 word) \<Rightarrow> 32 word" where
  "xforest classify ts row =
     (let mean = float_div (xsum ts row) (float_of_int (int (length ts)))
      in if classify then (if fp_less 0 mean then 0x3F800000 else 0) else mean)"

lemma construct_linked_array:
  assumes "xtree_ok t" "files p = Some (dump_file t)" "length raw = MAX_NUM_NODES_PER_TREE"
  shows "\<exists>arr. constructTreeFromPath files p raw = Inr arr \<and> linked arr t"
  using construct_linked [of t files p raw 0] assms by (auto simp: Tree_new_def)

lemma construct_trees_linked:
  assumes "\<And>k. k < length ts \<Longrightarrow> xtree_ok (ts ! k) \<and> files (paths ! k) = Some (dump_file (ts ! k))"
    and "length paths = length ts" "n + length ts \<le> length raw"
    and "\<And>k. k < length ts \<Longrightarrow> length (raw ! (n + k)) = MAX_NUM_NODES_PER_TREE"
  shows "\<exists>forest. construct_trees files n paths raw = Inr forest \<and> length forest = length raw \<and>
    (\<forall>k < length ts. linked (forest ! (n + k)) (ts ! k)) \<and> (\<forall>k < n. forest ! k = raw ! k)"
  using assms
proof (induction ts arbitrary: n paths raw)
  case (Cons t ts)
  obtain p ps where ps: "paths = p # ps" using Cons.prems(2) by (cases paths) auto
  have "xtree_ok t" "files p = Some (dump_file t)" "length (raw ! n) = MAX_NUM_NODES_PER_TREE"
    using Cons.prems(1) [of 0] Cons.prems(4) [of 0] ps by auto
  then obtain arr where arr: "constructTreeFromPath files p (raw ! n) = Inr arr" "linked arr t"
    using construct_linked_array by blast
  have "\<exists>forest. construct_trees files (Suc n) ps (raw[n := arr]) = Inr forest \<and> length forest = length (raw[n := arr]) \<and>
    (\<forall>k < length ts. linked (forest ! (Suc n + k)) (ts ! k)) \<and> (\<forall>k < Suc n. forest ! k = raw[n := arr] ! k)"
  proof (rule Cons.IH)
    fix k assume "k < length ts"
    then show "xtree_ok (ts ! k) \<and> files (ps ! k) = Some (dump_file (ts ! k))"
      "length (raw[n := arr] ! (Suc n + k)) = MAX_NUM_NODES_PER_TREE"
      using Cons.prems(1) [of "Suc k"] Cons.prems(4) [of "Suc k"] ps by auto
  qed (use Cons.prems ps in auto)
  then obtain forest where f: "construct_trees files (Suc n) ps (raw[n := arr]) = Inr forest" "length forest = length raw"
      "\<forall>k < length ts. linked (forest ! (Suc n + k)) (ts ! k)" "\<forall>k < Suc n. forest ! k = raw[n := arr] ! k"
    by auto
  have "linked (forest ! (n + k)) ((t # ts) ! k)" if "k < length (t # ts)" for k
    using that f(3,4) arr(2) Cons.prems(3) by (cases k) auto
  then show ?case using f arr(1) Cons.prems(3) ps by auto
qed auto

lemma upto_ints: "[0..int n - 1] = map int [0..<n]"
  by (induction n) (auto simp: upto_rec2)

lemma accumulate_linked:
  assumes "\<And>k. k < length ts \<Longrightarrow> linked (fo_forest f ! k) (ts ! k) \<and> xid (ts ! k) = 0"
    and "length ts \<le> length (fo_forest f)" "fo_numTrees f = int (length ts)" "0 \<le> base"
    and "\<And>t fe. t \<in> set ts \<Longrightarrow> fe \<in> xfeatures t \<Longrightarrow> base + int fe < int (length input)" "int (length input) \<le> INT32_MAX"
  shows "accumulate f input base = Inr (xsum ts (row_at input base))"
proof -
  let ?step = "\<lambda>treeIndex accumulatedResult.
    if 0 \<le> treeIndex \<and> nat treeIndex < length (fo_forest f) then
      rbind (returned (tree_walk next_index (fo_forest f ! nat treeIndex) input base 0)) (\<lambda>leafValue.
        Inr (float_add accumulatedResult leafValue))
    else Inl OutOfRange"
  have walk: "returned (tree_walk next_index (fo_forest f ! k) input base 0) = Inr (xread False (ts ! k) (row_at input base))"
    if "k < length ts" for k
  proof -
    have "\<forall>fe \<in> xfeatures (ts ! k). base + int fe < int (length input)" using assms(5) nth_mem [OF that] by blast
    then show ?thesis
      using walk_linked [of "fo_forest f ! k" "ts ! k" base input False] assms(1) [OF that] assms(4,6) by (simp add: returned_def)
  qed
  have "run_ops ?step (map int [0..<n]) acc =
      Inr (foldl (\<lambda>acc t. float_add acc (xread False t (row_at input base))) acc (take n ts))" if "n \<le> length ts" for n acc
    using that
  proof (induction n)
    case (Suc n)
    then show ?case using walk [of n] assms(2) by (simp add: run_ops_append take_Suc_conv_app_nth)
  qed simp
  from this [of "length ts" 0] show ?thesis
    by (simp add: accumulate_def xsum_def assms(3) upto_ints)
qed

lemma forest_rows:
  assumes "\<And>k. k < length ts \<Longrightarrow> linked (fo_forest f ! k) (ts ! k) \<and> xid (ts ! k) = 0"
    and "length ts \<le> length (fo_forest f)" "fo_numTrees f = int (length ts)"
    and "batch_ok (\<Union> (xfeatures ` set ts)) input numInputs numFeatures"
  shows "forest_predict f input numInputs numFeatures =
    Inr (map (\<lambda>r. xforest (fo_isClassification f) ts (row_at input (r * numFeatures))) [0..numInputs - 1])"
  unfolding forest_predict_def
proof (rule rmap_total)
  fix r assume "r \<in> set [0..numInputs - 1]"
  note b = batch_row [OF assms(4) this]
  have "accumulate f input (r * numFeatures) = Inr (xsum ts (row_at input (r * numFeatures)))"
    by (rule accumulate_linked) (use assms(1-3) b in auto)
  then show "rbind (i32_res (r * numFeatures)) (\<lambda>curBase. rbind (accumulate f input curBase) (\<lambda>a. Inr (finish f a))) =
      Inr (xforest (fo_isClassification f) ts (row_at input (r * numFeatures)))"
    using b(1) assms(3) by (simp add: finish_def xforest_def)
qed

lemma forest_linked:
  assumes "folders (folder @ ''/'') = Some names" "filter (\<lambda>name. name \<noteq> ''.'' \<and> name \<noteq> ''..'') names = map fst ns"
    and "\<And>name t. (name, t) \<in> set ns \<Longrightarrow> xtree_ok t \<and> files (folder @ ''/'' @ name) = Some (dump_file t)"
    and "length ns \<le> MAX_NUM_TREES" "length raw = MAX_NUM_TREES" "\<And>arr. arr \<in> set raw \<Longrightarrow> length arr = MAX_NUM_NODES_PER_TREE"
    and "folder \<noteq> []" "last folder \<noteq> CHR ''/''"
  shows "\<exists>f. Forest_new folders files raw folder classify = Inr f \<and> fo_isClassification f = classify \<and>
    fo_numTrees f = int (length ns) \<and> length ns \<le> length (fo_forest f) \<and>
    (\<forall>k < length ns. linked (fo_forest f ! k) (map snd ns ! k))"
proof -
  let ?paths = "map (\<lambda>name. (folder @ ''/'') @ name) (map fst ns)"
  have raw: "map (take MAX_NUM_NODES_PER_TREE) (take MAX_NUM_TREES raw) = raw" using assms(5,6) by (auto intro: map_idI)
  have "\<exists>forest. construct_trees files 0 ?paths raw = Inr forest \<and> length forest = length raw \<and>
    (\<forall>k < length (map snd ns). linked (forest ! (0 + k)) (map snd ns ! k)) \<and> (\<forall>k < 0. forest ! k = raw ! k)"
  proof (rule construct_trees_linked)
    fix k assume k: "k < length (map snd ns)"
    then have "(fst (ns ! k), snd (ns ! k)) \<in> set ns" by simp
    from assms(3) [OF this] k show "xtree_ok (map snd ns ! k) \<and> files (?paths ! k) = Some (dump_file (map snd ns ! k))" by simp
    show "length (raw ! (0 + k)) = MAX_NUM_NODES_PER_TREE" using assms(4-6) k by simp
  qed (use assms(4,5) in auto)
  then obtain forest where "construct_trees files 0 ?paths raw = Inr forest" "length forest = length raw"
      "\<forall>k < length ns. linked (forest ! k) (map snd ns ! k)" by auto
  moreover have "vectorizeForestFolder folders folder = Inr ?paths"
    using assms(1,2,7,8) by (simp add: vectorizeForestFolder_def)
  ultimately show ?thesis
    using raw assms(4,5) by (simp add: Forest_new_def constructForestFromFolder_def constructForestFromPaths_def)
qed

end
