(* ===== verification/Velox_Tree_Correct.thy ===== *)
theory Velox_Tree_Correct
  imports Velox_Decision_Tree Selectivity_Queries Decision_Forest_Correct
begin

text \<open>
  The vector functions on trees set exactly the selected rows of their results: to the trees that the files
  describe, and to the values of these trees.
\<close>

lemma row_loop_set:
  assumes "\<And>row out. row \<in> set rs \<Longrightarrow> length out = n \<Longrightarrow> func row out = flat_set out row (val row)"
    and "\<forall>row \<in> set rs. 0 \<le> row \<and> row < int n" "distinct rs" "length out = n"
  shows "\<exists>out'. row_loop func rs out = Inr out' \<and> length out' = n \<and>
    (\<forall>r < n. out' ! r = (if int r \<in> set rs then Some (val (int r)) else out ! r))"
  using assms
proof (induction rs arbitrary: out)
  case (Cons row rs)
  have row: "0 \<le> row" "nat row < n" using Cons.prems(2) by auto
  then have "func row out = Inr (out[nat row := Some (val row)])"
    using Cons.prems(1) [of row out] Cons.prems(4) by (simp add: flat_set_def)
  moreover have "\<exists>out'. row_loop func rs (out[nat row := Some (val row)]) = Inr out' \<and> length out' = n \<and>
    (\<forall>r < n. out' ! r = (if int r \<in> set rs then Some (val (int r)) else out[nat row := Some (val row)] ! r))"
    by (rule Cons.IH) (use Cons.prems in auto)
  ultimately show ?case using row Cons.prems(3,4) by (auto simp: nth_list_update)
qed simp

text \<open>A function that sets the selected rows of its result.\<close>

lemma apply_rows:
  assumes "sv_ok sv" "length out = n" "\<forall>r \<in> selected sv. r < n"
    and "\<And>r out. r \<in> selected sv \<Longrightarrow> length out = n \<Longrightarrow> func (int r) out = flat_set out (int r) (val r)"
  shows "\<exists>out' a. applyToSelected sv func out = Inr (out', sv\<lparr>sv_allSelected := Some a\<rparr>) \<and> length out' = n \<and>
    (\<forall>r < n. out' ! r = (if r \<in> selected sv then Some (val r) else out ! r))"
proof -
  let ?rs = "map int (sorted_list_of_set (selected sv))"
  have s: "set ?rs = int ` selected sv" by (simp add: selected_finite)
  have "\<exists>out'. row_loop func ?rs out = Inr out' \<and> length out' = n \<and>
    (\<forall>r < n. out' ! r = (if int r \<in> set ?rs then Some (val (nat (int r))) else out ! r))"
  proof (rule row_loop_set [where val = "\<lambda>row. val (nat row)"])
    show "distinct ?rs" by (simp add: distinct_map)
    fix row out' assume "row \<in> set ?rs" "length (out' :: 'a option list) = n"
    then show "func row out' = flat_set out' row (val (nat row))" using assms(4) unfolding s by auto
  qed (use assms(2,3) in \<open>auto simp: selected_finite\<close>)
  moreover have "int r \<in> int ` selected sv \<longleftrightarrow> r \<in> selected sv" for r by auto
  ultimately show ?thesis
    using applyToSelected_spec [OF assms(1), of func out] unfolding s selected_rows_sorted by auto
qed

text \<open>The rows can be used again: only the cached answer changes, and it is right.\<close>

lemma applyToSelected_keeps:
  assumes "sv_ok sv" "applyToSelected sv func s = Inr (s', sv')"
  shows "sv_ok sv'" "selected sv' = selected sv"
proof -
  from isAllSelected_spec [OF assms(1)] obtain a where
    a: "isAllSelected sv = Inr (a, sv\<lparr>sv_allSelected := Some a\<rparr>)"
    "sv_size sv > 0 \<Longrightarrow> a \<longleftrightarrow> (\<forall>p. int p < sv_size sv \<longrightarrow> p \<in> selected sv)" by blast
  then have sv': "sv' = sv\<lparr>sv_allSelected := Some a\<rparr>" using assms(2) by (auto simp: applyToSelected_def)
  have same: "selected (sv\<lparr>sv_allSelected := b\<rparr>) = selected sv" for b by (simp add: selected_def)
  then show "selected sv' = selected sv" using sv' by simp
  show "sv_ok sv'"
    using assms(1) a(2) unfolding sv' sv_ok_def sv_shape_def bounds_ok_def cache_ok_def same by simp
qed

lemma tree_rows:
  fixes ts :: "nat \<Rightarrow> xtree"
  assumes "sv_ok sv" "length paths = n" "length out = n" "\<forall>r \<in> selected sv. r < n"
    and "\<And>r. r \<in> selected sv \<Longrightarrow> xtree_ok (ts r) \<and> files (paths ! r) = Some (dump_file (ts r))"
    and "\<And>row. length (raws row) = MAX_NUM_NODES_PER_TREE"
  shows "\<exists>out' a. VeloxTreeConstruction_apply files raws sv paths out = Inr (out', sv\<lparr>sv_allSelected := Some a\<rparr>) \<and> length out' = n \<and>
    (\<forall>r < n. if r \<in> selected sv then \<exists>tr. out' ! r = Some tr \<and> linked (tr_tree tr) (ts r) else out' ! r = out ! r)"
proof -
  have "\<exists>tr. Tree_new files (raws (int r)) (int r) (paths ! r) = Inr tr \<and> linked (tr_tree tr) (ts r)" if "r \<in> selected sv" for r
    using construct_linked [of "ts r" files "paths ! r" "raws (int r)" "int r"] assms(5) [OF that] assms(6) by auto
  then obtain val where val: "\<And>r. r \<in> selected sv \<Longrightarrow> Tree_new files (raws (int r)) (int r) (paths ! r) = Inr (val r) \<and> linked (tr_tree (val r)) (ts r)"
    by metis
  have "\<exists>out' a. VeloxTreeConstruction_apply files raws sv paths out = Inr (out', sv\<lparr>sv_allSelected := Some a\<rparr>) \<and> length out' = n \<and>
    (\<forall>r < n. out' ! r = (if r \<in> selected sv then Some (val r) else out ! r))"
    unfolding VeloxTreeConstruction_apply_def
    by (rule apply_rows) (use assms val in \<open>auto simp: valueAt_def\<close>)
  then show ?thesis using val by (metis (full_types))
qed

lemma prediction_rows:
  fixes ts :: "nat \<Rightarrow> xtree"
  assumes "sv_ok sv" "length trees = n" "length out = n" "\<forall>r \<in> selected sv. r < n"
    and "\<And>r. r \<in> selected sv \<Longrightarrow> \<exists>tr. trees ! r = Some tr \<and> linked (tr_tree tr) (ts r) \<and> xid (ts r) = 0"
    and "batch_ok (\<Union>r \<in> selected sv. xfeatures (ts r)) input (int n) numFeatures"
  shows "\<exists>out' a. VeloxTreePrediction_apply numFeatures sv input trees out = Inr (out', sv\<lparr>sv_allSelected := Some a\<rparr>) \<and> length out' = n \<and>
    (\<forall>r < n. out' ! r = (if r \<in> selected sv then Some (xread False (ts r) (row_at input (int r * numFeatures))) else out ! r))"
  unfolding VeloxTreePrediction_apply_def
proof (rule apply_rows [OF assms(1,3,4)])
  fix r out assume r: "r \<in> selected sv" "length (out :: 32 word option list) = n"
  then obtain tr where tr: "trees ! r = Some tr" "linked (tr_tree tr) (ts r)" "xid (ts r) = 0" "r < n" using assms(4,5) by blast
  have "int r \<in> set [0..int n - 1]" using tr(4) by simp
  note b = batch_row [OF assms(6) this]
  have "predictSingle tr input (int r * numFeatures) = Inr (xread False (ts r) (row_at input (int r * numFeatures)))"
    using predict_linked [OF tr(2,3) b(2) _ b(4), of False] b(3) r(1) by (auto simp: predictSingle_def)
  then show "rbind (valueAt trees (int r)) (\<lambda>p. rbind (deref p) (\<lambda>tree. rbind (i32_res (int r * numFeatures)) (\<lambda>curBase.
      rbind (predictSingle tree input curBase) (\<lambda>value. flat_set out (int r) value)))) =
    flat_set out (int r) (xread False (ts r) (row_at input (int r * numFeatures)))"
    using tr b(1) assms(2) by (simp add: valueAt_def)
qed

end
