(* ===== verification/Plan_State.thy ===== *)
theory Plan_State
  imports Std_Map "HOL-Library.Sublist" Std_String Refinement "HOL-Library.Multiset" "HOL-Library.Char_ord" "HOL-Library.List_Lexorder"
begin

text \<open>
  The state of the plan rewriter, \<open>velox/optimizer/PlanState.h\<close>, with the rules of \<open>RuleManager.h\<close>. A rewrite rule is an
  object of the abstract class \<open>RewriteAction\<close>: the record of its virtual functions. What they read and
  change besides the state (the plan builder, the catalog, the generator of node identifiers) is one value
  of a type \<open>'w\<close>; plan nodes are values of a type \<open>'n\<close>.
\<close>

section \<open>Rules\<close>

record ('n, 'w) RewriteAction =
  ra_check :: "'n \<Rightarrow> string list \<Rightarrow> 'w \<Rightarrow> (bool \<times> string list \<times> 'w) res"
  ra_apply :: "'n \<Rightarrow> string list \<Rightarrow> 'w \<Rightarrow> (bool \<times> 'w) res"

text \<open>The names that the constructor registers, in its order; \<open>instances\<close> gives the object for each of them.\<close>

definition rule_names :: "string list" where
  "rule_names =
     [''TorchNN2TwoLayerUDFRewriteAction'', ''Mul2JoinAggHorizontalRewriteAction'',
      ''DecisionForestUDF2RelationRewriteAction'', ''Mul2JoinAggRewriteAction'',
      ''MultiLayerUDF2TorchNNRewriteAction'', ''MLDecompositionPushdownRewriteAction'',
      ''MatMulDense2SparseRewriteAction'']"

type_synonym ('n, 'w) rules = "(string, ('n, 'w) RewriteAction) std_map"

definition RuleManager_new :: "(string \<Rightarrow> ('n, 'w) RewriteAction) \<Rightarrow> ('n, 'w) rules" where
  "RuleManager_new instances = foldl (\<lambda>rules name. snd (map_emplace name (instances name) rules)) [] rule_names"

definition pickRule :: "('n, 'w) rules \<Rightarrow> string \<Rightarrow> ('n, 'w) RewriteAction option" where
  "pickRule rules ruleName = map_of rules ruleName"

section \<open>The state\<close>

record ('n, 'w) PlanState =
  ps_actionsPair :: "(string, string list) std_map"
  ps_actions :: "string list"
  ps_ruleManager :: "('n, 'w) rules"
  ps_preAction :: string
  ps_transformedExprs :: "(string, string list) std_map"

definition PlanState_new :: "('n, 'w) rules \<Rightarrow> ('n, 'w) PlanState" where
  "PlanState_new ruleManager =
     \<lparr>ps_actionsPair = [], ps_actions = [], ps_ruleManager = ruleManager, ps_preAction = [], ps_transformedExprs = []\<rparr>"

definition checkIsValidRule :: "('n, 'w) PlanState \<Rightarrow> string \<Rightarrow> string \<Rightarrow> bool" where
  "checkIsValidRule ps targetRule targetString =
     (case map_of (ps_actionsPair ps) targetString of
        Some applicableRules \<Rightarrow> List.member applicableRules targetRule
      | None \<Rightarrow> False)"

definition isRuleApplied :: "('n, 'w) PlanState \<Rightarrow> string \<Rightarrow> string \<Rightarrow> bool" where
  "isRuleApplied ps targetString targetRule =
     (case map_of (ps_transformedExprs ps) targetString of
        Some appliedRules \<Rightarrow> List.member appliedRules targetRule
      | None \<Rightarrow> False)"

definition addTransformedExpr :: "string \<Rightarrow> string \<Rightarrow> ('n, 'w) PlanState \<Rightarrow> ('n, 'w) PlanState" where
  "addTransformedExpr targetRule targetString ps =
     (case map_of (ps_transformedExprs ps) targetString of
        None \<Rightarrow> ps\<lparr>ps_transformedExprs := map_assign targetString [targetRule] (ps_transformedExprs ps)\<rparr>
      | Some appliedRules \<Rightarrow>
          ps\<lparr>ps_transformedExprs := map_assign targetString (appliedRules @ [targetRule]) (ps_transformedExprs ps)\<rparr>)"

definition clearTransformedExpr :: "('n, 'w) PlanState \<Rightarrow> ('n, 'w) PlanState" where
  "clearTransformedExpr ps = ps\<lparr>ps_transformedExprs := []\<rparr>"

section \<open>Possible actions\<close>

text \<open>\<open>actionsPair[action].push_back(rule)\<close>, which makes an empty list for a new key.\<close>

definition push_action :: "string \<Rightarrow> string \<Rightarrow> ('n, 'w) PlanState \<Rightarrow> ('n, 'w) PlanState" where
  "push_action rule action ps =
     (if isRuleApplied ps action rule then ps
      else ps\<lparr>ps_actionsPair :=
        map_assign action (case map_of (ps_actionsPair ps) action of None \<Rightarrow> [rule] | Some rs \<Rightarrow> rs @ [rule])
          (ps_actionsPair ps)\<rparr>)"

definition check_rule ::
    "'n \<Rightarrow> string \<times> ('n, 'w) RewriteAction \<Rightarrow> ('n, 'w) PlanState \<times> 'w \<Rightarrow> (('n, 'w) PlanState \<times> 'w) res" where
  "check_rule rootNode = (\<lambda>(name, rule) (ps, w).
     rbind (ra_check rule rootNode (ps_actions ps) w) (\<lambda>(ok, found, w').
       let targets = remdups_adj (sort found);
           ps' = (if ok then fold (push_action name) targets (ps\<lparr>ps_actions := targets\<rparr>) else ps)
       in Inr (ps'\<lparr>ps_actions := []\<rparr>, w')))"

definition getPossibleActions ::
    "'n \<Rightarrow> ('n, 'w) PlanState \<times> 'w \<Rightarrow> (('n, 'w) PlanState \<times> 'w) res" where
  "getPossibleActions rootNode = (\<lambda>(ps, w).
     run_ops (check_rule rootNode) (ps_ruleManager ps) (ps\<lparr>ps_actionsPair := []\<rparr>, w))"

text \<open>\<open>planNode\<close> is the current plan of the plan builder.\<close>

definition update :: "('w \<Rightarrow> 'n) \<Rightarrow> ('n, 'w) PlanState \<times> 'w \<Rightarrow> (('n, 'w) PlanState \<times> 'w) res" where
  "update planNode = (\<lambda>(ps, w). getPossibleActions (planNode w) (ps, w))"

section \<open>Taking actions\<close>

text \<open>
  The targets grouped by their rules. \<open>order\<close> is the order in which the hash table of the groups is
  iterated, given the rules in the order of their insertion.
\<close>

definition groupedActions :: "(string \<times> string) list \<Rightarrow> string \<Rightarrow> string list" where
  "groupedActions targetActions targetRule =
     foldl (\<lambda>g (targetString, rule). g(rule := g rule @ [targetString])) (\<lambda>_. []) targetActions targetRule"

definition take_group ::
    "'n \<Rightarrow> (string \<Rightarrow> string list) \<Rightarrow> string \<Rightarrow> ('n, 'w) PlanState \<times> 'w \<Rightarrow> (('n, 'w) PlanState \<times> 'w) res" where
  "take_group curNode groups targetRule = (\<lambda>(ps, w).
     if list_all (checkIsValidRule ps targetRule) (groups targetRule) then
       (case pickRule (ps_ruleManager ps) targetRule of
          Some rule \<Rightarrow>
            rbind (ra_apply rule curNode (groups targetRule) w) (\<lambda>(_, w').
              Inr (fold (addTransformedExpr targetRule) (groups targetRule) (ps\<lparr>ps_preAction := targetRule\<rparr>), w'))
        | None \<Rightarrow> Inr (ps, w))
     else Inl RuntimeError)"

definition takeAction ::
    "(string list \<Rightarrow> string list) \<Rightarrow> 'n \<Rightarrow> (string \<times> string) list \<Rightarrow> ('n, 'w) PlanState \<times> 'w \<Rightarrow>
     (('n, 'w) PlanState \<times> 'w) res" where
  "takeAction order curNode targetActions =
     run_ops (take_group curNode (groupedActions targetActions))
       (order (rev (remdups (rev (map snd targetActions)))))"

section \<open>Choosing actions\<close>

definition getActionPairsWithRule :: "('n, 'w) PlanState \<Rightarrow> string \<Rightarrow> (string \<times> string) list" where
  "getActionPairsWithRule ps rule =
     concat (map (\<lambda>(targetExpr, rs). map (\<lambda>ruleName. (targetExpr, ruleName)) (filter (\<lambda>ruleName. ruleName = rule) rs))
       (ps_actionsPair ps))"

definition getActionPairsWithRules :: "('n, 'w) PlanState \<Rightarrow> string list \<Rightarrow> (string \<times> string) list" where
  "getActionPairsWithRules ps rules =
     concat (map (\<lambda>(targetExpr, rs). map (\<lambda>ruleName. (targetExpr, ruleName)) (filter (\<lambda>ruleName. List.member rules ruleName) rs))
       (ps_actionsPair ps))"

text \<open>
  The regular expression matches \<open>ROW[\<close> and a quote, any text, and a quote with \<open>]\<close>: \<open>regex_search\<close> gives the leftmost
  place where it matches, with the shortest such text, which has no end of a line.
\<close>

definition line_end :: "char \<Rightarrow> bool" where
  "line_end c \<longleftrightarrow> c = CHR 0x0A \<or> c = CHR 0x0D"

fun getInputExprName :: "string \<Rightarrow> string" where
  "getInputExprName [] = []"
| "getInputExprName (c # s) =
     (let rest = drop 5 (c # s); q = str_find rest [CHR 0x22, CHR '']'']
      in if take 5 (c # s) = ''ROW['' @ [CHR 0x22] \<and> q \<noteq> - 1 \<and> \<not> list_ex line_end (take (nat q) rest)
         then take (nat q) rest
         else getInputExprName s)"

definition getDataSrcSparsity :: "(string \<rightharpoonup> 32 word) \<Rightarrow> string \<Rightarrow> 32 word" where
  "getDataSrcSparsity dataSrcSparsityMap name = (case dataSrcSparsityMap name of Some s \<Rightarrow> s | None \<Rightarrow> 0)"

definition configure_step ::
    "(string \<rightharpoonup> 32 word) \<Rightarrow> (string \<times> string) \<times> 32 word \<Rightarrow> string \<times> string list \<Rightarrow> (string \<times> string) \<times> 32 word" where
  "configure_step sparsities = (\<lambda>(selectedAction, maxSparsity) (targetExpr, applicableRules).
     if List.member applicableRules ''MatMulDense2SparseRewriteAction'' then
       let sparsity = getDataSrcSparsity sparsities (getInputExprName targetExpr)
       in if fp_less maxSparsity sparsity \<and> fp_less sparsity 0x3F800000
          then ((targetExpr, ''MatMulDense2SparseRewriteAction''), sparsity)
          else (selectedAction, maxSparsity)
     else (selectedAction, maxSparsity))"

definition configureMatMulDense2SparseAction ::
    "('n, 'w) PlanState \<Rightarrow> (string \<rightharpoonup> 32 word) \<Rightarrow> string \<times> string" where
  "configureMatMulDense2SparseAction ps sparsities =
     fst (foldl (configure_step sparsities) (([], []), 0) (ps_actionsPair ps))"

end
