(* ===== verification/Plan_State_Correct.thy ===== *)
theory Plan_State_Correct
  imports Plan_State
begin

text \<open>
  The possible actions that an update finds, the actions that are taken, and the invariant of the plan state:
  offered and applied rules are rules of the manager. After an update the offered rules have not been applied
  to the expression; a batch of different actions taken then applies no rule twice to an expression.
\<close>

section \<open>Lists of a map\<close>

text \<open>The list at a key, empty when there is none.\<close>

definition at_key :: "('k, 'v list) std_map \<Rightarrow> 'k \<Rightarrow> 'v list" where
  "at_key m k = (case map_of m k of None \<Rightarrow> [] | Some vs \<Rightarrow> vs)"

definition lists_ok :: "('k::linorder, 'v list) std_map \<Rightarrow> bool" where
  "lists_ok m \<longleftrightarrow> map_ok m \<and> [] \<notin> snd ` set m"

lemma at_key_Nil [simp]: "at_key [] k = []"
  by (simp add: at_key_def)

lemma lists_ok_Nil [simp]: "lists_ok []"
  by (simp add: lists_ok_def)

lemma at_key_assign: "at_key (map_assign k vs m) k' = (if k' = k then vs else at_key m k')"
  by (simp add: at_key_def map_simps)

lemma lists_ok_assign: "lists_ok m \<Longrightarrow> vs \<noteq> [] \<Longrightarrow> lists_ok (map_assign k vs m)"
  using map_assign_entries [of k vs m] by (fastforce simp: lists_ok_def)

lemma valid_at_key: "checkIsValidRule ps r e \<longleftrightarrow> r \<in> set (at_key (ps_actionsPair ps) e)"
  by (simp add: checkIsValidRule_def at_key_def split: option.splits)

lemma applied_at_key: "isRuleApplied ps e r \<longleftrightarrow> r \<in> set (at_key (ps_transformedExprs ps) e)"
  by (simp add: isRuleApplied_def at_key_def split: option.splits)

text \<open>Adding one value to the lists of some keys.\<close>

definition append_at :: "'v \<Rightarrow> 'k::linorder \<Rightarrow> ('k, 'v list) std_map \<Rightarrow> ('k, 'v list) std_map" where
  "append_at v k m = map_assign k (at_key m k @ [v]) m"

lemma append_at_list:
  assumes "lists_ok m"
  shows "lists_ok (fold (append_at v) ks m)"
    and "at_key (fold (append_at v) ks m) k = at_key m k @ replicate (count_list ks k) v"
proof -
  show "lists_ok (fold (append_at v) ks m)"
    using assms by (induction ks arbitrary: m) (auto simp: append_at_def lists_ok_assign)
  show "at_key (fold (append_at v) ks m) k = at_key m k @ replicate (count_list ks k) v"
    by (induction ks arbitrary: m) (auto simp: append_at_def at_key_assign)
qed

lemma count_list_distinct: "distinct xs \<Longrightarrow> count_list xs x = (if x \<in> set xs then 1 else 0)"
  by (induction xs) (auto simp: count_notin)

section \<open>Possible actions\<close>

lemma push_actions:
  "fold (push_action rule) es ps =
     ps\<lparr>ps_actionsPair := fold (append_at rule) (filter (\<lambda>e. \<not> isRuleApplied ps e rule) es) (ps_actionsPair ps)\<rparr>"
proof (induction es arbitrary: ps)
  case (Cons e es)
  have same: "isRuleApplied (ps\<lparr>ps_actionsPair := m\<rparr>) = isRuleApplied ps" for m by (simp add: fun_eq_iff isRuleApplied_def)
  have "push_action rule e ps = (if isRuleApplied ps e rule then ps
      else ps\<lparr>ps_actionsPair := append_at rule e (ps_actionsPair ps)\<rparr>)"
    by (simp add: push_action_def append_at_def at_key_def split: option.splits)
  then show ?case using Cons.IH by (simp add: same)
qed simp

lemma sorted_remdups_adj_distinct: "sorted xs \<Longrightarrow> distinct (remdups_adj xs)"
  by (induction xs rule: remdups_adj.induct) auto

text \<open>The actions that a rule adds when its check answers \<open>ok\<close> with the targets \<open>found\<close>.\<close>

lemma check_rule_found:
  assumes "ra_check rule root [] w = Inr (ok, found, w')" "ps_actions ps = []" "lists_ok (ps_actionsPair ps)"
  shows "\<exists>m. check_rule root (name, rule) (ps, w) = Inr (ps\<lparr>ps_actionsPair := m\<rparr>, w') \<and> lists_ok m \<and>
    (\<forall>e. at_key m e = at_key (ps_actionsPair ps) e @ (if ok \<and> e \<in> set found \<and> \<not> isRuleApplied ps e name then [name] else []))"
proof -
  let ?es = "filter (\<lambda>e. \<not> isRuleApplied ps e name) (remdups_adj (sort found))"
  let ?m = "if ok then fold (append_at name) ?es (ps_actionsPair ps) else ps_actionsPair ps"
  have d: "distinct ?es" by (simp add: sorted_remdups_adj_distinct)
  have same: "isRuleApplied (ps\<lparr>ps_actions := a\<rparr>) = isRuleApplied ps" for a by (simp add: fun_eq_iff isRuleApplied_def)
  have "check_rule root (name, rule) (ps, w) = Inr (ps\<lparr>ps_actionsPair := ?m\<rparr>, w')"
    using assms by (simp add: check_rule_def push_actions same)
  then show ?thesis using append_at_list [OF assms(3), of name] assms(3) by (intro exI [of _ ?m]) (simp add: count_list_distinct [OF d])
qed

text \<open>All rules, whatever their checks answer: the lists grow by names of rules, in their order.\<close>

lemma check_rules_names:
  assumes "run_ops (check_rule root) rules (ps, w) = Inr (ps', w')" "ps_actions ps = []" "lists_ok (ps_actionsPair ps)"
  shows "\<exists>m. ps' = ps\<lparr>ps_actionsPair := m\<rparr> \<and> lists_ok m \<and>
    (\<forall>e. \<exists>rs. at_key m e = at_key (ps_actionsPair ps) e @ rs \<and> subseq rs (map fst rules) \<and> (\<forall>r \<in> set rs. \<not> isRuleApplied ps e r))"
  using assms
proof (induction rules arbitrary: ps w)
  case Nil
  then show ?case by (intro exI [of _ "ps_actionsPair ps"]) auto
next
  case (Cons nr rules)
  obtain name rule where nr: "nr = (name, rule)" by fastforce
  from Cons.prems nr obtain ok found w1 where c: "ra_check rule root [] w = Inr (ok, found, w1)"
    by (cases "ra_check rule root [] w") (auto simp: check_rule_def)
  from check_rule_found [OF c Cons.prems(2,3), of name] obtain m where
    m: "check_rule root (name, rule) (ps, w) = Inr (ps\<lparr>ps_actionsPair := m\<rparr>, w1)" "lists_ok m"
    "\<And>e. at_key m e = at_key (ps_actionsPair ps) e @ (if ok \<and> e \<in> set found \<and> \<not> isRuleApplied ps e name then [name] else [])"
    by blast
  let ?ps = "ps\<lparr>ps_actionsPair := m\<rparr>"
  have same: "isRuleApplied ?ps = isRuleApplied ps" by (simp add: fun_eq_iff isRuleApplied_def)
  have "run_ops (check_rule root) rules (?ps, w1) = Inr (ps', w')" using Cons.prems(1) nr m(1) by simp
  from Cons.IH [OF this] Cons.prems(2) m(2) obtain m' where
    m': "ps' = ?ps\<lparr>ps_actionsPair := m'\<rparr>" "lists_ok m'"
    "\<And>e. \<exists>rs. at_key m' e = at_key m e @ rs \<and> subseq rs (map fst rules) \<and> (\<forall>r \<in> set rs. \<not> isRuleApplied ps e r)"
    unfolding same by auto
  have "\<exists>rs. at_key m' e = at_key (ps_actionsPair ps) e @ rs \<and> subseq rs (map fst (nr # rules)) \<and> (\<forall>r \<in> set rs. \<not> isRuleApplied ps e r)" for e
  proof -
    obtain rs where "at_key m' e = at_key m e @ rs" "subseq rs (map fst rules)" "\<forall>r \<in> set rs. \<not> isRuleApplied ps e r"
      using m'(3) by blast
    then show ?thesis
      by (intro exI [of _ "(if ok \<and> e \<in> set found \<and> \<not> isRuleApplied ps e name then [name] else []) @ rs"])
        (auto simp: m(3) nr)
  qed
  then show ?case using m'(1,2) by (intro exI [of _ m']) simp
qed

text \<open>Rules that only read: exactly the rules that find a target and have not been applied to it.\<close>

lemma check_rules_exact:
  assumes "\<And>name rule. (name, rule) \<in> set rules \<Longrightarrow> ra_check rule root [] w = Inr (ok name, found name, w)"
    and "ps_actions ps = []" "lists_ok (ps_actionsPair ps)"
  shows "\<exists>m. run_ops (check_rule root) rules (ps, w) = Inr (ps\<lparr>ps_actionsPair := m\<rparr>, w) \<and> lists_ok m \<and>
    (\<forall>e. at_key m e = at_key (ps_actionsPair ps) e @
      filter (\<lambda>r. ok r \<and> e \<in> set (found r) \<and> \<not> isRuleApplied ps e r) (map fst rules))"
  using assms
proof (induction rules arbitrary: ps)
  case Nil
  then show ?case by (intro exI [of _ "ps_actionsPair ps"]) auto
next
  case (Cons nr rules)
  obtain name rule where nr: "nr = (name, rule)" by fastforce
  have "ra_check rule root [] w = Inr (ok name, found name, w)" using Cons.prems(1) nr by simp
  from check_rule_found [OF this Cons.prems(2,3), of name] obtain m where
    m: "check_rule root (name, rule) (ps, w) = Inr (ps\<lparr>ps_actionsPair := m\<rparr>, w)" "lists_ok m"
    "\<And>e. at_key m e = at_key (ps_actionsPair ps) e @ (if ok name \<and> e \<in> set (found name) \<and> \<not> isRuleApplied ps e name then [name] else [])"
    by blast
  let ?ps = "ps\<lparr>ps_actionsPair := m\<rparr>"
  have same: "isRuleApplied ?ps = isRuleApplied ps" by (simp add: fun_eq_iff isRuleApplied_def)
  from Cons.IH [of ?ps] Cons.prems(1,2) m(2) obtain m' where
    "run_ops (check_rule root) rules (?ps, w) = Inr (?ps\<lparr>ps_actionsPair := m'\<rparr>, w)" "lists_ok m'"
    "\<And>e. at_key m' e = at_key m e @ filter (\<lambda>r. ok r \<and> e \<in> set (found r) \<and> \<not> isRuleApplied ps e r) (map fst rules)"
    unfolding same by auto
  then show ?case using m by (intro exI [of _ m']) (simp add: nr)
qed

section \<open>Taking actions\<close>

lemma groupedActions_spec: "groupedActions ta r = map fst (filter (\<lambda>p. snd p = r) ta)"
  by (induction ta rule: rev_induct) (auto simp: groupedActions_def)

lemma groupedActions_distinct: "distinct ta \<Longrightarrow> distinct (groupedActions ta r)"
  by (auto simp: groupedActions_spec distinct_map inj_on_def)

lemma add_exprs:
  "fold (addTransformedExpr r) es ps = ps\<lparr>ps_transformedExprs := fold (append_at r) es (ps_transformedExprs ps)\<rparr>"
proof (induction es arbitrary: ps)
  case (Cons e es)
  have "addTransformedExpr r e ps = ps\<lparr>ps_transformedExprs := append_at r e (ps_transformedExprs ps)\<rparr>"
    by (simp add: addTransformedExpr_def append_at_def at_key_def split: option.splits)
  then show ?case using Cons.IH by simp
qed simp

text \<open>A batch of actions adds valid rules to the lists of their expressions, each once when the actions differ.\<close>

lemma take_group_adds:
  assumes "take_group cur groups r (ps, w) = Inr (ps', w')" "lists_ok (ps_transformedExprs ps)"
  shows "\<exists>pre m. ps' = ps\<lparr>ps_preAction := pre, ps_transformedExprs := m\<rparr> \<and> lists_ok m \<and>
    (\<forall>e. \<exists>n. at_key m e = at_key (ps_transformedExprs ps) e @ replicate n r \<and> n \<le> count_list (groups r) e \<and>
      (0 < n \<longrightarrow> checkIsValidRule ps r e))"
proof -
  have valid: "\<forall>e \<in> set (groups r). checkIsValidRule ps r e"
    using assms(1) by (auto simp: take_group_def list_all_iff split: if_splits)
  show ?thesis
  proof (cases "pickRule (ps_ruleManager ps) r")
    case None
    then have "ps' = ps" using assms(1) by (auto simp: take_group_def split: if_splits)
    then show ?thesis using assms(2)
      by (intro exI [of _ "ps_preAction ps"] exI [of _ "ps_transformedExprs ps"]) (auto intro: exI [of _ 0])
  next
    case (Some rule)
    let ?m = "fold (append_at r) (groups r) (ps_transformedExprs ps)"
    have "ps' = ps\<lparr>ps_preAction := r, ps_transformedExprs := ?m\<rparr>"
      using assms(1) Some by (auto simp: take_group_def add_exprs split: if_splits)
    moreover have "0 < count_list (groups r) e \<longrightarrow> checkIsValidRule ps r e" for e
      using valid count_list_0_iff [of "groups r" e] by auto
    ultimately show ?thesis using append_at_list [OF assms(2), of r] by (intro exI [of _ r] exI [of _ ?m]) auto
  qed
qed

lemma take_groups_add:
  assumes "run_ops (take_group cur groups) rs (ps, w) = Inr (ps', w')" "distinct rs" "lists_ok (ps_transformedExprs ps)"
  shows "\<exists>pre m. ps' = ps\<lparr>ps_preAction := pre, ps_transformedExprs := m\<rparr> \<and> lists_ok m \<and>
    (\<forall>e. \<exists>new. at_key m e = at_key (ps_transformedExprs ps) e @ new \<and> set new \<subseteq> set rs \<and>
      (\<forall>r \<in> set new. checkIsValidRule ps r e) \<and> ((\<forall>r. distinct (groups r)) \<longrightarrow> distinct new))"
  using assms
proof (induction rs arbitrary: ps w)
  case Nil
  then show ?case by (intro exI [of _ "ps_preAction ps"] exI [of _ "ps_transformedExprs ps"]) auto
next
  case (Cons r rs)
  from Cons.prems(1) obtain ps1 w1 where 1: "take_group cur groups r (ps, w) = Inr (ps1, w1)"
      "run_ops (take_group cur groups) rs (ps1, w1) = Inr (ps', w')" by auto
  from take_group_adds [OF 1(1) Cons.prems(3)] obtain pre m where
    m: "ps1 = ps\<lparr>ps_preAction := pre, ps_transformedExprs := m\<rparr>" "lists_ok m"
    "\<And>e. \<exists>n. at_key m e = at_key (ps_transformedExprs ps) e @ replicate n r \<and> n \<le> count_list (groups r) e \<and>
      (0 < n \<longrightarrow> checkIsValidRule ps r e)" by blast
  have same: "checkIsValidRule ps1 = checkIsValidRule ps" by (simp add: fun_eq_iff checkIsValidRule_def m(1))
  from Cons.IH [OF 1(2)] Cons.prems(2) m(1,2) obtain pre' m' where
    m': "ps' = ps1\<lparr>ps_preAction := pre', ps_transformedExprs := m'\<rparr>" "lists_ok m'"
    "\<And>e. \<exists>new. at_key m' e = at_key m e @ new \<and> set new \<subseteq> set rs \<and> (\<forall>r \<in> set new. checkIsValidRule ps r e) \<and>
      ((\<forall>r. distinct (groups r)) \<longrightarrow> distinct new)"
    unfolding same by auto
  have "\<exists>new. at_key m' e = at_key (ps_transformedExprs ps) e @ new \<and> set new \<subseteq> set (r # rs) \<and>
      (\<forall>r \<in> set new. checkIsValidRule ps r e) \<and> ((\<forall>r. distinct (groups r)) \<longrightarrow> distinct new)" for e
  proof -
    obtain new n where k: "at_key m' e = at_key m e @ new" "set new \<subseteq> set rs" "\<forall>r \<in> set new. checkIsValidRule ps r e"
      "(\<forall>r. distinct (groups r)) \<longrightarrow> distinct new"
      "at_key m e = at_key (ps_transformedExprs ps) e @ replicate n r" "n \<le> count_list (groups r) e" "0 < n \<longrightarrow> checkIsValidRule ps r e"
      using m(3) [of e] m'(3) [of e] by blast
    have "n = 0 \<or> n = 1" if "distinct (groups r)"
      using count_list_distinct [OF that, of e] k(6) by (auto split: if_splits)
    then have "distinct (replicate n r)" if "distinct (groups r)" using that by auto
    then show ?thesis using k Cons.prems(2) by (intro exI [of _ "replicate n r @ new"]) (auto simp: set_replicate_conv_if)
  qed
  then show ?case using m'(1,2) m(1) by (intro exI [of _ pre'] exI [of _ m']) simp
qed

section \<open>The invariant\<close>

text \<open>
  \<open>plan_typed\<close>: the maps are in order and have no empty lists, the offered rules of an expression are rules of the
  manager in their order, and so, in some order, are the applied ones. \<open>offers_fresh\<close>: no offered rule has been
  applied to its expression. \<open>applied_once\<close>: no rule has been applied twice to an expression.
\<close>

definition plan_typed :: "('n, 'w) PlanState \<Rightarrow> bool" where
  "plan_typed ps \<longleftrightarrow> ps_actions ps = [] \<and> map_ok (ps_ruleManager ps) \<and> lists_ok (ps_actionsPair ps) \<and> lists_ok (ps_transformedExprs ps) \<and>
     (\<forall>e. subseq (at_key (ps_actionsPair ps) e) (map fst (ps_ruleManager ps)) \<and>
          set (at_key (ps_transformedExprs ps) e) \<subseteq> fst ` set (ps_ruleManager ps))"

definition applied_once :: "('n, 'w) PlanState \<Rightarrow> bool" where
  "applied_once ps \<longleftrightarrow> (\<forall>e. distinct (at_key (ps_transformedExprs ps) e))"

definition offers_fresh :: "('n, 'w) PlanState \<Rightarrow> bool" where
  "offers_fresh ps \<longleftrightarrow> (\<forall>e r. checkIsValidRule ps r e \<longrightarrow> \<not> isRuleApplied ps e r)"

lemma update_keeps:
  assumes "update planNode (ps, w) = Inr (ps', w')" "plan_typed ps"
  shows "plan_typed ps' \<and> offers_fresh ps' \<and> ps_ruleManager ps' = ps_ruleManager ps \<and>
    ps_transformedExprs ps' = ps_transformedExprs ps"
proof -
  have "run_ops (check_rule (planNode w)) (ps_ruleManager ps) (ps\<lparr>ps_actionsPair := []\<rparr>, w) = Inr (ps', w')"
    using assms(1) by (simp add: update_def getPossibleActions_def)
  from check_rules_names [OF this] assms(2) obtain m where
    m: "ps' = ps\<lparr>ps_actionsPair := m\<rparr>" "lists_ok m"
    "\<And>e. subseq (at_key m e) (map fst (ps_ruleManager ps)) \<and>
      (\<forall>r \<in> set (at_key m e). \<not> isRuleApplied (ps\<lparr>ps_actionsPair := []\<rparr>) e r)"
    by (auto simp: plan_typed_def)
  then show ?thesis
    using assms(2) by (auto simp: plan_typed_def offers_fresh_def valid_at_key applied_at_key)
qed

lemma takeAction_keeps:
  assumes "takeAction order cur ta (ps, w) = Inr (ps', w')" "plan_typed ps" "\<And>ks. mset (order ks) = mset ks"
  shows "plan_typed ps' \<and> ps_ruleManager ps' = ps_ruleManager ps \<and>
    (applied_once ps \<and> offers_fresh ps \<and> distinct ta \<longrightarrow> applied_once ps')"
proof -
  let ?rs = "order (rev (remdups (rev (map snd ta))))"
  have rs: "distinct ?rs" using assms(3) by (metis distinct_remdups distinct_rev mset_eq_imp_distinct_iff)
  have run: "run_ops (take_group cur (groupedActions ta)) ?rs (ps, w) = Inr (ps', w')"
    using assms(1) by (simp add: takeAction_def)
  have "lists_ok (ps_transformedExprs ps)" using assms(2) by (simp add: plan_typed_def)
  from take_groups_add [OF run rs this] groupedActions_distinct [of ta] obtain pre m where
    m: "ps' = ps\<lparr>ps_preAction := pre, ps_transformedExprs := m\<rparr>" "lists_ok m"
    "\<And>e. \<exists>new. at_key m e = at_key (ps_transformedExprs ps) e @ new \<and> (\<forall>r \<in> set new. checkIsValidRule ps r e) \<and>
      (distinct ta \<longrightarrow> distinct new)"
    by blast
  have "set (at_key m e) \<subseteq> fst ` set (ps_ruleManager ps) \<and>
      (applied_once ps \<and> offers_fresh ps \<and> distinct ta \<longrightarrow> distinct (at_key m e))" for e
  proof -
    obtain new where n: "at_key m e = at_key (ps_transformedExprs ps) e @ new" "\<forall>r \<in> set new. checkIsValidRule ps r e"
      "distinct ta \<longrightarrow> distinct new"
      using m(3) by blast
    have "set (at_key (ps_actionsPair ps) e) \<subseteq> fst ` set (ps_ruleManager ps)"
      using assms(2) by (auto simp: plan_typed_def simp flip: set_map dest: list_emb_set)
    then show ?thesis
      using n assms(2) by (fastforce simp: plan_typed_def applied_once_def offers_fresh_def valid_at_key applied_at_key)
  qed
  then show ?thesis using m(1,2) assms(2) by (auto simp: plan_typed_def applied_once_def)
qed

text \<open>
  The states that calls of \<open>update\<close>, \<open>takeAction\<close> and \<open>clearTransformedExpr\<close> which do not throw make of a new plan
  state, in any order, with any actions, on any plan and in any state of the world. Nothing asks for an update
  between two batches of actions: the offers of the last update stay valid until the next one.
\<close>

inductive plan_reach :: "('n, 'w) rules \<Rightarrow> (string list \<Rightarrow> string list) \<Rightarrow> ('n, 'w) PlanState \<Rightarrow> bool"
  for rules order where
  start: "plan_reach rules order (PlanState_new rules)"
| update: "plan_reach rules order ps \<Longrightarrow> update planNode (ps, w) = Inr (ps', w') \<Longrightarrow> plan_reach rules order ps'"
| take: "plan_reach rules order ps \<Longrightarrow> takeAction order cur ta (ps, w) = Inr (ps', w') \<Longrightarrow> plan_reach rules order ps'"
| forget: "plan_reach rules order ps \<Longrightarrow> plan_reach rules order (clearTransformedExpr ps)"

lemma RuleManager_ok: "map_ok (RuleManager_new instances)"
proof -
  have "map_ok rules \<Longrightarrow> map_ok (foldl (\<lambda>rules name. snd (map_emplace name (instances name) rules)) rules names)" for rules names
    by (induction names arbitrary: rules) auto
  then show ?thesis by (simp add: RuleManager_new_def)
qed

lemma RuleManager_names: "fst ` set (RuleManager_new instances) = set rule_names"
proof -
  have keys: "fst ` set (snd (map_emplace k v m)) = insert k (fst ` set m)" for k :: string and v and m :: "('n, 'w) rules"
  proof (induction m)
    case (Cons e m)
    then show ?case by (cases e; cases "map_emplace k v m") (simp, blast)
  qed simp
  have "fst ` set (foldl (\<lambda>rules name. snd (map_emplace name (instances name) rules)) rules names) = fst ` set rules \<union> set names"
    for rules names
    by (induction names arbitrary: rules) (auto simp: keys)
  then show ?thesis by (simp add: RuleManager_new_def)
qed

lemma reach_typed:
  assumes "plan_reach rules order ps" "map_ok rules" "\<And>ks. mset (order ks) = mset ks"
  shows "plan_typed ps \<and> ps_ruleManager ps = rules"
  using assms(1)
proof induction
  case start
  then show ?case using assms(2) by (simp add: plan_typed_def PlanState_new_def)
next
  case (update ps planNode w ps' w')
  then show ?case using update_keeps [OF update.hyps(2)] by simp
next
  case (take ps cur ta w ps' w')
  then show ?case using takeAction_keeps [OF take.hyps(2) _ assms(3)] by simp
next
  case (forget ps)
  then show ?case by (auto simp: plan_typed_def clearTransformedExpr_def)
qed

lemma once_bound:
  assumes "plan_typed ps" "applied_once ps"
  shows "length (at_key (ps_transformedExprs ps) e) \<le> length (ps_ruleManager ps)"
proof -
  have "length (at_key (ps_transformedExprs ps) e) = card (set (at_key (ps_transformedExprs ps) e))"
    using assms(2) by (simp add: applied_once_def distinct_card)
  also have "\<dots> \<le> card (fst ` set (ps_ruleManager ps))"
    using assms(1) by (intro card_mono) (auto simp: plan_typed_def)
  also have "\<dots> \<le> length (ps_ruleManager ps)"
    by (meson card_image_le card_length finite_set le_trans)
  finally show ?thesis .
qed

end
