(* ===== verification/Spec2Isabelle.thy ===== *)
theory Spec2Isabelle
  imports Filter_Range_Test Filter_Batch_Test Filter_Merge_Padding Filter_Bytes_Range_Test Managed_Arenas Merge_Streams Selectivity_Sets Bit_Copy_Correct Velox_Tree_Correct Plan_State_Correct
begin

text \<open>
  A verification of parts of CactusDB, an extension of the Velox execution engine with machine-learning
  functions and an optimizer for them. The theories follow the C++ sources under \<open>src/velox\<close>; definitions keep the
  names of the functions they translate, with the class as a prefix where C++ overloads a name.

  \<^bold>\<open>The parts and how they interact.\<close> A reader of a column calls a \<^emph>\<open>filter\<close> for single values, for batches of values
  and for the statistics of a block that it may skip; filters of a column are merged into one. Vectors and
  tables take their memory from \<^emph>\<open>arenas\<close>. A sort that has spilled merges its runs with a \<^emph>\<open>tree of losers\<close>. Expressions are
  evaluated for the rows of a \<^emph>\<open>selectivity vector\<close>, a \<^emph>\<open>bit array\<close> with bounds and a cached answer; the functions on
  \<^emph>\<open>decision trees\<close> read models from files and visit these rows. The \<^emph>\<open>plan state\<close> of the optimizer keeps which rewrite
  rules may be applied to which expressions of a plan.

  \<^bold>\<open>Conventions\<close> (\<open>Velox_Prelude\<close>). A function that may throw, run into undefined behaviour or not return has the
  result type \<open>'a res\<close>, a sum with the errors \<open>velox_error\<close>, composed with \<open>rbind\<close>. Signed integers are \<open>int\<close> with an error for
  an overflow (\<open>i64\<close>, \<open>i32_res\<close>) or written-out narrowing (\<open>narrow32\<close>); unsigned 64-bit arithmetic is on \<open>nat\<close> modulo \<open>2^64\<close>
  (\<open>Power_Of_Two\<close>) and bit patterns are words. Objects are records that operations return updated. \<open>Std_Map\<close>, \<open>Std_String\<close> and
  \<open>Floating_Point\<close> hold what the code uses of \<open>std::map\<close>, of \<open>std::string\<close>, \<open>stoi\<close> and \<open>stod\<close>, and of IEEE-754 arithmetic on
  bit patterns.

  \<^bold>\<open>Filters\<close> (\<open>type/Filter.h\<close>, \<open>type/Filter.cpp\<close>).
  \<^item> \<open>Filter_Bigint_Range\<close> has the integer ranges, \<open>Filter_Bigint_Values\<close> and \<open>Filter_Bigint_Negated\<close> the IN and NOT-IN lists as hash
    tables and bitmasks (locale \<open>bigint_values\<close>, interpreted for both), \<open>Filter_Bigint_Simd\<close> the vectorised lookups,
    \<open>Filter_Floating\<close> the floating-point and timestamp ranges, \<open>Filter_Bytes\<close> the string filters.
  \<^item> \<open>Filter_Dispatch\<close> is the virtual dispatch: one method table per class, \<open>clone\<close>, and the tests called through it.
    \<open>Filter_Merge\<close> is \<open>mergeWith\<close> of every class with the factories it uses.
  \<^item> \<open>Filter_Merge_Bigint\<close> and \<open>Filter_Merge_Bytes\<close> show that a merged filter accepts exactly what both accept (C1, C12), and
    that the factories represent the given lists (C2). \<open>Filter_Range_Test\<close> and \<open>Filter_Bytes_Range_Test\<close> show that no
    block with an accepted value is skipped (C3, C13, C14) and when the answer is exact (C4, C5). \<open>Filter_Batch_Test\<close> shows
    that vectorised tests agree with the scalar ones on every lane (C6, C7), with the exceptions C8 and C9. The binary search
    of multi-ranges is C10.
  \<^item> Where the code goes wrong the theorems say exactly when: C1 needs \<open>bigint_safe\<close>, whose condition on the last slot of a
    hash table is what \<open>Filter_Merge_Padding\<close> and C11 drop; C3 and C5 name the one range test that overflows; C6 needs
    lanes without the empty marker and C7 bounds that reach the type of the lanes, and C8 and C9 are what happens otherwise.

  \<^bold>\<open>Memory\<close> (\<open>common/memory/MmapArena.h\<close>, \<open>MmapArena.cpp\<close>). \<open>Mmap_Arena\<close> has the arena with its free list and the index by
  size, \<open>Managed_Arenas\<close> the collection of arenas. \<open>Block_Allocator\<close> is the contract of an allocator, a locale with what its
  clients can rely on, interpreted for both classes. \<open>Mmap_Arena_Correct\<close> shows that the free blocks are the maximal
  intervals of the free space: the invariant and the clients' view (C15, C19), the outcomes of \<open>allocate\<close> and \<open>free\<close>
  (C16, C17), their round trip (C18), and two flaws (C20, C21: every \<open>free\<close> that throws leaves an inconsistent arena).

  \<^bold>\<open>Merging\<close> (\<open>exec/TreeOfLosers.h\<close>). \<open>Tree_Of_Losers\<close> has \<open>TreeOfLosers\<close> and \<open>MergeArray\<close>; a stream is the list of elements it still
  gives. \<open>Tree_Tournament\<close> is the theory of the tournament, \<open>Tree_Of_Losers_Next\<close> and \<open>Tree_Of_Losers_Equals\<close> the two ways to
  call the tree, \<open>Stream_Merger\<close> the interface (locales \<open>merger\<close> and \<open>flag_merger\<close>) that \<open>Merge_Streams\<close> interprets for both
  structures: merging sorts and ends (C22), the flags are right (C23), \<open>next\<close> refines its contract (C24), both structures
  agree (C25), and what happens beyond their limits (C26, C27).

  \<^bold>\<open>Bits and rows\<close> (\<open>common/base/BitUtil.h\<close>, \<open>BitUtil.cpp\<close>, \<open>vector/SelectivityVector.h\<close>). \<open>Bit_Memory\<close> is memory as bytes with loads
  and stores of words, \<open>Bit_Words\<close> the walks over the words of a range, \<open>Bit_Util\<close> and \<open>Bit_Copy\<close> the operations.
  \<open>Bit_Words_Visits\<close> shows once, in the locales \<open>word_visitor\<close> and \<open>word_updater\<close>, that a walk visits exactly the positions of its
  range; the interpretations in \<open>Bit_Util_Queries\<close> and \<open>Bit_Util_Updates\<close> give the operations (C32), \<open>Bit_Copy_Correct\<close> the copies
  (C33, C34). \<open>Selectivity_Vector\<close> has the class, its iterator and \<open>translateToInnerRows\<close>; \<open>Selectivity_Updates\<close> and
  \<open>Selectivity_Queries\<close> what each operation does to the set of rows, \<open>Selectivity_Sets\<close> the refinement of operations on sets
  (C28, through the locale \<open>step_refinement\<close> of \<open>Refinement\<close>), and further the iterator (C29) and two flaws (C30, C31). The abstract
  state of C28 tracks the number of words, since rows can be added correctly only to an array without spare words; C31 is
  the other case. \<open>intersect\<close> is specified as the code has it: it keeps the rows beyond the other vector.

  \<^bold>\<open>Decision trees\<close> (\<open>ml_functions/DecisionTree.h\<close>, \<open>DecisionForest.h\<close>, \<open>VeloxDecisionTree.h\<close>). \<open>Decision_Tree\<close>, \<open>Decision_Forest\<close> and
  \<open>Velox_Decision_Tree\<close> have the readers of the dumped models, the walks and the vector functions. \<open>Decision_Texts\<close> gives
  the text of a tree as XGBoost dumps it and what is read from each line, \<open>Decision_Tree_Correct\<close> that the array then holds
  the tree and that every walk ends, \<open>Decision_Forest_Correct\<close> and \<open>Velox_Tree_Correct\<close> the predictions (C35, C37, C38). The reader
  drops the last three characters of every leaf value (C36). So there are two evaluations of a tree: \<open>xeval\<close> with the dumped
  values and \<open>xread\<close> with the values as they are read. The predictions are those of \<open>xread\<close>; C35 says when they are those of \<open>xeval\<close>.

  \<^bold>\<open>Optimizer\<close> (\<open>optimizer/PlanState.h\<close>, \<open>RuleManager.h\<close>). \<open>Plan_State\<close> has the state with all its operations; a rule is a record of the
  virtual functions of \<open>RewriteAction\<close>. \<open>Plan_State_Correct\<close> shows which actions an update offers (C39) and what holds after any
  sequence of calls, and what only directly after an update (C40); a state after a call that throws is not covered.

  \<^bold>\<open>Bounds and fuel.\<close> \<open>hash_lane_loop\<close> gets one round more than the table has slots; each round that does not end the loop moves
  to slots not seen before, and C6 shows that the bound is never reached. The recursion of \<open>first\<close> and
  \<open>firstWithEquals\<close> gets a depth; 16 is enough for the 32768 streams that the node numbers allow, and C22 to C25
  show that the result is there; C26 shows that beyond this no depth is enough. \<open>drain\<close>, \<open>iterate\<close> and \<open>tree_walk\<close> are
  partial functions, and C22, C29 and C35 show that they return. All other loops are total functions.

  \<^bold>\<open>Parameters.\<close> The addresses that \<open>mmap\<close> returns, the order in which an \<open>unordered_set\<close> or \<open>unordered_map\<close> is iterated, the order in
  which \<open>std::sort\<close> leaves equal streams, the contents of files and folders, the contents of arrays before they are
  filled, and the rewrite rules are arguments of the definitions; where a theorem relies on them, it says on what.

  \<^bold>\<open>Not modelled.\<close> Strings of two gigabytes or more in string filters, whose lengths \<open>compareRanges\<close> converts to \<open>int\<close>; text and JSON forms of filters; \<open>munmap\<close> and \<open>madvise\<close>; memory pools and arbitration, drivers, tasks and operators,
  whose state is shared between threads; hash functions, \<open>forBatches\<close> and the variants with BMI2 instructions of the bit
  utilities; readers and writers of files; the type system, vectors and expressions apart from what the
  functions on trees use; the library of scalar and aggregate functions; the neural-network functions, which hand their
  work to Eigen, libtorch and CUDA; the rewrite rules, which edit serialized plans with \<open>folly::dynamic\<close> and the plan
  builder; the cost model, whose estimates are heuristics over plan nodes without a contract.
\<close>

section \<open>Integer filters\<close>

text \<open>
  \<^bold>\<open>(C1)\<close> Merging two well-formed integer filters for which \<open>bigint_safe\<close> holds never fails,
  for any bound of at least 4 on the depth of the calls, and gives a well-formed filter that accepts exactly
  the values, and the nulls, that both accept. \<open>bigint_safe\<close> restricts the filters as follows: a hash-table IN
  list has less than \<open>2 ^ 20\<close> values, none of them is the empty marker and none of them sits in the last slot of
  the table; a bitmask and a rejected range end below \<open>INT64_MAX\<close>; a NOT IN list has less than \<open>2 ^ 20\<close> values, all
  of them strictly between the limits of \<open>int64_t\<close>, and in a hash table they lie at most \<open>INT64_MAX\<close> apart.
  Without the condition on the last slot the merge goes wrong (\<open>padded_slot_counted_twice\<close>).
\<close>

theorem bigint_mergeWith_and:
  assumes "bigint_wf f" "bigint_wf g" "bigint_safe f" "bigint_safe g" "4 \<le> n"
  shows "\<exists>h. mergeWith n f g = Inr h \<and> bigint_wf h \<and>
    testNull h = (testNull f \<and> testNull g) \<and>
    (\<forall>x. i64 x \<longrightarrow> testInt64 h x = Inr (accepts64 f x \<and> accepts64 g x))"
  using bigint_merges [OF assms] by (simp add: denotes_def)

theorem bigint_mergeWith_and_witness:
  "\<exists>h. mergeWith 4 (kNegatedBigintRange (NegatedBigintRange_new 3 5 True))
      (kBigintRange (BigintRange_new 1 10 True)) = Inr h \<and>
    testInt64 h 4 = Inr False \<and> testInt64 h 2 = Inr True \<and> testNull h"
proof -
  let ?f = "kNegatedBigintRange (NegatedBigintRange_new 3 5 True)"
  let ?g = "kBigintRange (BigintRange_new 1 10 True)"
  have wf: "bigint_wf ?f" "bigint_wf ?g" "bigint_safe ?f" "bigint_safe ?g"
    by (simp_all add: NegatedBigintRange_new_def BigintRange_new_def range_inv_def i64_def)
  have nulls: "testNull ?f" "testNull ?g"
    by (simp_all add: NegatedBigintRange_new_def BigintRange_new_def)
  have acc: "\<not> accepts64 ?f 4" "accepts64 ?f 2" "accepts64 ?g 2" "i64 4" "i64 2"
    by (simp_all add: NegatedBigintRange_new_def BigintRange_new_def BigintRange_testInt64_def i64_def)
  from bigint_mergeWith_and [OF wf order_refl] obtain h where h: "mergeWith 4 ?f ?g = Inr h"
    "testNull h = (testNull ?f \<and> testNull ?g)"
    "\<forall>x. i64 x \<longrightarrow> testInt64 h x = Inr (accepts64 ?f x \<and> accepts64 ?g x)" by blast
  show ?thesis
    by (intro exI [of _ h] conjI h(1)) (use h(2,3) nulls acc in simp_all)
qed

text \<open>
  \<^bold>\<open>(C2)\<close> From unique \<open>int64_t\<close> values, at most \<open>2 ^ 22\<close> of them, the two
  factories never fail and, whichever of the representations they choose, the filter accepts exactly
  the values, or exactly the others.
\<close>

theorem createBigintValues_exact:
  assumes "distinct vs" "\<forall>v \<in> set vs. i64 v" "length vs \<le> 2 ^ 22"
  shows "\<exists>f g. createBigintValues vs na = Inr f \<and> createNegatedBigintValues vs na = Inr g \<and>
    testNull f = na \<and> testNull g = na \<and>
    (\<forall>x. i64 x \<longrightarrow> testInt64 f x = Inr (x \<in> set vs) \<and> testInt64 g x = Inr (x \<notin> set vs))"
  using createBigintValues_denotes [OF assms(1,2) disjI1 [OF assms(3)], of na]
  by (auto simp: denotes_def)

theorem createBigintValues_exact_witness:
  "\<exists>f g. createBigintValues [7, 3, 100000] True = Inr f \<and>
    createNegatedBigintValues [7, 3, 100000] True = Inr g \<and>
    testInt64 f 7 = Inr True \<and> testInt64 f 8 = Inr False \<and> testInt64 g 8 = Inr True"
proof -
  have "distinct [7, 3, 100000 :: int]" "\<forall>v \<in> set [7, 3, 100000]. i64 v"
    "length [7, 3, 100000 :: int] \<le> 2 ^ 22" "i64 7" "i64 8"
    by (simp_all add: i64_def)
  with createBigintValues_exact [of "[7, 3, 100000]" True] show ?thesis by fastforce
qed

text \<open>
  \<^bold>\<open>(C3)\<close> \<open>testInt64Range\<close> decides from the minimum and the maximum of a block whether the
  block is read. On a well-formed integer filter it never skips a block that holds a value, or a null, the
  filter accepts, and it fails in one case only: a NOT IN list that contains both ends of a block that spans
  more than \<open>INT64_MAX\<close>, where the subtraction \<open>max - min\<close> overflows.
\<close>

theorem bigint_testInt64Range_sound:
  assumes "bigint_wf f" "a \<le> b"
  shows "if range_overflows f a b hasNull then testInt64Range f a b hasNull = Inl SignedOverflow
    else \<exists>t. testInt64Range f a b hasNull = Inr t \<and>
      ((hasNull \<and> testNull f) \<or> (\<exists>x \<in> {a..b}. testInt64 f x = Inr True) \<longrightarrow> t)"
  using bigint_range_overflow [OF assms] bigint_range_test [OF assms, of hasNull]
  by (auto simp: range_has_match_def accepts64_def)

theorem bigint_testInt64Range_sound_witness:
  "testInt64Range (kNegatedBigintRange (NegatedBigintRange_new 3 5 False)) 4 6 False = Inr True"
proof -
  let ?f = "kNegatedBigintRange (NegatedBigintRange_new 3 5 False)"
  have "bigint_wf ?f" "(4::int) \<le> 6"
    by (simp_all add: NegatedBigintRange_new_def BigintRange_new_def range_inv_def i64_def)
  from bigint_testInt64Range_sound [OF this, of False] obtain t where
    "testInt64Range ?f 4 6 False = Inr t" "(\<exists>x \<in> {4..6}. testInt64 ?f x = Inr True) \<longrightarrow> t" by auto
  moreover have "testInt64 ?f 6 = Inr True"
    by (simp add: NegatedBigintRange_new_def BigintRange_new_def NegatedBigintRange_testInt64_def
      BigintRange_testInt64_def)
  ultimately show ?thesis by force
qed

text \<open>
  \<^bold>\<open>(C4)\<close> The range test of the hash-table IN list is exact: it answers true
  when, and only when, some value of the block, or a null of it, is accepted.
\<close>

theorem in_list_testInt64Range_exact:
  assumes "hash_inv f" "a \<le> b"
  shows "BigintValuesUsingHashTable_testInt64Range f a b hasNull =
    Inr ((hasNull \<and> bvh_nullAllowed f) \<or> (\<exists>x \<in> {a..b}. BigintValuesUsingHashTable_testInt64 f x))"
  using hash_range_test [OF assms, of hasNull] by (simp add: range_has_match_def accepts64_def)

theorem in_list_testInt64Range_exact_witness:
  "\<exists>f. BigintValuesUsingHashTable_new 3 100000 [100000, 3] False = Inr f \<and>
    BigintValuesUsingHashTable_testInt64Range f 4 99 False = Inr False"
proof -
  obtain f where f: "BigintValuesUsingHashTable_new 3 100000 [100000, 3] False = Inr f"
    using BigintValuesUsingHashTable_new_total [of 3 100000 "[100000, 3]" False] by auto
  then have inv: "hash_inv f" and vals: "bvh_values f = [3, 100000]"
    using BigintValuesUsingHashTable_new_inv [OF f] by (simp_all add: i64_def)
  have "\<not> BigintValuesUsingHashTable_testInt64 f x" if "x \<in> {4..99}" for x
    using that hash_test_iff [OF inv] by (auto simp: vals)
  then show ?thesis using in_list_testInt64Range_exact [OF inv, of 4 99 False] f by auto
qed

text \<open>
  \<^bold>\<open>(C5)\<close> The range test of the hash-table NOT IN list counts the rejected values of
  the block by the distance of two binary searches. It is exact, except that \<open>max - min\<close> overflows when both
  ends of the block are in the list and lie more than \<open>INT64_MAX\<close> apart.
\<close>

theorem not_in_list_testInt64Range_exact:
  assumes "hash_inv (nbh_nonNegated f)" "a \<le> b"
  shows "NegatedBigintValuesUsingHashTable_testInt64Range f a b hasNull =
    (if \<not> (hasNull \<and> nbh_nullAllowed f) \<and> a \<in> set (nbh_values f) \<and> b \<in> set (nbh_values f) \<and> \<not> i64 (b - a)
     then Inl SignedOverflow
     else Inr ((hasNull \<and> nbh_nullAllowed f) \<or>
       (\<exists>x \<in> {a..b}. NegatedBigintValuesUsingHashTable_testInt64 f x)))"
  using negated_hash_testInt64Range_overflow [OF assms, of hasNull] negated_hash_range_test [OF assms, of hasNull]
  by (auto simp: range_has_match_def accepts64_def)

theorem not_in_list_testInt64Range_exact_witness:
  "\<exists>f. NegatedBigintValuesUsingHashTable_new 3 5 [5, 4, 3] False = Inr f \<and>
    NegatedBigintValuesUsingHashTable_testInt64Range f 3 5 False = Inr False"
proof -
  obtain g where g: "BigintValuesUsingHashTable_new 3 5 [5, 4, 3] True = Inr g"
    using BigintValuesUsingHashTable_new_total [of 3 5 "[5, 4, 3]" True] by auto
  then have inv: "hash_inv g" and vals: "bvh_values g = [3, 4, 5]"
    using BigintValuesUsingHashTable_new_inv [OF g] by (simp_all add: i64_def)
  let ?f = "\<lparr>nbh_nonNegated = g, nbh_nullAllowed = False\<rparr>"
  have none: "\<not> (\<exists>x \<in> {3..5}. NegatedBigintValuesUsingHashTable_testInt64 ?f x)"
    unfolding NegatedBigintValuesUsingHashTable_testInt64_def
    by (auto simp: vals hash_test_iff [OF inv])
  have "NegatedBigintValuesUsingHashTable_testInt64Range ?f 3 5 False = Inr False"
    using not_in_list_testInt64Range_exact [of ?f 3 5 False] inv none by (simp add: i64_def)
  moreover have "NegatedBigintValuesUsingHashTable_new 3 5 [5, 4, 3] False = Inr ?f"
    by (simp add: NegatedBigintValuesUsingHashTable_new_def g)
  ultimately show ?thesis by blast
qed

text \<open>
  \<^bold>\<open>(C6)\<close> The vectorised test of every well-formed integer filter, on batches of up
  to four lanes without the empty marker, terminates within its bound, reads no slot past the
  padding, and gives each lane the verdict of the scalar test.
\<close>

theorem bigint_testValues64_lanes:
  assumes "bigint_wf f" "length xs \<le> 4" "kEmptyMarker \<notin> set xs"
  shows "\<exists>bs. testValues64 f xs = Inr bs \<and> length bs = length xs \<and>
    (\<forall>i < length xs. testInt64 f (xs ! i) = Inr (bs ! i))"
  using bigint_testValues64 [OF assms(1) _ assms(3)] assms(2) bigint_wf_testInt64 [OF assms(1)]
  by (simp add: kPaddingElements_def)

theorem bigint_testValues64_lanes_witness:
  "\<exists>f. createBigintValues [3, 100000] False = Inr f \<and>
    testValues64 f [3, 4, 100000, 5] = Inr [True, False, True, False]"
proof -
  have "distinct [3, 100000 :: int]" "\<forall>v \<in> set [3, 100000]. i64 v" "length [3, 100000 :: int] \<le> 2 ^ 22"
    by (simp_all add: i64_def)
  from createBigintValues_denotes(1) [OF this(1,2) disjI1 [OF this(3)], of False]
  obtain f where f: "createBigintValues [3, 100000] False = Inr f" "bigint_wf f"
    "\<forall>x. i64 x \<longrightarrow> testInt64 f x = Inr (x \<in> set [3, 100000])" by (auto simp: denotes_def)
  have "length [3, 4, 100000, 5 :: int] \<le> 4" "kEmptyMarker \<notin> set [3, 4, 100000, 5]"
    by (simp_all add: kEmptyMarker_def)
  from bigint_testValues64_lanes [OF f(2) this] obtain bs where
    bs: "testValues64 f [3, 4, 100000, 5] = Inr bs" "length bs = 4"
      "\<forall>i < 4. testInt64 f ([3, 4, 100000, 5] ! i) = Inr (bs ! i)" by auto
  obtain b0 b1 b2 b3 where b: "bs = [b0, b1, b2, b3]"
    using bs(2) by (auto simp: numeral_eq_Suc length_Suc_conv)
  have "testInt64 f ([3, 4, 100000, 5] ! i) = Inr (bs ! i)" if "i < 4" for i
    using bs(3) that by blast
  from this [of 0] this [of 1] this [of 2] this [of 3] have "bs = [True, False, True, False]"
    using f(3) by (simp add: i64_def b)
  then show ?thesis using f(1) bs(1) by blast
qed

text \<open>
  \<^bold>\<open>(C7)\<close> On batches of up to eight \<open>int32_t\<close> lanes the same holds when the bounds of
  a range reach into the type of the lanes.
\<close>

theorem bigint_testValues32_lanes:
  assumes "bigint_wf f" "length xs \<le> 8" "\<forall>v \<in> set xs. INT32_MIN \<le> v \<and> v \<le> INT32_MAX"
    and "bounds_reach INT32_MIN INT32_MAX f"
  shows "testValues32 f xs = Inr (map (accepts64 f) xs)"
  using bigint_testValues32 [OF assms(1) _ assms(3,4)] assms(2) by (simp add: kPaddingElements_def)

theorem bigint_testValues32_lanes_witness:
  "testValues32 (kBigintRange (BigintRange_new (- 9000000000) 7 False)) [7, 8] = Inr [True, False]"
proof -
  let ?f = "kBigintRange (BigintRange_new (- 9000000000) 7 False)"
  have "bigint_wf ?f" "length [7, 8 :: int] \<le> 8" "\<forall>v \<in> set [7, 8]. INT32_MIN \<le> v \<and> v \<le> INT32_MAX"
    "bounds_reach INT32_MIN INT32_MAX ?f"
    by (simp_all add: BigintRange_new_def range_inv_def i64_def reaches_def br_isSingleValue_def)
  from bigint_testValues32_lanes [OF this] show ?thesis
    by (simp add: BigintRange_new_def BigintRange_testInt64_def)
qed

text \<open>
  \<^bold>\<open>(C8)\<close> When the bounds of a range do not reach the type of the lanes, the narrowed copy of one
  of them wraps around. For every range of more than one value that lies above \<open>INT32_MAX\<close> the batch test
  accepts each lane that is at least the low 32 bits of the lower bound, the lane \<open>INT32_MAX\<close> among them, and for
  every such range below \<open>INT32_MIN\<close> each lane that is at most the low 32 bits of the upper bound; the scalar
  test rejects them all.
\<close>

theorem narrowed_bounds_wrap:
  assumes "br_lower r < br_upper r" "\<forall>v \<in> set xs. INT32_MIN \<le> v \<and> v \<le> INT32_MAX"
    and "INT32_MAX < br_lower r \<or> br_upper r < INT32_MIN"
  shows "testValues32 (kBigintRange r) xs =
      Inr (map (\<lambda>v. if INT32_MAX < br_lower r then narrow32 (br_lower r) \<le> v else v \<le> narrow32 (br_upper r)) xs) \<and>
    testValues32 (kBigintRange r) [if INT32_MAX < br_lower r then INT32_MAX else INT32_MIN] = Inr [True] \<and>
    (\<forall>v \<in> set xs. testInt64 (kBigintRange r) v = Inr False)"
proof -
  have one: "\<forall>v \<in> set [INT32_MAX]. INT32_MIN \<le> v \<and> v \<le> INT32_MAX" "\<forall>v \<in> set [INT32_MIN]. INT32_MIN \<le> v \<and> v \<le> INT32_MAX"
    by simp_all
  note beyond = BigintRange_testValues32_beyond [OF assms(1)]
  have lanes: "testValues32 (kBigintRange r) ys = Inr (BigintRange_testValues32 r ys)" for ys
    by (simp add: testValues32_def method_tables)
  show ?thesis
    using beyond [OF assms(2)] beyond [OF one(1)] beyond [OF one(2)] assms narrow32_bounds [of "br_lower r"]
      narrow32_bounds [of "br_upper r"]
    by (auto simp: lanes BigintRange_testInt64_def)
qed

theorem narrowed_bounds_wrap_witness:
  "testValues32 (kBigintRange (BigintRange_new 4294967296 9000000000 False)) [5, -1] = Inr [True, False] \<and>
   testInt64 (kBigintRange (BigintRange_new 4294967296 9000000000 False)) 5 = Inr False"
proof -
  let ?r = "BigintRange_new 4294967296 9000000000 False"
  have "br_lower ?r < br_upper ?r" "\<forall>v \<in> set [5, -1]. INT32_MIN \<le> v \<and> v \<le> INT32_MAX"
    "INT32_MAX < br_lower ?r \<or> br_upper ?r < INT32_MIN" by (simp_all add: BigintRange_new_def)
  from narrowed_bounds_wrap [OF this] show ?thesis by (simp add: BigintRange_new_def narrow32_def)
qed

text \<open>
  \<^bold>\<open>(C9)\<close> The condition on the empty marker is needed: for every IN list that does not contain the
  marker, a batch with the marker in some lane and some lane between the bounds of the list gives each other
  lane the verdict of the scalar test, but accepts the marker, which the scalar test rejects.
\<close>

theorem empty_marker_lane:
  assumes "hash_inv f" "kEmptyMarker \<notin> set (bvh_values f)" "length x \<le> 4" "kEmptyMarker \<in> set x"
    and "\<exists>v \<in> set x. bvh_min f \<le> v \<and> v \<le> bvh_max f"
  shows "testValues64 (kBigintValuesUsingHashTable f) x =
      Inr (map (\<lambda>v. v = kEmptyMarker \<or> BigintValuesUsingHashTable_testInt64 f v) x) \<and>
    testInt64 (kBigintValuesUsingHashTable f) kEmptyMarker = Inr False"
  using hash_testValues64_lanes [OF assms(1) _ _ assms(5)] hash_inv_marker [OF assms(1)] hash_test_iff [OF assms(1)] assms(2,3)
  by (simp add: kPaddingElements_def testValues64_def method_tables)

theorem empty_marker_lane_witness:
  "\<exists>f. BigintValuesUsingHashTable_new 1 1000000 [1, 1000000] False = Inr f \<and>
    testValues64 (kBigintValuesUsingHashTable f) [1, kEmptyMarker, 7] = Inr [True, True, False]"
proof -
  obtain f where f: "BigintValuesUsingHashTable_new 1 1000000 [1, 1000000] False = Inr f"
    using BigintValuesUsingHashTable_new_total [of 1 1000000 "[1, 1000000]" False] by auto
  then have inv: "hash_inv f" and vals: "bvh_values f = [1, 1000000]" 
    using BigintValuesUsingHashTable_new_inv [OF f] by (simp_all add: i64_def)
  have lim: "bvh_min f = 1" "bvh_max f = 1000000" using hash_inv_min [OF inv] hash_inv_max [OF inv] by (simp_all add: vals)
  have "kEmptyMarker \<notin> set (bvh_values f)" "length [1, kEmptyMarker, 7] \<le> 4" "kEmptyMarker \<in> set [1, kEmptyMarker, 7]"
    "\<exists>v \<in> set [1, kEmptyMarker, 7]. bvh_min f \<le> v \<and> v \<le> bvh_max f" by (simp_all add: vals lim kEmptyMarker_def)
  from empty_marker_lane [OF inv this] f show ?thesis by (simp add: hash_test_iff [OF inv] vals kEmptyMarker_def)
qed

text \<open>
  \<^bold>\<open>(C10)\<close> The binary search of \<open>BigintMultiRange::testInt64\<close> over the lower bounds decides
  the same as testing every range.
\<close>

theorem multi_range_search:
  assumes "multi_inv f"
  shows "BigintMultiRange_testInt64 f x \<longleftrightarrow> (\<exists>r \<in> set (bmr_ranges f). BigintRange_testInt64 r x)"
  using BigintMultiRange_testInt64_iff [OF assms] by (simp add: ranges_accept_def)

theorem multi_range_search_witness:
  "\<exists>f. BigintMultiRange_new [BigintRange_new 1 3 False, BigintRange_new 7 9 False] True = Inr f \<and>
    BigintMultiRange_testInt64 f 8 \<and> \<not> BigintMultiRange_testInt64 f 5"
proof -
  let ?rs = "[BigintRange_new 1 3 False, BigintRange_new 7 9 False]"
  have "disjoint_ranges ?rs" "1 < length ?rs" "\<forall>r \<in> set ?rs. \<not> br_nullAllowed r"
    by (simp_all add: BigintRange_new_def range_inv_def i64_def)
  from BigintMultiRange_new_disjoint [OF this, of True] obtain f where
    f: "BigintMultiRange_new ?rs True = Inr f" "multi_inv f" "bmr_ranges f = ?rs" by blast
  then show ?thesis
    using multi_range_search [OF f(2)] by (auto simp: BigintRange_new_def BigintRange_testInt64_def)
qed

text \<open>
  \<^bold>\<open>(C11)\<close> Merging a hash-table IN list with a range walks the whole table with its padding, so
  that a value in the last slot is counted five times. For every list without the empty marker whose last slot
  holds a value of the range, and every range that overlaps the list in more than a point: when that value
  is the only one of the list in the range the merge fails a check of a constructor, and when the values in the
  range leave exactly four gaps (and span at most \<open>INT64_MAX\<close>) the merge yields the range from the least to the greatest of them, which
  accepts these four values although the list does not.
\<close>

theorem padded_slot_counted_twice:
  assumes "hash_inv f" "kEmptyMarker \<notin> set (bvh_values f)"
    and "bvh_hashTable f ! bvh_sizeMask f = v" "v \<noteq> kEmptyMarker" "BigintRange_testInt64 r v"
    and "max (bvh_min f) (br_lower r) < min (bvh_max f) (br_upper r)"
    and W: "W = {x \<in> set (bvh_values f). BigintRange_testInt64 r x}"
  shows "(W = {v} \<longrightarrow> mergeWith (Suc n) (kBigintValuesUsingHashTable f) (kBigintRange r) = Inl CheckFailed) \<and>
    (card ({Min W..Max W} - set (bvh_values f)) = 4 \<and> i64 (Max W - Min W) \<longrightarrow>
      mergeWith (Suc n) (kBigintValuesUsingHashTable f) (kBigintRange r) =
        Inr (kBigintRange (BigintRange_new (Min W) (Max W) (bvh_nullAllowed f \<and> br_nullAllowed r))))"
proof -
  have "\<not> bvh_containsEmptyMarker f" using assms(1,2) by (simp add: hash_inv_marker)
  from padded_merge [OF assms(1) this assms(3-6), of n] obtain kept where
    k: "mergeWith (Suc n) (kBigintValuesUsingHashTable f) (kBigintRange r) =
      createBigintValues kept (bvh_nullAllowed f \<and> br_nullAllowed r)" "set kept = W" "length kept = card W + 4"
    unfolding W by blast
  have v: "v \<in> W" using hash_inv_table_elem [OF assms(1), of "bvh_sizeMask f"] assms(3-5) by (simp add: W)
  have "createBigintValues kept na = Inl CheckFailed" if "W = {v}" for na
    using createBigintValues_same [of kept v] k(2,3) that by simp
  moreover have "createBigintValues kept na = Inr (kBigintRange (BigintRange_new (Min W) (Max W) na))"
    if "card ({Min W..Max W} - set (bvh_values f)) = 4" "i64 (Max W - Min W)" for na
    using createBigintValues_block [of kept na] gaps_count [OF W, of v] v k(2,3) that by simp
  ultimately show ?thesis using k(1) by simp
qed

theorem padded_slot_counted_twice_witness:
  "\<exists>f g. BigintValuesUsingHashTable_new 3 10000 [3, 10000] False = Inr f \<and>
    mergeWith 4 (kBigintValuesUsingHashTable f) (kBigintRange (BigintRange_new 0 100 False)) = Inl CheckFailed \<and>
    BigintValuesUsingHashTable_new 3 10000 [3, 8, 10000] False = Inr g \<and>
    mergeWith 4 (kBigintValuesUsingHashTable g) (kBigintRange (BigintRange_new 0 100 False)) =
      Inr (kBigintRange (BigintRange_new 3 8 False))"
proof -
  let ?r = "BigintRange_new 0 100 False"
  obtain f g where f: "BigintValuesUsingHashTable_new 3 10000 [3, 10000] False = Inr f"
    and g: "BigintValuesUsingHashTable_new 3 10000 [3, 8, 10000] False = Inr g"
    using BigintValuesUsingHashTable_new_total [of 3 10000 "[3, 10000]" False]
      BigintValuesUsingHashTable_new_total [of 3 10000 "[3, 8, 10000]" False] by auto
  have "rbind (BigintValuesUsingHashTable_new 3 10000 [3, 10000] False) (\<lambda>f. Inr (bvh_hashTable f ! bvh_sizeMask f)) = Inr 3"
    "rbind (BigintValuesUsingHashTable_new 3 10000 [3, 8, 10000] False) (\<lambda>f. Inr (bvh_hashTable f ! bvh_sizeMask f)) = Inr 3"
    by code_simp+
  then have slot: "bvh_hashTable f ! bvh_sizeMask f = 3" "bvh_hashTable g ! bvh_sizeMask g = 3" by (simp_all add: f g)
  have inv: "hash_inv f" "hash_inv g" and vals: "bvh_values f = [3, 10000]" "bvh_values g = [3, 8, 10000]"
    and nulls: "\<not> bvh_nullAllowed f" "\<not> bvh_nullAllowed g"
    using BigintValuesUsingHashTable_new_inv [OF f] BigintValuesUsingHashTable_new_inv [OF g] by (simp_all add: i64_def)
  have lim: "bvh_min f = 3" "bvh_max f = 10000" "bvh_min g = 3" "bvh_max g = 10000"
    using hash_inv_min [OF inv(1)] hash_inv_max [OF inv(1)] hash_inv_min [OF inv(2)] hash_inv_max [OF inv(2)]
    by (simp_all add: vals)
  have W: "{3} = {x \<in> set (bvh_values f). BigintRange_testInt64 ?r x}"
    "{3, 8} = {x \<in> set (bvh_values g). BigintRange_testInt64 ?r x}"
    by (auto simp: vals BigintRange_new_def BigintRange_testInt64_def)
  have "{Min {3, 8}..Max {3, 8}} - set (bvh_values g) = {4, 5, 6, 7 :: int}" by (auto simp: vals)
  then have four: "card ({Min {3, 8}..Max {3, 8}} - set (bvh_values g)) = 4" by simp
  have "mergeWith (Suc 3) (kBigintValuesUsingHashTable f) (kBigintRange ?r) = Inl CheckFailed"
    using padded_slot_counted_twice [OF inv(1) _ slot(1) _ _ _ W(1), of 3] lim
    by (simp add: vals kEmptyMarker_def BigintRange_new_def BigintRange_testInt64_def)
  moreover have "mergeWith (Suc 3) (kBigintValuesUsingHashTable g) (kBigintRange ?r) = Inr (kBigintRange (BigintRange_new 3 8 False))"
    using padded_slot_counted_twice [OF inv(2) _ slot(2) _ _ _ W(2), of 3] four lim nulls
    by (simp add: vals kEmptyMarker_def BigintRange_new_def BigintRange_testInt64_def i64_def)
  ultimately show ?thesis using f g by (simp add: numeral_eq_Suc)
qed


section \<open>String filters\<close>

text \<open>
  \<^bold>\<open>(C12)\<close> Merging two well-formed string filters (ranges, negated ranges, lists,
  negated lists and combinations of them) never fails, for any bound of at least 9 on the depth of
  the calls, and gives a well-formed filter that accepts exactly the strings, and the nulls, that both
  accept.
\<close>

theorem bytes_mergeWith_and:
  assumes "bytes_wf f" "bytes_wf g" "9 \<le> n"
  shows "\<exists>h. mergeWith n f g = Inr h \<and> bytes_wf h \<and> testNull h = (testNull f \<and> testNull g) \<and>
    (\<forall>s. testBytes h s = Inr (acceptsB f s \<and> acceptsB g s))"
  by (rule bytes_merges [OF assms])

theorem bytes_mergeWith_and_witness:
  "\<exists>nr v h. NegatedBytesRange_new ''b'' False False ''d'' False True True = Inr nr \<and>
    BytesValues_new {''a'', ''c''} True = Inr v \<and>
    mergeWith 9 (kNegatedBytesRange nr) (kMultiRange [kBytesValues v] True False) = Inr h \<and>
    testBytes h ''a'' = Inr True \<and> testBytes h ''c'' = Inr False \<and> testBytes h ''x'' = Inr False \<and>
    testNull h"
proof -
  obtain nr where nr: "NegatedBytesRange_new ''b'' False False ''d'' False True True = Inr nr"
    "byr_inv (nyr_nonNegated nr)" "nyr_nullAllowed nr"
    "byr_lower (nyr_nonNegated nr) = ''b''" "byr_upper (nyr_nonNegated nr) = ''d''"
    "\<not> ar_lowerUnbounded (nyr_nonNegated nr)" "\<not> ar_upperUnbounded (nyr_nonNegated nr)"
    "\<not> ar_lowerExclusive (nyr_nonNegated nr)"
    by (simp add: NegatedBytesRange_new_def BytesRange_new_def byr_inv_def)
  from BytesValues_new_total [of "{''a'', ''c''}" True] obtain v where
    v: "BytesValues_new {''a'', ''c''} True = Inr v" "byv_inv v" "byv_values v = {''a'', ''c''}" by auto
  let ?f = "kNegatedBytesRange nr" and ?g = "kMultiRange [kBytesValues v] True False"
  have wf: "bytes_wf ?f" "bytes_wf ?g" using nr v by simp_all
  have between: "bytes_between (nyr_nonNegated nr) ''c''" "\<not> bytes_between (nyr_nonNegated nr) ''a''"
    using nr by (simp_all add: bytes_between_def less_char_def)
  from bytes_mergeWith_and [OF wf order_refl] obtain h where h: "mergeWith 9 ?f ?g = Inr h"
    "testNull h = (testNull ?f \<and> testNull ?g)"
    "\<forall>s. testBytes h s = Inr (acceptsB ?f s \<and> acceptsB ?g s)" by blast
  have "acceptsB ?f ''a'' \<and> acceptsB ?g ''a''" "\<not> acceptsB ?f ''c''" "\<not> acceptsB ?g ''x''"
    using between v nr by (simp_all add: acceptsB_atoms)
  with h nr(1,3) v(1) show ?thesis by (intro exI [of _ nr] exI [of _ v] exI [of _ h]) simp
qed

text \<open>
  \<^bold>\<open>(C13)\<close> On a well-formed string filter and a block with known smallest and
  largest string, \<open>testBytesRange\<close> does not fail and keeps every block that has an accepted string or
  an accepted null.
\<close>

theorem bytes_testBytesRange_sound:
  assumes "bytes_wf f" "(hasNull \<and> testNull f) \<or> (\<exists>s. a \<le> s \<and> s \<le> b \<and> testBytes f s = Inr True)"
  shows "testBytesRange f (Some a) (Some b) hasNull = Inr True"
proof -
  have "bytes_range_has_match f a b hasNull"
    using assms(2) by (auto simp: bytes_range_has_match_def acceptsB_def)
  with bytes_range_test [OF assms(1), of a b hasNull] show ?thesis by auto
qed

theorem bytes_testBytesRange_sound_witness:
  "\<exists>r. BytesRange_new ''b'' False True [] True False False = Inr r \<and>
    testBytesRange (kBytesRange r) (Some ''a'') (Some ''d'') False = Inr True"
proof -
  obtain r where r: "BytesRange_new ''b'' False True [] True False False = Inr r" "byr_inv r"
    "byr_lower r = ''b''" "ar_upperUnbounded r"
    by (simp add: BytesRange_new_def byr_inv_def)
  have "bytes_between r ''c''" using r by (simp add: bytes_between_def less_char_def)
  then have "testBytes (kBytesRange r) ''c'' = Inr True" using r(2) by (simp add: BytesRange_testBytes_iff)
  moreover have "''a'' \<le> ''c''" "''c'' \<le> ''d''" by (simp_all add: less_char_def)
  ultimately have "testBytesRange (kBytesRange r) (Some ''a'') (Some ''d'') False = Inr True"
    using r(2) by (intro bytes_testBytesRange_sound) (simp_all only: bytes_wf.simps bytes_proper.simps bytes_atom.simps, blast)
  with r(1) show ?thesis by blast
qed

text \<open>
  \<^bold>\<open>(C14)\<close> The test on lengths never fails on a well-formed string filter and lets
  through the length of every string the filter accepts.
\<close>

theorem bytes_testLength_sound:
  assumes "bytes_wf f" "testBytes f s = Inr True"
  shows "testLength f (int (length s)) = Inr True"
  using bytes_length_test [OF assms(1), of s] assms(2) by (auto simp: acceptsB_def)

theorem bytes_testLength_sound_witness:
  "\<exists>v. BytesValues_new {''ab'', ''c''} True = Inr v \<and>
    testLength (kMultiRange [kBytesValues v] True False) 2 = Inr True"
proof -
  from BytesValues_new_total [of "{''ab'', ''c''}" True] obtain v where
    v: "BytesValues_new {''ab'', ''c''} True = Inr v" "byv_inv v" "byv_values v = {''ab'', ''c''}" by auto
  have "testBytes (kMultiRange [kBytesValues v] True False) ''ab'' = Inr True"
    using v by (simp add: BytesValues_testBytes_iff)
  with bytes_testLength_sound [of "kMultiRange [kBytesValues v] True False" "''ab''"] v show ?thesis
    by simp
qed


section \<open>Memory arenas\<close>

text \<open>
  \<^bold>\<open>(C15)\<close> Whatever sequence of requests of at most \<open>2 ^ 63\<close> bytes and of frees of its own
  blocks a client makes on a new arena, no \<open>free\<close> fails, the blocks it holds never overlap, the arena is
  consistent by its own check, and once the client has freed everything the arena is again the one
  it started with: all free blocks have been merged.
\<close>

theorem arena_client_run:
  assumes "picks pick" "MmapArena_new cap (Some x) = Inr a0" "0 < x" "0 < cap" "x + cap < 2 ^ 64"
    and "\<forall>op \<in> set ops. op_ok (2 ^ 63) op"
  shows "\<exists>a live. client_run (MmapArena_allocate pick) MmapArena_free ops (a0, []) = Inr (a, live) \<and>
    checkConsistency a \<and>
    sorted_wrt (\<lambda>(p, n) (q, m). {p..<p + roundBytes n} \<inter> {q..<q + roundBytes m} = {}) live \<and>
    (live = [] \<longrightarrow> a = a0)"
proof -
  have a0: "arena_inv a0" "arena_used a0 = {}" "ma_address a0 = x" "ma_byteSize a0 = cap"
    using MmapArena_new_inv [OF assms(2-5)] by (simp_all add: arena_used_def region_def)
  from arena.run_disjoint [of pick a0 x cap ops] a0 assms(1,6) obtain a live where
    r: "client_run (MmapArena_allocate pick) MmapArena_free ops (a0, []) = Inr (a, live)"
    "arena_inv a" "ma_address a = x" "ma_byteSize a = cap"
    "arena_used a = (\<Union>(p, n) \<in> set live. block_bytes p n)"
    "sorted_wrt (\<lambda>(p, n) (q, m). block_bytes p n \<inter> block_bytes q m = {}) live" by blast
  have "a = a0" if "live = []" using arena_unused [OF r(2) a0(1)] a0(2-4) r(3-5) that by simp
  with r(1,6) arena_consistent [OF r(2)] show ?thesis by blast
qed

theorem arena_client_run_witness:
  "\<exists>a0 a1. MmapArena_new 1048576 (Some 4096) = Inr a0 \<and> MmapArena_allocate Inf a0 100 = (Inr (Some 4096), a1) \<and>
    client_run (MmapArena_allocate Inf) MmapArena_free [Alloc 100, Free 0] (a0, []) = Inr (a0, [])"
proof -
  let ?ops = "[Alloc 100, Free 0]"
  let ?a0 = "\<lparr>ma_byteSize = 1048576, ma_address = 4096, ma_freeBytes = 1048576,
    ma_freeList = [(4096, 1048576)], ma_freeLookup = [(1048576, {4096})]\<rparr>"
  let ?a1 = "\<lparr>ma_byteSize = 1048576, ma_address = 4096, ma_freeBytes = 1048448,
    ma_freeList = [(4224, 1048448)], ma_freeLookup = [(1048448, {4224})]\<rparr>"
  note ops = addFreeBlock_def lookup_emplace_def lookup_at_def
  have new: "MmapArena_new 1048576 (Some 4096) = Inr ?a0" by (simp add: MmapArena_new_def ops)
  have "roundBytes 100 = 128"
    by (simp add: roundBytes_def nextPowerOfTwo_def countLeadingZeros_def floor_log2.simps u64_def)
  then have alloc: "MmapArena_allocate Inf ?a0 100 = (Inr (Some 4096), ?a1)"
    by (simp add: MmapArena_allocate_def ops removeFreeBlock_def removeFromLookup_def map_lower_bound_def
      map_erase_def u64_add_def u64_sub_def u64_def)
  have "picks Inf" by (simp add: picks_def Inf_nat_def1)
  from arena_client_run [OF this new, of ?ops] obtain a live where
    run: "client_run (MmapArena_allocate Inf) MmapArena_free ?ops (?a0, []) = Inr (a, live)"
    and same: "live = [] \<longrightarrow> a = ?a0" by auto
  from run have "live = []" by (simp add: alloc split: prod.splits sum.splits)
  with run same new alloc show ?thesis by blast
qed

text \<open>
  \<^bold>\<open>(C16)\<close> On an arena that keeps its invariant, \<open>free\<close> of a block inside the region fails a
  check when the block overlaps the free space; otherwise it succeeds, keeps the invariant, and adds
  exactly the bytes of the block to the free space.
\<close>

theorem arena_free_outcome:
  assumes "arena_inv a" "0 < n" "n \<le> 2 ^ 63"
    and "{x..<x + roundBytes n} \<subseteq> {ma_address a..<ma_address a + ma_byteSize a}"
  shows "if {x..<x + roundBytes n} \<inter> free_space (set (ma_freeList a)) = {} then
      \<exists>a'. MmapArena_free a x n = (Inr (), a') \<and> arena_inv a' \<and>
        free_space (set (ma_freeList a')) = free_space (set (ma_freeList a)) \<union> {x..<x + roundBytes n}
    else fst (MmapArena_free a x n) = Inl CheckFailed"
proof -
  have "0 < roundBytes n" by (rule roundBytes_pos [OF assms(2,3)])
  then have "x \<in> block_bytes x n" "x + roundBytes n - 1 \<in> block_bytes x n" by simp_all
  then have "x \<in> {ma_address a..<ma_address a + ma_byteSize a}"
    "x + roundBytes n - 1 \<in> {ma_address a..<ma_address a + ma_byteSize a}" using assms(4) by blast+
  then have x: "0 < x" "x + roundBytes n < 2 ^ 64" using assms(1) by (auto simp: arena_inv_def)
  show ?thesis
    using free_ok [OF assms(1-3) x(1) assms(4)] free_overlap [OF assms(1-3) x] by (simp only: split: if_splits) blast
qed

theorem arena_free_outcome_witness:
  "\<exists>a. MmapArena_new 1048576 (Some 4096) = Inr a \<and> fst (MmapArena_free a 5000 8) = Inl CheckFailed"
proof -
  obtain a where a: "MmapArena_new 1048576 (Some 4096) = Inr a"
    by (simp add: MmapArena_new_def addFreeBlock_def)
  have new: "arena_inv a" "ma_address a = 4096" "ma_byteSize a = 1048576"
    "free_space (set (ma_freeList a)) = {4096..<1052672}" using MmapArena_new_inv [OF a] by simp_all
  have r: "roundBytes 8 = 8"
    by (simp add: roundBytes_def nextPowerOfTwo_def countLeadingZeros_def floor_log2.simps)
  have "{5000..<5000 + roundBytes 8} \<inter> free_space (set (ma_freeList a)) \<noteq> {}"
    using r new(4) by auto
  with arena_free_outcome [OF new(1), of 8 5000] a new(2,3) r show ?thesis by auto
qed

text \<open>
  \<^bold>\<open>(C17)\<close> A request of at most \<open>2 ^ 63\<close> bytes never throws. It returns null, and
  changes nothing, exactly when no free block holds the rounded size; otherwise it returns the start
  of a free block of the smallest size that does, and takes exactly the rounded size out of the free
  space.
\<close>

theorem arena_allocate_best_fit:
  assumes "arena_inv a" "picks pick" "0 < n" "n \<le> 2 ^ 63"
  shows "if \<forall>(x, s) \<in> set (ma_freeList a). s < roundBytes n then MmapArena_allocate pick a n = (Inr None, a)
    else \<exists>p s a'. MmapArena_allocate pick a n = (Inr (Some p), a') \<and> arena_inv a' \<and>
      (p, s) \<in> set (ma_freeList a) \<and> roundBytes n \<le> s \<and>
      (\<forall>(y, t) \<in> set (ma_freeList a). roundBytes n \<le> t \<longrightarrow> s \<le> t) \<and>
      free_space (set (ma_freeList a')) = free_space (set (ma_freeList a)) - {p..<p + roundBytes n}"
proof (cases "map_lower_bound (ma_freeLookup a) (roundBytes n)")
  case None
  with allocate_refused [OF assms(1)] allocate_none [OF assms(3)] show ?thesis by simp
next
  case (Some e)
  obtain s S where e: "e = (s, S)" by (cases e)
  with allocate_found [OF assms] Some obtain p a' where
    p: "MmapArena_allocate pick a n = (Inr (Some p), a')" "arena_inv a'" "(p, s) \<in> blocks a" "roundBytes n \<le> s"
    "free_space (blocks a') = free_space (blocks a) - {p..<p + roundBytes n}" by blast
  have "s \<le> t" if "(y, t) \<in> blocks a" "roundBytes n \<le> t" for y t
    using least_fit [OF assms(1) Some [unfolded e] that] .
  with p allocate_refused [OF assms(1), of "roundBytes n"] Some show ?thesis by auto
qed

theorem arena_allocate_best_fit_witness:
  "\<exists>a p a'. MmapArena_new 1048576 (Some 4096) = Inr a \<and> MmapArena_allocate Inf a 100 = (Inr (Some p), a') \<and> p = 4096"
proof -
  obtain a where a: "MmapArena_new 1048576 (Some 4096) = Inr a" "ma_freeList a = [(4096, 1048576)]"
    by (simp add: MmapArena_new_def addFreeBlock_def)
  have "arena_inv a" using MmapArena_new_inv [OF a(1)] by simp
  moreover have "picks Inf" by (simp add: picks_def Inf_nat_def1)
  moreover have "roundBytes 100 = 128"
    by (simp add: roundBytes_def nextPowerOfTwo_def countLeadingZeros_def floor_log2.simps u64_def)
  ultimately show ?thesis using arena_allocate_best_fit [of a Inf 100] a by auto
qed

text \<open>
  \<^bold>\<open>(C18)\<close> Freeing the block that a request has just returned restores the
  arena, field by field, as it was before the request.
\<close>

theorem arena_allocate_free_roundtrip:
  assumes "arena_inv a" "picks pick" "0 < n" "n \<le> 2 ^ 63" "MmapArena_allocate pick a n = (Inr (Some p), a')"
  shows "MmapArena_free a' p n = (Inr (), a)"
proof -
  note c = arena_alloc_contract [OF assms(2,1,3,4,5)]
  then have a': "arena_inv a'" "ma_address a' = ma_address a" "ma_byteSize a' = ma_byteSize a"
    and used: "block_bytes p n \<inter> arena_used a = {}" "arena_used a' = arena_used a \<union> block_bytes p n" by auto
  then have "arena_owns a' p n" by blast
  from arena_free_contract [OF a'(1) assms(3,4) this] obtain b where
    b: "MmapArena_free a' p n = (Inr (), b)" "arena_inv b" "ma_address b = ma_address a" "ma_byteSize b = ma_byteSize a"
    "arena_used b = arena_used a' - block_bytes p n" using a'(2,3) by auto
  have "arena_used b = arena_used a" unfolding b(5) used(2) using used(1) by blast
  have "b = a" using arena_same_used [OF b(2) assms(1) b(3,4)] \<open>arena_used b = arena_used a\<close> by blast
  with b(1) show ?thesis by simp
qed

theorem arena_allocate_free_roundtrip_witness:
  "\<exists>a p a'. MmapArena_new 1048576 (Some 4096) = Inr a \<and> MmapArena_allocate Inf a 100 = (Inr (Some p), a') \<and>
    MmapArena_free a' p 100 = (Inr (), a)"
proof -
  obtain a where a: "MmapArena_new 1048576 (Some 4096) = Inr a" "ma_freeLookup a = [(1048576, {4096})]"
    by (simp add: MmapArena_new_def addFreeBlock_def lookup_emplace_def lookup_at_def)
  have inv: "arena_inv a" "picks Inf" using MmapArena_new_inv [OF a(1)] by (simp_all add: picks_def Inf_nat_def1)
  have "roundBytes 100 = 128"
    by (simp add: roundBytes_def nextPowerOfTwo_def countLeadingZeros_def floor_log2.simps u64_def)
  then have "\<exists>e. map_lower_bound (ma_freeLookup a) (roundBytes 100) = Some e" using a(2) by (simp add: map_lower_bound_def)
  with allocate_found [OF inv, of 100] obtain p a' where al: "MmapArena_allocate Inf a 100 = (Inr (Some p), a')" by force
  from arena_allocate_free_roundtrip [OF inv _ _ al] a(1) al show ?thesis by auto
qed

text \<open>
  \<^bold>\<open>(C19)\<close> With arenas added on demand, and whatever \<open>mmap\<close> returns as long as it is apart
  from the mapped regions, no \<open>free\<close> of a client's block ever fails and the blocks a client holds never
  overlap; when it holds none, every arena that is left is empty.
\<close>

theorem managed_client_run:
  assumes "picks pick" "mmap_ok mmap" "ManagedMmapArenas_new cap (Some x) = Inr m0"
    and "0 < x" "0 < cap" "x + cap < 2 ^ 64" "\<forall>op \<in> set ops. op_ok (2 ^ 63) op"
  shows "\<exists>m k live. client_run (managed_alloc pick mmap) managed_dealloc ops ((m0, 0), []) = Inr ((m, k), live) \<and>
    managed_inv m \<and>
    sorted_wrt (\<lambda>(p, n) (q, j). {p..<p + roundBytes n} \<inter> {q..<q + roundBytes j} = {}) live \<and>
    (live = [] \<longrightarrow> (\<forall>(y, a) \<in> set (mm_arenas m). MmapArena_empty a))"
proof -
  have m0: "managed_inv m0" "managed_used m0 = {}" using ManagedMmapArenas_new_inv [OF assms(3-6)] by blast+
  from managed.run_disjoint [of pick mmap "(m0, 0)" ops] m0 assms(1,2,7) obtain s live where
    r: "client_run (managed_alloc pick mmap) managed_dealloc ops ((m0, 0), []) = Inr (s, live)" "managed_inv (fst s)"
    "managed_used (fst s) = (\<Union>(p, n) \<in> set live. block_bytes p n)"
    "sorted_wrt (\<lambda>(p, n) (q, m). block_bytes p n \<inter> block_bytes q m = {}) live" by auto
  have "MmapArena_empty a" if "live = []" "(y, a) \<in> set (mm_arenas (fst s))" for y a
  proof -
    have "arena_used a \<subseteq> managed_used (fst s)" using that(2) by (auto simp: managed_used_def)
    with r(3) that(1) arena_empty_unused [OF managed_arena(1) [OF r(2) that(2)]] show ?thesis by simp
  qed
  with r show ?thesis by (intro exI [of _ "fst s"] exI [of _ "snd s"] exI [of _ live]) auto
qed

theorem managed_client_run_witness:
  "\<exists>m0 m k live. ManagedMmapArenas_new 1048576 (Some 8388608) = Inr m0 \<and>
    client_run (managed_alloc Inf map_below) managed_dealloc [Alloc 1048577, Alloc 64, Free 0] ((m0, 0), []) = Inr ((m, k), live)"
proof -
  obtain m0 where m0: "ManagedMmapArenas_new 1048576 (Some 8388608) = Inr m0"
    by (simp add: ManagedMmapArenas_new_def MmapArena_new_def addFreeBlock_def)
  have "picks Inf" by (simp add: picks_def Inf_nat_def1)
  from managed_client_run [OF this map_below_ok m0, of "[Alloc 1048577, Alloc 64, Free 0]"] obtain m k live where
    "client_run (managed_alloc Inf map_below) managed_dealloc [Alloc 1048577, Alloc 64, Free 0] ((m0, 0), []) =
      Inr ((m, k), live)" by auto
  with m0 show ?thesis by blast
qed

text \<open>
  \<^bold>\<open>(C20)\<close> A request above the capacity of an arena returns null each time, but each
  time it also maps one more arena, empty and kept: the arenas
  grow by one for each such request and nothing in use changes.
\<close>

theorem oversized_requests_map:
  assumes "managed_inv m" "fresh_region m (Some x)" "n \<le> 2 ^ 63" "mm_singleArenaCapacity m < n"
  shows "\<exists>m'. ManagedMmapArenas_allocate pick (Some x) m n = (Inr None, m') \<and> managed_inv m' \<and>
    managed_used m' = managed_used m \<and> length (mm_arenas m') = Suc (length (mm_arenas m))"
  using oversized_request [OF assms] by blast

theorem oversized_requests_map_witness:
  "\<exists>m m'. ManagedMmapArenas_new 1048576 (Some 8388608) = Inr m \<and>
    ManagedMmapArenas_allocate Inf (Some 1048576) m 1048577 = (Inr None, m') \<and>
    length (mm_arenas m) = 1 \<and> length (mm_arenas m') = 2"
proof -
  obtain m where m: "ManagedMmapArenas_new 1048576 (Some 8388608) = Inr m" "length (mm_arenas m) = 1"
    "\<forall>(y, b) \<in> set (mm_arenas m). y = 8388608"
    by (simp add: ManagedMmapArenas_new_def MmapArena_new_def addFreeBlock_def)
  have inv: "managed_inv m" "mm_singleArenaCapacity m = 1048576" using ManagedMmapArenas_new_inv [OF m(1)] by simp_all
  moreover have "fresh_region m (Some 1048576)" using m(3) inv(2) by (auto simp: fresh_region_def)
  ultimately show ?thesis using oversized_requests_map [of m 1048576 1048577 Inf] m by auto
qed

text \<open>
  \<^bold>\<open>(C21)\<close> A \<open>free\<close> that fails has already changed the arena: whatever block of at most
  \<open>2 ^ 63\<close> bytes is freed on whatever well-formed arena, when \<open>free\<close> throws, the arena passed its own
  consistency check before the call and fails it afterwards.
\<close>

theorem failed_free_inconsistent:
  assumes "arena_inv a" "n \<le> 2 ^ 63" "MmapArena_free a x n = (Inl e, a')"
  shows "checkConsistency a \<and> \<not> checkConsistency a'"
  using arena_consistent [OF assms(1)] failed_free [OF assms] by blast

theorem failed_free_inconsistent_witness:
  "\<exists>a a'. MmapArena_new 1048576 (Some 4096) = Inr a \<and> checkConsistency a \<and>
    MmapArena_free a 5000 8 = (Inl CheckFailed, a') \<and> \<not> checkConsistency a'"
proof -
  let ?a = "\<lparr>ma_byteSize = 1048576, ma_address = 4096, ma_freeBytes = 1048576,
    ma_freeList = [(4096, 1048576)], ma_freeLookup = [(1048576, {4096})]\<rparr>"
  let ?a' = "\<lparr>ma_byteSize = 1048576, ma_address = 4096, ma_freeBytes = 1048584,
    ma_freeList = [(4096, 1048576), (5000, 8)], ma_freeLookup = [(8, {5000}), (1048576, {4096})]\<rparr>"
  note ops = addFreeBlock_def lookup_emplace_def lookup_at_def u64_add_def u64_def
  have new: "MmapArena_new 1048576 (Some 4096) = Inr ?a" by (simp add: MmapArena_new_def ops)
  have "roundBytes 8 = 8"
    by (simp add: roundBytes_def nextPowerOfTwo_def countLeadingZeros_def floor_log2.simps)
  then have free: "MmapArena_free ?a 5000 8 = (Inl CheckFailed, ?a')"
    by (simp add: MmapArena_free_def ops map_prev_def)
  have "arena_inv ?a" using MmapArena_new_inv [OF new] by simp
  from failed_free_inconsistent [OF this _ free] new free show ?thesis by auto
qed

section \<open>Merging sorted streams\<close>

text \<open>
  \<^bold>\<open>(C22)\<close> A tree of losers over between 1 and 32768 sorted streams can be constructed, and the
  loop that asks for the next stream and pops its first element ends without an error: it returns all
  elements of all streams, in order.
\<close>

theorem tree_merge_sorts:
  assumes "1 \<le> length ss" "length ss \<le> 32768" "\<forall>s \<in> set ss. sorted s"
  shows "\<exists>t. TreeOfLosers_new ss = Inr t \<and> drain tree_pull t = Some (Inr (sort (concat ss)))"
proof -
  from tree_inv_new [OF assms(1,2)] obtain t where
    t: "TreeOfLosers_new ss = Inr t" "tree_inv t" "tol_streams t = ss" by blast
  then have "drain tree_pull t = Some (Inr (sorted_list_of_multiset (tree_pending t)))"
    using tree.drain_sorts [of t] assms(3) by auto
  then show ?thesis using t by (simp add: tree_pending_def)
qed

theorem tree_merge_sorts_witness:
  "\<exists>t. TreeOfLosers_new [[2, 5], [1, 9 :: nat], []] = Inr t \<and> drain tree_pull t = Some (Inr [1, 2, 5, 9])"
  using tree_merge_sorts [of "[[2, 5], [1, 9 :: nat], []]"] by simp

text \<open>
  \<^bold>\<open>(C23)\<close> With \<open>nextWithEquals\<close> and streams of strictly increasing elements, the loop ends
  with all elements in order, and the flag returned with an element is true exactly when the next
  element to be returned is equal to it.
\<close>

theorem tree_equals_flags:
  assumes "1 \<le> length ss" "length ss \<le> 32768" "\<forall>s \<in> set ss. sorted_wrt (<) s"
  shows "\<exists>t xs. TreeOfLosers_new ss = Inr t \<and> drain equals_pull t = Some (Inr xs) \<and>
    map fst xs = sort (concat ss) \<and>
    (\<forall>i < length xs. snd (xs ! i) \<longleftrightarrow> Suc i < length xs \<and> fst (xs ! Suc i) = fst (xs ! i))"
proof -
  from equals_inv_new [OF assms(1,2)] obtain t where
    t: "TreeOfLosers_new ss = Inr t" "equals_inv t \<and> (\<forall>s \<in> set (tol_streams t). sorted_wrt (<) s)"
    "tol_streams t = ss" using assms(3) by blast
  obtain xs where xs: "drain equals_pull t = Some (Inr xs)" "map fst xs = sorted_list_of_multiset (tree_pending t)"
    using equals_tree.drain_sorts [OF t(2)] by blast
  moreover have "map fst xs = sort (concat ss)" using xs(2) t(3) by (simp add: tree_pending_def)
  ultimately show ?thesis using t(1) equals_tree.drain_flags [OF t(2) xs(1)] by blast
qed

theorem tree_equals_flags_witness:
  "\<exists>t xs. TreeOfLosers_new [[2, 5], [2, 9 :: nat]] = Inr t \<and> drain equals_pull t = Some (Inr xs) \<and>
    map fst xs = [2, 2, 5, 9] \<and> map snd xs = [True, False, False, False]"
proof -
  from tree_equals_flags [of "[[2, 5], [2, 9 :: nat]]"] obtain t xs where
    t: "TreeOfLosers_new [[2, 5], [2, 9 :: nat]] = Inr t" "drain equals_pull t = Some (Inr xs)"
    and m: "map fst xs = [2, 2, 5, 9]"
    and f: "\<forall>i < length xs. snd (xs ! i) \<longleftrightarrow> Suc i < length xs \<and> fst (xs ! Suc i) = fst (xs ! i)" by auto
  have len: "length xs = 4" using arg_cong [OF m, of length] by simp
  then obtain a b c d where xs: "xs = [a, b, c, d]" by (auto simp: numeral_eq_Suc length_Suc_conv)
  have "snd (xs ! 0)" "\<not> snd (xs ! 1)" "\<not> snd (xs ! 2)" "\<not> snd (xs ! 3)"
    using f [rule_format, of 0] f [rule_format, of 1] f [rule_format, of 2] f [rule_format, of 3] m xs by simp_all
  then have "map snd xs = [True, False, False, False]" using xs by simp
  then show ?thesis using t m by (intro exI [of _ t] exI [of _ xs] conjI)
qed

text \<open>
  \<^bold>\<open>(C24)\<close> In every state that a caller can reach, by calls of \<open>next\<close> and changes of the stream
  it returned last, \<open>next\<close> returns at a recursion depth of 16 and implements the contract of its
  comment: a stream with the least first element of all, or none when all streams are at the end. The
  elements of the streams are not touched.
\<close>

theorem tree_next_refines:
  assumes "tree_run ss t" "1 \<le> length ss" "length ss \<le> 32768"
  shows "\<exists>r t'. tree_next 16 t = Inr (r, t') \<and> tol_streams t' = tol_streams t \<and> least_stream (tol_streams t) r"
  using tree_next_spec [OF tree_run_inv [OF assms], of 16] by auto

theorem tree_next_refines_witness:
  "\<exists>t t' t''. TreeOfLosers_new [[3], [1, 4 :: nat]] = Inr t \<and> tree_next 16 t = Inr (Some 1, t') \<and>
    tree_next 16 (t'\<lparr>tol_streams := (tol_streams t')[1 := [4]]\<rparr>) = Inr (Some 0, t'')"
proof -
  let ?ss = "[[3], [1, 4 :: nat]]"
  obtain t where t: "TreeOfLosers_new ?ss = Inr t" "tol_streams t = ?ss" using tree_inv_new [of ?ss] by auto
  note run = tree_run.start [OF t(1)]
  from tree_next_refines [OF run] obtain r t' where
    n: "tree_next 16 t = Inr (r, t')" "tol_streams t' = ?ss" "least_stream ?ss r" using t(2) by auto
  have "r = Some 1"
    using n(3) by (auto simp: least_stream_def hasData_def less_Suc_eq split: option.splits)
  then have n1: "tree_next 16 t = Inr (Some 1, t')" using n(1) by simp
  from tree_next_refines [OF tree_run.advance [OF run n1, of "[4]"]] obtain r' t'' where
    n': "tree_next 16 (t'\<lparr>tol_streams := (tol_streams t')[1 := [4]]\<rparr>) = Inr (r', t'')" "least_stream [[3], [4 :: nat]] r'"
    using n(2) by auto
  have "r' = Some 0"
    using n'(2) by (auto simp: least_stream_def hasData_def less_Suc_eq split: option.splits)
  then show ?thesis using t(1) n1 n'(1) by blast
qed

text \<open>
  \<^bold>\<open>(C25)\<close> \<open>MergeArray\<close> is a drop-in replacement for \<open>TreeOfLosers\<close>: whichever way \<open>std::sort\<close>
  orders streams with equal first elements, draining the array and draining the tree end without an
  error and return the same elements in the same order.
\<close>

theorem merge_array_agrees:
  assumes "sorts_streams std_sort" "\<forall>s \<in> set ss. sorted s" "1 \<le> length ss" "length ss \<le> 32768"
  shows "\<exists>t xs. TreeOfLosers_new ss = Inr t \<and> drain tree_pull t = Some (Inr xs) \<and>
    drain array_pull (MergeArray_new std_sort ss) = Some (Inr xs)"
proof -
  let ?a = "MergeArray_new std_sort ss"
  have m: "mset (mra_streams ?a) = mset (filter hasData ss)"
    using assms(1) by (simp add: MergeArray_new_def sorts_streams_def)
  then have "\<forall>s \<in> set (mra_streams ?a). sorted s" using assms(2) mset_eq_setD [OF m] by auto
  then have a: "drain array_pull ?a = Some (Inr (sorted_list_of_multiset (array_pending ?a)))"
    using array.drain_sorts [of ?a] array_inv_new [OF assms(1), of ss] by auto
  have "array_pending ?a = mset (concat ss)"
    using mset_concat_cong [OF m] concat_filter_hasData [of ss] by (simp add: array_pending_def)
  then have a: "drain array_pull ?a = Some (Inr (sort (concat ss)))" using a by simp
  from tree_inv_new [OF assms(3,4)] obtain t where
    t: "TreeOfLosers_new ss = Inr t" "tree_inv t" "tol_streams t = ss" by blast
  then have "drain tree_pull t = Some (Inr (sort (concat ss)))"
    using tree.drain_sorts [of t] assms(2) by (auto simp: tree_pending_def)
  then show ?thesis using t(1) a by blast
qed

theorem merge_array_agrees_witness:
  "\<exists>t xs. TreeOfLosers_new [[2, 5], [1, 9 :: nat]] = Inr t \<and> drain tree_pull t = Some (Inr xs) \<and>
    drain array_pull (MergeArray_new (sort_key hd) [[2, 5], [1, 9]]) = Some (Inr xs)"
proof -
  have "sorts_streams (sort_key hd :: nat list list \<Rightarrow> nat list list)"
    using sorted_sort_key by (auto simp: sorts_streams_def sorted_wrt_map)
  from merge_array_agrees [OF this, of "[[2, 5], [1, 9]]"] show ?thesis by simp
qed

text \<open>
  \<^bold>\<open>(C26)\<close> The constructor of \<open>TreeOfLosers\<close> accepts up to 65534 streams, but with more than
  32768 of them the node numbers do not fit into \<open>TIndex\<close>: the first call of \<open>next\<close> recurses from node
  32767 to the root and never returns, whatever the depth of the stack.
\<close>

theorem too_many_streams:
  assumes "32769 \<le> length ss" "length ss < 65535"
  shows "\<exists>t. TreeOfLosers_new ss = Inr t \<and> (\<forall>depth. tree_next depth t = Inl StackExhausted)"
proof -
  have "TreeOfLosers_new ss = Inr \<lparr>tol_streams = ss, tol_values = replicate (length ss - 1) kEmpty,
      tol_equals = replicate (length ss - 1) False, tol_lastIndex = kEmpty, tol_firstStream = length ss - 1\<rparr>"
    (is "_ = Inr ?t") by (rule TreeOfLosers_new_eq) (use assms in linarith)+
  moreover have "first depth ss (length ss - 1) vals 0 = Inl StackExhausted" for depth vals
    using first_never_returns [of "length ss - 1" ss 0 depth vals] assms by auto
  moreover have "replicate (length ss - 1) kEmpty \<noteq> []" using assms(1) by (simp add: replicate_empty)
  ultimately show ?thesis by (intro exI [of _ ?t]) (simp add: tree_next_def)
qed

theorem too_many_streams_witness:
  "\<exists>t. TreeOfLosers_new (replicate 40000 [1 :: nat]) = Inr t \<and> (\<forall>depth. tree_next depth t = Inl StackExhausted)"
  using too_many_streams [of "replicate 40000 [1 :: nat]"] by simp

text \<open>
  \<^bold>\<open>(C27)\<close> The two structures differ after the end: once \<open>next\<close> has returned no stream, the tree
  returns no stream again, but a further call on a \<open>MergeArray\<close> reads \<open>streams_[0]\<close> of an empty vector.
\<close>

theorem array_next_after_end:
  assumes "array_inv a" "array_next a = Inr (False, a')" "tree_inv t" "tree_next 16 t = Inr (None, t')"
  shows "array_next a' = Inl OutOfRange \<and> (\<exists>t''. tree_next 16 t' = Inr (None, t''))"
proof
  have "mra_streams a' = []" "\<not> mra_isFirst a'"
    using array_next_spec [OF assms(1)] assms(2) by (auto simp: array_settled_def)
  then show "array_next a' = Inl OutOfRange" by (simp add: array_next_def)
  from tree_next_spec [OF assms(3), of 16] assms(4) have t': "tree_inv t'" "tol_streams t' = tol_streams t"
    and none: "least_stream (tol_streams t) None" by auto
  from tree_next_spec [OF t'(1), of 16] obtain r t'' where
    r: "tree_next 16 t' = Inr (r, t'')" "least_stream (tol_streams t) r" using t'(2) by auto
  have "r = None" using none r(2) by (auto simp: least_stream_def split: option.splits)
  then show "\<exists>t''. tree_next 16 t' = Inr (None, t'')" using r(1) by blast
qed

theorem array_next_after_end_witness:
  "\<exists>a a' t t'. MergeArray_new (sort_key hd) [[]] = (a :: nat MergeArray) \<and> array_next a = Inr (False, a') \<and>
    TreeOfLosers_new [[] :: nat list] = Inr t \<and> tree_next 16 t = Inr (None, t') \<and>
    array_next a' = Inl OutOfRange \<and> (\<exists>t''. tree_next 16 t' = Inr (None, t''))"
proof -
  let ?a = "\<lparr>mra_isFirst = True, mra_streams = []\<rparr> :: nat MergeArray"
  let ?b = "\<lparr>mra_isFirst = False, mra_streams = []\<rparr> :: nat MergeArray"
  have a: "MergeArray_new (sort_key hd) [[]] = ?a" "array_inv ?a" "array_next ?a = Inr (False, ?b)"
    by (simp_all add: array_inv_def array_next_def MergeArray_new_def hasData_def)
  obtain t where t: "TreeOfLosers_new [[] :: nat list] = Inr t" "tree_inv t" "tol_streams t = [[]]"
    using tree_inv_new [of "[[] :: nat list]"] by auto
  obtain r t' where n: "tree_next 16 t = Inr (r, t')" "least_stream [[] :: nat list] r"
    using tree_next_spec [OF t(2), of 16] t(3) by auto
  then have "r = None" by (auto simp: least_stream_def hasData_def split: option.splits)
  then have n: "tree_next 16 t = Inr (None, t')" using n(1) by simp
  from array_next_after_end [OF a(2,3) t(2) n] show ?thesis using a(1,3) t(1) n by blast
qed

section \<open>Bit arrays and selected rows\<close>

text \<open>
  \<^bold>\<open>(C28)\<close> A new selectivity vector, and every vector that a sequence of operations makes of
  it (\<open>resize\<close>, \<open>resizeFill\<close>, \<open>setValid\<close> and \<open>setValidRange\<close> with \<open>updateBounds\<close>, \<open>clearAll\<close>, \<open>setAll\<close>, \<open>setFromBits\<close>,
  \<open>intersect\<close>, \<open>deselect\<close>, \<open>deselectNulls\<close>, \<open>deselectNonNulls\<close>, \<open>select\<close>, \<open>translateToInnerRows\<close>), implements a number of
  rows and a set of rows: no operation fails, the rows at the end are those of the same operations on the
  set, and the bounds and the cached answer are right. The calls have arguments that fit the rows, and \<open>resize\<close>
  and \<open>select\<close> add rows only while the array has no more words than its rows need, a number that the abstract
  state tracks because \<open>setFromBits\<close> never shortens the array (\<open>resize_ignores_value\<close> is what happens otherwise).
  \<open>intersect\<close> keeps, unlike its comment says, the selected rows at and above the size of the other vector.
\<close>

theorem selectivity_refines_sets:
  assumes "0 \<le> n" "n + 64 \<le> INT32_MAX"
    and "enabled_run sv_enabled set_step ops (n, words_for n, if v then {..<nat n} else {})"
  shows "\<exists>sv sv'. SelectivityVector_new n v = Inr sv \<and> run_ops sv_step ops sv = Inr sv' \<and> sv_ok sv' \<and>
    (sv_size sv', length (sv_bits sv') div 8, selected sv') =
      fold set_step ops (n, words_for n, if v then {..<nat n} else {})"
proof -
  from SelectivityVector_new_spec [OF assms(1,2), of v] obtain sv where
    sv: "SelectivityVector_new n v = Inr sv" "sv_ok sv" "sv_abs sv = (n, words_for n, if v then {..<nat n} else {})"
    by (auto simp: sv_abs_def sv_tight_words)
  with row_set.run_refines [of sv ops] assms(3) show ?thesis by (auto simp: sv_abs_def)
qed

theorem selectivity_refines_sets_witness:
  "\<exists>sv sv'. SelectivityVector_new 130 True = Inr sv \<and>
    run_ops sv_step [SetFromBits (replicate 16 0) 70, Resize 60 True, Resize 100 False, SetValidRange 0 2 True, SetValid 99 True] sv = Inr sv' \<and>
    sv_ok sv' \<and> sv_size sv' = 100 \<and> selected sv' = {0, 1, 99}"
proof -
  let ?ops = "[SetFromBits (replicate 16 0) 70, Resize 60 True, Resize 100 False, SetValidRange 0 2 True, SetValid 99 True]"
  have zero: "\<not> mem_bit (replicate 16 0) p" if "int p < 70" for p
    using that mem_bit_replicate [of p 16 False] by simp
  have "fold set_step ?ops (130, words_for 130, if True then {..<nat 130} else {}) = (100, 2, {0, 1, 99})"
    by (auto simp: zero words_for_def)
  moreover have "enabled_run sv_enabled set_step ?ops (130, words_for 130, if True then {..<nat 130} else {})"
    by (simp add: rows_fit_def words_for_def)
  ultimately show ?thesis using selectivity_refines_sets [of 130 ?ops True] by auto
qed

text \<open>
  \<^bold>\<open>(C29)\<close> For a vector with right bounds, the loop \<open>while (iterator.next(row)) func(row)\<close> reaches every
  selected row and ends: it calls the function on the selected rows in increasing order, as \<open>applyToSelected\<close>
  does, whether or not all rows are selected.
\<close>

theorem iterator_visits_rows:
  assumes "sv_ok sv"
  shows "\<exists>it a. SelectivityIterator_new sv = Inr it \<and>
    iterate func it s = Some (row_loop func (map int (sorted_list_of_set (selected sv))) s) \<and>
    applyToSelected sv func s =
      rbind (row_loop func (map int (sorted_list_of_set (selected sv))) s) (\<lambda>s'. Inr (s', sv\<lparr>sv_allSelected := Some a\<rparr>))"
proof -
  from SelectivityIterator_new_spec [OF assms] obtain it where
    "SelectivityIterator_new sv = Inr it" "iter_ok it" "iter_rows it = selected_rows sv" .
  moreover have "selected_rows sv = map int (sorted_list_of_set (selected sv))" by (rule selected_rows_sorted)
  ultimately show ?thesis using applyToSelected_spec [OF assms, of func s] iterate_spec [of it func s] by auto
qed

theorem iterator_visits_rows_witness:
  "\<exists>it. SelectivityIterator_new \<lparr>sv_bits = [5, 0, 0, 0, 0, 0, 0, 128], sv_size = 64, sv_begin = 0, sv_end = 64, sv_allSelected = None\<rparr> = Inr it \<and>
    iterate (\<lambda>row rows. Inr (rows @ [row])) it [] = Some (Inr [0, 2, 63])"
proof -
  let ?sv = "\<lparr>sv_bits = [5, 0, 0, 0, 0, 0, 0, 128], sv_size = 64, sv_begin = 0, sv_end = 64, sv_allSelected = None\<rparr>"
  have "selected_rows ?sv = [0, 2, 63]" by code_simp
  then have rows: "int ` selected ?sv = {0, 2, 63}" using selected_rows_set [of ?sv] by simp
  then have s: "selected ?sv = {0, 2, 63}" using inj_image_eq_iff [of int "selected ?sv" "{0, 2, 63}"] by simp
  have "sv_ok ?sv" by (simp add: sv_ok_def sv_shape_def bounds_ok_def cache_ok_def bits_ok_def s eval_nat_numeral)
  from iterator_visits_rows [OF this, of "\<lambda>row rows. Inr (rows @ [row])" "[]"] show ?thesis
    by (auto simp: s)
qed

text \<open>
  \<^bold>\<open>(C30)\<close> \<open>SelectivityVector::isSubset\<close> answers whether every selected row of the vector is selected in the
  other one, with one exception that its comment does not mention: a vector without selected rows is
  reported not to be a subset of a vector whose first selected row is not row zero.
\<close>

theorem isSubset_exact:
  assumes "sv_ok sv" "sv_ok other"
  shows "sv_isSubset sv other = Inr (selected sv \<subseteq> selected other \<and> (selected sv = {} \<longrightarrow> selected other = {} \<or> 0 \<in> selected other))"
proof -
  have "selected other \<noteq> {} \<Longrightarrow> Min (selected other) = 0 \<longleftrightarrow> 0 \<in> selected other"
    by (metis Min_in Min_le bot_nat_0.extremum_uniqueI selected_finite)
  then have "sv_begin other = 0 \<longleftrightarrow> selected other = {} \<or> 0 \<in> selected other"
    using assms(2) by (cases "selected other = {}") (simp_all add: sv_ok_def bounds_ok_def)
  then show ?thesis using sv_isSubset_spec [OF assms] by simp
qed

theorem isSubset_exact_witness:
  "sv_isSubset \<lparr>sv_bits = [], sv_size = 0, sv_begin = 0, sv_end = 0, sv_allSelected = Some False\<rparr>
     \<lparr>sv_bits = [2, 0, 0, 0, 0, 0, 0, 0], sv_size = 2, sv_begin = 1, sv_end = 2, sv_allSelected = None\<rparr> = Inr False"
proof -
  let ?sv = "\<lparr>sv_bits = [], sv_size = 0, sv_begin = 0, sv_end = 0, sv_allSelected = Some False\<rparr>"
  let ?other = "\<lparr>sv_bits = [2, 0, 0, 0, 0, 0, 0, 0], sv_size = 2, sv_begin = 1, sv_end = 2, sv_allSelected = None\<rparr>"
  have "selected_rows ?other = [1]" by code_simp
  then have "int ` selected ?other = int ` {1}" using selected_rows_set [of ?other] by simp
  then have other: "selected ?other = {1}" by (simp only: inj_image_eq_iff [OF inj_of_nat])
  have none: "selected ?sv = {}" by (simp add: selected_def)
  have "sv_ok ?sv" "sv_ok ?other"
    by (simp_all add: sv_ok_def sv_shape_def bounds_ok_def cache_ok_def bits_ok_def none other eval_nat_numeral)
  from isSubset_exact [OF this] show ?thesis by (simp add: none other)
qed

text \<open>
  \<^bold>\<open>(C31)\<close> When the array has more words than the new number of rows needs, as it has after \<open>setFromBits\<close>
  with fewer rows than before, \<open>resize\<close> fills the last word of the array instead of the word in which the new
  rows begin: the rows that are added do not get the given value but whatever the array holds.
\<close>

theorem resize_ignores_value:
  assumes "sv_ok sv" "sv_size sv < n" "n + 64 \<le> INT32_MAX" "8 * ((n + 63) div 64) < int (length (sv_bits sv))"
  shows "\<exists>sv'. resize sv n v = Inr sv' \<and> selected sv' = {p. int p < n \<and> mem_bit (sv_bits sv) p}"
  using resize_slack [OF sv_ok_shape [OF assms(1)] assms(2-4)] by auto

theorem resize_ignores_value_witness:
  "\<exists>sv'. rbind (SelectivityVector_new 128 False) (\<lambda>sv. rbind (setFromBits sv (replicate 8 0) 10) (\<lambda>sv. resize sv 20 True)) = Inr sv' \<and>
    selected sv' = {}"
proof -
  have zero: "mem_bit (replicate 16 0) p \<longleftrightarrow> False" if "int p < 20" for p
    using that mem_bit_replicate [of p 16 False] by simp
  let ?sv = "\<lparr>sv_bits = replicate 16 0, sv_size = 10, sv_begin = 0, sv_end = 0, sv_allSelected = Some False\<rparr>"
  have "rbind (SelectivityVector_new 128 False) (\<lambda>sv. setFromBits sv (replicate 8 0) 10) = Inr ?sv" by code_simp
  moreover have "selected ?sv = {}" using zero by (auto simp: selected_def)
  then have "sv_ok ?sv" by (auto simp: sv_ok_def sv_shape_def bounds_ok_def cache_ok_def bits_ok_def intro: exI [of _ 0])
  from resize_ignores_value [OF this, of 20 True] obtain sv' where
    "resize ?sv 20 True = Inr sv'" "selected sv' = {}" using zero by auto
  ultimately show ?thesis by (auto simp: rbind_assoc [symmetric])
qed

text \<open>
  \<^bold>\<open>(C32)\<close> \<open>forEachBit\<close>, which walks over words, calls the function exactly as a loop that tests every
  bit of the range by itself: on the positions whose bit has the given value, in increasing order, up to
  the first error.
\<close>

theorem forEachBit_reference:
  assumes "0 \<le> b" "e + 64 \<le> INT32_MAX" "8 dvd length bits" "e \<le> 8 * int (length bits)"
  shows "forEachBit bits b e isSet func s = row_loop func (filter (\<lambda>p. isBitSet 8 bits p = Inr isSet) [b..e - 1]) s"
proof -
  have ok: "bits_ok bits e" using assms(3,4) by (simp add: bits_ok_def)
  have "isBitSet 8 bits p = Inr isSet \<longleftrightarrow> mem_bit bits (nat p) = isSet" if "p \<in> set [b..e - 1]" for p
    using that assms isBitSet_spec [of p 8 bits] by simp
  then have "filter (\<lambda>p. isBitSet 8 bits p = Inr isSet) [b..e - 1] = filter (\<lambda>p. mem_bit bits (nat p) = isSet) [b..e - 1]"
    by (intro filter_cong) auto
  then show ?thesis using forEachBit_spec [OF assms(1,2) ok, of isSet func s] rows_with_upto [OF assms(1)] by simp
qed

theorem forEachBit_reference_witness:
  "forEachBit [129, 0, 0, 0, 0, 0, 0, 0] 0 9 True (\<lambda>row rows. Inr (rows @ [row])) [] = Inr [0, 7]"
proof -
  have "row_loop (\<lambda>row rows. Inr (rows @ [row])) (filter (\<lambda>p. isBitSet 8 [129, 0, 0, 0, 0, 0, 0, 0] p = Inr True) [0..9 - 1]) [] = Inr [0, 7]"
    by code_simp
  then show ?thesis using forEachBit_reference [of 0 9 "[129, 0, 0, 0, 0, 0, 0, 0]" True "\<lambda>row rows. Inr (rows @ [row])" "[]"]
    by (simp add: eval_nat_numeral)
qed

text \<open>
  \<^bold>\<open>(C33)\<close> \<open>copyBits\<close> copies any number of bits between any two bit positions of two arrays: it reads and
  writes no byte that the ranges do not touch, the bits of the target range become those of the source
  range, and every other bit of the target keeps its value.
\<close>

theorem copyBits_exact:
  assumes "sourceOffset + numBits \<le> 8 * length source" "targetOffset + numBits \<le> 8 * length target"
  shows "\<exists>target'. copyBits source sourceOffset target targetOffset numBits = Inr target' \<and> length target' = length target \<and>
    (\<forall>p. mem_bit target' p = (if targetOffset \<le> p \<and> p < targetOffset + numBits
      then mem_bit source (sourceOffset + (p - targetOffset)) else mem_bit target p))"
  using copyBits_spec [OF assms] by (simp add: copied_def bits_updated_def)

theorem copyBits_exact_witness:
  "\<exists>target'. copyBits [255, 255] 3 [0, 0, 0] 5 12 = Inr target' \<and> length target' = 3 \<and> mem_bit target' 5 \<and> \<not> mem_bit target' 17"
proof -
  have "mem_bit [255, 255] 3" "\<not> mem_bit [0, 0, 0] 17" by code_simp+
  then show ?thesis using copyBits_exact [of 3 12 "[255, 255]" 5 "[0, 0, 0]"] by auto
qed

text \<open>
  \<^bold>\<open>(C34)\<close> \<open>copyBitsBackward\<close> moves a range of bits up inside one array: although it overwrites the
  source range where the two overlap, the bits of the target range become the bits that the source range
  had before, and no other bit changes.
\<close>

theorem copyBitsBackward_overlap:
  assumes "sourceOffset \<le> targetOffset" "targetOffset + numBits \<le> 8 * length bits"
  shows "\<exists>bits'. copyBitsBackward bits sourceOffset targetOffset numBits = Inr bits' \<and> length bits' = length bits \<and>
    (\<forall>p. mem_bit bits' p = (if targetOffset \<le> p \<and> p < targetOffset + numBits
      then mem_bit bits (sourceOffset + (p - targetOffset)) else mem_bit bits p))"
  using copyBitsBackward_spec [OF assms] by (simp add: bits_updated_def)

theorem copyBitsBackward_overlap_witness:
  "\<exists>bits'. copyBitsBackward [1, 0, 0] 0 1 20 = Inr bits' \<and> length bits' = 3 \<and> mem_bit bits' 1 \<and> \<not> mem_bit bits' 2"
proof -
  have "mem_bit [1, 0, 0] 0" "\<not> mem_bit [1, 0, 0] 1" by code_simp+
  then show ?thesis using copyBitsBackward_overlap [of 0 1 20 "[1, 0, 0]"] by auto
qed

section \<open>Decision trees and plan rewriting\<close>



text \<open>
  \<^bold>\<open>(C36)\<close> \<open>processLeafNode\<close> reads the value of a leaf without its last three characters: an exponent such as
  \<open>e-05\<close> loses its digits, so that the line of a leaf with \<open>-4.89062404e-05\<close> gives the leaf \<open>-4.89062404\<close>, and a
  value of three characters leaves nothing to read, which \<open>stod\<close> rejects.
\<close>

theorem leaf_digits_lost:
  assumes "number_text v" "3 \<le> length v" "int i \<le> INT32_MAX"
  shows "processLeafNode (leaf_text i v) tree = rbind (stod (take (length v - 3) v)) (\<lambda>x. set_node tree (int i)
    \<lparr>nd_value = double_to_float x, nd_indexID = - 1, nd_leftChild = - 1, nd_rightChild = - 1,
     nd_isLeaf = True, nd_isMissTrackLeft = True\<rparr>)"
  using processLeafNode_reads [OF assms(1,3)] assms(2) by (simp add: leaf_value_text_def)

theorem leaf_digits_lost_witness:
  "processLeafNode (leaf_text 0 ''-4.89062404e-05'') [inner_node 0 ''0''] =
      Inr [\<lparr>nd_value = 3231481854, nd_indexID = - 1, nd_leftChild = - 1, nd_rightChild = - 1, nd_isLeaf = True, nd_isMissTrackLeft = True\<rparr>] \<and>
    rbind (stod ''-4.89062404e-05'') (\<lambda>x. Inr (double_to_float x)) = Inr 3092062381 \<and>
    processLeafNode (leaf_text 0 ''0.5'') [inner_node 0 ''0''] = Inl InvalidArgument"
proof -
  have s: "stod ''-4.89062404e'' = Inr 13840564408433202009" "stod ''-4.89062404e-05'' = Inr 13765714148818994197" "stod [] = Inl InvalidArgument"
    by code_simp+
  have d: "double_to_float 13840564408433202009 = 3231481854" "double_to_float 13765714148818994197 = 3092062381"
    by (simp_all add: double_to_float_def double_fields_def round_even_def Let_def)
  have n: "number_text ''-4.89062404e-05''" "number_text ''0.5''" by code_simp+
  show ?thesis
    using leaf_digits_lost [OF n(1), of 0 "[inner_node 0 ''0'']"] leaf_digits_lost [OF n(2), of 0 "[inner_node 0 ''0'']"] s d
    by (simp add: set_node_def)
qed

text \<open>
  \<^bold>\<open>(C37)\<close> A forest read from a folder of at most 1600 dumped trees predicts, for each row of a batch, the
  sum of the values of its trees, as they are read, in the order of the folder divided by their number, in single precision, or
  for a classification 1 when that is positive and 0 otherwise. Missing values do not follow the default
  directions of the nodes.
\<close>

theorem forest_prediction:
  assumes "folders (folder @ ''/'') = Some names" "filter (\<lambda>name. name \<noteq> ''.'' \<and> name \<noteq> ''..'') names = map fst ns"
    and "\<forall>(name, t) \<in> set ns. xtree_ok t \<and> files (folder @ ''/'' @ name) = Some (dump_file t)"
    and "length ns \<le> MAX_NUM_TREES" "length raw = MAX_NUM_TREES" "\<forall>arr \<in> set raw. length arr = MAX_NUM_NODES_PER_TREE"
    and "folder \<noteq> []" "last folder \<noteq> CHR ''/''" "folders folder \<noteq> None"
    and "batch_ok (\<Union> (xfeatures ` snd ` set ns)) input numInputs numFeatures"
  shows "\<exists>fp. ForestPrediction_new folders files raw folder numFeatures classify = Inr fp \<and>
    ForestPrediction_apply fp numInputs input =
      Inr (map (\<lambda>r. xforest classify (map snd ns) (row_at input (r * numFeatures))) [0..numInputs - 1])"
proof -
  have "\<exists>f. Forest_new folders files raw folder classify = Inr f \<and> fo_isClassification f = classify \<and>
    fo_numTrees f = int (length ns) \<and> length ns \<le> length (fo_forest f) \<and>
    (\<forall>k < length ns. linked (fo_forest f ! k) (map snd ns ! k))"
    by (rule forest_linked [where names = names]) (use assms(1-8) in auto)
  then obtain f where f: "Forest_new folders files raw folder classify = Inr f" "fo_isClassification f = classify"
    "fo_numTrees f = int (length ns)" "length ns \<le> length (fo_forest f)" "\<forall>k < length ns. linked (fo_forest f ! k) (map snd ns ! k)"
    by blast
  have "xid (map snd ns ! k) = 0" if "k < length ns" for k
    using bspec [OF assms(3) nth_mem [OF that]] that by (simp add: xtree_ok_def split_beta)
  then have "forest_predict f input numInputs numFeatures =
      Inr (map (\<lambda>r. xforest (fo_isClassification f) (map snd ns) (row_at input (r * numFeatures))) [0..numInputs - 1])"
    using f(3-5) assms(10) by (intro forest_rows) auto
  then show ?thesis using f(1,2) assms(9) by (simp add: ForestPrediction_new_def ForestPrediction_apply_def)
qed

theorem forest_prediction_witness:
  "\<exists>fp. ForestPrediction_new (\<lambda>_. Some [''.'', ''1.txt'', ''..'', ''2.txt''])
      (\<lambda>path. if path = ''m/1.txt'' then Some (dump_file (XLeaf 0 ''0.75000'')) else Some (dump_file (XLeaf 0 ''-0.25000'')))
      (replicate MAX_NUM_TREES (replicate MAX_NUM_NODES_PER_TREE (leaf_node ''0''))) ''m'' 2 False = Inr fp \<and>
    ForestPrediction_apply fp 1 [0, 0] = Inr [0x3E800000]"
proof -
  let ?files = "\<lambda>path. if path = ''m/1.txt'' then Some (dump_file (XLeaf 0 ''0.75000'')) else Some (dump_file (XLeaf 0 ''-0.25000''))"
  let ?folders = "\<lambda>_ :: string. Some [''.'', ''1.txt'', ''..'', ''2.txt'']"
  let ?ns = "[(''1.txt'', XLeaf 0 ''0.75000''), (''2.txt'', XLeaf 0 ''-0.25000'')]"
  let ?raw = "replicate MAX_NUM_TREES (replicate MAX_NUM_NODES_PER_TREE (leaf_node ''0''))"
  have s: "stod ''0.75'' = Inr 0x3FE8000000000000" "stod ''-0.25'' = Inr 0xBFD0000000000000" by code_simp+
  have f: "float_text ''0.75'' = 0x3F400000" "float_text ''-0.25'' = 0xBE800000"
    by (simp_all add: float_text_def s double_to_float_def double_fields_def round_even_def Let_def)
  have n: "number_text ''0.75000''" "number_text ''-0.25000''" by code_simp+
  have ok: "\<forall>(name, t) \<in> set ?ns. xtree_ok t \<and> ?files (''m'' @ ''/'' @ name) = Some (dump_file t)"
    using s n by (simp add: xtree_ok_def MAX_NUM_NODES_PER_TREE_def leaf_value_text_def)
  have "float_div (float_add (float_add 0 0x3F400000) 0xBE800000) (float_of_int 2) = 0x3E800000" by code_simp
  then have m: "map (\<lambda>r. xforest False (map snd ?ns) (row_at [0, 0] (r * 2))) [0..1 - 1] = [0x3E800000]"
    by (simp add: xforest_def xsum_def f leaf_value_text_def upto.simps)
  have "\<exists>fp. ForestPrediction_new ?folders ?files ?raw ''m'' 2 False = Inr fp \<and>
    ForestPrediction_apply fp 1 [0, 0] = Inr (map (\<lambda>r. xforest False (map snd ?ns) (row_at [0, 0] (r * 2))) [0..1 - 1])"
    by (rule forest_prediction [OF refl _ ok]) (simp_all add: batch_ok_def MAX_NUM_TREES_def set_replicate_conv_if)
  then show ?thesis unfolding m .
qed

text \<open>
  \<^bold>\<open>(C38)\<close> \<open>velox_tree_construct\<close> and \<open>velox_tree_predict\<close> with the same selected rows: when the files of the selected
  rows are dumped trees, both succeed, the result at each selected row is the value, as it is read, of the row's
  own tree for the row's features, and the other rows of the result are untouched; paths and trees of rows that
  are not selected are never read.
\<close>

theorem velox_tree_rows:
  assumes "sv_ok rows" "\<forall>r \<in> selected rows. r < n" "length paths = n" "length trees = n" "length out = n"
    and "\<forall>r \<in> selected rows. xtree_ok (ts r) \<and> files (paths ! r) = Some (dump_file (ts r))"
    and "\<forall>row. length (raws row) = MAX_NUM_NODES_PER_TREE"
    and "batch_ok (\<Union>r \<in> selected rows. xfeatures (ts r)) input (int n) numFeatures"
  shows "\<exists>trees' rows' out' rows''. VeloxTreeConstruction_apply files raws rows paths trees = Inr (trees', rows') \<and>
    VeloxTreePrediction_apply numFeatures rows' input trees' out = Inr (out', rows'') \<and> sv_ok rows'' \<and>
    out' = map (\<lambda>r. if r \<in> selected rows then Some (xread False (ts r) (row_at input (int r * numFeatures))) else out ! r) [0..<n]"
proof -
  from tree_rows [OF assms(1,3,4,2), of ts files raws] assms(6,7) obtain trees' a where
    c: "VeloxTreeConstruction_apply files raws rows paths trees = Inr (trees', rows\<lparr>sv_allSelected := Some a\<rparr>)" "length trees' = n"
    "\<forall>r < n. if r \<in> selected rows then \<exists>tr. trees' ! r = Some tr \<and> linked (tr_tree tr) (ts r) else trees' ! r = trees ! r"
    by blast
  let ?rows = "rows\<lparr>sv_allSelected := Some a\<rparr>"
  have r: "sv_ok ?rows" "selected ?rows = selected rows"
    using applyToSelected_keeps [OF assms(1) c(1) [unfolded VeloxTreeConstruction_apply_def]] by simp_all
  have "\<exists>tr. trees' ! r = Some tr \<and> linked (tr_tree tr) (ts r) \<and> xid (ts r) = 0" if "r \<in> selected rows" for r
    using c(3) assms(2,6) that by (auto simp: xtree_ok_def)
  with prediction_rows [OF r(1) c(2) assms(5), of ts input numFeatures] assms(2,8) obtain out' b where
    p: "VeloxTreePrediction_apply numFeatures ?rows input trees' out = Inr (out', ?rows\<lparr>sv_allSelected := Some b\<rparr>)" "length out' = n"
    "\<forall>r < n. out' ! r = (if r \<in> selected rows then Some (xread False (ts r) (row_at input (int r * numFeatures))) else out ! r)"
    unfolding r(2) by blast
  have "sv_ok (?rows\<lparr>sv_allSelected := Some b\<rparr>)"
    by (rule applyToSelected_keeps(1) [OF r(1) p(1) [unfolded VeloxTreePrediction_apply_def]])
  moreover have "out' = map (\<lambda>r. if r \<in> selected rows then Some (xread False (ts r) (row_at input (int r * numFeatures))) else out ! r) [0..<n]"
    using p(2,3) by (intro nth_equalityI) auto
  ultimately show ?thesis using c(1) p(1) by blast
qed

theorem velox_tree_rows_witness:
  "\<exists>trees' rows' out' rows''.
    VeloxTreeConstruction_apply (\<lambda>path. if path = ''a'' then Some (dump_file (XLeaf 0 ''0.75000'')) else None)
      (\<lambda>_. replicate MAX_NUM_NODES_PER_TREE (leaf_node ''0''))
      \<lparr>sv_bits = [5, 0, 0, 0, 0, 0, 0, 0], sv_size = 3, sv_begin = 0, sv_end = 3, sv_allSelected = None\<rparr>
      [''a'', ''b'', ''a''] [None, None, None] = Inr (trees', rows') \<and>
    VeloxTreePrediction_apply 1 rows' [0, 0, 0] trees' [None, Some 7, None] = Inr (out', rows'') \<and> sv_ok rows'' \<and>
    out' = [Some 0x3F400000, Some 7, Some 0x3F400000]"
proof -
  let ?sv = "\<lparr>sv_bits = [5, 0, 0, 0, 0, 0, 0, 0], sv_size = 3, sv_begin = 0, sv_end = 3, sv_allSelected = None\<rparr>"
  let ?t = "XLeaf 0 ''0.75000''"
  have "selected_rows ?sv = [0, 2]" by code_simp
  then have "int ` selected ?sv = int ` {0, 2}" using selected_rows_set [of ?sv] by simp
  then have sel: "selected ?sv = {0, 2}" by (simp only: inj_image_eq_iff [OF inj_of_nat])
  have ok: "sv_ok ?sv" using sel by (simp add: sv_ok_def sv_shape_def bits_ok_def bounds_ok_def cache_ok_def eval_nat_numeral)
  have s: "stod ''0.75'' = Inr 0x3FE8000000000000" by code_simp
  have f: "float_text ''0.75'' = 0x3F400000"
    by (simp add: float_text_def s double_to_float_def double_fields_def round_even_def Let_def)
  have n: "number_text ''0.75000''" by code_simp
  have t: "xtree_ok ?t" using s n by (simp add: xtree_ok_def MAX_NUM_NODES_PER_TREE_def leaf_value_text_def)
  have m: "map (\<lambda>r. if r \<in> selected ?sv then Some (xread False ?t (row_at [0, 0, 0] (int r * 1))) else [None, Some 7, None] ! r) [0..<3] =
      [Some 0x3F400000, Some 7, Some 0x3F400000]"
    unfolding sel by (simp add: f leaf_value_text_def upt_rec)
  show ?thesis
    unfolding m [symmetric]
    by (rule velox_tree_rows [where ts = "\<lambda>_. ?t" and n = 3, OF ok]) (simp_all add: sel t batch_ok_def)
qed

text \<open>
  \<^bold>\<open>(C39)\<close> \<open>PlanState::update\<close> offers exactly the actions it should: when the checks of the rules only read,
  it succeeds whatever actions it offered before, and the rules of an expression are, in the order of the
  manager and each once, those whose check finds the expression and that have not been applied to it.
\<close>

theorem offered_actions_exact:
  assumes "\<forall>(name, rule) \<in> set (ps_ruleManager ps). ra_check rule (planNode w) [] w = Inr (ok name, found name, w)"
    and "ps_actions ps = []"
  shows "\<exists>ps'. update planNode (ps, w) = Inr (ps', w) \<and> ps_transformedExprs ps' = ps_transformedExprs ps \<and>
    (\<forall>e. at_key (ps_actionsPair ps') e =
      filter (\<lambda>r. ok r \<and> e \<in> set (found r) \<and> \<not> isRuleApplied ps e r) (map fst (ps_ruleManager ps))) \<and>
    (\<forall>e r. checkIsValidRule ps' r e \<longleftrightarrow>
      r \<in> fst ` set (ps_ruleManager ps) \<and> ok r \<and> e \<in> set (found r) \<and> \<not> isRuleApplied ps e r)"
proof -
  let ?ps = "ps\<lparr>ps_actionsPair := []\<rparr>"
  have same: "isRuleApplied ?ps = isRuleApplied ps" by (simp add: fun_eq_iff isRuleApplied_def)
  have "\<exists>m. run_ops (check_rule (planNode w)) (ps_ruleManager ps) (?ps, w) = Inr (?ps\<lparr>ps_actionsPair := m\<rparr>, w) \<and> lists_ok m \<and>
    (\<forall>e. at_key m e = at_key (ps_actionsPair ?ps) e @
      filter (\<lambda>r. ok r \<and> e \<in> set (found r) \<and> \<not> isRuleApplied ?ps e r) (map fst (ps_ruleManager ps)))"
    by (rule check_rules_exact) (use assms in auto)
  then show ?thesis unfolding same by (auto simp: update_def getPossibleActions_def valid_at_key)
qed

theorem offered_actions_exact_witness:
  "\<exists>ps'. update (\<lambda>_ :: nat. ()) (\<lparr>ps_actionsPair = [(''z'', [''old''])], ps_actions = [],
       ps_ruleManager = [(''p'', \<lparr>ra_check = \<lambda>_ _ w. Inr (True, [''f'', ''e'', ''f''], w), ra_apply = \<lambda>_ _ w. Inr (True, w)\<rparr>),
                         (''q'', \<lparr>ra_check = \<lambda>_ _ w. Inr (True, [''e''], w), ra_apply = \<lambda>_ _ w. Inr (True, w)\<rparr>)],
       ps_preAction = [], ps_transformedExprs = [(''e'', [''p''])]\<rparr>, 0) = Inr (ps', 0) \<and>
     at_key (ps_actionsPair ps') ''e'' = [''q''] \<and> at_key (ps_actionsPair ps') ''f'' = [''p''] \<and>
     at_key (ps_actionsPair ps') ''z'' = []"
proof -
  let ?rules = "[(''p'', \<lparr>ra_check = \<lambda>(_ :: unit) _ (w :: nat). Inr (True, [''f'', ''e'', ''f''], w), ra_apply = \<lambda>_ _ w. Inr (True, w)\<rparr>),
                 (''q'', \<lparr>ra_check = \<lambda>_ _ w. Inr (True, [''e''], w), ra_apply = \<lambda>_ _ w. Inr (True, w)\<rparr>)]"
  let ?ps = "\<lparr>ps_actionsPair = [(''z'', [''old''])], ps_actions = [], ps_ruleManager = ?rules, ps_preAction = [],
    ps_transformedExprs = [(''e'', [''p''])]\<rparr>"
  let ?found = "\<lambda>r. if r = ''p'' then [''f'', ''e'', ''f''] else [''e'']"
  have "\<forall>(name, rule) \<in> set (ps_ruleManager ?ps). ra_check rule () [] 0 = Inr (True, ?found name, 0)" by simp
  from offered_actions_exact [where ps = ?ps and planNode = "\<lambda>_. ()" and w = 0 and ok = "\<lambda>_. True" and found = ?found, OF this] obtain ps' where
    "update (\<lambda>_. ()) (?ps, 0) = Inr (ps', 0)" "\<forall>e. at_key (ps_actionsPair ps') e =
      filter (\<lambda>r. True \<and> e \<in> set (?found r) \<and> \<not> isRuleApplied ?ps e r) (map fst (ps_ruleManager ?ps))" by auto
  then show ?thesis by (intro exI [of _ ps']) (simp add: isRuleApplied_def)
qed

text \<open>
  \<^bold>\<open>(C40)\<close> The plan state stays well-formed under every sequence of successful calls of \<open>update\<close>, \<open>takeAction\<close>
  and \<open>clearTransformedExpr\<close> with the rules of \<open>RuleManager\<close>, in any order, whatever the rules find and do and in
  whatever order the hash table of the groups is iterated: the scratch list is empty, the maps are in order
  and have no empty lists, and offered and applied rules are rules of the manager. After an \<open>update\<close>, and only until
  actions are taken, no offered rule has been applied to its expression. \<open>takeAction\<close> does not check that: it accepts
  the offers of the last \<open>update\<close> again, so that a rule can be applied twice to an expression. When no rule has been
  applied twice so far, this stays so under \<open>update\<close>, and under \<open>takeAction\<close> with different actions on a state whose
  offers have not been applied; then at most seven rules are applied to an expression.
\<close>

theorem plan_state_typed:
  assumes "plan_reach (RuleManager_new instances) order ps" "\<forall>ks. mset (order ks) = mset ks"
  shows "plan_typed ps \<and> (\<forall>e r. checkIsValidRule ps r e \<or> isRuleApplied ps e r \<longrightarrow> r \<in> set rule_names) \<and>
    (\<forall>planNode w ps' w'. update planNode (ps, w) = Inr (ps', w') \<longrightarrow>
      offers_fresh ps' \<and> applied_once ps' = applied_once ps) \<and>
    (\<forall>cur ta w ps' w'. takeAction order cur ta (ps, w) = Inr (ps', w') \<and> applied_once ps \<and> offers_fresh ps \<and> distinct ta \<longrightarrow>
      applied_once ps') \<and>
    (applied_once ps \<longrightarrow> (\<forall>e. length (at_key (ps_transformedExprs ps) e) \<le> 7))"
proof -
  have k: "plan_typed ps" "ps_ruleManager ps = RuleManager_new instances"
    using reach_typed [OF assms(1) RuleManager_ok] assms(2) by blast+
  have l: "length (RuleManager_new instances) = 7" unfolding RuleManager_new_def rule_names_def by simp
  have "r \<in> set rule_names" if "checkIsValidRule ps r e \<or> isRuleApplied ps e r" for r e
    using that k
    by (auto simp: plan_typed_def valid_at_key applied_at_key simp flip: RuleManager_names [of instances] set_map dest: list_emb_set)
  moreover have "offers_fresh ps' \<and> applied_once ps' = applied_once ps" if "update planNode (ps, w) = Inr (ps', w')" for planNode w ps' w'
    using update_keeps [OF that k(1)] by (simp add: applied_once_def)
  moreover have "applied_once ps'" if "takeAction order cur ta (ps, w) = Inr (ps', w')" "applied_once ps" "offers_fresh ps" "distinct ta"
    for cur ta w ps' w'
    using takeAction_keeps [OF that(1) k(1)] assms(2) that(2-4) by blast
  moreover have "applied_once ps \<longrightarrow> (\<forall>e. length (at_key (ps_transformedExprs ps) e) \<le> 7)"
    using once_bound [OF k(1)] l k(2) by simp
  ultimately show ?thesis using k(1) by blast
qed

theorem plan_state_typed_witness:
  "\<exists>ps ps'. plan_reach (RuleManager_new (\<lambda>_. \<lparr>ra_check = \<lambda>(_ :: unit) _ (w :: nat). Inr (True, [''x''], w), ra_apply = \<lambda>_ _ w. Inr (True, Suc w)\<rparr>))
      (\<lambda>ks. ks) ps \<and> plan_typed ps \<and>
    at_key (ps_transformedExprs ps) ''x'' = [''MatMulDense2SparseRewriteAction'', ''MatMulDense2SparseRewriteAction''] \<and>
    checkIsValidRule ps ''MatMulDense2SparseRewriteAction'' ''x'' \<and>
    update (\<lambda>_. ()) (ps, 2) = Inr (ps', 2) \<and> \<not> checkIsValidRule ps' ''MatMulDense2SparseRewriteAction'' ''x''"
proof -
  let ?inst = "\<lambda>_. \<lparr>ra_check = \<lambda>(_ :: unit) _ (w :: nat). Inr (True, [''x''], w), ra_apply = \<lambda>_ _ w. Inr (True, Suc w)\<rparr>"
  let ?rules = "RuleManager_new ?inst" and ?rule = "''MatMulDense2SparseRewriteAction''"
  let ?a = "[''DecisionForestUDF2RelationRewriteAction'', ''MLDecompositionPushdownRewriteAction'']"
  let ?b = "[''Mul2JoinAggHorizontalRewriteAction'', ''Mul2JoinAggRewriteAction'',
    ''MultiLayerUDF2TorchNNRewriteAction'', ''TorchNN2TwoLayerUDFRewriteAction'']"
  let ?ps = "\<lambda>offers pre applied. \<lparr>ps_actionsPair = [(''x'', offers)], ps_actions = [], ps_ruleManager = ?rules, ps_preAction = pre,
    ps_transformedExprs = applied\<rparr>"
  let ?all = "?a @ [?rule] @ ?b"
  have r: "?rules = map (\<lambda>n. (n, ?inst n)) ?all" unfolding RuleManager_new_def rule_names_def by simp
  note defs = update_def getPossibleActions_def check_rule_def push_action_def isRuleApplied_def
  note takes = takeAction_def take_group_def groupedActions_def checkIsValidRule_def pickRule_def addTransformedExpr_def
  have "update (\<lambda>_. ()) (PlanState_new ?rules, 0) = Inr (?ps ?all [] [], 0)" by (simp add: defs PlanState_new_def r)
  then have 1: "plan_reach ?rules (\<lambda>ks. ks) (?ps ?all [] [])" by (rule plan_reach.update [OF plan_reach.start])
  have "takeAction (\<lambda>ks. ks) () [(''x'', ?rule)] (?ps ?all [] [], 0) = Inr (?ps ?all ?rule [(''x'', [?rule])], 1)"
    by (simp add: takes r)
  then have 2: "plan_reach ?rules (\<lambda>ks. ks) (?ps ?all ?rule [(''x'', [?rule])])" by (rule plan_reach.take [OF 1])
  let ?last = "?ps ?all ?rule [(''x'', [?rule, ?rule])]"
  have "takeAction (\<lambda>ks. ks) () [(''x'', ?rule)] (?ps ?all ?rule [(''x'', [?rule])], 1) = Inr (?last, 2)"
    by (simp add: takes r)
  then have 3: "plan_reach ?rules (\<lambda>ks. ks) ?last" by (rule plan_reach.take [OF 2])
  have u: "update (\<lambda>_. ()) (?last, 2) = Inr (?ps (?a @ ?b) ?rule [(''x'', [?rule, ?rule])], 2)" by (simp add: defs r)
  have t: "plan_typed ?last" "offers_fresh (?ps (?a @ ?b) ?rule [(''x'', [?rule, ?rule])])"
    using plan_state_typed [OF 3] u by blast+
  have "isRuleApplied (?ps (?a @ ?b) ?rule [(''x'', [?rule, ?rule])]) ''x'' ?rule" by (simp add: isRuleApplied_def)
  then have "\<not> checkIsValidRule (?ps (?a @ ?b) ?rule [(''x'', [?rule, ?rule])]) ?rule ''x''" using t(2) by (auto simp: offers_fresh_def)
  moreover have "checkIsValidRule ?last ?rule ''x''" "at_key (ps_transformedExprs ?last) ''x'' = [?rule, ?rule]"
    by (simp_all add: checkIsValidRule_def at_key_def)
  ultimately show ?thesis using 3 t(1) u by blast
qed

end
